(* ===== verification/Lsmcd_Prelude.thy ===== *)
theory Lsmcd_Prelude
  imports Main "HOL-Library.Word"
begin

text \<open>
  Shared vocabulary of the development: the machine types, the theorem collections, byte strings
  with the little-endian integer layout of the shared-memory records, in-place writes into a
  byte buffer, decimal printing, and generic lemmas on lists that the component theories use.

  A byte is a \<^typ>\<open>char\<close>; memory areas, command lines and packets are \<^typ>\<open>string\<close>s.
\<close>

named_theorems buf_simps \<open>reads and writes of byte buffers\<close>
named_theorems lay_simps \<open>sizes and offsets of the stored records\<close>

type_synonym u8 = "8 word"
type_synonym u16 = "16 word"
type_synonym u32 = "32 word"
type_synonym u64 = "64 word"
type_synonym bytes = string
type_synonym off = nat

section \<open>Reading C strings\<close>

text \<open>The byte a pointer refers to. Every buffer of the model is followed by a NUL byte.\<close>

definition byte_at :: "bytes \<Rightarrow> nat \<Rightarrow> char" where
  "byte_at buf i = (if i < length buf then buf ! i else CHR 0x00)"

lemma byte_at_in [simp]: "i < length buf \<Longrightarrow> byte_at buf i = buf ! i"
  by (simp add: byte_at_def)

lemma byte_at_out [simp]: "length buf \<le> i \<Longrightarrow> byte_at buf i = CHR 0x00"
  by (simp add: byte_at_def)

section \<open>Little-endian integers\<close>

fun le_enc :: "nat \<Rightarrow> nat \<Rightarrow> bytes" where
  "le_enc 0 x = []"
| "le_enc (Suc k) x = char_of (x mod 256) # le_enc k (x div 256)"

fun le_dec :: "bytes \<Rightarrow> nat" where
  "le_dec [] = 0"
| "le_dec (c # cs) = of_char c + 256 * le_dec cs"

lemma length_le_enc [simp]: "length (le_enc k x) = k"
  by (induction k arbitrary: x) auto

lemma le_dec_enc: "le_dec (le_enc k x) = x mod 256 ^ k"
proof (induction k arbitrary: x)
  case (Suc k)
  have "le_dec (le_enc (Suc k) x) = x mod 256 + 256 * (x div 256 mod 256 ^ k)"
    using Suc.IH by simp
  also have "\<dots> = x mod (256 * 256 ^ k)"
    by (simp add: mod_mult2_eq)
  finally show ?case by simp
qed simp

lemma le_dec_bound: "le_dec cs < 256 ^ length cs"
proof (induction cs)
  case (Cons c cs)
  from Cons.IH have "256 * Suc (le_dec cs) \<le> 256 * 256 ^ length cs"
    by (intro mult_le_mono2) simp
  moreover have "of_char c + 256 * le_dec cs < 256 * Suc (le_dec cs)"
    by simp
  ultimately have "of_char c + 256 * le_dec cs < 256 * 256 ^ length cs"
    by linarith
  then show ?case by simp
qed simp

lemma le_dec_enc_unat32 [simp]: "le_dec (le_enc 4 (unat (w :: u32))) = unat w"
  using unsigned_less [of w, where ?'a = nat] by (simp add: le_dec_enc)

lemma le_dec_enc_unat64 [simp]: "le_dec (le_enc 8 (unat (w :: u64))) = unat w"
  using unsigned_less [of w, where ?'a = nat] by (simp add: le_dec_enc)

section \<open>Areas of a buffer\<close>

text \<open>
  \<open>rd buf p n\<close> is the area of \<open>n\<close> bytes at \<open>p\<close>; \<open>wr buf p bs\<close> is \<open>memcpy\<close> of
  \<open>bs\<close> to position \<open>p\<close>. The area never grows: bytes beyond the end are dropped (the code never
  writes there; the lemmas assume the area is inside).
\<close>

definition rd :: "bytes \<Rightarrow> nat \<Rightarrow> nat \<Rightarrow> bytes" where
  "rd buf p n = take n (drop p buf)"

definition wr :: "bytes \<Rightarrow> nat \<Rightarrow> bytes \<Rightarrow> bytes" where
  "wr buf p bs = take (length buf) (take p buf @ bs @ drop (p + length bs) buf)"

lemma length_wr [simp]: "p + length bs \<le> length buf \<Longrightarrow> length (wr buf p bs) = length buf"
  by (simp add: wr_def)

lemma wr_in: "p + length bs \<le> length buf \<Longrightarrow>
    wr buf p bs = take p buf @ bs @ drop (p + length bs) buf"
  by (simp add: wr_def)

lemma length_rd [simp]: "p + n \<le> length buf \<Longrightarrow> length (rd buf p n) = n"
  by (simp add: rd_def)

lemma rd_wr_same [buf_simps]:
  "p + length bs \<le> length buf \<Longrightarrow> length bs = n \<Longrightarrow> rd (wr buf p bs) p n = bs"
  by (simp add: rd_def wr_in)

lemma rd_wr_before [buf_simps]:
  "p + length bs \<le> length buf \<Longrightarrow> q + n \<le> p \<Longrightarrow> rd (wr buf p bs) q n = rd buf q n"
  by (simp add: rd_def wr_in take_drop min_def)

lemma rd_wr_after [buf_simps]:
  assumes "p + length bs \<le> length buf" and "p + length bs \<le> q"
  shows "rd (wr buf p bs) q n = rd buf q n"
proof -
  have "drop q (wr buf p bs) = drop (q - p - length bs) (drop (p + length bs) buf)"
    using assms by (simp add: wr_in)
  also have "\<dots> = drop q buf"
    using assms by (simp add: drop_drop)
  finally show ?thesis by (simp add: rd_def)
qed

lemma drop_wr_same: "p + length bs = length buf \<Longrightarrow> drop p (wr buf p bs) = bs"
  by (simp add: wr_in)

lemma drop_wr_before:
  "p + length bs \<le> length buf \<Longrightarrow> p + length bs \<le> q \<Longrightarrow> drop q (wr buf p bs) = drop q buf"
  by (simp add: wr_in drop_drop)

section \<open>Decimal printing\<close>

text \<open>The digits \<open>snprintf\<close> writes for \<open>%llu\<close>.\<close>

definition dig :: "nat \<Rightarrow> char" where
  "dig d = char_of (48 + d)"

fun dec_str :: "nat \<Rightarrow> bytes" where
  "dec_str n = (if n < 10 then [dig n] else dec_str (n div 10) @ [dig (n mod 10)])"

declare dec_str.simps [simp del]

lemma dec_str_nonempty [simp]: "dec_str n \<noteq> []"
  by (subst dec_str.simps) simp

lemma length_dec_str: "n < 10 ^ k \<Longrightarrow> 0 < k \<Longrightarrow> length (dec_str n) \<le> k"
proof (induction k arbitrary: n)
  case (Suc k)
  show ?case
  proof (cases "n < 10")
    case True
    then show ?thesis by (subst dec_str.simps) simp
  next
    case False
    with Suc.prems have "0 < k" by (cases k) auto
    moreover from Suc.prems have "n div 10 < 10 ^ k"
      by (simp add: less_mult_imp_div_less mult.commute)
    ultimately have "length (dec_str (n div 10)) \<le> k" by (rule Suc.IH [rotated])
    with False show ?thesis by (subst dec_str.simps) simp
  qed
qed simp

section \<open>Lists\<close>

lemma find_upt_Some_iff:
  "find P [a..<b] = Some i \<longleftrightarrow> a \<le> i \<and> i < b \<and> P i \<and> (\<forall>j. a \<le> j \<and> j < i \<longrightarrow> \<not> P j)"
  (is "?L \<longleftrightarrow> ?R")
proof
  assume ?L
  then obtain k where "k < b - a" and "P (a + k)" and "i = a + k" and less: "\<forall>j<k. \<not> P (a + j)"
    by (auto simp: find_Some_iff)
  moreover have "\<not> P j" if "a \<le> j" and "j < a + k" for j
    using less [rule_format, of "j - a"] that by simp
  ultimately show ?R by auto
next
  assume ?R
  then have "i - a < length [a..<b] \<and> P ([a..<b] ! (i - a)) \<and> i = [a..<b] ! (i - a) \<and>
      (\<forall>j<i - a. \<not> P ([a..<b] ! j))"
    by (auto simp: less_diff_conv add.commute)
  then show ?L unfolding find_Some_iff by blast
qed

lemma find_upt_None_iff: "find P [a..<b] = None \<longleftrightarrow> (\<forall>j. a \<le> j \<and> j < b \<longrightarrow> \<not> P j)"
  by (auto simp: find_None_iff)

end
