(* ===== verification/LoopBuf.thy ===== *)
theory LoopBuf
  imports Lsmcd_Prelude
begin

text \<open>
  The ring buffer of a connection (\<^verbatim>\<open>util/loopbuf.cpp\<close>): its operations on head and end positions
  in the allocated area, and that they implement a queue of bytes. Positions are offsets from
  \<open>m_pBuf\<close>; the area has \<open>m_iCapacity\<close> bytes, and one of them always stays unused.
\<close>

section \<open>The buffer\<close>

record LoopBuf =
  lb_area :: bytes
  lb_head :: nat
  lb_end :: nat

definition lb_capacity :: "LoopBuf \<Rightarrow> nat" where
  "lb_capacity b = length (lb_area b)"

definition lb_available :: "LoopBuf \<Rightarrow> nat" where
  "lb_available b = (if lb_head b > lb_end b then lb_head b - lb_end b - 1 else lb_head b + lb_capacity b - lb_end b - 1)"

definition lb_contiguous :: "LoopBuf \<Rightarrow> nat" where
  "lb_contiguous b =
     (if lb_head b > lb_end b then lb_head b - lb_end b - 1
      else if lb_head b = 0 then lb_capacity b - lb_end b - 1 else lb_capacity b - lb_end b)"

definition lb_blockSize :: "LoopBuf \<Rightarrow> nat" where
  "lb_blockSize b = (if lb_head b > lb_end b then lb_capacity b - lb_head b else lb_end b - lb_head b)"

definition lb_size :: "LoopBuf \<Rightarrow> nat" where
  "lb_size b = (lb_end b + lb_capacity b - lb_head b) mod lb_capacity b"

definition lb_empty :: "LoopBuf \<Rightarrow> bool" where
  "lb_empty b \<longleftrightarrow> lb_head b = lb_end b"

definition lb_full :: "LoopBuf \<Rightarrow> bool" where
  "lb_full b \<longleftrightarrow> (lb_end b + lb_capacity b - lb_head b + 1) mod lb_capacity b = 0"

definition lb_clear :: "LoopBuf \<Rightarrow> LoopBuf" where
  "lb_clear b = b\<lparr>lb_head := 0, lb_end := 0\<rparr>"

definition lb_getPointer :: "LoopBuf \<Rightarrow> nat \<Rightarrow> nat" where
  "lb_getPointer b n = (lb_head b + n) mod lb_capacity b"

definition lb_used :: "nat \<Rightarrow> LoopBuf \<Rightarrow> LoopBuf" where
  "lb_used n b = b\<lparr>lb_end := (lb_end b + n) mod lb_capacity b\<rparr>"

text \<open>The results are the code's, \<open>None\<close> for \<open>-1\<close>; sizes are not negative.\<close>

definition lb_pop_front :: "nat \<Rightarrow> LoopBuf \<Rightarrow> nat \<times> LoopBuf" where
  "lb_pop_front n b =
     (if n \<noteq> 0 then
        if n \<ge> lb_size b then (lb_size b, lb_clear b)
        else (n, b\<lparr>lb_head := (lb_head b + n) mod lb_capacity b\<rparr>)
      else (n, b))"

definition lb_pop_back :: "nat \<Rightarrow> LoopBuf \<Rightarrow> nat \<times> LoopBuf" where
  "lb_pop_back n b =
     (if n \<noteq> 0 then
        if n \<ge> lb_size b then (lb_size b, lb_clear b)
        else (n, b\<lparr>lb_end := (if lb_end b < n then lb_end b + lb_capacity b - n else lb_end b - n)\<rparr>)
      else (n, b))"

text \<open>\<open>moveTo\<close>: the bytes that go to the destination, and the buffer without them.\<close>

definition lb_moveTo :: "nat \<Rightarrow> LoopBuf \<Rightarrow> bytes \<times> LoopBuf" where
  "lb_moveTo n b =
     (let len = min (lb_size b) n in
      if len > 0 then
        let sz = min (lb_capacity b - lb_head b) len
        in (rd (lb_area b) (lb_head b) sz @ rd (lb_area b) 0 (len - sz), snd (lb_pop_front len b))
      else ([], b))"

definition LOOPBUFUNIT :: nat where "LOOPBUFUNIT = 64"

text \<open>
  The allocator: what \<open>malloc\<close> of a size returns, an area of that length with any content, or
  \<open>None\<close> for a null pointer.
\<close>

type_synonym malloc = "nat \<Rightarrow> bytes option"

definition lb_deallocate :: "LoopBuf \<Rightarrow> LoopBuf" where
  "lb_deallocate b = \<lparr>lb_area = [], lb_head = 0, lb_end = 0\<rparr>"

definition lb_allocate :: "malloc \<Rightarrow> nat \<Rightarrow> LoopBuf \<Rightarrow> bool \<times> LoopBuf" where
  "lb_allocate mal sz b =
     (if sz = 0 \<and> lb_capacity b \<noteq> sz then (True, lb_deallocate b)
      else
        let sz = (sz + LOOPBUFUNIT) div LOOPBUFUNIT * LOOPBUFUNIT in
        if sz > lb_capacity b then
          (case mal sz of
             None \<Rightarrow> (False, b)
           | Some pBuf \<Rightarrow>
               let bytes = (if lb_capacity b \<noteq> 0 then fst (lb_moveTo (sz - 1) b) else [])
               in (True, \<lparr>lb_area = wr pBuf 0 bytes, lb_head = 0, lb_end = length bytes\<rparr>))
        else (True, b))"

definition lb_guarantee :: "malloc \<Rightarrow> nat \<Rightarrow> LoopBuf \<Rightarrow> bool \<times> LoopBuf" where
  "lb_guarantee mal n b = (if n \<le> lb_available b then (True, b) else lb_allocate mal (n + lb_size b + 1) b)"

definition lb_append :: "malloc \<Rightarrow> bytes \<Rightarrow> LoopBuf \<Rightarrow> nat option \<times> LoopBuf" where
  "lb_append mal data b =
     (if data \<noteq> [] then
        let (ok, b) = lb_guarantee mal (length data) b in
        if \<not> ok then (None, b)
        else
          let len = min (lb_contiguous b) (length data);
              area = wr (lb_area b) (lb_end b) (take len data);
              area = (if length data - len \<noteq> 0 then wr area 0 (drop len data) else area)
          in (Some (length data), lb_used (length data) (b\<lparr>lb_area := area\<rparr>))
      else (Some 0, b))"

definition lb_append_char :: "char \<Rightarrow> LoopBuf \<Rightarrow> LoopBuf" where
  "lb_append_char c b =
     (let e = Suc (lb_end b)
      in b\<lparr>lb_area := (lb_area b)[lb_end b := c], lb_end := (if e = lb_capacity b then 0 else e)\<rparr>)"

text \<open>\<open>update\<close>: the loop writes byte by byte and wraps at the end of the area.\<close>

fun lb_update_loop :: "nat \<Rightarrow> bytes \<Rightarrow> LoopBuf \<Rightarrow> LoopBuf" where
  "lb_update_loop p [] b = b"
| "lb_update_loop p (c # cs) b =
     lb_update_loop (if Suc p = lb_capacity b then 0 else Suc p) cs (b\<lparr>lb_area := (lb_area b)[p := c]\<rparr>)"

definition lb_update :: "nat \<Rightarrow> bytes \<Rightarrow> LoopBuf \<Rightarrow> LoopBuf" where
  "lb_update offset data b = lb_update_loop (lb_getPointer b offset) data b"

text \<open>The constructor, and \<open>straight\<close>, which moves the content into a new buffer and swaps.\<close>

definition lb_new :: "malloc \<Rightarrow> nat \<Rightarrow> LoopBuf" where
  "lb_new mal sz = snd (lb_allocate mal sz \<lparr>lb_area = [], lb_head = 0, lb_end = 0\<rparr>)"

definition lb_straight :: "malloc \<Rightarrow> LoopBuf \<Rightarrow> LoopBuf" where
  "lb_straight mal b =
     (let n = lb_size b;
          tmp = lb_used n (snd (lb_guarantee mal n (lb_new mal LOOPBUFUNIT)))
      in tmp\<lparr>lb_area := wr (lb_area tmp) 0 (fst (lb_moveTo n b))\<rparr>)"


section \<open>A queue of bytes\<close>

definition lb_inv :: "LoopBuf \<Rightarrow> bool" where
  "lb_inv b \<longleftrightarrow> lb_head b < lb_capacity b \<and> lb_end b < lb_capacity b"

definition lb_abs :: "LoopBuf \<Rightarrow> bytes" where
  "lb_abs b = map (\<lambda>i. lb_area b ! ((lb_head b + i) mod lb_capacity b)) [0..<lb_size b]"

lemma ring_mod: "x < 2 * c \<Longrightarrow> x mod c = (if x < c then x else x - c)" for x c :: nat
  by (simp add: mod_if)

lemma nth_wr: "p + length bs \<le> length v \<Longrightarrow> k < length v \<Longrightarrow>
    wr v p bs ! k = (if p \<le> k \<and> k < p + length bs then bs ! (k - p) else v ! k)"
  by (auto simp: wr_in nth_append)

lemma lb_size_eq: "lb_inv b \<Longrightarrow> lb_size b = (if lb_head b \<le> lb_end b then lb_end b - lb_head b else lb_end b + lb_capacity b - lb_head b)"
  by (auto simp: lb_size_def lb_inv_def ring_mod)

lemma lb_size_abs [simp]: "length (lb_abs b) = lb_size b"
  by (simp add: lb_abs_def)

lemma lb_size_less: "lb_inv b \<Longrightarrow> lb_size b < lb_capacity b"
  by (simp add: lb_size_def lb_inv_def)

lemma lb_available_eq: "lb_inv b \<Longrightarrow> lb_available b = lb_capacity b - 1 - lb_size b"
  by (auto simp: lb_available_def lb_size_eq lb_inv_def)

lemma lb_abs_nth: "i < lb_size b \<Longrightarrow> lb_abs b ! i = lb_area b ! ((lb_head b + i) mod lb_capacity b)"
  by (simp add: lb_abs_def)

text \<open>What is read from the ring is one block or, when it wraps, two.\<close>

lemma ring_read:
  assumes "p < length v" "k \<le> length v"
  shows "map (\<lambda>i. v ! ((p + i) mod length v)) [0..<k] = rd v p (min (length v - p) k) @ rd v 0 (k - min (length v - p) k)"
proof (cases "k \<le> length v - p")
  case True
  then show ?thesis using assms by (intro nth_equalityI) (simp_all add: rd_def ring_mod)
next
  case False
  then have "min (length v - p) k = length v - p" by simp
  moreover have "map (\<lambda>i. v ! ((p + i) mod length v)) [0..<k] = rd v p (length v - p) @ rd v 0 (k - (length v - p))"
    using False assms by (intro nth_equalityI) (auto simp: rd_def ring_mod nth_append add.commute)
  ultimately show ?thesis by simp
qed

lemma lb_abs_take:
  assumes "lb_inv b"
  defines "len \<equiv> \<lambda>n. min (lb_size b) n"
  shows "take n (lb_abs b) = rd (lb_area b) (lb_head b) (min (lb_capacity b - lb_head b) (len n)) @ rd (lb_area b) 0 (len n - min (lb_capacity b - lb_head b) (len n))"
proof -
  have "take n (lb_abs b) = map (\<lambda>i. lb_area b ! ((lb_head b + i) mod length (lb_area b))) [0..<len n]"
    by (simp add: lb_abs_def lb_capacity_def take_map len_def min_def)
  moreover have "lb_head b < length (lb_area b)" "len n \<le> length (lb_area b)" using assms lb_size_less [of b] by (auto simp: lb_inv_def lb_capacity_def)
  ultimately show ?thesis by (simp add: ring_read lb_capacity_def)
qed

lemma lb_clear_ok: "0 < lb_capacity b \<Longrightarrow> lb_inv (lb_clear b) \<and> lb_abs (lb_clear b) = []"
  by (simp add: lb_inv_def lb_clear_def lb_abs_def lb_size_def lb_capacity_def)

lemma lb_pop_front_ok:
  assumes "lb_inv b"
  shows "lb_inv (snd (lb_pop_front n b))" "lb_abs (snd (lb_pop_front n b)) = drop n (lb_abs b)" "fst (lb_pop_front n b) = min n (lb_size b)"
proof -
  have c: "0 < lb_capacity b" using assms by (auto simp: lb_inv_def)
  have "lb_inv (snd (lb_pop_front n b)) \<and> lb_abs (snd (lb_pop_front n b)) = drop n (lb_abs b) \<and> fst (lb_pop_front n b) = min n (lb_size b)"
  proof (cases "n \<noteq> 0 \<and> n < lb_size b")
    case True
    let ?b = "b\<lparr>lb_head := (lb_head b + n) mod lb_capacity b\<rparr>"
    have p: "lb_pop_front n b = (n, ?b)" using True by (simp add: lb_pop_front_def)
    have i: "lb_inv ?b" using assms c by (simp add: lb_inv_def lb_capacity_def)
    have s: "lb_size ?b = lb_size b - n"
      using True assms lb_size_less [OF assms] unfolding lb_size_eq [OF i] lb_size_eq [OF assms] by (auto simp: lb_inv_def lb_capacity_def ring_mod split: if_splits)
    have "lb_abs ?b = drop n (lb_abs b)"
      using True s by (intro nth_equalityI) (simp_all add: lb_abs_nth lb_capacity_def mod_add_left_eq add.assoc)
    then show ?thesis using i p True by simp
  next
    case False
    then show ?thesis using lb_clear_ok [OF c] assms by (auto simp: lb_pop_front_def)
  qed
  then show "lb_inv (snd (lb_pop_front n b))" "lb_abs (snd (lb_pop_front n b)) = drop n (lb_abs b)" "fst (lb_pop_front n b) = min n (lb_size b)" by auto
qed

lemma lb_pop_back_ok:
  assumes "lb_inv b"
  shows "lb_inv (snd (lb_pop_back n b))" "lb_abs (snd (lb_pop_back n b)) = take (lb_size b - n) (lb_abs b)" "fst (lb_pop_back n b) = min n (lb_size b)"
proof -
  have c: "0 < lb_capacity b" using assms by (auto simp: lb_inv_def)
  have "lb_inv (snd (lb_pop_back n b)) \<and> lb_abs (snd (lb_pop_back n b)) = take (lb_size b - n) (lb_abs b) \<and> fst (lb_pop_back n b) = min n (lb_size b)"
  proof (cases "n \<noteq> 0 \<and> n < lb_size b")
    case True
    let ?b = "b\<lparr>lb_end := (if lb_end b < n then lb_end b + lb_capacity b - n else lb_end b - n)\<rparr>"
    have p: "lb_pop_back n b = (n, ?b)" using True by (simp add: lb_pop_back_def)
    have i: "lb_inv ?b" using assms True lb_size_less [OF assms] by (auto simp: lb_inv_def lb_capacity_def)
    have s: "lb_size ?b = lb_size b - n"
      using True assms lb_size_less [OF assms] unfolding lb_size_eq [OF i] lb_size_eq [OF assms] by (auto simp: lb_inv_def lb_capacity_def split: if_splits)
    have "lb_abs ?b = take (lb_size b - n) (lb_abs b)"
      using True s by (intro nth_equalityI) (simp_all add: lb_abs_nth lb_capacity_def)
    then show ?thesis using i p True by simp
  next
    case False
    then show ?thesis using lb_clear_ok [OF c] assms by (auto simp: lb_pop_back_def)
  qed
  then show "lb_inv (snd (lb_pop_back n b))" "lb_abs (snd (lb_pop_back n b)) = take (lb_size b - n) (lb_abs b)" "fst (lb_pop_back n b) = min n (lb_size b)" by auto
qed

lemma lb_moveTo_ok:
  assumes "lb_inv b"
  shows "fst (lb_moveTo n b) = take n (lb_abs b)" "lb_inv (snd (lb_moveTo n b))" "lb_abs (snd (lb_moveTo n b)) = drop n (lb_abs b)"
proof -
  let ?len = "min (lb_size b) n"
  show "fst (lb_moveTo n b) = take n (lb_abs b)" unfolding lb_abs_take [OF assms] by (auto simp: lb_moveTo_def Let_def rd_def)
  have e: "snd (lb_moveTo n b) = snd (lb_pop_front ?len b)" by (auto simp: lb_moveTo_def Let_def lb_pop_front_def)
  show "lb_inv (snd (lb_moveTo n b))" "lb_abs (snd (lb_moveTo n b)) = drop n (lb_abs b)"
    unfolding e using lb_pop_front_ok [OF assms, of ?len] by (auto simp: min_def)
qed


text \<open>\<open>malloc\<close> returns an area of the requested size.\<close>

definition malloc_ok :: "malloc \<Rightarrow> bool" where
  "malloc_ok mal \<longleftrightarrow> (\<forall>n a. mal n = Some a \<longrightarrow> length a = n)"

lemma lb_abs_front: "\<lbrakk>length bs \<le> length a; length bs < length a\<rbrakk> \<Longrightarrow>
    lb_inv \<lparr>lb_area = wr a 0 bs, lb_head = 0, lb_end = length bs\<rparr> \<and> lb_abs \<lparr>lb_area = wr a 0 bs, lb_head = 0, lb_end = length bs\<rparr> = bs"
proof -
  assume l: "length bs \<le> length a" "length bs < length a"
  let ?b = "\<lparr>lb_area = wr a 0 bs, lb_head = 0, lb_end = length bs\<rparr>"
  have i: "lb_inv ?b" using l by (auto simp: lb_inv_def lb_capacity_def)
  have sz: "lb_size ?b = length bs" unfolding lb_size_eq [OF i] by simp
  have "lb_abs ?b = take (length bs) (lb_abs ?b)" by (simp add: sz)
  also have "\<dots> = bs" unfolding lb_abs_take [OF i] sz using l by (simp add: lb_capacity_def rd_def wr_in min_def)
  finally show ?thesis using i by simp
qed

lemma unit_round: "n < (n + LOOPBUFUNIT) div LOOPBUFUNIT * LOOPBUFUNIT"
  unfolding LOOPBUFUNIT_def by simp

lemma lb_allocate_ok:
  assumes i: "lb_inv b" and m: "malloc_ok mal" and n: "lb_size b < n" and r: "lb_allocate mal n b = (ok, b')"
  shows "lb_inv b'" "lb_abs b' = lb_abs b" "ok \<Longrightarrow> n < lb_capacity b'"
proof -
  define sz where "sz = (n + LOOPBUFUNIT) div LOOPBUFUNIT * LOOPBUFUNIT"
  have sz: "n < sz" unfolding sz_def by (rule unit_round)
  have c: "lb_capacity b \<noteq> 0" using i by (auto simp: lb_inv_def)
  note mv = lb_moveTo_ok(1) [OF i, of "sz - 1"]
  have all: "fst (lb_moveTo (sz - 1) b) = lb_abs b" using mv n sz by simp
  have "lb_inv b' \<and> lb_abs b' = lb_abs b \<and> (ok \<longrightarrow> n < lb_capacity b')"
  proof (cases "sz > lb_capacity b")
    case True
    show ?thesis
    proof (cases "mal sz")
      case None
      then show ?thesis using r True n i by (simp add: lb_allocate_def sz_def [symmetric] Let_def)
    next
      case (Some a)
      then have la: "length a = sz" using m by (simp add: malloc_ok_def)
      have "b' = \<lparr>lb_area = wr a 0 (lb_abs b), lb_head = 0, lb_end = length (lb_abs b)\<rparr>" "ok"
        using r True n Some c all by (auto simp: lb_allocate_def sz_def [symmetric] Let_def)
      then show ?thesis using lb_abs_front [of "lb_abs b" a] la n sz by (simp add: lb_capacity_def)
    qed
  next
    case False
    then show ?thesis using r n sz i by (auto simp: lb_allocate_def sz_def [symmetric] Let_def)
  qed
  then show "lb_inv b'" "lb_abs b' = lb_abs b" "ok \<Longrightarrow> n < lb_capacity b'" by auto
qed

lemma lb_guarantee_ok:
  assumes "lb_inv b" "malloc_ok mal" "lb_guarantee mal n b = (ok, b')"
  shows "lb_inv b'" "lb_abs b' = lb_abs b" "ok \<Longrightarrow> n \<le> lb_available b'"
proof -
  have "lb_inv b' \<and> lb_abs b' = lb_abs b \<and> (ok \<longrightarrow> n \<le> lb_available b')"
  proof (cases "n \<le> lb_available b")
    case True
    then show ?thesis using assms by (simp add: lb_guarantee_def)
  next
    case False
    then have a: "lb_allocate mal (n + lb_size b + 1) b = (ok, b')" using assms(3) by (simp add: lb_guarantee_def)
    note q = lb_allocate_ok [OF assms(1,2) _ a]
    have "lb_size b' = lb_size b" using q(2) by (metis less_add_one add.commute add_lessD1 lb_size_abs less_add_Suc1 add.left_commute Suc_eq_plus1)
    then show ?thesis using q by (auto simp: lb_available_eq)
  qed
  then show "lb_inv b'" "lb_abs b' = lb_abs b" "ok \<Longrightarrow> n \<le> lb_available b'" by auto
qed

text \<open>Writing behind the content, in one block or two.\<close>

definition lb_put :: "bytes \<Rightarrow> LoopBuf \<Rightarrow> LoopBuf" where
  "lb_put data b =
     (let len = min (lb_contiguous b) (length data);
          area = wr (lb_area b) (lb_end b) (take len data);
          area = (if length data - len \<noteq> 0 then wr area 0 (drop len data) else area)
      in lb_used (length data) (b\<lparr>lb_area := area\<rparr>))"

lemma lb_put_ok:
  assumes i: "lb_inv b" and n: "length data \<le> lb_available b"
  shows "lb_inv (lb_put data b)" "lb_abs (lb_put data b) = lb_abs b @ data"
proof -
  let ?c = "lb_capacity b" and ?n = "length data" and ?h = "lb_head b" and ?e = "lb_end b"
  define len where "len = min (lb_contiguous b) ?n"
  define area where "area = (let a = wr (lb_area b) ?e (take len data) in if ?n - len \<noteq> 0 then wr a 0 (drop len data) else a)"
  have hc: "?h < ?c" "?e < ?c" "length (lb_area b) = ?c" using i by (auto simp: lb_inv_def lb_capacity_def)
  have l: "len \<le> ?n" "?e + len \<le> ?c" "?n - len \<le> ?c" "?h \<le> ?e \<longrightarrow> ?n - len \<le> ?h" "?e < ?h \<longrightarrow> len = ?n \<and> ?e + ?n < ?h" "?n \<noteq> len \<longrightarrow> ?e + len = ?c"
    using n hc by (auto simp: len_def lb_contiguous_def lb_available_def)
  have la: "length area = ?c" using l hc by (simp add: area_def Let_def)
  have an: "area ! k = (if ?e \<le> k \<and> k < ?e + len then data ! (k - ?e) else if k < ?n - len then data ! (len + k) else lb_area b ! k)" if "k < ?c" for k
    using that l hc by (auto simp: area_def Let_def nth_wr)
  have b': "lb_put data b = b\<lparr>lb_area := area, lb_end := (?e + ?n) mod ?c\<rparr>"
    using la by (simp add: lb_put_def len_def [symmetric] area_def lb_used_def Let_def lb_capacity_def)
  have cc: "lb_capacity (lb_put data b) = ?c" unfolding b' lb_capacity_def [of "b\<lparr>lb_area := area, lb_end := (?e + ?n) mod ?c\<rparr>"] using la by simp
  show i': "lb_inv (lb_put data b)" using hc(1,2) unfolding lb_inv_def cc by (simp add: b')
  have lt: "lb_size b + ?n < ?c" using n hc lb_size_less [OF i] by (auto simp: lb_available_eq [OF i])
  have sb: "lb_size b = (if ?h \<le> ?e then ?e - ?h else ?e + ?c - ?h)" by (rule lb_size_eq [OF i])
  have m: "(?e + ?n) mod ?c = (if ?e + ?n < ?c then ?e + ?n else ?e + ?n - ?c)" using lt hc by (intro ring_mod) simp
  have "lb_size (lb_put data b) = (if ?h \<le> (?e + ?n) mod ?c then (?e + ?n) mod ?c - ?h else (?e + ?n) mod ?c + ?c - ?h)"
    using lb_size_eq [OF i'] cc by (simp add: b')
  then have s': "lb_size (lb_put data b) = lb_size b + ?n" using lt hc unfolding sb m by (simp split: if_splits)
  show "lb_abs (lb_put data b) = lb_abs b @ data"
  proof (rule nth_equalityI)
    show "length (lb_abs (lb_put data b)) = length (lb_abs b @ data)" using s' by simp
    fix k assume "k < length (lb_abs (lb_put data b))"
    then have k: "k < lb_size b + ?n" using s' by simp
    have e: "lb_abs (lb_put data b) ! k = area ! ((?h + k) mod ?c)" using k s' cc by (simp add: lb_abs_nth b')
    show "lb_abs (lb_put data b) ! k = (lb_abs b @ data) ! k"
    proof (cases "k < lb_size b")
      case True
      have "(?h + k) mod ?c < ?c" "\<not> (?e \<le> (?h + k) mod ?c \<and> (?h + k) mod ?c < ?e + len)" "\<not> (?h + k) mod ?c < ?n - len"
        using True l hc lt by (auto simp: ring_mod lb_size_eq [OF i] split: if_splits)
      then show ?thesis using True an [of "(?h + k) mod ?c"] by (auto simp: e nth_append lb_abs_nth)
    next
      case False
      define j where "j = k - lb_size b"
      have j: "j < ?n" "k = lb_size b + j" using False k by (auto simp: j_def)
      have "(?h + k) mod ?c = (?e + j) mod ?c" using hc by (auto simp: j(2) sb) (metis add.assoc add.commute mod_add_self2)
      moreover have "area ! ((?e + j) mod ?c) = data ! j"
      proof (cases "?e + j < ?c")
        case True
        then have "j < len" using j(1) l(6) by (cases "?n = len") auto
        then show ?thesis using True an [of "?e + j"] by simp
      next
        case False
        then have "?n \<noteq> len" using j(1) l(2) by auto
        then have c: "?c = ?e + len" using l(6) by simp
        have "(?e + j) mod ?c = ?e + j - ?c" using False j(1) lt hc by (subst ring_mod) auto
        moreover have "?e + j - ?c < ?n - len" "?e + j - ?c < ?e" "?e + j - ?c < ?c" "len + (?e + j - ?c) = j" using False j(1) c lt hc by auto
        ultimately show ?thesis using an [of "?e + j - ?c"] by simp
      qed
      ultimately show ?thesis using False by (simp add: e nth_append j_def)
    qed
  qed
qed


lemma lb_append_ok:
  assumes "lb_inv b" "malloc_ok mal" "lb_append mal data b = (r, b')"
  shows "lb_inv b'" "lb_abs b' = (if r = None then lb_abs b else lb_abs b @ data)" "r \<in> {None, Some (length data)}"
proof -
  have "lb_inv b' \<and> lb_abs b' = (if r = None then lb_abs b else lb_abs b @ data) \<and> r \<in> {None, Some (length data)}"
  proof (cases "data = []")
    case True
    then show ?thesis using assms by (auto simp: lb_append_def)
  next
    case False
    obtain ok b1 where g: "lb_guarantee mal (length data) b = (ok, b1)" by fastforce
    note q = lb_guarantee_ok [OF assms(1,2) g]
    show ?thesis
    proof (cases ok)
      case True
      then have "r = Some (length data)" "b' = lb_put data b1" using assms(3) False g by (auto simp: lb_append_def lb_put_def Let_def)
      then show ?thesis using lb_put_ok [OF q(1) q(3) [OF True]] q(2) by simp
    next
      case False': False
      then show ?thesis using assms(3) False g q by (auto simp: lb_append_def)
    qed
  qed
  then show "lb_inv b'" "lb_abs b' = (if r = None then lb_abs b else lb_abs b @ data)" "r \<in> {None, Some (length data)}" by auto
qed

lemma lb_append_fits: "length data \<le> lb_available b \<Longrightarrow> fst (lb_append mal data b) = Some (length data)"
  by (simp add: lb_append_def lb_guarantee_def Let_def)

lemma lb_append_char_put: "lb_inv b \<Longrightarrow> 1 \<le> lb_available b \<Longrightarrow> lb_append_char c b = lb_put [c] b"
proof -
  assume a: "lb_inv b" "1 \<le> lb_available b"
  then have "1 \<le> lb_contiguous b" by (auto simp: lb_contiguous_def lb_available_def lb_inv_def)
  moreover have "wr (lb_area b) (lb_end b) [c] = (lb_area b)[lb_end b := c]"
    using a(1) by (auto simp: lb_inv_def lb_capacity_def wr_in upd_conv_take_nth_drop)
  moreover have "(Suc (lb_end b)) mod lb_capacity b = (if Suc (lb_end b) = lb_capacity b then 0 else Suc (lb_end b))"
    using a(1) by (auto simp: lb_inv_def mod_if)
  ultimately show ?thesis by (simp add: lb_append_char_def lb_put_def Let_def lb_used_def lb_capacity_def min_def)
qed

lemma lb_update_loop_ok:
  assumes "lb_inv b" "off + length data \<le> lb_size b"
  shows "lb_update_loop (lb_getPointer b off) data b = b\<lparr>lb_area := lb_area (lb_update_loop (lb_getPointer b off) data b)\<rparr> \<and>
    length (lb_area (lb_update_loop (lb_getPointer b off) data b)) = lb_capacity b \<and>
    lb_abs (lb_update_loop (lb_getPointer b off) data b) = wr (lb_abs b) off data"
  using assms
proof (induction data arbitrary: b off)
  case Nil
  then show ?case by (simp add: lb_capacity_def wr_def)
next
  case (Cons c cs)
  let ?p = "lb_getPointer b off" and ?c = "lb_capacity b"
  let ?b = "b\<lparr>lb_area := (lb_area b)[?p := c]\<rparr>"
  have hc: "lb_head b < ?c" "lb_end b < ?c" "off < ?c" "?p < ?c" using Cons.prems lb_size_less [of b] by (auto simp: lb_inv_def lb_getPointer_def)
  have b: "lb_capacity ?b = ?c" "lb_size ?b = lb_size b" "lb_inv ?b" using Cons.prems(1) by (simp_all add: lb_capacity_def lb_size_def lb_inv_def)
  have nx: "(if Suc ?p = ?c then 0 else Suc ?p) = lb_getPointer ?b (Suc off)"
    using hc b(1) by (auto simp: lb_getPointer_def mod_Suc)
  have "lb_abs ?b = (lb_abs b)[off := c]"
  proof (rule nth_equalityI)
    show "length (lb_abs ?b) = length ((lb_abs b)[off := c])" using b by simp
    fix k assume "k < length (lb_abs ?b)"
    then have k: "k < lb_size b" using b by simp
    then have "k < ?c" using lb_size_less [OF Cons.prems(1)] by simp
    then have q: "(lb_head b + k) mod ?c = ?p \<longleftrightarrow> k = off" using hc by (auto simp: lb_getPointer_def ring_mod)
    have lt: "(lb_head b + k) mod ?c < length (lb_area b)" using hc(1) by (metis lb_capacity_def mod_less_divisor neq0_conv not_less0)
    have "lb_abs ?b ! k = (lb_area b)[?p := c] ! ((lb_head b + k) mod ?c)" using k b(1,2) by (simp add: lb_abs_nth)
    also have "\<dots> = (lb_abs b)[off := c] ! k" using q lt k by (cases "k = off") (auto simp: lb_abs_nth nth_list_update)
    finally show "lb_abs ?b ! k = (lb_abs b)[off := c] ! k" .
  qed
  moreover have "Suc off + length cs \<le> lb_size ?b" using Cons.prems(2) b by simp
  note ih = Cons.IH [OF b(3) this]
  moreover have "wr ((lb_abs b)[off := c]) (Suc off) cs = wr (lb_abs b) off (c # cs)"
    using Cons.prems(2) by (simp add: wr_in take_update_swap take_Suc_conv_app_nth list_update_append)
  ultimately show ?case using nx b(1) by simp
qed

text \<open>Overwriting a part of the content, and straightening the ring.\<close>

lemma lb_update_ok:
  assumes "lb_inv b" "off + length data \<le> lb_size b"
  shows "lb_inv (lb_update off data b)" "lb_abs (lb_update off data b) = wr (lb_abs b) off data"
proof -
  note u = lb_update_loop_ok [OF assms, folded lb_update_def]
  then have "lb_capacity (lb_update off data b) = lb_capacity b" by (simp add: lb_capacity_def [of "lb_update off data b"])
  moreover have "lb_head (lb_update off data b) = lb_head b" "lb_end (lb_update off data b) = lb_end b"
    using u by (metis LoopBuf.simps(2,3) LoopBuf.surjective LoopBuf.update_convs(1))+
  ultimately show "lb_inv (lb_update off data b)" using assms(1) by (simp add: lb_inv_def)
  show "lb_abs (lb_update off data b) = wr (lb_abs b) off data" using u by simp
qed


lemma lb_moveTo_all: "lb_inv b \<Longrightarrow> fst (lb_moveTo (lb_size b) b) = lb_abs b"
  using lb_moveTo_ok(1) [of b "lb_size b"] by simp

text \<open>
  \<open>processIncoming\<close> straightens the ring before a request is parsed: a content in two blocks is moved
  to a temporary buffer and appended again.
\<close>

definition lb_unwrap :: "malloc \<Rightarrow> LoopBuf \<Rightarrow> LoopBuf" where
  "lb_unwrap mal b =
     (if lb_blockSize b \<noteq> lb_size b then
        let (buf, b') = lb_moveTo (lb_size b) b in snd (lb_append mal buf b')
      else b)"

lemma lb_unwrap_ok:
  assumes i: "lb_inv b"
  shows "lb_inv (lb_unwrap mal b)" "lb_abs (lb_unwrap mal b) = lb_abs b" "lb_blockSize (lb_unwrap mal b) = lb_size (lb_unwrap mal b)"
    "rd (lb_area (lb_unwrap mal b)) (lb_head (lb_unwrap mal b)) (lb_size (lb_unwrap mal b)) = lb_abs b"
proof -
  have blk: "rd (lb_area c) (lb_head c) (lb_size c) = lb_abs c" if "lb_inv c" "lb_blockSize c = lb_size c" for c
  proof -
    have "lb_size c \<le> lb_capacity c - lb_head c" using that by (auto simp: lb_blockSize_def lb_inv_def split: if_splits)
    then show ?thesis using lb_abs_take [OF that(1), of "lb_size c"] by (simp add: rd_def)
  qed
  have "lb_inv (lb_unwrap mal b) \<and> lb_abs (lb_unwrap mal b) = lb_abs b \<and> lb_blockSize (lb_unwrap mal b) = lb_size (lb_unwrap mal b)"
  proof (cases "lb_blockSize b = lb_size b")
    case True
    then show ?thesis using i by (simp add: lb_unwrap_def)
  next
    case False
    have ne: "lb_size b \<noteq> 0" using False i by (auto simp: lb_blockSize_def lb_size_eq lb_inv_def split: if_splits)
    then have ne': "lb_abs b \<noteq> []" by (metis lb_size_abs list.size(3))
    have b': "snd (lb_moveTo (lb_size b) b) = lb_clear b" using ne by (simp add: lb_moveTo_def Let_def lb_pop_front_def)
    have cl: "lb_inv (lb_clear b)" "lb_abs (lb_clear b) = []" using lb_clear_ok [of b] i by (auto simp: lb_inv_def)
    have av: "length (lb_abs b) \<le> lb_available (lb_clear b)"
      using lb_size_less [OF i] by (simp add: lb_available_def lb_clear_def lb_capacity_def)
    have u: "lb_unwrap mal b = lb_put (lb_abs b) (lb_clear b)"
    proof -
      have "lb_unwrap mal b = snd (lb_append mal (lb_abs b) (lb_clear b))"
        using False lb_moveTo_all [OF i] b' by (simp add: lb_unwrap_def split_beta)
      also have "\<dots> = lb_put (lb_abs b) (lb_clear b)"
        using av ne' by (auto simp: lb_append_def lb_guarantee_def lb_put_def Let_def)
      finally show ?thesis .
    qed
    note p = lb_put_ok [OF cl(1) av]
    have "lb_head (lb_unwrap mal b) = 0" by (simp add: u lb_put_def lb_used_def Let_def lb_clear_def)
    then show ?thesis using p cl(2) lb_size_eq [OF p(1)] unfolding u by (simp add: lb_blockSize_def)
  qed
  then show "lb_inv (lb_unwrap mal b)" "lb_abs (lb_unwrap mal b) = lb_abs b" "lb_blockSize (lb_unwrap mal b) = lb_size (lb_unwrap mal b)" by auto
  then show "rd (lb_area (lb_unwrap mal b)) (lb_head (lb_unwrap mal b)) (lb_size (lb_unwrap mal b)) = lb_abs b" using blk by metis
qed

section \<open>The queue interface\<close>

datatype q_op = QAppend bytes | QPop nat

text \<open>The specification: an operation that succeeded, on the queue's content.\<close>

fun q_step :: "bytes \<Rightarrow> q_op \<times> bool \<Rightarrow> bytes" where
  "q_step q (QAppend d, ok) = (if ok then q @ d else q)"
| "q_step q (QPop n, ok) = drop n q"

fun q_exec :: "(bytes \<Rightarrow> 'b \<Rightarrow> nat option \<times> 'b) \<Rightarrow> (nat \<Rightarrow> 'b \<Rightarrow> 'b) \<Rightarrow> q_op \<Rightarrow> 'b \<Rightarrow> bool \<times> 'b" where
  "q_exec app pop (QAppend d) b = (case app d b of (r, b) \<Rightarrow> (r \<noteq> None, b))"
| "q_exec app pop (QPop n) b = (True, pop n b)"

fun q_run :: "(bytes \<Rightarrow> 'b \<Rightarrow> nat option \<times> 'b) \<Rightarrow> (nat \<Rightarrow> 'b \<Rightarrow> 'b) \<Rightarrow> q_op list \<Rightarrow> 'b \<Rightarrow> bool list \<times> 'b" where
  "q_run app pop [] b = ([], b)"
| "q_run app pop (op # ops) b = (case q_exec app pop op b of (ok, b) \<Rightarrow> case q_run app pop ops b of (oks, b) \<Rightarrow> (ok # oks, b))"

locale byte_queue =
  fixes inv :: "'b \<Rightarrow> bool" and content :: "'b \<Rightarrow> bytes" and app :: "bytes \<Rightarrow> 'b \<Rightarrow> nat option \<times> 'b" and pop :: "nat \<Rightarrow> 'b \<Rightarrow> 'b"
  assumes app_ok: "inv b \<Longrightarrow> app d b = (r, b') \<Longrightarrow> inv b' \<and> content b' = (if r = None then content b else content b @ d)"
    and pop_ok: "inv b \<Longrightarrow> inv (pop n b) \<and> content (pop n b) = drop n (content b)"
begin

lemma exec_ok: "inv b \<Longrightarrow> q_exec app pop op b = (ok, b') \<Longrightarrow> inv b' \<and> content b' = q_step (content b) (op, ok)"
  using app_ok pop_ok by (cases op) (auto split: prod.splits)

lemma run_ok: "inv b \<Longrightarrow> q_run app pop ops b = (oks, b') \<Longrightarrow> inv b' \<and> content b' = foldl q_step (content b) (zip ops oks)"
proof (induction ops arbitrary: b oks)
  case (Cons op ops)
  obtain ok b1 where e: "q_exec app pop op b = (ok, b1)" by fastforce
  obtain oks' where r: "q_run app pop ops b1 = (oks', b')" "oks = ok # oks'" using Cons.prems(2) e by (auto split: prod.splits)
  have q: "inv b1 \<and> content b1 = q_step (content b) (op, ok)" by (rule exec_ok [OF Cons.prems(1) e])
  then show ?case using Cons.IH [OF _ r(1)] r(2) by simp
qed simp

end

interpretation lb: byte_queue "\<lambda>b. lb_inv b \<and> malloc_ok mal" lb_abs "lb_append mal" "\<lambda>n b. snd (lb_pop_front n b)" for mal
  by unfold_locales (auto simp: lb_append_ok lb_pop_front_ok)

definition lb_run :: "malloc \<Rightarrow> q_op list \<Rightarrow> LoopBuf \<Rightarrow> bool list \<times> LoopBuf" where
  "lb_run mal = q_run (lb_append mal) (\<lambda>n b. snd (lb_pop_front n b))"

section \<open>Properties\<close>


definition w_malloc :: malloc where
  "w_malloc n = Some (replicate n CHR 0x00)"

definition w_ring :: LoopBuf where
  "w_ring = \<lparr>lb_area = ''e.....abcd'', lb_head = 6, lb_end = 1\<rparr>"


text \<open>
  C27: the ring is straightened without loss. After the step at the head of \<open>processIncoming\<close>'s loop the
  content is unchanged and lies in one block from \<open>begin()\<close> on, which is what the request parsers
  read; this needs no memory.
\<close>

theorem loopbuf_unwrap:
  assumes "lb_inv b"
  shows "lb_inv (lb_unwrap mal b) \<and> lb_abs (lb_unwrap mal b) = lb_abs b \<and>
    rd (lb_area (lb_unwrap mal b)) (lb_head (lb_unwrap mal b)) (lb_size (lb_unwrap mal b)) = lb_abs b"
  using lb_unwrap_ok [OF assms] by simp

theorem loopbuf_unwrap_witness:
  "lb_inv (lb_unwrap w_malloc w_ring) \<and> lb_abs (lb_unwrap w_malloc w_ring) = lb_abs w_ring \<and>
    rd (lb_area (lb_unwrap w_malloc w_ring)) (lb_head (lb_unwrap w_malloc w_ring)) (lb_size (lb_unwrap w_malloc w_ring)) = lb_abs w_ring"
  by (rule loopbuf_unwrap) (simp add: w_ring_def lb_inv_def lb_capacity_def)

end
