(* ===== verification/LsShmPool.thy ===== *)
theory LsShmPool
  imports Lsmcd_Prelude
begin

text \<open>
  The shared-memory file and its global pool (\<^verbatim>\<open>shm/lsshm.cpp\<close>, \<^verbatim>\<open>shm/addrmap.cpp\<close>,
  \<^verbatim>\<open>shm/lsshmpool.cpp\<close>): growth of the file page by page, the page free list with boundary
  tags and joining of neighbours, the chunk, the free buckets and the free list, and the entry points
  \<open>alloc2\<close> and \<open>release2\<close>. The pool is the one the daemon uses, the global pool, which
  has no parent (\<open>m_pParent == NULL\<close>).

  Offsets and sizes are natural numbers; the 32-bit wrap-around is written out where the file
  grows and in the saturating statistics. What the code stores inside a free block is kept in typed
  maps from offsets: the link word of a bucket block (\<open>bk_next\<close>), the head of a free-list block
  (\<open>fl\<close>), and the two boundary tags of a free page block, \<open>ft\<close> at its first byte and
  \<open>fb\<close> eight bytes before its end, both \<open>None\<close> when the marker word is absent.
\<close>

section \<open>Constants\<close>

definition LSSHM_SHM_UNITSIZE :: nat where [lay_simps]: "LSSHM_SHM_UNITSIZE = 0x400"
definition LSSHM_POOL_UNITSIZE :: nat where [lay_simps]: "LSSHM_POOL_UNITSIZE = 16"
definition LSSHM_POOL_BCKTINCR :: nat where [lay_simps]: "LSSHM_POOL_BCKTINCR = 16"
definition LSSHM_POOL_NUMBUCKET :: nat where [lay_simps]: "LSSHM_POOL_NUMBUCKET = 0x40"
definition LSSHM_MAX_BUCKET_SLOT :: nat where [lay_simps]: "LSSHM_MAX_BUCKET_SLOT = 8"
definition LSSHM_POOL_MAXBCKTSIZE :: nat where
  [lay_simps]: "LSSHM_POOL_MAXBCKTSIZE = LSSHM_POOL_NUMBUCKET * LSSHM_POOL_BCKTINCR"
definition LSSHM_MAXSIZE :: nat where [lay_simps]: "LSSHM_MAXSIZE = 2000000000"
definition LARGE_PAGE_SIZE :: nat where [lay_simps]: "LARGE_PAGE_SIZE = 0x100000"
definition sizeof_FreeBot :: nat where [lay_simps]: "sizeof_FreeBot = 8"

definition roundDataSize :: "nat \<Rightarrow> nat" where
  "roundDataSize sz = ((sz + (LSSHM_POOL_UNITSIZE - 1)) div LSSHM_POOL_UNITSIZE) * LSSHM_POOL_UNITSIZE"

definition roundPageSize :: "nat \<Rightarrow> nat" where
  "roundPageSize sz = ((sz + (LSSHM_SHM_UNITSIZE - 1)) div LSSHM_SHM_UNITSIZE) * LSSHM_SHM_UNITSIZE"

definition roundSize2pages :: "nat \<Rightarrow> nat" where
  "roundSize2pages sz = (sz + (LSSHM_SHM_UNITSIZE - 1)) div LSSHM_SHM_UNITSIZE"

definition dataSize2Bucket :: "nat \<Rightarrow> nat" where
  "dataSize2Bucket sz = sz div LSSHM_POOL_BCKTINCR"

section \<open>State\<close>

text \<open>
  What the operating system answers: whether the file can grow, whether a mapping succeeds, whether
  the address it reserves for page number \<open>n\<close> is aligned to a large page, and whether large page
  \<open>n + 1\<close> lies directly behind page \<open>n\<close> in the address space.
\<close>

record os =
  expandfile_ok :: "nat \<Rightarrow> nat \<Rightarrow> bool"
  mmap_ok :: "nat \<Rightarrow> bool"
  mmap_aligned :: "nat \<Rightarrow> bool"
  contig :: "nat \<Rightarrow> bool"

record ls_shmfreetop =
  x_iFreeSize :: nat
  x_iFreeNext :: off
  x_iFreePrev :: off

record ls_shmfreelist =
  fl_iNext :: off
  fl_iPrev :: off
  fl_iSize :: nat

record bcktstat =
  m_iBkAllocated :: nat
  m_iBkReleased :: nat

record LsShmPoolMapStat =
  m_iPgAllocated :: nat
  m_iPgReleased :: nat
  m_iPoolInUse :: nat
  m_iFreeChunk :: nat
  m_iFlAllocated :: nat
  m_iFlReleased :: nat
  m_iFlCnt :: nat
  m_iGpAllocated :: nat
  m_iGpReleased :: nat
  m_iGpFreeListCnt :: nat
  m_bckt :: "nat \<Rightarrow> bcktstat"

record shm_pool =
  m_iUsedSize :: nat
  m_iFileSize :: nat
  m_iMaxShmSize :: nat
  off2ptr_pages :: nat
  x_iStart :: off
  x_iEnd :: off
  x_iFreeList :: off
  x_iFreePageList :: off
  x_aFreeBucket :: "nat \<Rightarrow> off"
  bk_next :: "off \<Rightarrow> off"
  fl :: "off \<Rightarrow> ls_shmfreelist"
  ft :: "off \<Rightarrow> ls_shmfreetop option"
  fb :: "off \<Rightarrow> off option"
  x_stat :: LsShmPoolMapStat

section \<open>Statistics\<close>

text \<open>\<open>incrCheck\<close>: a 32-bit counter that sticks to its maximum instead of wrapping.\<close>

definition incrCheck :: "nat \<Rightarrow> nat \<Rightarrow> nat" where
  "incrCheck ptr sz =
     (let v = (ptr + sz) mod 2 ^ 32 in if v < ptr then 2 ^ 32 - 1 else v)"

definition sub32 :: "nat \<Rightarrow> nat \<Rightarrow> nat" where
  "sub32 a b = (a + (2 ^ 32 - b mod 2 ^ 32)) mod 2 ^ 32"

definition add32 :: "nat \<Rightarrow> nat \<Rightarrow> nat" where
  "add32 a b = (a + b) mod 2 ^ 32"

abbreviation on_stat :: "(LsShmPoolMapStat \<Rightarrow> LsShmPoolMapStat) \<Rightarrow> shm_pool \<Rightarrow> shm_pool" where
  "on_stat f p \<equiv> p\<lparr>x_stat := f (x_stat p)\<rparr>"

definition bk_allocated :: "nat \<Rightarrow> nat \<Rightarrow> shm_pool \<Rightarrow> shm_pool" where
  "bk_allocated num n = on_stat (\<lambda>s. s\<lparr>m_bckt := (m_bckt s)(num :=
     (m_bckt s num)\<lparr>m_iBkAllocated := incrCheck (m_iBkAllocated (m_bckt s num)) n\<rparr>)\<rparr>)"

definition bk_released :: "nat \<Rightarrow> nat \<Rightarrow> shm_pool \<Rightarrow> shm_pool" where
  "bk_released num n = on_stat (\<lambda>s. s\<lparr>m_bckt := (m_bckt s)(num :=
     (m_bckt s num)\<lparr>m_iBkReleased := incrCheck (m_iBkReleased (m_bckt s num)) n\<rparr>)\<rparr>)"

section \<open>Addresses\<close>

definition isOffsetValid :: "shm_pool \<Rightarrow> off \<Rightarrow> bool" where
  "isOffsetValid p offset \<longleftrightarrow> (if m_iFileSize p = 0 then False else offset \<le> m_iFileSize p)"

text \<open>
  \<open>offset2ptr\<close> answers \<open>NULL\<close> on offsets inside the file header, beyond the file, and in large
  pages that are not mapped.
\<close>

definition offset2ptr :: "shm_pool \<Rightarrow> off \<Rightarrow> bool" where
  "offset2ptr p offset \<longleftrightarrow>
     32 \<le> offset \<and> isOffsetValid p offset \<and> offset div LARGE_PAGE_SIZE < off2ptr_pages p"

definition mapAddrSpace :: "os \<Rightarrow> nat \<Rightarrow> shm_pool \<Rightarrow> shm_pool" where
  "mapAddrSpace os total_size p =
     (let maxOffset = off2ptr_pages p * LARGE_PAGE_SIZE in
      if total_size \<le> maxOffset then p
      else
        let pages = (total_size - maxOffset + (LARGE_PAGE_SIZE - 1)) div LARGE_PAGE_SIZE;
            pages = (if mmap_aligned os (off2ptr_pages p) then pages + 1 else pages)
        in p\<lparr>off2ptr_pages := off2ptr_pages p + pages\<rparr>)"

text \<open>
  \<open>getAvailAddrSpace\<close>: the address space contiguous with \<open>offset\<close>; the loop walks over
  adjacent large pages only for requests above one large page.
\<close>

fun availAddr_loop :: "os \<Rightarrow> nat \<Rightarrow> nat \<Rightarrow> nat \<Rightarrow> nat \<Rightarrow> nat \<Rightarrow> nat" where
  "availAddr_loop os npages required_size avail page 0 = avail"
| "availAddr_loop os npages required_size avail page (Suc k) =
     (if avail < required_size \<and> page < npages - 1 then
        if required_size > LARGE_PAGE_SIZE \<and> contig os page
        then availAddr_loop os npages required_size (avail + LARGE_PAGE_SIZE) (page + 1) k
        else avail
      else avail)"

definition getAvailAddrSpace :: "os \<Rightarrow> shm_pool \<Rightarrow> nat \<Rightarrow> nat \<Rightarrow> nat" where
  "getAvailAddrSpace os p offset required_size =
     availAddr_loop os (off2ptr_pages p) required_size
       (LARGE_PAGE_SIZE - offset mod LARGE_PAGE_SIZE) (offset div LARGE_PAGE_SIZE) (off2ptr_pages p)"

section \<open>Growing the file\<close>

text \<open>\<open>expandFile\<close> and \<open>expand\<close>; the sum \<open>from + incrSize\<close> is a 32-bit sum.\<close>

definition expand :: "os \<Rightarrow> nat \<Rightarrow> shm_pool \<Rightarrow> bool \<times> shm_pool" where
  "expand os incrSize p =
     (let from = m_iFileSize p; sum = add32 from incrSize in
      if m_iMaxShmSize p \<noteq> 0 \<and> sum > m_iMaxShmSize p then (False, p)
      else if sum < from then (False, p)
      else if \<not> expandfile_ok os from incrSize then (False, p)
      else
        let p = mapAddrSpace os sum (p\<lparr>m_iFileSize := sum\<rparr>)
        in (mmap_ok os sum, p))"

section \<open>The free page list\<close>

definition markTopUsed :: "off \<Rightarrow> shm_pool \<Rightarrow> shm_pool" where
  "markTopUsed offset p = p\<lparr>ft := (ft p)(offset := None)\<rparr>"

definition set_ft_next :: "off \<Rightarrow> off \<Rightarrow> shm_pool \<Rightarrow> shm_pool" where
  "set_ft_next o1 n p = p\<lparr>ft := (ft p)(o1 := map_option (\<lambda>t. t\<lparr>x_iFreeNext := n\<rparr>) (ft p o1))\<rparr>"

definition set_ft_prev :: "off \<Rightarrow> off \<Rightarrow> shm_pool \<Rightarrow> shm_pool" where
  "set_ft_prev o1 n p = p\<lparr>ft := (ft p)(o1 := map_option (\<lambda>t. t\<lparr>x_iFreePrev := n\<rparr>) (ft p o1))\<rparr>"

definition set_ft_size :: "off \<Rightarrow> nat \<Rightarrow> shm_pool \<Rightarrow> shm_pool" where
  "set_ft_size o1 n p = p\<lparr>ft := (ft p)(o1 := map_option (\<lambda>t. t\<lparr>x_iFreeSize := n\<rparr>) (ft p o1))\<rparr>"

text \<open>The unlinked block's own tag \<open>ap\<close> is passed by value: its links are still readable.\<close>

definition disconnectFromFree :: "ls_shmfreetop \<Rightarrow> shm_pool \<Rightarrow> shm_pool" where
  "disconnectFromFree ap p =
     (let myNext = x_iFreeNext ap; myPrev = x_iFreePrev ap;
          p = (if myPrev \<noteq> 0 then (if offset2ptr p myPrev then set_ft_next myPrev myNext p else p)
               else p\<lparr>x_iFreePageList := myNext\<rparr>);
          p = (if myNext \<noteq> 0 \<and> offset2ptr p myNext then set_ft_prev myNext myPrev p else p)
      in on_stat (\<lambda>s. s\<lparr>m_iGpFreeListCnt := sub32 (m_iGpFreeListCnt s) 1\<rparr>) p)"

definition reduceFreeFromBot :: "ls_shmfreetop \<Rightarrow> off \<Rightarrow> nat \<Rightarrow> shm_pool \<Rightarrow> shm_pool" where
  "reduceFreeFromBot ap offset newsize p =
     (if newsize = 0 then
        let p = markTopUsed offset p in
        if \<not> offset2ptr p (x_iFreeSize ap - sizeof_FreeBot) then p
        else disconnectFromFree ap p
      else if offset2ptr p (offset + newsize - sizeof_FreeBot) then
        set_ft_size offset newsize
          (p\<lparr>fb := (fb p)(offset + newsize - sizeof_FreeBot := Some offset)\<rparr>)
      else p)"

text \<open>
  First fit over the free page list. The fuel is the file size, more than the number of blocks a
  list inside the file can have.
\<close>

fun getFromFreeList_loop :: "nat \<Rightarrow> nat \<Rightarrow> off \<Rightarrow> shm_pool \<Rightarrow> off \<times> shm_pool" where
  "getFromFreeList_loop 0 size1 offset p = (0, p)"
| "getFromFreeList_loop (Suc k) size1 offset p =
     (if offset = 0 then (0, p)
      else if \<not> offset2ptr p offset then (0, p)
      else case ft p offset of
        None \<Rightarrow> (0, p)
      | Some ap \<Rightarrow>
          if x_iFreeSize ap \<ge> size1 then
            let left = x_iFreeSize ap - size1
            in (offset + left, reduceFreeFromBot ap offset left p)
          else getFromFreeList_loop k size1 (x_iFreeNext ap) p)"

definition getFromFreeList :: "nat \<Rightarrow> shm_pool \<Rightarrow> off \<times> shm_pool" where
  "getFromFreeList size1 p = getFromFreeList_loop (m_iFileSize p) size1 (x_iFreePageList p) p"

text \<open>\<open>isFreeBlockAbove\<close> with \<open>joinFlag = 1\<close>: the boolean result and the joined state.\<close>

definition isFreeBlockAbove :: "off \<Rightarrow> nat \<Rightarrow> shm_pool \<Rightarrow> bool \<times> shm_pool" where
  "isFreeBlockAbove offset size1 p =
     (let aboveOffset = offset - sizeof_FreeBot in
      if aboveOffset < LSSHM_SHM_UNITSIZE then (False, p)
      else if \<not> offset2ptr p aboveOffset then (False, p)
      else case fb p aboveOffset of
        None \<Rightarrow> (False, p)
      | Some bpOffset \<Rightarrow>
          if bpOffset \<ge> LSSHM_SHM_UNITSIZE \<and> bpOffset < aboveOffset then
            if \<not> offset2ptr p bpOffset then (False, p)
            else case ft p bpOffset of
              None \<Rightarrow> (False, p)
            | Some ap \<Rightarrow>
                if x_iFreeSize ap + bpOffset = offset then
                  let p = set_ft_size bpOffset (x_iFreeSize ap + size1) p in
                  if \<not> offset2ptr p (offset + size1 - sizeof_FreeBot) then (False, p)
                  else
                    let p = p\<lparr>fb := (fb p)(offset + size1 - sizeof_FreeBot := Some bpOffset)\<rparr> in
                    if offset2ptr p offset then (True, markTopUsed offset p) else (False, p)
                else (False, p)
          else (False, p))"

text \<open>\<open>isFreeBlockBelow\<close> with \<open>joinFlag\<close> 1 or 2.\<close>

definition isFreeBlockBelow :: "off \<Rightarrow> nat \<Rightarrow> nat \<Rightarrow> shm_pool \<Rightarrow> bool \<times> shm_pool" where
  "isFreeBlockBelow offset size1 joinFlag p =
     (let belowOffset = offset + size1 in
      if belowOffset \<ge> m_iFileSize p then (False, p)
      else if \<not> offset2ptr p belowOffset then (False, p)
      else case ft p belowOffset of
        None \<Rightarrow> (False, p)
      | Some ap \<Rightarrow>
          let e_offset = belowOffset + x_iFreeSize ap in
          if e_offset < LSSHM_SHM_UNITSIZE \<or> e_offset > m_iFileSize p then (False, p)
          else if \<not> offset2ptr p (e_offset - sizeof_FreeBot) then (False, p)
          else if fb p (e_offset - sizeof_FreeBot) = Some belowOffset then
            (let p = markTopUsed belowOffset p in
             if joinFlag = 2 then
               let p = disconnectFromFree ap p in
               if \<not> offset2ptr p offset then (False, p)
               else
                 let p = p\<lparr>ft := (ft p)(offset := map_option
                           (\<lambda>xp. xp\<lparr>x_iFreeSize := x_iFreeSize xp + x_iFreeSize ap\<rparr>) (ft p offset))\<rparr>
                 in (True, p\<lparr>fb := (fb p)(e_offset - sizeof_FreeBot := Some offset)\<rparr>)
             else if \<not> offset2ptr p offset then (False, p)
             else
               let p = p\<lparr>ft := (ft p)(offset \<mapsto> \<lparr>x_iFreeSize = size1 + x_iFreeSize ap,
                                          x_iFreeNext = x_iFreeNext ap, x_iFreePrev = x_iFreePrev ap\<rparr>)\<rparr>;
                   p = p\<lparr>fb := (fb p)(e_offset - sizeof_FreeBot := Some offset)\<rparr>;
                   p = (if x_iFreeNext ap \<noteq> 0 \<and> offset2ptr p (x_iFreeNext ap)
                        then set_ft_prev (x_iFreeNext ap) offset p else p);
                   p = (if x_iFreePrev ap \<noteq> 0
                        then (if offset2ptr p (x_iFreePrev ap) then set_ft_next (x_iFreePrev ap) offset p
                              else p)
                        else p\<lparr>x_iFreePageList := offset\<rparr>)
               in (True, p))
          else (False, p))"

definition joinFreeList :: "off \<Rightarrow> nat \<Rightarrow> shm_pool \<Rightarrow> shm_pool" where
  "joinFreeList offset size1 p =
     (if \<not> offset2ptr p offset then p
      else
        let next = x_iFreePageList p;
            p = p\<lparr>ft := (ft p)(offset \<mapsto> \<lparr>x_iFreeSize = size1, x_iFreeNext = next, x_iFreePrev = 0\<rparr>),
                  x_iFreePageList := offset\<rparr>;
            p = (if next \<noteq> 0 \<and> offset2ptr p next then set_ft_prev next offset p else p)
        in
        if \<not> offset2ptr p (offset + size1 - sizeof_FreeBot) then p
        else on_stat (\<lambda>s. s\<lparr>m_iGpFreeListCnt := add32 (m_iGpFreeListCnt s) 1\<rparr>)
               (p\<lparr>fb := (fb p)(offset + size1 - sizeof_FreeBot := Some offset)\<rparr>))"

definition releasePageLocked :: "off \<Rightarrow> nat \<Rightarrow> shm_pool \<Rightarrow> shm_pool" where
  "releasePageLocked offset pagesize p =
     (let pagesize = roundPageSize pagesize;
          p = on_stat (\<lambda>s. s\<lparr>m_iGpReleased := incrCheck (m_iGpReleased s) (pagesize div LSSHM_SHM_UNITSIZE)\<rparr>) p;
          (joined, p) = isFreeBlockAbove offset pagesize p
      in
      if joined then
        (case fb p (offset + pagesize - sizeof_FreeBot) of
           None \<Rightarrow> p
         | Some offset \<Rightarrow>
             (case ft p offset of None \<Rightarrow> p
              | Some ap \<Rightarrow> snd (isFreeBlockBelow offset (x_iFreeSize ap) 2 p)))
      else
        let (joined, p) = isFreeBlockBelow offset pagesize 1 p
        in if joined then p else joinFreeList offset pagesize p)"

definition releasePageNoJoinLocked :: "off \<Rightarrow> nat \<Rightarrow> shm_pool \<Rightarrow> shm_pool" where
  "releasePageNoJoinLocked offset pagesize p =
     (let pagesize = roundPageSize pagesize in
      joinFreeList offset pagesize
        (on_stat (\<lambda>s. s\<lparr>m_iGpReleased := incrCheck (m_iGpReleased s) (pagesize div LSSHM_SHM_UNITSIZE)\<rparr>) p))"

definition addLeftOverPages :: "off \<Rightarrow> nat \<Rightarrow> shm_pool \<Rightarrow> shm_pool" where
  "addLeftOverPages offset size1 p =
     on_stat (\<lambda>s. s\<lparr>m_iGpAllocated := incrCheck (m_iGpAllocated s) (size1 div LSSHM_SHM_UNITSIZE)\<rparr>)
       (releasePageLocked offset size1 p)"

section \<open>Pages\<close>

text \<open>
  \<open>LsShm::allocPage\<close>: take the page behind the used part of the file, growing the file by
  multiples of 16 units when it is too short. The rest of a large page that is too short for the
  request goes to the free page list.
\<close>

definition shm_allocPage :: "os \<Rightarrow> nat \<Rightarrow> shm_pool \<Rightarrow> off \<times> shm_pool" where
  "shm_allocPage os pagesize p =
     (let availSize = m_iFileSize p - m_iUsedSize p in
      if pagesize > availSize then
        let availAddrSize = getAvailAddrSpace os p (m_iUsedSize p) pagesize;
            needSize = (pagesize - availSize) + (if pagesize > availAddrSize then availAddrSize else 0);
            unit = 16 * LSSHM_SHM_UNITSIZE;
            targetSize = add32 (m_iFileSize p) needSize;
            targetSize = (add32 targetSize (unit - 1) div unit) * unit;
            (ok, p) = expand os (sub32 targetSize (m_iFileSize p)) p
        in
        if \<not> ok then (0, p)
        else
          let p = (if pagesize > availAddrSize then
                     let p = addLeftOverPages (m_iUsedSize p) availAddrSize p
                     in p\<lparr>m_iUsedSize := m_iUsedSize p + availAddrSize\<rparr>
                   else p)
          in (m_iUsedSize p, p\<lparr>m_iUsedSize := m_iUsedSize p + pagesize\<rparr>)
      else (m_iUsedSize p, p\<lparr>m_iUsedSize := m_iUsedSize p + pagesize\<rparr>))"

definition allocPage :: "os \<Rightarrow> nat \<Rightarrow> shm_pool \<Rightarrow> off \<times> shm_pool" where
  "allocPage os pagesize p =
     (if pagesize \<ge> 0x80000000 \<or> pagesize > LSSHM_MAXSIZE then (0, p)
      else
        let pagesize = roundPageSize pagesize;
            count = on_stat (\<lambda>s. s\<lparr>m_iGpAllocated := incrCheck (m_iGpAllocated s) (pagesize div LSSHM_SHM_UNITSIZE)\<rparr>);
            (offset, p) = getFromFreeList pagesize p
        in
        if offset = 0 then
          let (offset, p) = shm_allocPage os pagesize p in
          if offset = 0 then (0, p)
          else if \<not> offset2ptr p offset then (offset, p)
          else (offset, count (markTopUsed offset p))
        else (offset, count p))"

section \<open>Releasing small blocks\<close>

definition releaseData :: "off \<Rightarrow> nat \<Rightarrow> shm_pool \<Rightarrow> shm_pool" where
  "releaseData offset size1 p =
     (if \<not> offset2ptr p offset then p
      else if size1 \<ge> LSSHM_POOL_MAXBCKTSIZE then
        let freeOffset = x_iFreeList p in
        if freeOffset \<noteq> 0 \<and> \<not> offset2ptr p freeOffset
        then p\<lparr>fl := (fl p)(offset := (fl p offset)\<lparr>fl_iSize := size1\<rparr>)\<rparr>
        else
          let p = p\<lparr>fl := (fl p)(offset := \<lparr>fl_iNext = freeOffset, fl_iPrev = 0, fl_iSize = size1\<rparr>)\<rparr>;
              p = (if freeOffset \<noteq> 0
                   then p\<lparr>fl := (fl p)(freeOffset := (fl p freeOffset)\<lparr>fl_iPrev := offset\<rparr>)\<rparr> else p)
          in on_stat (\<lambda>s. s\<lparr>m_iFlReleased := incrCheck (m_iFlReleased s) size1,
                            m_iFlCnt := add32 (m_iFlCnt s) 1\<rparr>) (p\<lparr>x_iFreeList := offset\<rparr>)
      else
        let bucketNum = dataSize2Bucket size1 in
        if \<not> isOffsetValid p offset then p
        else
          let link = (if isOffsetValid p (x_aFreeBucket p bucketNum) then x_aFreeBucket p bucketNum else 0)
          in bk_released bucketNum 1
               (p\<lparr>bk_next := (bk_next p)(offset := link),
                  x_aFreeBucket := (x_aFreeBucket p)(bucketNum := offset)\<rparr>))"

section \<open>The chunk, the buckets and the free list\<close>

text \<open>
  The recursive call of \<open>allocFromDataChunk\<close> follows a page allocation that makes the chunk
  large enough, so the recursion has depth two.
\<close>

fun allocFromDataChunk_rec :: "nat \<Rightarrow> os \<Rightarrow> nat \<Rightarrow> nat \<Rightarrow> shm_pool \<Rightarrow> off \<times> nat \<times> shm_pool" where
  "allocFromDataChunk_rec 0 os size1 num p = (0, 0, p)"
| "allocFromDataChunk_rec (Suc k) os size1 num p =
     (let avail = x_iEnd p - x_iStart p; numAvail = avail div size1 in
      if numAvail \<noteq> 0 then
        let num = (if numAvail < num then numAvail else num);
            bytes = size1 * num
        in (x_iStart p, num,
            on_stat (\<lambda>s. s\<lparr>m_iFreeChunk := sub32 (m_iFreeChunk s) bytes\<rparr>)
              (p\<lparr>x_iStart := x_iStart p + bytes\<rparr>))
      else
        let releaseOffset = (if avail \<noteq> 0 then x_iStart p else 0);
            releaseSize = avail;
            p = p\<lparr>x_iStart := x_iStart p + avail\<rparr>;
            needed = roundPageSize (size1 * num);
            needed = (if needed < LSSHM_SHM_UNITSIZE then LSSHM_SHM_UNITSIZE else needed);
            (offset, p) = allocPage os needed p
        in
        if offset = 0 then (0, 0, p)
        else
          let p = on_stat (\<lambda>s. s\<lparr>m_iFreeChunk := add32 (m_iFreeChunk s) needed\<rparr>) p;
              (offset, needed, p) =
                (if releaseOffset \<noteq> 0 then
                   if releaseOffset + releaseSize = offset then (releaseOffset, needed + releaseSize, p)
                   else (offset, needed,
                     on_stat (\<lambda>s. s\<lparr>m_iFreeChunk := sub32 (m_iFreeChunk s) releaseSize\<rparr>)
                       (releaseData releaseOffset releaseSize p))
                 else (offset, needed, p))
          in allocFromDataChunk_rec k os size1 num (p\<lparr>x_iStart := offset, x_iEnd := offset + needed\<rparr>))"

definition allocFromDataChunk :: "os \<Rightarrow> nat \<Rightarrow> nat \<Rightarrow> shm_pool \<Rightarrow> off \<times> nat \<times> shm_pool" where
  "allocFromDataChunk = allocFromDataChunk_rec 2"

text \<open>The loop of \<open>fillDataBucket\<close> that links the \<open>num\<close> blocks behind the one handed out.\<close>

fun fill_links :: "nat \<Rightarrow> off \<Rightarrow> nat \<Rightarrow> shm_pool \<Rightarrow> bool \<times> shm_pool" where
  "fill_links size1 xoffset 0 p = (True, p)"
| "fill_links size1 xoffset (Suc num) p =
     (let xp = xoffset; xoffset = xoffset + size1 in
      if \<not> isOffsetValid p xoffset then (False, p)
      else fill_links size1 xoffset num
             (p\<lparr>bk_next := (bk_next p)(xp := (if num \<noteq> 0 then xoffset else 0))\<rparr>))"

definition fillDataBucket :: "os \<Rightarrow> nat \<Rightarrow> nat \<Rightarrow> shm_pool \<Rightarrow> off \<times> shm_pool" where
  "fillDataBucket os bucketNum size1 p =
     (let num = (LSSHM_POOL_MAXBCKTSIZE * 4) div size1;
          num = (if num > LSSHM_MAX_BUCKET_SLOT then LSSHM_MAX_BUCKET_SLOT else num);
          (offset, num, p) = allocFromDataChunk os size1 num p
      in
      if num = 0 then (offset, p)
      else
        let p = bk_released bucketNum num p; xoffset = offset + size1; num = num - 1 in
        if num \<noteq> 0 \<and> \<not> isOffsetValid p xoffset then (offset, p)
        else
          let p = (if num \<noteq> 0 then p\<lparr>x_aFreeBucket := (x_aFreeBucket p)(bucketNum := xoffset)\<rparr> else p);
              (ok, p) = fill_links size1 xoffset num p
          in (if ok then offset else 0, p))"

definition allocFromDataBucket :: "os \<Rightarrow> nat \<Rightarrow> shm_pool \<Rightarrow> off \<times> shm_pool" where
  "allocFromDataBucket os size1 p =
     (let num = dataSize2Bucket size1; offset = x_aFreeBucket p num in
      if offset \<noteq> 0 then
        let np = bk_next p offset;
            head = (if \<not> offset2ptr p offset then 0 else if \<not> isOffsetValid p np then 0 else np)
        in (offset, bk_allocated num 1 (p\<lparr>x_aFreeBucket := (x_aFreeBucket p)(num := head)\<rparr>))
      else
        let (offset, p) = fillDataBucket os num size1 p in
        if offset = 0 then (0, p) else (offset, bk_allocated num 1 p))"

definition rmFromDataFreeList :: "off \<Rightarrow> shm_pool \<Rightarrow> shm_pool" where
  "rmFromDataFreeList offset p =
     (let pFree = fl p offset in
      if fl_iPrev pFree \<noteq> 0 \<and> \<not> offset2ptr p (fl_iPrev pFree) then p
      else
        let p = (if fl_iPrev pFree = 0 then p\<lparr>x_iFreeList := fl_iNext pFree\<rparr>
                 else p\<lparr>fl := (fl p)(fl_iPrev pFree := (fl p (fl_iPrev pFree))\<lparr>fl_iNext := fl_iNext pFree\<rparr>)\<rparr>)
        in
        if fl_iNext pFree \<noteq> 0 \<and> \<not> offset2ptr p (fl_iNext pFree) then p
        else
          let p = (if fl_iNext pFree \<noteq> 0
                   then p\<lparr>fl := (fl p)(fl_iNext pFree := (fl p (fl_iNext pFree))\<lparr>fl_iPrev := fl_iPrev pFree\<rparr>)\<rparr>
                   else p)
          in on_stat (\<lambda>s. s\<lparr>m_iFlCnt := sub32 (m_iFlCnt s) 1\<rparr>) p)"

definition mvDataFreeListToBucket :: "off \<Rightarrow> shm_pool \<Rightarrow> shm_pool" where
  "mvDataFreeListToBucket offset p =
     (let p = rmFromDataFreeList offset p; left = fl_iSize (fl p offset) in
      if left > 0 then
        let p = on_stat (\<lambda>s. s\<lparr>m_iFlAllocated := incrCheck (m_iFlAllocated s) left\<rparr>) p;
            bucketNum = dataSize2Bucket left
        in bk_released bucketNum 1
             (p\<lparr>bk_next := (bk_next p)(offset := x_aFreeBucket p bucketNum),
                x_aFreeBucket := (x_aFreeBucket p)(bucketNum := offset)\<rparr>)
      else p)"

fun allocFromDataFreeList_loop :: "nat \<Rightarrow> nat \<Rightarrow> off \<Rightarrow> shm_pool \<Rightarrow> (off \<times> shm_pool) option" where
  "allocFromDataFreeList_loop 0 size1 offset p = None"
| "allocFromDataFreeList_loop (Suc k) size1 offset p =
     (if offset = 0 then None
      else if \<not> offset2ptr p offset then None
      else if fl_iSize (fl p offset) \<ge> size1 then
        let left = fl_iSize (fl p offset) - size1;
            p = p\<lparr>fl := (fl p)(offset := (fl p offset)\<lparr>fl_iSize := left\<rparr>)\<rparr>;
            p = on_stat (\<lambda>s. s\<lparr>m_iFlAllocated := incrCheck (m_iFlAllocated s) size1\<rparr>) p;
            p = (if left < LSSHM_POOL_MAXBCKTSIZE then mvDataFreeListToBucket offset p else p)
        in Some (offset + left, p)
      else allocFromDataFreeList_loop k size1 (fl_iNext (fl p offset)) p)"

definition allocFromDataFreeList :: "os \<Rightarrow> nat \<Rightarrow> shm_pool \<Rightarrow> off \<times> shm_pool" where
  "allocFromDataFreeList os size1 p =
     (case allocFromDataFreeList_loop (m_iFileSize p) size1 (x_iFreeList p) p of
        Some r \<Rightarrow> r
      | None \<Rightarrow>
          let (offset, num, p) = allocFromDataChunk os size1 1 p in
          if offset \<noteq> 0 then
            (offset, on_stat (\<lambda>s. s\<lparr>m_iFlReleased := incrCheck (m_iFlReleased s) size1,
                                    m_iFlAllocated := incrCheck (m_iFlAllocated s) size1\<rparr>) p)
          else (0, p))"

section \<open>Entry points\<close>

definition alloc2Ex :: "os \<Rightarrow> nat \<Rightarrow> shm_pool \<Rightarrow> off \<times> shm_pool" where
  "alloc2Ex os size1 p =
     (if size1 \<ge> LSSHM_SHM_UNITSIZE then
        let (offset, p) = allocPage os size1 p in
        if offset \<noteq> 0 then
          (offset, on_stat (\<lambda>s. s\<lparr>m_iPgAllocated := incrCheck (m_iPgAllocated s) (roundSize2pages size1)\<rparr>) p)
        else (0, p)
      else
        let (offset, p) = (if size1 \<ge> LSSHM_POOL_MAXBCKTSIZE then allocFromDataFreeList os size1 p
                           else allocFromDataBucket os size1 p)
        in
        if offset \<noteq> 0 then
          (offset, on_stat (\<lambda>s. s\<lparr>m_iPoolInUse := add32 (m_iPoolInUse s) size1\<rparr>) p)
        else (0, p))"

text \<open>
  \<open>alloc2\<close> returns the offset (0 on failure) and the size it settled on. A block below one large
  page that straddles a large-page boundary is abandoned and the request repeated with the size of
  a large page; the second round always leaves the loop.
\<close>

definition alloc2 :: "os \<Rightarrow> nat \<Rightarrow> shm_pool \<Rightarrow> off \<times> nat \<times> shm_pool" where
  "alloc2 os size1 p =
     (if size1 = 0 \<or> size1 \<ge> 0x80000000 \<or> size1 > LSSHM_MAXSIZE then (0, size1, p)
      else
        let size1 = roundDataSize size1; (offset, p) = alloc2Ex os size1 p in
        if size1 \<ge> LARGE_PAGE_SIZE then (offset, size1, p)
        else if offset div LARGE_PAGE_SIZE = (offset + size1 - 1) div LARGE_PAGE_SIZE
        then (offset, size1, p)
        else
          let size1 = LARGE_PAGE_SIZE; (offset, p) = alloc2Ex os size1 p
          in (offset, size1, p))"

definition release2 :: "off \<Rightarrow> nat \<Rightarrow> shm_pool \<Rightarrow> shm_pool" where
  "release2 offset size1 p =
     (let size1 = roundDataSize size1 in
      if size1 \<ge> LSSHM_SHM_UNITSIZE then
        on_stat (\<lambda>s. s\<lparr>m_iPgReleased := incrCheck (m_iPgReleased s) (roundSize2pages size1)\<rparr>)
          (releasePageLocked offset size1 p)
      else
        on_stat (\<lambda>s. s\<lparr>m_iPoolInUse := sub32 (m_iPoolInUse s) size1\<rparr>)
          (releaseData offset size1 p))"

section \<open>A new file\<close>

text \<open>
  \<open>newShmMap\<close> on an empty file, with the pool header that \<open>createStaticData\<close> writes: one unit is
  used by the headers, every free list is empty. \<open>None\<close> is \<open>LSSHM_ERROR\<close>.
\<close>

definition LSSHM_PAGESIZE :: nat where [lay_simps]: "LSSHM_PAGESIZE = 0x2000"

definition createStaticData :: "nat \<Rightarrow> shm_pool" where
  "createStaticData maxShmSize =
     \<lparr>m_iUsedSize = 0, m_iFileSize = 0, m_iMaxShmSize = maxShmSize, off2ptr_pages = 0,
      x_iStart = 0, x_iEnd = 0, x_iFreeList = 0, x_iFreePageList = 0, x_aFreeBucket = (\<lambda>_. 0),
      bk_next = (\<lambda>_. 0), fl = (\<lambda>_. \<lparr>fl_iNext = 0, fl_iPrev = 0, fl_iSize = 0\<rparr>), ft = (\<lambda>_. None),
      fb = (\<lambda>_. None),
      x_stat = \<lparr>m_iPgAllocated = 0, m_iPgReleased = 0, m_iPoolInUse = 0, m_iFreeChunk = 0,
        m_iFlAllocated = 0, m_iFlReleased = 0, m_iFlCnt = 0, m_iGpAllocated = 0, m_iGpReleased = 0,
        m_iGpFreeListCnt = 0, m_bckt = (\<lambda>_. \<lparr>m_iBkAllocated = 0, m_iBkReleased = 0\<rparr>)\<rparr>\<rparr>"

definition newShmMap :: "os \<Rightarrow> nat \<Rightarrow> nat \<Rightarrow> shm_pool option" where
  "newShmMap os maxShmSize size1 =
     (let size1 = (if size1 < LSSHM_PAGESIZE then LSSHM_PAGESIZE else size1);
          file = (size1 + (LSSHM_PAGESIZE - 1)) div LSSHM_PAGESIZE * LSSHM_PAGESIZE
      in
      if maxShmSize \<noteq> 0 \<and> file > maxShmSize then None
      else if \<not> expandfile_ok os 0 file then None
      else if \<not> mmap_ok os size1 then None
      else Some ((mapAddrSpace os size1 (createStaticData maxShmSize))
                   \<lparr>m_iFileSize := size1, m_iUsedSize := LSSHM_SHM_UNITSIZE\<rparr>))"

end
