(* ===== verification/LsShmHTable.thy ===== *)
theory LsShmHTable
  imports LsShmPool
begin

text \<open>
  The state of one shared-memory hash table (\<^verbatim>\<open>shm/lsshmhash.h\<close>, \<^verbatim>\<open>shm/lsshmhash.cpp\<close>):
  the table header with its index array and bloom bitmap, the LRU anchor, the transaction-id
  anchor, and the elements and transaction-id blocks by offset. It also holds what every operation
  uses: accounting allocation, translation and validation of an element offset, the bitmap, and the
  doubly linked LRU list.

  An element stays readable at its offset after it is released: as in the file, only the words that
  the pool writes into the free block change.
\<close>

section \<open>Elements\<close>

record LsShmHElem =
  x_iLen :: nat
  x_iValOff :: nat
  x_iNext :: off
  x_hkey :: u32
  e_key :: bytes
  e_valLen :: nat
  e_val :: bytes
  x_tid :: u64
  x_iLinkNext :: off
  x_iLinkPrev :: off
  x_lasttime :: int

definition sizeof_HElem :: nat where [lay_simps]: "sizeof_HElem = 16"
definition sizeof_vardata :: nat where [lay_simps]: "sizeof_vardata = 4"
definition sizeof_HElemLink :: nat where [lay_simps]: "sizeof_HElemLink = 16"
definition sizeof_TidLink :: nat where [lay_simps]: "sizeof_TidLink = 8"
definition LSSHM_FREE_AMARKER :: nat where [lay_simps]: "LSSHM_FREE_AMARKER = 0x0123fedc"

definition round4 :: "nat \<Rightarrow> nat" where
  "round4 x = (x + 3) div 4 * 4"

definition realValLen :: "LsShmHElem \<Rightarrow> nat" where
  "realValLen e = x_iLen e - sizeof_HElem - x_iValOff e - sizeof_vardata"

section \<open>Transaction-id blocks\<close>

definition TIDTBLBLK_MAXSZ :: nat where [lay_simps]: "TIDTBLBLK_MAXSZ = 1024"
definition sizeof_TidTblBlk :: nat where [lay_simps]: "sizeof_TidTblBlk = 8216"

record LsShmTidTblBlk =
  x_tidBase :: u64
  x_iIterCnt :: u16
  x_iDelCnt :: u16
  b_iNext :: off
  b_iPrev :: off
  x_iTidVals :: "u64 list"

section \<open>The table\<close>

record LsShmHash =
  h_pool :: shm_pool
  x_iCapacity :: nat
  x_iSize :: nat
  x_iFullFactor :: nat
  x_iGrowFactor :: nat
  x_iHIdx :: off
  h_idx :: "off list"
  x_iBitMap :: off
  x_iBitMapSz :: nat
  h_bits :: "nat \<Rightarrow> bool"
  m_iHashInUse :: u32
  flag_lru :: bool
  flag_tid :: bool
  flag_tid_slave :: bool
  linkFirst :: off
  linkLast :: off
  nvalset :: int
  nvalexp :: int
  ndataset :: int
  ndataexp :: int
  ti_tid :: u64
  x_lastTidPreClear :: u64
  x_iTidTblStrtOff :: off
  x_iTidTblCurOff :: off
  x_iBlkIdxOff :: off
  x_iBlkCnt :: nat
  h_blkidx :: "off list"
  h_blks :: "off \<Rightarrow> LsShmTidTblBlk option"
  h_elems :: "off \<Rightarrow> LsShmHElem option"
  h_rebuilds :: nat

text \<open>
  The surroundings of an operation: the operating system, the hash function the table was opened
  with (\<open>m_hf\<close>), the clock, what freshly allocated memory happens to contain, and the
  process-dependent lines of the statistics output (process id, version, pointer size, resource usage).
\<close>

record env =
  e_os :: os
  m_hf :: "bytes \<Rightarrow> u32"
  time_now :: int
  junk_val :: "off \<Rightarrow> bytes"
  junk_tid :: "off \<Rightarrow> u64"
  sys_stats :: bytes

definition junk_bytes :: "env \<Rightarrow> off \<Rightarrow> nat \<Rightarrow> bytes" where
  "junk_bytes E offset n = take n (junk_val E offset @ replicate n CHR 0x00)"

lemma length_junk_bytes [simp]: "length (junk_bytes E offset n) = n"
  by (simp add: junk_bytes_def)

definition upd_elem :: "off \<Rightarrow> (LsShmHElem \<Rightarrow> LsShmHElem) \<Rightarrow> LsShmHash \<Rightarrow> LsShmHash" where
  "upd_elem offset f h = h\<lparr>h_elems := (h_elems h)(offset := map_option f (h_elems h offset))\<rparr>"

text \<open>\<open>rebuild\<close> sends a signal to the process itself; the model counts the signals.\<close>

definition rebuild :: "LsShmHash \<Rightarrow> LsShmHash" where
  "rebuild h = h\<lparr>h_rebuilds := h_rebuilds h + 1\<rparr>"

section \<open>Sizes\<close>

definition prime_count :: nat where [lay_simps]: "prime_count = 31"

definition s_primeList :: "nat list" where
  "s_primeList =
     [7, 13, 29, 53, 97, 193, 389, 769, 1543, 3079, 6151, 12289, 24593, 49157, 98317, 196613,
      393241, 786433, 1572869, 3145739, 6291469, 12582917, 25165843, 50331653, 100663319,
      201326611, 402653189, 805306457, 1610612741, 3221225473, 4294967291]"

function findRange_loop :: "nat \<Rightarrow> nat \<Rightarrow> nat" where
  "findRange_loop sz i =
     (if i < prime_count - 1 then (if sz \<le> s_primeList ! i then i else findRange_loop sz (Suc i))
      else i)"
  by pat_completeness auto
termination
  by (relation "measure (\<lambda>(sz, i). prime_count - i)") (auto simp: prime_count_def)

declare findRange_loop.simps [simp del]

definition findRange :: "nat \<Rightarrow> nat" where
  "findRange sz = findRange_loop sz 1"

definition roundUp :: "nat \<Rightarrow> nat" where
  "roundUp sz = s_primeList ! findRange sz"

definition sz2TableSz :: "nat \<Rightarrow> nat" where
  "sz2TableSz sz = sz * 4"

definition MINSZ_FOR_BITMAP :: nat where [lay_simps]: "MINSZ_FOR_BITMAP = 262144"

definition sz2BitMapSz :: "nat \<Rightarrow> nat" where
  "sz2BitMapSz sz = (if sz < MINSZ_FOR_BITMAP then 0 else ((sz + 32 - 1) div 32) * 4)"

definition size2roundSize :: "nat \<Rightarrow> nat" where
  "size2roundSize sz = (if sz \<ge> LSSHM_SHM_UNITSIZE then roundPageSize sz else roundDataSize sz)"

section \<open>Allocation with accounting\<close>

definition hash_alloc2 :: "env \<Rightarrow> nat \<Rightarrow> LsShmHash \<Rightarrow> off \<times> LsShmHash" where
  "hash_alloc2 E sz h =
     (case alloc2 (e_os E) sz (h_pool h) of
        (ret, sz', p) \<Rightarrow>
          let h = h\<lparr>h_pool := p\<rparr> in
          if ret \<noteq> 0 then (ret, h\<lparr>m_iHashInUse := m_iHashInUse h + of_nat (size2roundSize sz')\<rparr>)
          else (0, h))"

text \<open>The words that the pool writes into the first bytes of a released element.\<close>

definition clobber :: "shm_pool \<Rightarrow> off \<Rightarrow> nat \<Rightarrow> LsShmHElem \<Rightarrow> LsShmHElem" where
  "clobber p offset sz e =
     (if roundDataSize sz < LSSHM_SHM_UNITSIZE then e\<lparr>x_iLen := bk_next p offset\<rparr>
      else case ft p offset of
        None \<Rightarrow> e\<lparr>x_iLen := 0\<rparr>
      | Some t \<Rightarrow> e\<lparr>x_iLen := LSSHM_FREE_AMARKER, x_iValOff := x_iFreeSize t,
                    x_iNext := x_iFreeNext t, x_hkey := of_nat (x_iFreePrev t)\<rparr>)"

definition hash_release2 :: "off \<Rightarrow> nat \<Rightarrow> LsShmHash \<Rightarrow> LsShmHash" where
  "hash_release2 offset sz h =
     (let p = release2 offset sz (h_pool h) in
      upd_elem offset (clobber p offset sz)
        (h\<lparr>h_pool := p, m_iHashInUse := m_iHashInUse h - of_nat (size2roundSize sz)\<rparr>))"

section \<open>Offsets to elements\<close>

text \<open>\<open>validate\<close>: the plausibility test of an element header; true means plausible (result 0).\<close>

definition validate :: "LsShmHash \<Rightarrow> off \<Rightarrow> LsShmHElem \<Rightarrow> bool \<Rightarrow> bool" where
  "validate h offset e lru =
     (let valOff = sizeof_vardata + (if lru then sizeof_HElemLink else 0);
          valLen = (if lru then sizeof_HElemLink else 0);
          len = sizeof_HElem + sizeof_vardata + round4 valLen
      in isOffsetValid (h_pool h) (x_iValOff e + (offset + sizeof_HElem)) \<and>
         \<not> (x_iLen e \<noteq> 0 \<and> x_iValOff e > x_iLen e) \<and>
         \<not> x_iValOff e \<le> valOff \<and>
         \<not> (x_iLen e \<noteq> 0 \<and> x_iLen e \<le> len) \<and>
         \<not> x_iLen e > 100000000)"

definition elem_at :: "LsShmHash \<Rightarrow> off \<Rightarrow> LsShmHElem option" where
  "elem_at h offset = (if offset2ptr (h_pool h) offset then h_elems h offset else None)"

definition iter_ok :: "LsShmHash \<Rightarrow> off \<Rightarrow> LsShmHElem option" where
  "iter_ok h offset =
     (case elem_at h offset of None \<Rightarrow> None
      | Some e \<Rightarrow> if x_iValOff e < 32 \<or> validate h offset e False then Some e else None)"

definition offset2iterator :: "off \<Rightarrow> LsShmHash \<Rightarrow> LsShmHElem option \<times> LsShmHash" where
  "offset2iterator offset h =
     (case iter_ok h offset of None \<Rightarrow> (None, rebuild h) | Some e \<Rightarrow> (Some e, h))"

definition offset2iteratorData :: "off \<Rightarrow> LsShmHash \<Rightarrow> bytes option \<times> LsShmHash" where
  "offset2iteratorData offset h =
     (case elem_at h offset of
        Some e \<Rightarrow> if validate h offset e False then (Some (e_val e), h) else (None, rebuild h)
      | None \<Rightarrow> (None, rebuild h))"

definition getLruLinkPtr :: "LsShmHash \<Rightarrow> off \<Rightarrow> LsShmHElem \<Rightarrow> bool" where
  "getLruLinkPtr h offset e = validate h offset e True"

section \<open>Bitmap and index\<close>

definition getIndex :: "u32 \<Rightarrow> nat \<Rightarrow> nat" where
  "getIndex k n = unat k mod n"

definition getBitMapEnt :: "LsShmHash \<Rightarrow> nat \<Rightarrow> bool" where
  "getBitMapEnt h indx = (if x_iBitMapSz h = 0 then True else h_bits h indx)"

definition setBitMapEnt :: "nat \<Rightarrow> LsShmHash \<Rightarrow> LsShmHash" where
  "setBitMapEnt indx h = (if x_iBitMapSz h = 0 then h else h\<lparr>h_bits := (h_bits h)(indx := True)\<rparr>)"

definition clrBitMapEnt :: "nat \<Rightarrow> LsShmHash \<Rightarrow> LsShmHash" where
  "clrBitMapEnt indx h = (if x_iBitMapSz h = 0 then h else h\<lparr>h_bits := (h_bits h)(indx := False)\<rparr>)"

section \<open>The LRU list\<close>

text \<open>
  \<open>linkFirst\<close> is the most recently used element, \<open>linkLast\<close> the least recently used;
  \<open>x_iLinkNext\<close> leads towards \<open>linkFirst\<close>. As in the code, the two link setters do nothing
  when the new link is 0. Their result is true when the code returns 0.
\<close>

definition set_linkNext :: "off \<Rightarrow> off \<Rightarrow> LsShmHash \<Rightarrow> bool \<times> LsShmHash" where
  "set_linkNext offThis offNext h =
     (if offNext \<noteq> 0 then
        case offset2iterator offThis h of
          (None, h) \<Rightarrow> (False, h)
        | (Some e, h) \<Rightarrow>
            if getLruLinkPtr h offThis e then (True, upd_elem offThis (\<lambda>e. e\<lparr>x_iLinkNext := offNext\<rparr>) h)
            else (False, h)
      else (True, h))"

definition set_linkPrev :: "off \<Rightarrow> off \<Rightarrow> LsShmHash \<Rightarrow> bool \<times> LsShmHash" where
  "set_linkPrev offThis offPrev h =
     (if offPrev \<noteq> 0 then
        case offset2iterator offThis h of
          (None, h) \<Rightarrow> (False, h)
        | (Some e, h) \<Rightarrow>
            if getLruLinkPtr h offThis e then (True, upd_elem offThis (\<lambda>e. e\<lparr>x_iLinkPrev := offPrev\<rparr>) h)
            else (False, h)
      else (True, h))"

definition link_ok :: "LsShmHash \<Rightarrow> off \<Rightarrow> LsShmHElem option" where
  "link_ok h offset =
     (case h_elems h offset of None \<Rightarrow> None
      | Some e \<Rightarrow> if getLruLinkPtr h offset e then Some e else None)"

definition linkHElem :: "env \<Rightarrow> off \<Rightarrow> LsShmHash \<Rightarrow> LsShmHash" where
  "linkHElem E offElem h =
     (case link_ok h offElem of None \<Rightarrow> h
      | Some _ \<Rightarrow>
          let (ok, h) =
            (if linkFirst h \<noteq> 0 then
               let first = linkFirst h; (ok, h) = set_linkNext first offElem h in
               if ok then (True, upd_elem offElem (\<lambda>e. e\<lparr>x_iLinkPrev := first\<rparr>) h) else (False, h)
             else (True, (upd_elem offElem (\<lambda>e. e\<lparr>x_iLinkPrev := 0\<rparr>) h)\<lparr>linkLast := offElem\<rparr>))
          in
          if ok then
            (upd_elem offElem (\<lambda>e. e\<lparr>x_iLinkNext := 0, x_lasttime := time_now E\<rparr>) h)
              \<lparr>linkFirst := offElem, nvalset := nvalset h + 1\<rparr>
          else h)"

definition unlinkHElem :: "off \<Rightarrow> LsShmHash \<Rightarrow> LsShmHash" where
  "unlinkHElem offElem h =
     (case link_ok h offElem of None \<Rightarrow> h
      | Some pLink \<Rightarrow>
          let next = x_iLinkNext pLink; prev = x_iLinkPrev pLink;
              (ok, h) = (if next \<noteq> 0 then set_linkPrev next prev h else (True, h\<lparr>linkFirst := prev\<rparr>))
          in
          if \<not> ok then h
          else
            let (ok, h) = (if prev \<noteq> 0 then set_linkNext prev next h else (True, h\<lparr>linkLast := next\<rparr>))
            in if \<not> ok then h else h\<lparr>nvalset := nvalset h - 1\<rparr>)"

definition linkSetTop :: "env \<Rightarrow> off \<Rightarrow> LsShmHash \<Rightarrow> LsShmHash" where
  "linkSetTop E offElem h =
     (case link_ok h offElem of None \<Rightarrow> h
      | Some pLink \<Rightarrow>
          let stamp = upd_elem offElem (\<lambda>e. e\<lparr>x_lasttime := time_now E\<rparr>); next = x_iLinkNext pLink in
          if next \<noteq> 0 then
            let prev = x_iLinkPrev pLink;
                (ok, h) = (if prev = 0 then (True, h\<lparr>linkLast := next\<rparr>) else set_linkNext prev next h)
            in
            if \<not> ok then h
            else
              let (ok, h) = set_linkPrev next prev h in
              if \<not> ok then h
              else
                let first = linkFirst h;
                    h = upd_elem offElem (\<lambda>e. e\<lparr>x_iLinkNext := 0, x_iLinkPrev := first\<rparr>) h;
                    (ok, h) = set_linkNext first offElem h
                in if \<not> ok then h else stamp (h\<lparr>linkFirst := offElem\<rparr>)
          else stamp h)"

text \<open>
  \<open>linkSetTopTime\<close> and \<open>linkMvTopTime\<close>: set the time of the newest element, keeping the list
  in time order. The result is true for \<open>LS_OK\<close>. A \<open>NULL\<close> element is dereferenced by the code;
  the model answers \<open>LS_FAIL\<close> there.
\<close>

definition linkSetTopTime :: "env \<Rightarrow> off \<Rightarrow> int \<Rightarrow> LsShmHash \<Rightarrow> bool \<times> LsShmHash" where
  "linkSetTopTime E offset lasttime h =
     (if \<not> flag_lru h then (True, h)
      else case link_ok h offset of
        None \<Rightarrow> (False, h)
      | Some pLink \<Rightarrow>
          if x_iLinkNext pLink \<noteq> 0 \<or> lasttime > time_now E then (False, h)
          else
            let prev = x_iLinkPrev pLink in
            if prev \<noteq> 0 then
              case link_ok h prev of
                None \<Rightarrow> (False, h)
              | Some pPrev \<Rightarrow>
                  let lasttime = (if lasttime < x_lasttime pPrev then x_lasttime pPrev else lasttime)
                  in (True, upd_elem offset (\<lambda>e. e\<lparr>x_lasttime := lasttime\<rparr>) h)
            else (True, upd_elem offset (\<lambda>e. e\<lparr>x_lasttime := lasttime\<rparr>) h))"

text \<open>
  The loop of \<open>linkMvTopTime\<close> walks down from \<open>prev\<close>; its fuel is the number of linked
  elements.
\<close>

fun mvTop_loop :: "nat \<Rightarrow> off \<Rightarrow> int \<Rightarrow> off \<Rightarrow> LsShmHash \<Rightarrow> bool \<times> LsShmHash" where
  "mvTop_loop 0 offset lasttime prev h = (False, h)"
| "mvTop_loop (Suc k) offset lasttime prev h =
     (case link_ok h prev of
        None \<Rightarrow> (False, h)
      | Some pPrev \<Rightarrow>
          if x_iLinkPrev pPrev = 0 then
            (True, (upd_elem offset (\<lambda>e. e\<lparr>x_iLinkNext := prev, x_iLinkPrev := 0\<rparr>)
                     (upd_elem prev (\<lambda>e. e\<lparr>x_iLinkPrev := offset\<rparr>) h))\<lparr>linkLast := offset\<rparr>)
          else
            let prev = x_iLinkPrev pPrev in
            case link_ok h prev of
              None \<Rightarrow> (False, h)
            | Some pPrev \<Rightarrow>
                if x_lasttime pPrev \<le> lasttime then
                  let next = x_iLinkNext pPrev;
                      h = upd_elem offset (\<lambda>e. e\<lparr>x_iLinkNext := next, x_iLinkPrev := prev\<rparr>) h;
                      h = upd_elem prev (\<lambda>e. e\<lparr>x_iLinkNext := offset\<rparr>) h
                  in set_linkPrev next offset h
                else mvTop_loop k offset lasttime prev h)"

definition linkMvTopTime :: "env \<Rightarrow> off \<Rightarrow> int \<Rightarrow> LsShmHash \<Rightarrow> bool \<times> LsShmHash" where
  "linkMvTopTime E offset lasttime h =
     (if \<not> flag_lru h then (True, h)
      else case link_ok h offset of
        None \<Rightarrow> (False, h)
      | Some pLink \<Rightarrow>
          if x_iLinkNext pLink \<noteq> 0 \<or> lasttime \<le> 0 then (False, h)
          else
            let h = upd_elem offset (\<lambda>e. e\<lparr>x_lasttime := lasttime\<rparr>) h; prev = x_iLinkPrev pLink in
            if prev = 0 then (True, h)
            else case link_ok h prev of
              None \<Rightarrow> (False, h)
            | Some pPrev \<Rightarrow>
                if x_lasttime pPrev \<le> lasttime then (True, h)
                else
                  let h = (upd_elem prev (\<lambda>e. e\<lparr>x_iLinkNext := 0\<rparr>) h)\<lparr>linkFirst := prev\<rparr>
                  in mvTop_loop (nat (nvalset h)) offset lasttime prev h)"

end
