(* ===== verification/LsShmTidMgr.thy ===== *)
theory LsShmTidMgr
  imports LsShmHTable
begin

text \<open>
  The transaction-id table of a hash (\<^verbatim>\<open>shm/lsshmtidmgr.cpp\<close>): a chain of blocks of 1024
  entries with an index array of block offsets. Every change of the hash gets the next transaction
  id; the entry of an id is an element offset with the top bit set, the id that a delete removed, or
  the flush mark. Replication reads the table in id order.
\<close>

section \<open>Entries\<close>

definition TIDDEL_MAGIC_NUMBER :: u64 where "TIDDEL_MAGIC_NUMBER = 0x8000000000000000"
definition TIDDEL_FLUSHALL :: u64 where "TIDDEL_FLUSHALL = 0x7FFFFFFFFFFFFFFF"
definition LSSHMTID_BLKIDX_INCR :: nat where [lay_simps]: "LSSHMTID_BLKIDX_INCR = 0x100"

definition LSSHMTID_BLKIDX_SIZE :: "nat \<Rightarrow> nat" where
  "LSSHMTID_BLKIDX_SIZE x = x * 4"

definition isTidValIterOff :: "u64 \<Rightarrow> bool" where
  "isTidValIterOff tidVal \<longleftrightarrow> and tidVal TIDDEL_MAGIC_NUMBER \<noteq> 0"

definition iterOff2tidVal :: "off \<Rightarrow> u64" where
  "iterOff2tidVal iterOff = or (of_nat iterOff) TIDDEL_MAGIC_NUMBER"

definition tidVal2iterOff :: "u64 \<Rightarrow> off" where
  "tidVal2iterOff tidVal = unat (ucast (and tidVal (not TIDDEL_MAGIC_NUMBER)) :: u32)"

definition blk_at :: "LsShmHash \<Rightarrow> off \<Rightarrow> LsShmTidTblBlk option" where
  "blk_at h offset = (if offset2ptr (h_pool h) offset then h_blks h offset else None)"

definition upd_blk :: "off \<Rightarrow> (LsShmTidTblBlk \<Rightarrow> LsShmTidTblBlk) \<Rightarrow> LsShmHash \<Rightarrow> LsShmHash" where
  "upd_blk offset f h = h\<lparr>h_blks := (h_blks h)(offset := map_option f (h_blks h offset))\<rparr>"

section \<open>Growing the table\<close>

text \<open>
  \<open>allocBlkIdx\<close>: a larger index array with the old entries in front. The entries behind them are
  whatever the memory contained; the model fills them with 0.
\<close>

definition allocBlkIdx :: "env \<Rightarrow> off \<Rightarrow> nat \<Rightarrow> LsShmHash \<Rightarrow> off \<times> LsShmHash" where
  "allocBlkIdx E oldIdx oldCnt h =
     (let newCnt = oldCnt + LSSHMTID_BLKIDX_INCR;
          (idxOff, h) = hash_alloc2 E (LSSHMTID_BLKIDX_SIZE newCnt) h
      in
      if idxOff = 0 then (0, h)
      else if oldIdx = 0 then (idxOff, h\<lparr>h_blkidx := replicate newCnt 0\<rparr>)
      else if \<not> offset2ptr (h_pool h) oldIdx then (0, h)
      else if \<not> offset2ptr (h_pool h) idxOff then (0, h)
      else
        let h = h\<lparr>h_blkidx := take oldCnt (h_blkidx h) @ replicate LSSHMTID_BLKIDX_INCR 0\<rparr>
        in (idxOff, hash_release2 oldIdx (LSSHMTID_BLKIDX_SIZE oldCnt) h))"

text \<open>The last part of \<open>growTidTbl\<close>: the new block goes behind the current one and into the index.\<close>

definition attachTidBlk :: "u64 \<Rightarrow> off \<Rightarrow> LsShmHash \<Rightarrow> off \<times> LsShmHash" where
  "attachTidBlk base blkOff h =
     (let cur = x_iTidTblCurOff h;
          h = (if cur \<noteq> 0 \<and> blk_at h cur \<noteq> None then upd_blk cur (\<lambda>b. b\<lparr>b_iNext := blkOff\<rparr>) h
               else h\<lparr>x_iTidTblStrtOff := blkOff\<rparr>)
      in
      if \<not> offset2ptr (h_pool h) (x_iBlkIdxOff h) then (0, h)
      else
        let h = h\<lparr>h_blkidx := (h_blkidx h)[x_iBlkCnt h := blkOff], x_iBlkCnt := x_iBlkCnt h + 1\<rparr> in
        if \<not> offset2ptr (h_pool h) blkOff then (0, h)
        else (blkOff,
              h\<lparr>h_blks := (h_blks h)(blkOff \<mapsto>
                  \<lparr>x_tidBase = base, x_iIterCnt = 0, x_iDelCnt = 0, b_iNext = 0, b_iPrev = cur,
                   x_iTidVals = replicate TIDTBLBLK_MAXSZ 0\<rparr>),
                x_iTidTblCurOff := blkOff\<rparr>))"

definition growTidTbl :: "env \<Rightarrow> u64 \<Rightarrow> LsShmHash \<Rightarrow> off \<times> LsShmHash" where
  "growTidTbl E base h =
     (let (blkOff, h) = hash_alloc2 E sizeof_TidTblBlk h in
      if blkOff = 0 then (0, h)
      else
        let (ok, h) =
          (if x_iBlkCnt h mod LSSHMTID_BLKIDX_INCR = 0 then
             let (idxOff, h) = allocBlkIdx E (x_iBlkIdxOff h) (x_iBlkCnt h) h in
             if idxOff = 0 then (False, hash_release2 blkOff sizeof_TidTblBlk h)
             else (True, h\<lparr>x_iBlkIdxOff := idxOff\<rparr>)
           else (True, h))
        in if \<not> ok then (0, h) else attachTidBlk base blkOff h)"

definition checkTidTbl :: "env \<Rightarrow> LsShmHash \<Rightarrow> LsShmHash" where
  "checkTidTbl E h =
     (let tid = ti_tid h + 1 in
      case blk_at h (x_iTidTblCurOff h) of
        Some pBlk \<Rightarrow>
          if tid \<ge> x_tidBase pBlk + of_nat TIDTBLBLK_MAXSZ
          then snd (growTidTbl E (tid - tid mod of_nat TIDTBLBLK_MAXSZ) h) else h
      | None \<Rightarrow> snd (growTidTbl E (tid - tid mod of_nat TIDTBLBLK_MAXSZ) h))"

section \<open>Setting and clearing entries\<close>

text \<open>
  \<open>setTidTblEnt\<close>: the parameter \<open>tid\<close> is \<open>*pTid\<close>, 0 for a new id. The result is the id
  used (\<open>*pTid\<close> afterwards), or \<open>None\<close> for \<open>-1\<close>.
\<close>

definition setTidTblEnt :: "env \<Rightarrow> u64 \<Rightarrow> u64 \<Rightarrow> LsShmHash \<Rightarrow> u64 option \<times> LsShmHash" where
  "setTidTblEnt E tidVal tid h =
     (if tid \<noteq> 0 \<and> tid \<le> ti_tid h then (None, h)
      else
        let tid = (if tid = 0 then ti_tid h + 1 else tid);
            h = h\<lparr>ti_tid := tid\<rparr>;
            indx = unat (tid mod of_nat TIDTBLBLK_MAXSZ);
            grow = (case blk_at h (x_iTidTblCurOff h) of None \<Rightarrow> True
                    | Some pBlk \<Rightarrow> tid \<ge> x_tidBase pBlk + of_nat TIDTBLBLK_MAXSZ);
            (blkOff, h) = (if grow then growTidTbl E (tid - of_nat indx) h else (x_iTidTblCurOff h, h))
        in
        if blkOff = 0 then (None, h)
        else case blk_at h blkOff of
          None \<Rightarrow> (None, h)
        | Some _ \<Rightarrow>
            (Some tid,
             upd_blk blkOff (\<lambda>b. (if isTidValIterOff tidVal then b\<lparr>x_iIterCnt := x_iIterCnt b + 1\<rparr>
                                  else b\<lparr>x_iDelCnt := x_iDelCnt b + 1\<rparr>)
                                 \<lparr>x_iTidVals := (x_iTidVals b)[indx := tidVal]\<rparr>) h))"

definition tid2tblBlk :: "LsShmHash \<Rightarrow> u64 \<Rightarrow> off option" where
  "tid2tblBlk h tid =
     (let tid = (if tid < x_lastTidPreClear h then x_lastTidPreClear h else tid);
          iBlkIdx = unat tid div 1024 - unat (x_lastTidPreClear h) div 1024
      in
      if x_iBlkIdxOff h = 0 \<or> iBlkIdx \<ge> x_iBlkCnt h then None
      else if \<not> offset2ptr (h_pool h) (x_iBlkIdxOff h) then None
      else case blk_at h (h_blkidx h ! iBlkIdx) of
        None \<Rightarrow> None | Some _ \<Rightarrow> Some (h_blkidx h ! iBlkIdx))"

definition clrTidTblEnt :: "u64 \<Rightarrow> LsShmHash \<Rightarrow> LsShmHash" where
  "clrTidTblEnt tid h =
     (case tid2tblBlk h tid of None \<Rightarrow> h
      | Some blkOff \<Rightarrow>
          upd_blk blkOff (\<lambda>b. b\<lparr>x_iTidVals := (x_iTidVals b)[unat tid mod TIDTBLBLK_MAXSZ := 0],
                                x_iIterCnt := x_iIterCnt b - 1\<rparr>) h)"

definition tid2iterOff :: "LsShmHash \<Rightarrow> u64 \<Rightarrow> off" where
  "tid2iterOff h tid =
     (case tid2tblBlk h tid of None \<Rightarrow> 0
      | Some blkOff \<Rightarrow>
          (case h_blks h blkOff of None \<Rightarrow> 0
           | Some pBlk \<Rightarrow>
               let tidVal = x_iTidVals pBlk ! (unat tid mod TIDTBLBLK_MAXSZ)
               in if isTidValIterOff tidVal then tidVal2iterOff tidVal else 0))"

section \<open>Linking elements\<close>

definition linkTid :: "env \<Rightarrow> off \<Rightarrow> u64 \<Rightarrow> LsShmHash \<Rightarrow> LsShmHash" where
  "linkTid E offElem tid h =
     (case setTidTblEnt E (iterOff2tidVal offElem) tid h of
        (None, h) \<Rightarrow> h
      | (Some tid, h) \<Rightarrow>
          (case offset2iterator offElem h of
             (None, h) \<Rightarrow> h
           | (Some _, h) \<Rightarrow> upd_elem offElem (\<lambda>e. e\<lparr>LsShmHElem.x_tid := tid\<rparr>) h))"

definition unlinkTid :: "env \<Rightarrow> u64 \<Rightarrow> LsShmHash \<Rightarrow> LsShmHash" where
  "unlinkTid E tid h =
     (let h = clrTidTblEnt tid h in
      if \<not> flag_tid_slave h then snd (setTidTblEnt E tid 0 h) else h)"

definition tidReplaceTid :: "env \<Rightarrow> off \<Rightarrow> u64 \<Rightarrow> LsShmHash \<Rightarrow> LsShmHash" where
  "tidReplaceTid E offElem tid h =
     (case h_elems h offElem of None \<Rightarrow> h
      | Some e \<Rightarrow> linkTid E offElem tid (unlinkTid E (x_tid e) h))"

definition insertIterCb :: "env \<Rightarrow> off \<Rightarrow> LsShmHash \<Rightarrow> LsShmHash" where
  "insertIterCb E offElem h = linkTid E offElem 0 h"

definition eraseIterCb :: "env \<Rightarrow> off \<Rightarrow> LsShmHash \<Rightarrow> LsShmHash" where
  "eraseIterCb E offElem h =
     (case h_elems h offElem of None \<Rightarrow> h
      | Some e \<Rightarrow>
          let tid = x_tid e in
          if tid \<noteq> 0 then unlinkTid E tid (upd_elem offElem (\<lambda>e. e\<lparr>LsShmHElem.x_tid := 0\<rparr>) h) else h)"

definition updateIterCb :: "env \<Rightarrow> off \<Rightarrow> LsShmHash \<Rightarrow> LsShmHash" where
  "updateIterCb E offElem h = linkTid E offElem 0 (eraseIterCb E offElem h)"

section \<open>Clearing\<close>

text \<open>
  The loop of \<open>clrTidTbl\<close> releases the blocks from the newest to the oldest. The result is false
  when a block is not addressable, where the code returns early. The fuel is the number of blocks.
\<close>

fun clrTid_loop :: "nat \<Rightarrow> off \<Rightarrow> LsShmHash \<Rightarrow> bool \<times> LsShmHash" where
  "clrTid_loop 0 offset h = (offset = 0, h)"
| "clrTid_loop (Suc k) offset h =
     (if offset = 0 then (True, h)
      else case blk_at h offset of
        None \<Rightarrow> (False, h)
      | Some t \<Rightarrow> clrTid_loop k (b_iPrev t) (hash_release2 offset sizeof_TidTblBlk h))"

definition clrTidTbl :: "env \<Rightarrow> LsShmHash \<Rightarrow> LsShmHash" where
  "clrTidTbl E h =
     (let offset = x_iTidTblCurOff h;
          h = (if offset \<noteq> 0 then
                 let cnt = x_iBlkCnt h;
                     roundSize = cnt div LSSHMTID_BLKIDX_INCR * LSSHMTID_BLKIDX_INCR;
                     roundSize = (if roundSize < cnt then roundSize + LSSHMTID_BLKIDX_INCR else roundSize)
                 in hash_release2 (x_iBlkIdxOff h) (LSSHMTID_BLKIDX_SIZE roundSize) h
               else h);
          (ok, h) = clrTid_loop (x_iBlkCnt h) offset h
      in
      if \<not> ok then h
      else
        let h = h\<lparr>x_iTidTblStrtOff := 0, x_iTidTblCurOff := 0, x_iBlkIdxOff := 0, x_iBlkCnt := 0,
                  x_lastTidPreClear := ti_tid h\<rparr>
        in if \<not> flag_tid_slave h then snd (setTidTblEnt E TIDDEL_FLUSHALL 0 h) else h)"

definition clearCb :: "env \<Rightarrow> LsShmHash \<Rightarrow> LsShmHash" where
  "clearCb E h = clrTidTbl E h"

section \<open>Reading in order\<close>

text \<open>\<open>nxtValInBlk\<close>: the first non-zero entry at or behind an index.\<close>

definition nxtValInBlk :: "LsShmTidTblBlk \<Rightarrow> nat \<Rightarrow> nat option" where
  "nxtValInBlk pBlk indx = find (\<lambda>i. x_iTidVals pBlk ! i \<noteq> 0) [indx..<TIDTBLBLK_MAXSZ]"

text \<open>
  \<open>nxtTidTblVal\<close>: the next entry behind a transaction id, with its id, its value and its block.
  The walk over the chain of blocks is bounded by the number of blocks.
\<close>

fun nxtTid_loop :: "nat \<Rightarrow> LsShmHash \<Rightarrow> u64 \<Rightarrow> off \<Rightarrow> (u64 \<times> u64 \<times> off) option" where
  "nxtTid_loop 0 h tid blkOff = None"
| "nxtTid_loop (Suc k) h tid blkOff =
     (case blk_at h blkOff of
        None \<Rightarrow> None
      | Some pBlk \<Rightarrow>
          let hit =
            (if tid < x_tidBase pBlk + of_nat TIDTBLBLK_MAXSZ then
               nxtValInBlk pBlk (if tid \<ge> x_tidBase pBlk then unat tid mod TIDTBLBLK_MAXSZ + 1 else 0)
             else None)
          in case hit of
            Some indx \<Rightarrow> Some (x_tidBase pBlk + of_nat indx, x_iTidVals pBlk ! indx, blkOff)
          | None \<Rightarrow> if b_iNext pBlk = 0 then None else nxtTid_loop k h tid (b_iNext pBlk))"

definition nxtTidTblVal :: "LsShmHash \<Rightarrow> u64 \<Rightarrow> off option \<Rightarrow> (u64 \<times> u64 \<times> off) option" where
  "nxtTidTblVal h tid blk =
     (case (case blk of None \<Rightarrow> tid2tblBlk h tid | Some b \<Rightarrow> Some b) of
        None \<Rightarrow> None
      | Some blkOff \<Rightarrow> nxtTid_loop (x_iBlkCnt h) h tid blkOff)"

end
