(* ===== verification/LsShmHash.thy ===== *)
theory LsShmHash
  imports LsShmTidMgr
begin

text \<open>
  The operations of the shared-memory hash (\<^verbatim>\<open>shm/lsshmhash.cpp\<close>): lookup, insertion with
  growth of the table, replacement in place or by a new element, erasure, growth of a value,
  iteration, clearing, trimming by age or size, and the replicated update of the transaction-id
  manager. Elements are chained through \<open>x_iNext\<close> from the index array.

  The key of a lookup is a byte string and the comparison function is \<open>memcmp\<close>, as the daemon
  opens its tables. A value argument is the pair of \<open>ls_str_buf\<close>, \<open>None\<close> for \<open>NULL\<close>, and
  \<open>ls_str_len\<close>.

  The walks over a chain or over the LRU list carry a fuel of one more than the number of elements
  in the table.
\<close>

type_synonym valarg = "bytes option \<times> nat"

definition iterExtraSpace :: "LsShmHash \<Rightarrow> nat" where
  "iterExtraSpace h = (if flag_lru h then sizeof_HElemLink else 0) + (if flag_tid h then sizeof_TidLink else 0)"

definition bad_size :: "nat \<Rightarrow> bool" where
  "bad_size x \<longleftrightarrow> x \<ge> 0x80000000 \<or> x > LSSHM_MAXSIZE"

definition setIterData :: "off \<Rightarrow> bytes option \<Rightarrow> LsShmHash \<Rightarrow> LsShmHash" where
  "setIterData offset pValue h =
     (case pValue of None \<Rightarrow> h
      | Some v \<Rightarrow> upd_elem offset (\<lambda>e. e\<lparr>e_val := wr (e_val e) 0 (take (e_valLen e) v)\<rparr>) h)"

section \<open>Lookup\<close>

fun find2_loop :: "nat \<Rightarrow> u32 \<Rightarrow> bytes \<Rightarrow> off \<Rightarrow> LsShmHash \<Rightarrow> off" where
  "find2_loop 0 hkey key offset h = 0"
| "find2_loop (Suc k) hkey key offset h =
     (if offset = 0 then 0
      else case elem_at h offset of
        None \<Rightarrow> 0
      | Some pElem \<Rightarrow>
          if x_hkey pElem = hkey \<and> length (e_key pElem) = length key \<and> e_key pElem = key then offset
          else find2_loop k hkey key (x_iNext pElem) h)"

definition find2 :: "u32 \<Rightarrow> bytes \<Rightarrow> LsShmHash \<Rightarrow> off" where
  "find2 hkey key h =
     (let hashIndx = getIndex hkey (x_iCapacity h) in
      if \<not> getBitMapEnt h hashIndx then 0
      else find2_loop (Suc (x_iSize h)) hkey key (h_idx h ! hashIndx) h)"

section \<open>Iteration\<close>

definition begin_off :: "LsShmHash \<Rightarrow> off" where
  "begin_off h =
     (if x_iSize h = 0 then 0
      else case find (\<lambda>i. h_idx h ! i \<noteq> 0) [0..<x_iCapacity h] of
        None \<Rightarrow> 0 | Some i \<Rightarrow> h_idx h ! i)"

function next_scan :: "off \<Rightarrow> nat \<Rightarrow> LsShmHash \<Rightarrow> off \<times> LsShmHash" where
  "next_scan iterOff i h =
     (if i < x_iCapacity h then
        if h_idx h ! i \<noteq> 0 then
          if h_idx h ! i = iterOff then next_scan iterOff (Suc i) (h\<lparr>h_idx := (h_idx h)[i := 0]\<rparr>)
          else (h_idx h ! i, h)
        else next_scan iterOff (Suc i) h
      else (0, h))"
  by pat_completeness auto
termination
  by (relation "measure (\<lambda>(o1, i, h). x_iCapacity h - i)") auto

declare next_scan.simps [simp del]

definition next_off :: "off \<Rightarrow> LsShmHash \<Rightarrow> off \<times> LsShmHash" where
  "next_off iterOff h =
     (if iterOff = 0 then (0, h)
      else case offset2iterator iterOff h of
        (None, h) \<Rightarrow> (0, h)
      | (Some iter, h) \<Rightarrow>
          if x_iNext iter \<noteq> 0 \<and> x_iNext iter \<noteq> iterOff then (x_iNext iter, h)
          else
            let h = (if x_iNext iter \<noteq> 0 then upd_elem iterOff (\<lambda>e. e\<lparr>x_iNext := 0\<rparr>) h else h)
            in next_scan iterOff (getIndex (x_hkey iter) (x_iCapacity h) + 1) h)"

text \<open>
  \<open>for_each2\<close> with a callback that may change the table; the callback's boolean says whether to
  go on. The result counts the calls that went on.
\<close>

fun for_each2_loop :: "nat \<Rightarrow> (off \<Rightarrow> LsShmHash \<Rightarrow> bool \<times> LsShmHash) \<Rightarrow> off \<Rightarrow> nat \<Rightarrow> LsShmHash \<Rightarrow> nat \<times> LsShmHash" where
  "for_each2_loop 0 fn iterNext n h = (n, h)"
| "for_each2_loop (Suc k) fn iterNext n h =
     (if iterNext = 0 then (n, h)
      else
        let iterOff = iterNext;
            (iterNext, h) = next_off iterOff h;
            (go, h) = fn iterOff h
        in if \<not> go then (n, h) else for_each2_loop k fn iterNext (n + 1) h)"

definition for_each2 :: "off \<Rightarrow> (off \<Rightarrow> LsShmHash \<Rightarrow> bool \<times> LsShmHash) \<Rightarrow> LsShmHash \<Rightarrow> nat \<times> LsShmHash" where
  "for_each2 beg fn h = for_each2_loop (Suc (x_iSize h)) fn beg 0 h"

section \<open>Growing the table\<close>

text \<open>
  The loop of \<open>rehash\<close> moves one element after the other to the head of its new chain. The new
  index array is the list \<open>new\<close>. An element that fails validation does not advance the loop.
\<close>

fun rehash_loop :: "nat \<Rightarrow> nat \<Rightarrow> nat \<Rightarrow> nat \<Rightarrow> off \<Rightarrow> off list \<Rightarrow> LsShmHash \<Rightarrow> off list \<times> LsShmHash" where
  "rehash_loop 0 oldSize newSize cnt iterOff new h = (new, h)"
| "rehash_loop (Suc k) oldSize newSize cnt iterOff new h =
     (if iterOff = 0 then (new, h)
      else case offset2iterator iterOff h of
        (None, h) \<Rightarrow> rehash_loop k oldSize newSize cnt iterOff new h
      | (Some iter, h) \<Rightarrow>
          let op = getIndex (x_hkey iter) oldSize;
              (iterNextOff, h) = next_off iterOff h;
              new_idx = getIndex (x_hkey iter) newSize;
              h = setBitMapEnt new_idx h;
              h = (if h_idx h ! op \<noteq> iterOff then rebuild h else h);
              next = (case h_elems h iterOff of None \<Rightarrow> 0 | Some e \<Rightarrow> x_iNext e);
              h = h\<lparr>h_idx := (h_idx h)[op := next]\<rparr>;
              h = (if new ! new_idx = iterOff then rebuild h else h);
              h = upd_elem iterOff (\<lambda>e. e\<lparr>x_iNext := new ! new_idx\<rparr>) h;
              new = new[new_idx := iterOff];
              cnt = cnt + 1;
              h = (if cnt > oldSize + oldSize div 2 then rebuild h else h)
          in rehash_loop k oldSize newSize cnt iterNextOff new h)"

text \<open>
  \<open>rehash(true)\<close>; the result is false for \<open>LS_FAIL\<close>. The branch that resumes a rehash which
  another process left unfinished is not modelled: here a rehash always runs to its end.
\<close>

definition rehash :: "env \<Rightarrow> LsShmHash \<Rightarrow> bool \<times> LsShmHash" where
  "rehash E h =
     (let oldSize = x_iCapacity h;
          newSize = s_primeList ! (findRange oldSize + x_iGrowFactor h);
          szTable = sz2TableSz newSize;
          szBitMap = sz2BitMapSz newSize;
          (newBitOff, h) = hash_alloc2 E (szTable + szBitMap) h
      in
      if newBitOff = 0 then (False, h)
      else
        let oldHIdx = x_iHIdx h;
            h = h\<lparr>x_iBitMap := newBitOff, x_iBitMapSz := szBitMap, h_bits := (\<lambda>_. False)\<rparr>;
            (new, h) = rehash_loop (Suc (x_iSize h)) oldSize newSize 0 (begin_off h) (replicate newSize 0) h;
            szTable = sz2TableSz oldSize;
            szBitMap = sz2BitMapSz oldSize;
            h = hash_release2 (oldHIdx - szBitMap) (szTable + szBitMap) h
        in (True, h\<lparr>x_iCapacity := newSize, x_iHIdx := newBitOff + sz2BitMapSz newSize, h_idx := new\<rparr>))"

section \<open>Insertion\<close>

definition allocIter :: "env \<Rightarrow> nat \<Rightarrow> nat \<Rightarrow> LsShmHash \<Rightarrow> off \<times> LsShmHash" where
  "allocIter E keyLen valLen h =
     (let valueOff = sizeof_vardata + round4 keyLen + iterExtraSpace h;
          elementSize = sizeof_HElem + valueOff + sizeof_vardata + round4 valLen;
          (offset, h) = hash_alloc2 E elementSize h
      in
      if offset = 0 then (0, h)
      else if \<not> offset2ptr (h_pool h) offset then (offset, h)
      else (offset, h\<lparr>h_elems := (h_elems h)(offset \<mapsto>
              \<lparr>x_iLen = elementSize, x_iValOff = valueOff, x_iNext = 0, x_hkey = 0,
               e_key = replicate keyLen CHR 0x00, e_valLen = valLen,
               e_val = junk_bytes E offset (round4 valLen),
               x_tid = junk_tid E offset, x_iLinkNext = 0, x_iLinkPrev = 0, x_lasttime = 0\<rparr>)\<rparr>))"

definition push_chain :: "u32 \<Rightarrow> off \<Rightarrow> LsShmHash \<Rightarrow> LsShmHash" where
  "push_chain hkey offset h =
     (let hashIndx = getIndex hkey (x_iCapacity h);
          h = upd_elem offset (\<lambda>e. e\<lparr>x_iNext := h_idx h ! hashIndx\<rparr>) h;
          h = h\<lparr>h_idx := (h_idx h)[hashIndx := offset]\<rparr>;
          h = setBitMapEnt hashIndx h
      in h\<lparr>x_iSize := x_iSize h + 1\<rparr>)"

definition insertCopy2 :: "env \<Rightarrow> u32 \<Rightarrow> bytes \<Rightarrow> valarg \<Rightarrow> LsShmHash \<Rightarrow> off \<times> LsShmHash" where
  "insertCopy2 E hkey key val h =
     (let (ok, h) = (if x_iSize h * x_iFullFactor h > x_iCapacity h then rehash E h else (True, h)) in
      if \<not> ok \<and> x_iSize h = x_iCapacity h then (0, h)
      else
        let (offset, h) = allocIter E (length key) (snd val) h in
        if offset = 0 then (0, h)
        else if \<not> offset2ptr (h_pool h) offset then (0, h)
        else
          let h = upd_elem offset (\<lambda>e. e\<lparr>x_hkey := hkey, e_key := key\<rparr>) h;
              h = setIterData offset (fst val) h;
              h = (if flag_lru h then linkHElem E offset h else h)
          in (offset, push_chain hkey offset h))"

definition insert2 :: "env \<Rightarrow> u32 \<Rightarrow> bytes \<Rightarrow> valarg \<Rightarrow> LsShmHash \<Rightarrow> off \<times> LsShmHash" where
  "insert2 E hkey key val h =
     (let (offset, h) = insertCopy2 E hkey key val h
      in (offset, if flag_tid h then insertIterCb E offset h else h))"

section \<open>Erasure\<close>

fun erase_loop :: "nat \<Rightarrow> off \<Rightarrow> off \<Rightarrow> off \<Rightarrow> LsShmHash \<Rightarrow> LsShmHash" where
  "erase_loop 0 iterOff next offset h = h"
| "erase_loop (Suc k) iterOff next offset h =
     (if offset = 0 then h
      else case elem_at h offset of
        None \<Rightarrow> h
      | Some pElem \<Rightarrow>
          if x_iNext pElem = iterOff then upd_elem offset (\<lambda>e. e\<lparr>x_iNext := next\<rparr>) h
          else erase_loop k iterOff next (x_iNext pElem) h)"

definition eraseIteratorHelper :: "env \<Rightarrow> off \<Rightarrow> LsShmHash \<Rightarrow> LsShmHash" where
  "eraseIteratorHelper E iterOff h =
     (if iterOff = 0 then h
      else case offset2iterator iterOff h of
        (None, h) \<Rightarrow> h
      | (Some iter, h) \<Rightarrow>
          let hashIndx = getIndex (x_hkey iter) (x_iCapacity h);
              offset = h_idx h ! hashIndx;
              next = x_iNext iter;
              sz = x_iLen iter;
              h = (if flag_lru h then unlinkHElem iterOff h else h);
              h = (if flag_tid h then eraseIterCb E iterOff h else h);
              h = (if offset = iterOff then
                     let h = h\<lparr>h_idx := (h_idx h)[hashIndx := next]\<rparr>
                     in if next = 0 then clrBitMapEnt hashIndx h else h
                   else erase_loop (Suc (x_iSize h)) iterOff next offset h);
              h = hash_release2 iterOff sz h
          in h\<lparr>x_iSize := x_iSize h - 1\<rparr>)"

section \<open>Get, insert, set, update\<close>

datatype val_flag = LSSHM_VAL_NONE | LSSHM_VAL_INIT | LSSHM_VAL_CREATED

definition doGet :: "env \<Rightarrow> off \<Rightarrow> u32 \<Rightarrow> bytes \<Rightarrow> valarg \<Rightarrow> val_flag \<Rightarrow> LsShmHash \<Rightarrow> (off \<times> val_flag) \<times> LsShmHash" where
  "doGet E iterOff hkey key val flag h =
     (if iterOff \<noteq> 0 then
        case offset2iterator iterOff h of
          (None, h) \<Rightarrow> ((iterOff, LSSHM_VAL_NONE), h)
        | (Some _, h) \<Rightarrow> ((iterOff, LSSHM_VAL_NONE), if flag_lru h then linkSetTop E iterOff h else h)
      else if bad_size (snd val) then ((0, flag), h)
      else
        let (iterOff, h) = insert2 E hkey key val h in
        if iterOff = 0 then ((0, flag), h)
        else if flag = LSSHM_VAL_INIT then
          case offset2iteratorData iterOff h of
            (None, h) \<Rightarrow> ((iterOff, LSSHM_VAL_NONE), h)
          | (Some _, h) \<Rightarrow>
              ((iterOff, LSSHM_VAL_CREATED),
               upd_elem iterOff (\<lambda>e. e\<lparr>e_val := wr (e_val e) 0 (replicate (snd val) CHR 0x00)\<rparr>) h)
        else ((iterOff, LSSHM_VAL_CREATED), h))"

definition doInsert :: "env \<Rightarrow> off \<Rightarrow> u32 \<Rightarrow> bytes \<Rightarrow> valarg \<Rightarrow> LsShmHash \<Rightarrow> off \<times> LsShmHash" where
  "doInsert E iterOff hkey key val h =
     (if iterOff \<noteq> 0 then (0, h)
      else if bad_size (snd val) then (0, h)
      else insert2 E hkey key val h)"

definition doSet :: "env \<Rightarrow> off \<Rightarrow> u32 \<Rightarrow> bytes \<Rightarrow> valarg \<Rightarrow> LsShmHash \<Rightarrow> off \<times> LsShmHash" where
  "doSet E iterOff hkey key val h =
     (if bad_size (snd val) then (0, h)
      else
        let (iter, h) = (if iterOff \<noteq> 0 then offset2iterator iterOff h else (None, h)) in
        case iter of
          Some e \<Rightarrow>
            if realValLen e \<ge> snd val then
              let h = upd_elem iterOff (\<lambda>e. e\<lparr>e_valLen := snd val\<rparr>) h;
                  h = setIterData iterOff (fst val) h;
                  h = (if flag_lru h then linkSetTop E iterOff h else h);
                  h = (if flag_tid h then updateIterCb E iterOff h else h)
              in (iterOff, h)
            else insert2 E hkey key val (eraseIteratorHelper E iterOff h)
        | None \<Rightarrow> insert2 E hkey key val h)"

definition doUpdate :: "env \<Rightarrow> off \<Rightarrow> u32 \<Rightarrow> bytes \<Rightarrow> valarg \<Rightarrow> LsShmHash \<Rightarrow> off \<times> LsShmHash" where
  "doUpdate E iterOff hkey key val h = (if iterOff = 0 then (0, h) else doSet E iterOff hkey key val h)"

section \<open>Entry points\<close>

definition findPtr :: "env \<Rightarrow> bytes \<Rightarrow> LsShmHash \<Rightarrow> off" where
  "findPtr E key h = find2 (m_hf E key) key h"

definition getPtr :: "env \<Rightarrow> bytes \<Rightarrow> valarg \<Rightarrow> val_flag \<Rightarrow> LsShmHash \<Rightarrow> (off \<times> val_flag) \<times> LsShmHash" where
  "getPtr E key val flag h = doGet E (find2 (m_hf E key) key h) (m_hf E key) key val flag h"

definition insertPtr :: "env \<Rightarrow> bytes \<Rightarrow> valarg \<Rightarrow> LsShmHash \<Rightarrow> off \<times> LsShmHash" where
  "insertPtr E key val h = doInsert E (find2 (m_hf E key) key h) (m_hf E key) key val h"

definition setPtr :: "env \<Rightarrow> bytes \<Rightarrow> valarg \<Rightarrow> LsShmHash \<Rightarrow> off \<times> LsShmHash" where
  "setPtr E key val h = doSet E (find2 (m_hf E key) key h) (m_hf E key) key val h"

definition updatePtr :: "env \<Rightarrow> bytes \<Rightarrow> valarg \<Rightarrow> LsShmHash \<Rightarrow> off \<times> LsShmHash" where
  "updatePtr E key val h = doUpdate E (find2 (m_hf E key) key h) (m_hf E key) key val h"

definition hash_remove :: "env \<Rightarrow> bytes \<Rightarrow> LsShmHash \<Rightarrow> bool \<times> LsShmHash" where
  "hash_remove E key h =
     (let iterOff = findPtr E key h
      in (iterOff \<noteq> 0, if iterOff \<noteq> 0 then eraseIteratorHelper E iterOff h else h))"

section \<open>The byte-level interface\<close>

text \<open>
  \<open>find\<close>, \<open>get\<close>, \<open>insert\<close>, \<open>set\<close> and \<open>update\<close> of the class. \<open>find\<close> and \<open>get\<close> answer the
  offset of the value area and its length; the model answers the offset with the bytes there, and
  \<open>None\<close> for offset 0.
\<close>

definition getVal_off :: "off \<Rightarrow> LsShmHElem \<Rightarrow> off" where
  "getVal_off iterOff e = iterOff + sizeof_HElem + x_iValOff e + sizeof_vardata"

definition iter_value :: "off \<Rightarrow> LsShmHash \<Rightarrow> (off \<times> bytes) option \<times> LsShmHash" where
  "iter_value iterOff h =
     (if iterOff = 0 then (None, h)
      else case offset2iterator iterOff h of
        (None, h) \<Rightarrow> (None, h)
      | (Some iter, h) \<Rightarrow> (Some (getVal_off iterOff iter, take (e_valLen iter) (e_val iter)), h))"

definition hash_find :: "env \<Rightarrow> bytes \<Rightarrow> LsShmHash \<Rightarrow> (off \<times> bytes) option \<times> LsShmHash" where
  "hash_find E key h = iter_value (findPtr E key h) h"

definition hash_get :: "env \<Rightarrow> bytes \<Rightarrow> nat \<Rightarrow> val_flag \<Rightarrow> LsShmHash \<Rightarrow> ((off \<times> bytes) option \<times> val_flag) \<times> LsShmHash" where
  "hash_get E key valLen flag h =
     (case getPtr E key (None, valLen) flag h of
        ((iterOff, flag), h) \<Rightarrow> (case iter_value iterOff h of (r, h) \<Rightarrow> ((r, flag), h)))"

definition data_ret :: "off \<Rightarrow> LsShmHash \<Rightarrow> off \<times> LsShmHash" where
  "data_ret iterOff h =
     (if iterOff = 0 then (0, h)
      else case offset2iteratorData iterOff h of
        (None, h) \<Rightarrow> (0, h)
      | (Some _, h) \<Rightarrow> (case h_elems h iterOff of None \<Rightarrow> 0 | Some iter \<Rightarrow> getVal_off iterOff iter, h))"

definition hash_insert :: "env \<Rightarrow> bytes \<Rightarrow> bytes \<Rightarrow> LsShmHash \<Rightarrow> off \<times> LsShmHash" where
  "hash_insert E key v h = (case insertPtr E key (Some v, length v) h of (iterOff, h) \<Rightarrow> data_ret iterOff h)"

definition hash_set :: "env \<Rightarrow> bytes \<Rightarrow> bytes \<Rightarrow> LsShmHash \<Rightarrow> off \<times> LsShmHash" where
  "hash_set E key v h = (case setPtr E key (Some v, length v) h of (iterOff, h) \<Rightarrow> data_ret iterOff h)"

definition hash_update :: "env \<Rightarrow> bytes \<Rightarrow> bytes \<Rightarrow> LsShmHash \<Rightarrow> off \<times> LsShmHash" where
  "hash_update E key v h = (case updatePtr E key (Some v, length v) h of (iterOff, h) \<Rightarrow> data_ret iterOff h)"

end
