(* ===== verification/LsShmHashOps.thy ===== *)
theory LsShmHashOps
  imports LsShmHash
begin

text \<open>
  The remaining operations of the shared-memory hash: creation, growth of a value in place of the
  element, clearing, trimming along the LRU list, time-ordered lookups in it, the consistency check,
  the statistics, and the update path of a replication slave (\<open>LsShmTidMgr::setIter\<close>).
\<close>

section \<open>Creation\<close>

definition sizeof_HTable :: nat where [lay_simps]: "sizeof_HTable = 312"

text \<open>
  \<open>allocHTable\<close> in a pool: the header block, then the bitmap and index block. The result is the
  header's offset (0 on failure) and the initial table.
\<close>

definition allocHTable :: "env \<Rightarrow> nat \<Rightarrow> bool \<Rightarrow> bool \<Rightarrow> bool \<Rightarrow> shm_pool \<Rightarrow> off \<times> shm_pool \<times> LsShmHash option" where
  "allocHTable E init_size lru tid slave p =
     (let (offset, htable_size, p) = alloc2 (e_os E) sizeof_HTable p in
      if offset = 0 then (0, p, None)
      else
        let init_size = roundUp init_size;
            szTable = sz2TableSz init_size;
            szBitMap = sz2BitMapSz init_size;
            (iBase, total_size, p) = alloc2 (e_os E) (szTable + szBitMap) p
        in
        if iBase = 0 then (0, release2 offset htable_size p, None)
        else if \<not> offset2ptr p offset then (0, p, None)
        else if \<not> offset2ptr p iBase then (0, p, None)
        else (offset, p, Some
          \<lparr>h_pool = p, x_iCapacity = init_size, x_iSize = 0, x_iFullFactor = 2, x_iGrowFactor = 2,
           x_iHIdx = iBase + szBitMap, h_idx = replicate init_size 0, x_iBitMap = iBase,
           x_iBitMapSz = szBitMap, h_bits = (\<lambda>_. False),
           m_iHashInUse = of_nat (size2roundSize sizeof_HTable + size2roundSize (szTable + szBitMap)),
           flag_lru = lru, flag_tid = tid, flag_tid_slave = slave,
           linkFirst = 0, linkLast = 0, nvalset = 0, nvalexp = 0, ndataset = 0, ndataexp = 0,
           ti_tid = 0, x_lastTidPreClear = 0, x_iTidTblStrtOff = 0, x_iTidTblCurOff = 0,
           x_iBlkIdxOff = 0, x_iBlkCnt = 0, h_blkidx = [], h_blks = (\<lambda>_. None), h_elems = (\<lambda>_. None),
           h_rebuilds = 0\<rparr>))"

section \<open>Growing a value\<close>

definition iterGrowValue :: "env \<Rightarrow> off \<Rightarrow> nat \<Rightarrow> bool \<Rightarrow> LsShmHash \<Rightarrow> off \<times> LsShmHash" where
  "iterGrowValue E iterOff size_to_grow front h =
     (case elem_at h iterOff of
        None \<Rightarrow> (0, h)
      | Some pOld \<Rightarrow>
          let newTotalSize = x_iLen pOld + round4 size_to_grow;
              (offset, h) = hash_alloc2 E newTotalSize h
          in
          if offset = 0 then (0, h)
          else if \<not> offset2ptr (h_pool h) offset then (0, rebuild h)
          else
            let f = (if front then size_to_grow else 0);
                area = newTotalSize - sizeof_HElem - x_iValOff pOld - sizeof_vardata;
                pNew = \<lparr>x_iLen = newTotalSize, x_iValOff = x_iValOff pOld, x_iNext = 0,
                        x_hkey = x_hkey pOld, e_key = e_key pOld,
                        e_valLen = e_valLen pOld + size_to_grow,
                        e_val = wr (junk_bytes E offset area) f (take (e_valLen pOld) (e_val pOld)),
                        x_tid = junk_tid E offset, x_iLinkNext = 0, x_iLinkPrev = 0, x_lasttime = 0\<rparr>;
                h = h\<lparr>h_elems := (h_elems h)(offset \<mapsto> pNew)\<rparr>;
                h = eraseIteratorHelper E iterOff h;
                h = (if flag_lru h then linkHElem E offset h else h);
                (ok, h) = (if flag_tid h then
                             let (it, h) = offset2iterator offset (insertIterCb E offset h)
                             in (it \<noteq> None, h)
                           else (True, h))
            in
            if \<not> ok then (0, h) else (offset, push_chain (x_hkey pOld) offset h))"

section \<open>Clearing\<close>

definition release_hash_elem :: "off \<Rightarrow> LsShmHash \<Rightarrow> bool \<times> LsShmHash" where
  "release_hash_elem iterOff h =
     (case offset2iterator iterOff h of
        (None, h) \<Rightarrow> (True, h)
      | (Some iter, h) \<Rightarrow> (True, hash_release2 iterOff (x_iLen iter) h))"

definition hash_clear :: "env \<Rightarrow> LsShmHash \<Rightarrow> LsShmHash" where
  "hash_clear E h =
     (let (n, h) = for_each2 (begin_off h) release_hash_elem h in
      if offset2ptr (h_pool h) (x_iBitMap h) then
        let h = h\<lparr>h_bits := (\<lambda>_. False), h_idx := replicate (x_iCapacity h) 0, x_iSize := 0\<rparr>;
            h = (if flag_lru h then h\<lparr>linkFirst := 0, linkLast := 0, nvalset := 0, ndataset := 0\<rparr> else h)
        in if flag_tid h then clearCb E h else h
      else h)"

section \<open>Trimming\<close>

text \<open>
  The callback of the trim functions reads the element and answers an integer; \<open>None\<close> is a
  \<open>NULL\<close> callback.
\<close>

type_synonym trim_cb = "(LsShmHElem \<Rightarrow> int) option"

definition trim_erase :: "env \<Rightarrow> off \<Rightarrow> int \<Rightarrow> LsShmHash \<Rightarrow> LsShmHash" where
  "trim_erase E offElem ret h =
     (let h = eraseIteratorHelper E offElem h
      in h\<lparr>ndataexp := ndataexp h + ret, ndataset := ndataset h - ret\<rparr>)"

fun trim_loop :: "nat \<Rightarrow> env \<Rightarrow> int \<Rightarrow> trim_cb \<Rightarrow> off \<Rightarrow> nat \<Rightarrow> LsShmHash \<Rightarrow> nat \<times> LsShmHash" where
  "trim_loop 0 E tmCutoff fn offElem del h = (del, h)"
| "trim_loop (Suc k) E tmCutoff fn offElem del h =
     (if offElem = 0 then (del, h)
      else
        let h = (if flag_tid h then checkTidTbl E h else h); (it, h) = offset2iterator offElem h in
        case it of None \<Rightarrow> (del, h)
        | Some pElem \<Rightarrow>
            let link = getLruLinkPtr h offElem pElem;
                lasttime = (if link then x_lasttime pElem else 0);
                next = (if link then x_iLinkNext pElem else 0);
                ret = (case fn of None \<Rightarrow> 1 | Some f \<Rightarrow> f pElem)
            in
            if lasttime \<ge> tmCutoff then (del, h)
            else if fn \<noteq> None \<and> ret < 0 then (del, h)
            else if ret = 1 then trim_loop k E tmCutoff fn next (del + 1) (trim_erase E offElem ret h)
            else trim_loop k E tmCutoff fn next del (linkSetTop E offElem h))"

definition trim :: "env \<Rightarrow> int \<Rightarrow> trim_cb \<Rightarrow> LsShmHash \<Rightarrow> nat option \<times> LsShmHash" where
  "trim E tmCutoff fn h =
     (if \<not> flag_lru h then (None, h)
      else
        let (del, h) = trim_loop (Suc (x_iSize h)) E tmCutoff fn (linkLast h) 0 h
        in (Some del, h\<lparr>nvalexp := nvalexp h + int del\<rparr>))"

fun trimsize_loop :: "nat \<Rightarrow> env \<Rightarrow> int \<Rightarrow> trim_cb \<Rightarrow> off \<Rightarrow> nat \<Rightarrow> LsShmHash \<Rightarrow> nat \<times> LsShmHash" where
  "trimsize_loop 0 E need fn offElem del h = (del, h)"
| "trimsize_loop (Suc k) E need fn offElem del h =
     (if offElem \<noteq> 0 \<and> need > 0 then
        let h = (if flag_tid h then checkTidTbl E h else h); (it, h) = offset2iterator offElem h in
        case it of None \<Rightarrow> (del, h)
        | Some pElem \<Rightarrow>
            let next = (if getLruLinkPtr h offElem pElem then x_iLinkNext pElem else 0);
                ret = (case fn of None \<Rightarrow> 1 | Some f \<Rightarrow> f pElem)
            in trimsize_loop k E (need - int (x_iLen pElem)) fn next (del + 1) (trim_erase E offElem ret h)
      else (del, h))"

definition trimsize :: "env \<Rightarrow> int \<Rightarrow> trim_cb \<Rightarrow> LsShmHash \<Rightarrow> nat option \<times> LsShmHash" where
  "trimsize E need fn h =
     (if \<not> flag_lru h then (None, h)
      else
        let (del, h) = trimsize_loop (Suc (x_iSize h)) E need fn (linkLast h) 0 h
        in (Some del, h\<lparr>nvalexp := nvalexp h + int del\<rparr>))"

fun trimByCb_loop :: "nat \<Rightarrow> env \<Rightarrow> trim_cb \<Rightarrow> off \<Rightarrow> nat \<Rightarrow> LsShmHash \<Rightarrow> nat \<times> LsShmHash" where
  "trimByCb_loop 0 E fn offElem del h = (del, h)"
| "trimByCb_loop (Suc maxCnt) E fn offElem del h =
     (if offElem \<noteq> 0 then
        let h = (if flag_tid h then checkTidTbl E h else h); (it, h) = offset2iterator offElem h in
        case it of None \<Rightarrow> (del, h)
        | Some pElem \<Rightarrow>
            let next = (if getLruLinkPtr h offElem pElem then x_iLinkNext pElem else 0);
                ret = (case fn of None \<Rightarrow> 1 | Some f \<Rightarrow> f pElem)
            in
            if fn \<noteq> None \<and> ret < 0 then (del, h)
            else if fn \<noteq> None \<and> ret = 0 then trimByCb_loop maxCnt E fn next del h
            else trimByCb_loop maxCnt E fn next (del + 1) (trim_erase E offElem ret h)
      else (del, h))"

definition trimByCb :: "env \<Rightarrow> nat \<Rightarrow> trim_cb \<Rightarrow> LsShmHash \<Rightarrow> nat option \<times> LsShmHash" where
  "trimByCb E maxCnt fn h =
     (if \<not> flag_lru h then (None, h)
      else
        let (del, h) = trimByCb_loop maxCnt E fn (linkLast h) 0 h
        in (Some del, h\<lparr>nvalexp := nvalexp h + int del\<rparr>))"

definition touchLru :: "env \<Rightarrow> off \<Rightarrow> LsShmHash \<Rightarrow> LsShmHash" where
  "touchLru E iterOff h =
     (if \<not> flag_lru h then h
      else case offset2iterator iterOff h of
        (None, h) \<Rightarrow> h
      | (Some _, h) \<Rightarrow> linkSetTop E iterOff h)"

section \<open>Lookups by time and the consistency check\<close>

fun nextTm_loop :: "nat \<Rightarrow> int \<Rightarrow> off \<Rightarrow> LsShmHash \<Rightarrow> off \<times> LsShmHash" where
  "nextTm_loop 0 tmCutoff iterOff h = (iterOff, h)"
| "nextTm_loop (Suc k) tmCutoff iterOff h =
     (if iterOff = 0 then (0, h)
      else case offset2iterator iterOff h of
        (None, h) \<Rightarrow> (iterOff, h)
      | (Some iter, h) \<Rightarrow>
          let link = getLruLinkPtr h iterOff iter in
          if (if link then x_lasttime iter else 0) > tmCutoff then (iterOff, h)
          else nextTm_loop k tmCutoff (if link then x_iLinkNext iter else 0) h)"

definition nextTmLruIterOff :: "int \<Rightarrow> LsShmHash \<Rightarrow> off \<times> LsShmHash" where
  "nextTmLruIterOff tmCutoff h =
     (if \<not> flag_lru h then (0, h)
      else if tmCutoff > 0 then nextTm_loop (Suc (x_iSize h)) tmCutoff (linkLast h) h
      else (linkLast h, h))"

fun prevTm_loop :: "nat \<Rightarrow> int \<Rightarrow> off \<Rightarrow> LsShmHash \<Rightarrow> off \<times> LsShmHash" where
  "prevTm_loop 0 tmCutoff iterOff h = (iterOff, h)"
| "prevTm_loop (Suc k) tmCutoff iterOff h =
     (if iterOff = 0 then (0, h)
      else case offset2iterator iterOff h of
        (None, h) \<Rightarrow> (iterOff, h)
      | (Some iter, h) \<Rightarrow>
          let link = getLruLinkPtr h iterOff iter in
          if (if link then x_lasttime iter else 0) < tmCutoff then (iterOff, h)
          else prevTm_loop k tmCutoff (if link then x_iLinkPrev iter else 0) h)"

definition prevTmLruIterOff :: "int \<Rightarrow> LsShmHash \<Rightarrow> off \<times> LsShmHash" where
  "prevTmLruIterOff tmCutoff h =
     (if \<not> flag_lru h then (0, h)
      else if tmCutoff > 0 then prevTm_loop (Suc (x_iSize h)) tmCutoff (linkFirst h) h
      else (linkFirst h, h))"

datatype lru_status = SHMLRU_CHECKOK | SHMLRU_BADINIT | SHMLRU_BADVALCNT | SHMLRU_BADDATACNT

text \<open>\<open>check\<close>, without an LRU addon: count the list from \<open>linkLast\<close>.\<close>

fun check_loop :: "nat \<Rightarrow> off \<Rightarrow> int \<Rightarrow> LsShmHash \<Rightarrow> int \<times> LsShmHash" where
  "check_loop 0 offElem valcnt h = (valcnt, h)"
| "check_loop (Suc k) offElem valcnt h =
     (if offElem = 0 then (valcnt, h)
      else case offset2iterator offElem h of
        (None, h) \<Rightarrow> (valcnt, h)
      | (Some pElem, h) \<Rightarrow>
          check_loop k (if getLruLinkPtr h offElem pElem then x_iLinkNext pElem else 0) (valcnt + 1) h)"

definition check :: "LsShmHash \<Rightarrow> lru_status \<times> LsShmHash" where
  "check h =
     (if \<not> flag_lru h then (SHMLRU_BADINIT, h)
      else
        let (valcnt, h) = check_loop (Suc (x_iSize h)) (linkLast h) 0 h in
        (if valcnt \<noteq> nvalset h then SHMLRU_BADVALCNT
         else if 0 \<noteq> ndataset h then SHMLRU_BADDATACNT
         else SHMLRU_CHECKOK, h))"

section \<open>Statistics\<close>

record LsHashStat =
  st_num :: nat
  st_numIdx :: nat
  st_numIdxOccupied :: nat
  st_numDup :: nat
  st_maxLink :: nat
  st_top :: "nat list"

definition NUM_SAMPLE :: nat where [lay_simps]: "NUM_SAMPLE = 0x20"

text \<open>\<open>statIdx\<close>: length of a chain and the number of repeated hash keys among the sampled ones.\<close>

fun statIdx_loop :: "nat \<Rightarrow> u32 list \<Rightarrow> nat \<Rightarrow> nat \<Rightarrow> off \<Rightarrow> LsShmHash \<Rightarrow> nat \<times> nat \<times> LsShmHash" where
  "statIdx_loop 0 keyTable curDup numInIdx iterOff h = (numInIdx, curDup, h)"
| "statIdx_loop (Suc k) keyTable curDup numInIdx iterOff h =
     (if iterOff = 0 then (numInIdx, curDup, h)
      else case offset2iterator iterOff h of
        (None, h) \<Rightarrow> (numInIdx, curDup, h)
      | (Some iter, h) \<Rightarrow>
          let dup = x_hkey iter \<in> set keyTable;
              keyTable = (if \<not> dup \<and> length keyTable < NUM_SAMPLE then keyTable @ [x_hkey iter] else keyTable)
          in statIdx_loop k keyTable (if dup then curDup + 1 else curDup) (numInIdx + 1) (x_iNext iter) h)"

definition stat_topidx :: "nat \<Rightarrow> nat" where
  "stat_topidx num =
     (if num \<le> 5 then num - 1 else if num \<le> 10 then 5 else if num \<le> 20 then 6
      else if num \<le> 50 then 7 else if num \<le> 100 then 8 else 9)"

fun stat_loop :: "off list \<Rightarrow> LsHashStat \<Rightarrow> LsShmHash \<Rightarrow> LsHashStat \<times> LsShmHash" where
  "stat_loop [] st h = (st, h)"
| "stat_loop (p # ps) st h =
     (let st = st\<lparr>st_numIdx := st_numIdx st + 1\<rparr> in
      if p \<noteq> 0 then
        let st = st\<lparr>st_numIdxOccupied := st_numIdxOccupied st + 1\<rparr>;
            (num, dup, h) = statIdx_loop (Suc (x_iSize h)) [] 0 0 p h;
            st = st\<lparr>st_numDup := st_numDup st + dup\<rparr>;
            st = (if num \<noteq> 0 then
                    st\<lparr>st_num := st_num st + num, st_maxLink := max (st_maxLink st) num,
                       st_top := (st_top st)[stat_topidx num := st_top st ! stat_topidx num + 1]\<rparr>
                  else st)
        in stat_loop ps st h
      else stat_loop ps st h)"

definition hash_stat :: "LsShmHash \<Rightarrow> LsHashStat \<times> LsShmHash" where
  "hash_stat h =
     stat_loop (h_idx h) \<lparr>st_num = 0, st_numIdx = 0, st_numIdxOccupied = 0, st_numDup = 0, st_maxLink = 0,
       st_top = replicate 10 0\<rparr> h"

section \<open>Updates with a given transaction id\<close>

definition tid_doSet :: "env \<Rightarrow> bytes \<Rightarrow> valarg \<Rightarrow> LsShmHash \<Rightarrow> off \<times> LsShmHash" where
  "tid_doSet E key val h =
     (let offElem = findPtr E key h; hkey = m_hf E key in
      if offElem \<noteq> 0 then
        case offset2iterator offElem h of
          (None, h) \<Rightarrow> (0, h)
        | (Some pElem, h) \<Rightarrow>
            if snd val < e_valLen pElem then
              let h = (case fst val of None \<Rightarrow> h
                       | Some v \<Rightarrow> upd_elem offElem (\<lambda>e. e\<lparr>e_val := wr (e_val e) 0 (take (snd val) v)\<rparr>) h);
                  h = upd_elem offElem (\<lambda>e. e\<lparr>e_valLen := snd val\<rparr>) h
              in (offElem, unlinkTid E (x_tid pElem) h)
            else insertCopy2 E hkey key val (eraseIteratorHelper E offElem h)
      else insertCopy2 E hkey key val h)"

definition tid_setIter :: "env \<Rightarrow> bytes \<Rightarrow> valarg \<Rightarrow> u64 \<Rightarrow> LsShmHash \<Rightarrow> bool \<times> LsShmHash" where
  "tid_setIter E key val tid h =
     (let (offElem, h) = tid_doSet E key val h in
      if offElem \<noteq> 0 then (True, linkTid E offElem tid h) else (False, h))"

definition tid_delIter :: "env \<Rightarrow> off \<Rightarrow> LsShmHash \<Rightarrow> LsShmHash" where
  "tid_delIter E offElem h = eraseIteratorHelper E offElem h"

end
