(* ===== verification/Lsmcd_Chains.thy ===== *)
theory Lsmcd_Chains
  imports Lsmcd_Prelude
begin

text \<open>
  Pointer chains. The free buckets, the hash chains, the free page list and the LRU list are all
  linked through offsets stored in their members. \<open>sseg\<close> says that a list of offsets is a singly
  linked segment, \<open>dseg\<close> that it is a doubly linked one; the segment ends with the link \<open>nx\<close>.
  The lemmas give the effect of the pointer updates the code makes: push, removal, replacement.
\<close>

definition hd0 :: "off list \<Rightarrow> off \<Rightarrow> off" where
  "hd0 xs nx = (case xs of [] \<Rightarrow> nx | x # _ \<Rightarrow> x)"

definition last0 :: "off \<Rightarrow> off list \<Rightarrow> off" where
  "last0 pv xs = (if xs = [] then pv else last xs)"

lemma hd0_simps [simp]: "hd0 [] nx = nx" "hd0 (x # xs) nx = x"
  by (simp_all add: hd0_def)

lemma hd0_append [simp]: "hd0 (xs @ ys) nx = hd0 xs (hd0 ys nx)"
  by (cases xs) auto

lemma last0_simps [simp]: "last0 pv [] = pv" "last0 pv (x # xs) = last0 x xs"
  by (auto simp: last0_def)

lemma last0_append [simp]: "last0 pv (xs @ ys) = last0 (last0 pv xs) ys"
  by (auto simp: last0_def)

lemma last0_in: "last0 pv xs = pv \<and> xs = [] \<or> last0 pv xs \<in> set xs"
  by (auto simp: last0_def)

lemma hd0_in: "hd0 xs nx = nx \<and> xs = [] \<or> hd0 xs nx \<in> set xs"
  by (cases xs) auto

section \<open>Singly linked segments\<close>

fun sseg :: "(off \<Rightarrow> off option) \<Rightarrow> off list \<Rightarrow> off \<Rightarrow> bool" where
  "sseg N [] nx = True"
| "sseg N (x # xs) nx = (N x = Some (hd0 xs nx) \<and> sseg N xs nx)"

lemma sseg_append: "sseg N (xs @ ys) nx \<longleftrightarrow> sseg N xs (hd0 ys nx) \<and> sseg N ys nx"
  by (induction xs) auto

lemma sseg_cong: "(\<And>x. x \<in> set xs \<Longrightarrow> N' x = N x) \<Longrightarrow> sseg N' xs nx = sseg N xs nx"
  by (induction xs) auto

lemma sseg_upd_other [simp]: "x \<notin> set xs \<Longrightarrow> sseg (N(x := v)) xs nx = sseg N xs nx"
  by (rule sseg_cong) auto

lemma sseg_dom: "sseg N xs nx \<Longrightarrow> x \<in> set xs \<Longrightarrow> N x \<noteq> None"
  by (induction xs) auto

lemma sseg_relink:
  "sseg N (xs @ [x]) nx \<Longrightarrow> distinct (xs @ [x]) \<Longrightarrow> sseg (N(x := Some nx')) (xs @ [x]) nx'"
  by (simp add: sseg_append)

section \<open>Doubly linked segments\<close>

fun dseg :: "(off \<Rightarrow> off option) \<Rightarrow> (off \<Rightarrow> off option) \<Rightarrow> off \<Rightarrow> off list \<Rightarrow> off \<Rightarrow> bool" where
  "dseg N P pv [] nx = True"
| "dseg N P pv (x # xs) nx = (N x = Some (hd0 xs nx) \<and> P x = Some pv \<and> dseg N P x xs nx)"

lemma dseg_append: "dseg N P pv (xs @ ys) nx \<longleftrightarrow> dseg N P pv xs (hd0 ys nx) \<and> dseg N P (last0 pv xs) ys nx"
  by (induction xs arbitrary: pv) auto

lemma dseg_cong:
  "(\<And>x. x \<in> set xs \<Longrightarrow> N' x = N x \<and> P' x = P x) \<Longrightarrow> dseg N' P' pv xs nx = dseg N P pv xs nx"
  by (induction xs arbitrary: pv) auto

lemma dseg_dom: "dseg N P pv xs nx \<Longrightarrow> x \<in> set xs \<Longrightarrow> N x \<noteq> None"
  by (induction xs arbitrary: pv) auto

lemma dseg_mono_dom: "dseg N P pv xs nx \<Longrightarrow> x \<in> set xs \<Longrightarrow> \<exists>a b. N x = Some a \<and> P x = Some b"
  by (induction xs arbitrary: pv) auto

lemma dseg_split:
  assumes "dseg N P pv xs nx" and "x \<in> set xs"
  obtains ys zs where "xs = ys @ x # zs" "dseg N P pv ys x" "N x = Some (hd0 zs nx)"
    "P x = Some (last0 pv ys)" "dseg N P x zs nx"
proof -
  from assms(2) obtain ys zs where "xs = ys @ x # zs" by (meson split_list)
  with assms(1) show ?thesis by (intro that [of ys zs]) (auto simp: dseg_append)
qed

text \<open>Changing the link behind a segment: only the last member's next link changes.\<close>

lemma dseg_set_next:
  assumes "dseg N P pv xs nx" and "distinct xs"
    and "\<And>x. x \<in> set xs \<Longrightarrow> P' x = P x"
    and "\<And>x. x \<in> set xs \<Longrightarrow> x \<noteq> last xs \<Longrightarrow> N' x = N x"
    and "xs \<noteq> [] \<Longrightarrow> N' (last xs) = Some nx'"
  shows "dseg N' P' pv xs nx'"
  using assms
proof (induction xs arbitrary: pv)
  case (Cons x xs)
  show ?case
  proof (cases "xs = []")
    case True
    with Cons.prems show ?thesis by simp
  next
    case False
    with Cons.prems(2) have "x \<noteq> last xs" by auto
    with Cons.prems False have "N' x = N x" "P' x = P x" by auto
    moreover have "dseg N' P' x xs nx'"
      using Cons.prems False by (intro Cons.IH) auto
    ultimately show ?thesis using Cons.prems(1) False by (cases xs) auto
  qed
qed simp

text \<open>Changing the link before a segment: only the first member's previous link changes.\<close>

lemma dseg_set_prev:
  assumes "dseg N P pv xs nx" and "distinct xs"
    and "\<And>x. x \<in> set xs \<Longrightarrow> N' x = N x"
    and "\<And>x. x \<in> set xs \<Longrightarrow> x \<noteq> hd xs \<Longrightarrow> P' x = P x"
    and "xs \<noteq> [] \<Longrightarrow> P' (hd xs) = Some pv'"
  shows "dseg N' P' pv' xs nx"
proof (cases xs)
  case (Cons x ys)
  with assms have "dseg N' P' x ys nx = dseg N P x ys nx"
    by (intro dseg_cong) auto
  with Cons assms show ?thesis by auto
qed simp

end
