(* ===== verification/LsShmPoolInv.thy ===== *)
theory LsShmPoolInv
  imports LsShmPool Lsmcd_Chains "HOL-Library.Multiset"
begin

text \<open>
  The invariant of the page list. The blocks of the pool are a multiset of intervals, and the heart of
  the invariant is a count: every byte of the used part of the file is covered by at most one block.
  Splitting and joining blocks leave the count as it is, so the preservation proofs are sums.
\<close>


section \<open>Byte cover\<close>

type_synonym block = "off \<times> nat"

definition cov1 :: "block \<Rightarrow> nat \<Rightarrow> nat" where
  "cov1 b x = (if fst b \<le> x \<and> x < fst b + snd b then 1 else 0)"

definition cov :: "block multiset \<Rightarrow> nat \<Rightarrow> nat" where
  "cov M x = (\<Sum>b\<in>#M. cov1 b x)"

lemma cov_simps [simp]:
  "cov {#} x = 0" "cov (add_mset b M) x = cov1 b x + cov M x" "cov (M + M') x = cov M x + cov M' x"
  by (simp_all add: cov_def)

lemma cov1_le_cov: "b \<in># M \<Longrightarrow> cov1 b x \<le> cov M x"
  by (metis cov_simps(2) insert_DiffM le_add1)

lemma cov1_split: "cov1 (a, n + m) x = cov1 (a, n) x + cov1 (a + n, m) x"
  by (auto simp: cov1_def)

lemma cov1_empty [simp]: "cov1 (a, 0) x = 0"
  by (simp add: cov1_def)

lemma cov1_mono: "n \<le> m \<Longrightarrow> cov1 (a, n) x \<le> cov1 (a, m) x"
  by (auto simp: cov1_def)

lemma cov_sum: "cov (\<Sum>i\<in>I. F i) x = (\<Sum>i\<in>I. cov (F i) x)"
  by (induction I rule: infinite_finite_induct) auto

definition blk_disj :: "block \<Rightarrow> block \<Rightarrow> bool" where
  "blk_disj a b \<longleftrightarrow> fst a + snd a \<le> fst b \<or> fst b + snd b \<le> fst a"

lemma cov_le1_disj:
  assumes "\<And>x. cov (add_mset a M) x \<le> 1" and "b \<in># M" "0 < snd a" "0 < snd b"
  shows "blk_disj a b"
proof (rule ccontr)
  assume n: "\<not> blk_disj a b"
  define x where "x = max (fst a) (fst b)"
  from n assms(3,4) have "cov1 a x = 1" "cov1 b x = 1"
    by (auto simp: blk_disj_def cov1_def x_def)
  moreover have "cov1 b x \<le> cov M x" using assms(2) by (rule cov1_le_cov)
  ultimately show False using assms(1) [of x] by simp
qed

section \<open>The invariant\<close>

definition fsz :: "shm_pool \<Rightarrow> off \<Rightarrow> nat" where
  "fsz p x = (case ft p x of None \<Rightarrow> 0 | Some t \<Rightarrow> x_iFreeSize t)"

definition fnx :: "shm_pool \<Rightarrow> off \<Rightarrow> off option" where
  "fnx p x = map_option x_iFreeNext (ft p x)"

definition fpv :: "shm_pool \<Rightarrow> off \<Rightarrow> off option" where
  "fpv p x = map_option x_iFreePrev (ft p x)"

definition page_list :: "shm_pool \<Rightarrow> off list \<Rightarrow> bool" where
  "page_list p pl \<longleftrightarrow> x_iFreePageList p = hd0 pl 0 \<and> dseg (fnx p) (fpv p) 0 pl 0 \<and>
     dom (ft p) = set pl \<and> distinct pl \<and> 0 \<notin> set pl"

definition bucket_chains :: "shm_pool \<Rightarrow> (nat \<Rightarrow> off list) \<Rightarrow> bool" where
  "bucket_chains p bl \<longleftrightarrow> bl 0 = [] \<and>
     (\<forall>k<LSSHM_POOL_NUMBUCKET. x_aFreeBucket p k = hd0 (bl k) 0 \<and> sseg (\<lambda>x. Some (bk_next p x)) (bl k) 0)"

definition bucket_blocks :: "(nat \<Rightarrow> off list) \<Rightarrow> block multiset" where
  "bucket_blocks bl = (\<Sum>k\<in>{1..<LSSHM_POOL_NUMBUCKET}. image_mset (\<lambda>x. (x, k * LSSHM_POOL_BCKTINCR)) (mset (bl k)))"

definition page_blocks :: "shm_pool \<Rightarrow> off list \<Rightarrow> block multiset" where
  "page_blocks p pl = image_mset (\<lambda>x. (x, fsz p x)) (mset pl)"

definition chunk_block :: "shm_pool \<Rightarrow> block" where
  "chunk_block p = (x_iStart p, x_iEnd p - x_iStart p)"

definition size_ok :: "shm_pool \<Rightarrow> bool" where
  "size_ok p \<longleftrightarrow> LSSHM_SHM_UNITSIZE dvd m_iUsedSize p \<and> LSSHM_SHM_UNITSIZE \<le> m_iUsedSize p \<and>
     m_iUsedSize p \<le> m_iFileSize p \<and> m_iFileSize p < 2 ^ 32 \<and>
     m_iFileSize p \<le> off2ptr_pages p * LARGE_PAGE_SIZE"

text \<open>Every byte of the used part is covered by at most one block, and no other byte is covered.\<close>

definition cov_ok :: "shm_pool \<Rightarrow> block multiset \<Rightarrow> bool" where
  "cov_ok p M \<longleftrightarrow> (\<forall>x. cov M x \<le> (if LSSHM_SHM_UNITSIZE \<le> x \<and> x < m_iUsedSize p then 1 else 0))"

definition unit_ok :: "nat \<Rightarrow> block multiset \<Rightarrow> bool" where
  "unit_ok u M \<longleftrightarrow> (\<forall>b\<in>#M. u dvd fst b \<and> u dvd snd b \<and> 0 < snd b)"

section \<open>Frame lemmas\<close>

lemma offset2ptr_frame [simp]:
  "offset2ptr (p\<lparr>ft := a\<rparr>) y = offset2ptr p y" "offset2ptr (p\<lparr>fb := b\<rparr>) y = offset2ptr p y"
  "offset2ptr (p\<lparr>x_stat := c\<rparr>) y = offset2ptr p y" "offset2ptr (p\<lparr>x_iFreePageList := d\<rparr>) y = offset2ptr p y"
  "offset2ptr (p\<lparr>bk_next := e\<rparr>) y = offset2ptr p y" "offset2ptr (p\<lparr>x_aFreeBucket := g\<rparr>) y = offset2ptr p y"
  "offset2ptr (p\<lparr>x_iStart := i\<rparr>) y = offset2ptr p y" "offset2ptr (p\<lparr>x_iEnd := j\<rparr>) y = offset2ptr p y"
  "offset2ptr (set_ft_next o1 n p) y = offset2ptr p y" "offset2ptr (set_ft_prev o1 n p) y = offset2ptr p y"
  "offset2ptr (set_ft_size o1 n p) y = offset2ptr p y" "offset2ptr (markTopUsed o1 p) y = offset2ptr p y"
  "offset2ptr (disconnectFromFree ap p) y = offset2ptr p y"
  by (simp_all add: offset2ptr_def isOffsetValid_def set_ft_next_def set_ft_prev_def set_ft_size_def
      markTopUsed_def disconnectFromFree_def Let_def)

lemma offset2ptr_in: "size_ok p \<Longrightarrow> 32 \<le> x \<Longrightarrow> x < m_iFileSize p \<Longrightarrow> offset2ptr p x"
  by (auto simp: offset2ptr_def isOffsetValid_def size_ok_def LARGE_PAGE_SIZE_def
      intro!: less_mult_imp_div_less)

text \<open>What a block of a covered set says about its place.\<close>

lemma cov_ok_block:
  assumes "cov_ok p M" "b \<in># M" "0 < snd b"
  shows "LSSHM_SHM_UNITSIZE \<le> fst b" "fst b + snd b \<le> m_iUsedSize p"
proof -
  have "1 \<le> cov M (fst b)" "1 \<le> cov M (fst b + snd b - 1)"
    using cov1_le_cov [OF assms(2), of "fst b"] cov1_le_cov [OF assms(2), of "fst b + snd b - 1"] assms(3)
    by (auto simp: cov1_def split: if_splits)
  with assms(1) [unfolded cov_ok_def, rule_format, of "fst b"]
    assms(1) [unfolded cov_ok_def, rule_format, of "fst b + snd b - 1"]
  show "LSSHM_SHM_UNITSIZE \<le> fst b" "fst b + snd b \<le> m_iUsedSize p"
    using assms(3) by (auto split: if_splits)
qed

lemma cov_ok_mono:
  assumes "cov_ok p M" "\<And>x. cov M' x \<le> cov M x" "m_iUsedSize p \<le> m_iUsedSize p'"
  shows "cov_ok p' M'"
  unfolding cov_ok_def
proof (intro allI)
  fix x
  from assms(1) have "cov M x \<le> (if LSSHM_SHM_UNITSIZE \<le> x \<and> x < m_iUsedSize p then 1 else 0)"
    by (simp add: cov_ok_def)
  with assms(2) [of x] assms(3) show "cov M' x \<le> (if LSSHM_SHM_UNITSIZE \<le> x \<and> x < m_iUsedSize p' then 1 else 0)"
    by (auto split: if_splits)
qed

lemma cov_ok_le1: "cov_ok p M \<Longrightarrow> cov M x \<le> 1"
  unfolding cov_ok_def by (drule spec [of _ x]) (auto split: if_splits)

section \<open>The page list\<close>

lemma set_ft_simps:
  "ft (set_ft_next o1 n p) = (ft p)(o1 := map_option (\<lambda>t. t\<lparr>x_iFreeNext := n\<rparr>) (ft p o1))"
  "ft (set_ft_prev o1 n p) = (ft p)(o1 := map_option (\<lambda>t. t\<lparr>x_iFreePrev := n\<rparr>) (ft p o1))"
  "ft (set_ft_size o1 n p) = (ft p)(o1 := map_option (\<lambda>t. t\<lparr>x_iFreeSize := n\<rparr>) (ft p o1))"
  "x_iFreePageList (set_ft_next o1 n p) = x_iFreePageList p"
  "x_iFreePageList (set_ft_prev o1 n p) = x_iFreePageList p"
  "x_iFreePageList (set_ft_size o1 n p) = x_iFreePageList p"
  by (simp_all add: set_ft_next_def set_ft_prev_def set_ft_size_def)

text \<open>Everything of the pool but the page list and its statistics.\<close>

definition same_rest :: "shm_pool \<Rightarrow> shm_pool \<Rightarrow> bool" where
  "same_rest p p' \<longleftrightarrow> m_iUsedSize p' = m_iUsedSize p \<and> m_iFileSize p' = m_iFileSize p \<and>
     m_iMaxShmSize p' = m_iMaxShmSize p \<and>
     off2ptr_pages p' = off2ptr_pages p \<and> x_iStart p' = x_iStart p \<and> x_iEnd p' = x_iEnd p \<and>
     x_iFreeList p' = x_iFreeList p \<and> x_aFreeBucket p' = x_aFreeBucket p \<and> bk_next p' = bk_next p"

lemma same_rest_refl [simp]: "same_rest p p"
  by (simp add: same_rest_def)

lemma same_rest_trans [trans]: "same_rest p q \<Longrightarrow> same_rest q r \<Longrightarrow> same_rest p r"
  by (simp add: same_rest_def)

lemma same_rest_upd [simp]:
  "same_rest p (q\<lparr>ft := a\<rparr>) = same_rest p q" "same_rest p (q\<lparr>fb := b\<rparr>) = same_rest p q"
  "same_rest p (q\<lparr>x_stat := c\<rparr>) = same_rest p q" "same_rest p (q\<lparr>x_iFreePageList := d\<rparr>) = same_rest p q"
  by (simp_all add: same_rest_def)

lemma same_rest_ops [simp]:
  "same_rest p (set_ft_next o1 n q) = same_rest p q" "same_rest p (set_ft_prev o1 n q) = same_rest p q"
  "same_rest p (set_ft_size o1 n q) = same_rest p q" "same_rest p (markTopUsed o1 q) = same_rest p q"
  "same_rest p (disconnectFromFree ap q) = same_rest p q"
  by (simp_all add: set_ft_next_def set_ft_prev_def set_ft_size_def markTopUsed_def
      disconnectFromFree_def Let_def)

text \<open>Removing a block of the list, with its tag already marked as used.\<close>

lemma page_list_disconnect:
  assumes pl: "page_list p (ys @ o1 # zs)" and ap: "ft p o1 = Some ap"
    and mapped: "\<And>x. x \<in> set (ys @ zs) \<Longrightarrow> offset2ptr p x"
  defines "p' \<equiv> disconnectFromFree ap (markTopUsed o1 p)"
  shows "page_list p' (ys @ zs)" and "\<And>x. x \<noteq> o1 \<Longrightarrow> fsz p' x = fsz p x"
proof -
  have nx: "x_iFreeNext ap = hd0 zs 0" and pv: "x_iFreePrev ap = last0 0 ys"
    and ys: "dseg (fnx p) (fpv p) 0 ys o1" and zs: "dseg (fnx p) (fpv p) o1 zs 0"
    and di: "distinct (ys @ o1 # zs)" and n0: "0 \<notin> set (ys @ o1 # zs)"
    and dm: "dom (ft p) = set (ys @ o1 # zs)"
    using pl ap by (auto simp: page_list_def dseg_append fnx_def fpv_def)
  have lz: "ys \<noteq> [] \<Longrightarrow> last ys \<notin> set zs" and hz: "zs \<noteq> [] \<Longrightarrow> hd zs \<notin> set ys"
    and neq: "ys \<noteq> [] \<Longrightarrow> zs \<noteq> [] \<Longrightarrow> hd zs \<noteq> last ys"
    using di by (cases ys rule: rev_cases; cases zs; auto)+
  have ft': "ft p' x = (if x = o1 then None
      else if ys \<noteq> [] \<and> x = last ys then map_option (\<lambda>t. t\<lparr>x_iFreeNext := hd0 zs 0\<rparr>) (ft p x)
      else if zs \<noteq> [] \<and> x = hd zs then map_option (\<lambda>t. t\<lparr>x_iFreePrev := last0 0 ys\<rparr>) (ft p x)
      else ft p x)" for x
    using di n0 mapped nx pv
    by (cases ys rule: rev_cases; cases zs)
      (auto simp: p'_def disconnectFromFree_def Let_def set_ft_simps markTopUsed_def last0_def)
  have hd': "x_iFreePageList p' = hd0 (ys @ zs) 0"
    using pl di n0 mapped nx pv
    by (cases ys rule: rev_cases; cases zs)
      (auto simp: p'_def disconnectFromFree_def Let_def set_ft_simps markTopUsed_def last0_def page_list_def)
  have "dseg (fnx p') (fpv p') 0 ys (hd0 zs 0)"
    by (rule dseg_set_next [OF ys]) (use di dm lz hz neq in \<open>auto simp: fnx_def fpv_def ft'\<close>)
  moreover have "dseg (fnx p') (fpv p') (last0 0 ys) zs 0"
    by (rule dseg_set_prev [OF zs]) (use di dm lz hz neq in \<open>auto simp: fnx_def fpv_def ft'\<close>)
  moreover have "dom (ft p') = set (ys @ zs)"
    using dm di by (auto simp: ft' dom_def split: if_splits)
  ultimately show "page_list p' (ys @ zs)"
    using hd' di n0 by (auto simp: page_list_def dseg_append)
  show "fsz p' x = fsz p x" if "x \<noteq> o1" for x
    using that by (auto simp: fsz_def ft' split: option.splits)
qed

text \<open>Replacing a block of the list by one that starts before it.\<close>


lemma page_list_replace:
  assumes pl: "page_list p (ys @ o1 # zs)" and ap: "ft p o1 = Some ap" and o2: "o2 \<noteq> 0" "o2 \<notin> set (ys @ o1 # zs)"
    and p': "ft p' = (\<lambda>x. if x = o1 then None
      else if x = o2 then Some \<lparr>x_iFreeSize = n, x_iFreeNext = x_iFreeNext ap, x_iFreePrev = x_iFreePrev ap\<rparr>
      else if x_iFreePrev ap \<noteq> 0 \<and> x = x_iFreePrev ap then map_option (\<lambda>t. t\<lparr>x_iFreeNext := o2\<rparr>) (ft p x)
      else if x_iFreeNext ap \<noteq> 0 \<and> x = x_iFreeNext ap then map_option (\<lambda>t. t\<lparr>x_iFreePrev := o2\<rparr>) (ft p x)
      else ft p x)"
    and hd': "x_iFreePageList p' = (if x_iFreePrev ap = 0 then o2 else x_iFreePageList p)"
  shows "page_list p' (ys @ o2 # zs)" and "\<And>x. x \<noteq> o1 \<Longrightarrow> x \<noteq> o2 \<Longrightarrow> fsz p' x = fsz p x"
proof -
  have nx: "x_iFreeNext ap = hd0 zs 0" and pv: "x_iFreePrev ap = last0 0 ys"
    and ys: "dseg (fnx p) (fpv p) 0 ys o1" and zs: "dseg (fnx p) (fpv p) o1 zs 0"
    and di: "distinct (ys @ o1 # zs)" and n0: "0 \<notin> set (ys @ o1 # zs)"
    and dm: "dom (ft p) = set (ys @ o1 # zs)"
    using pl ap by (auto simp: page_list_def dseg_append fnx_def fpv_def)
  have lz: "ys \<noteq> [] \<Longrightarrow> last ys \<notin> set zs" and hz: "zs \<noteq> [] \<Longrightarrow> hd zs \<notin> set ys"
    and neq: "ys \<noteq> [] \<Longrightarrow> zs \<noteq> [] \<Longrightarrow> hd zs \<noteq> last ys"
    using di by (cases ys rule: rev_cases; cases zs; auto)+
  have pv0: "(last0 0 ys \<noteq> 0) = (ys \<noteq> [])" and nx0: "(hd0 zs 0 \<noteq> 0) = (zs \<noteq> [])"
    using n0 by (cases ys rule: rev_cases; cases zs; force simp: last0_def)+
  have ft': "ft p' x = (if x = o1 then None
      else if x = o2 then Some \<lparr>x_iFreeSize = n, x_iFreeNext = hd0 zs 0, x_iFreePrev = last0 0 ys\<rparr>
      else if ys \<noteq> [] \<and> x = last ys then map_option (\<lambda>t. t\<lparr>x_iFreeNext := o2\<rparr>) (ft p x)
      else if zs \<noteq> [] \<and> x = hd zs then map_option (\<lambda>t. t\<lparr>x_iFreePrev := o2\<rparr>) (ft p x)
      else ft p x)" for x
    by (cases ys rule: rev_cases; cases zs) (use pv0 nx0 in \<open>auto simp: p' nx pv last0_def\<close>)
  have "x_iFreePageList p' = hd0 (ys @ o2 # zs) 0"
    using pl pv0 by (cases ys) (simp_all add: hd' pv page_list_def del: last0_simps)
  moreover have "dseg (fnx p') (fpv p') 0 ys o2"
    by (rule dseg_set_next [OF ys]) (use di dm o2 lz hz neq in \<open>auto simp: fnx_def fpv_def ft'\<close>)
  moreover have "dseg (fnx p') (fpv p') o2 zs 0"
    by (rule dseg_set_prev [OF zs]) (use di dm o2 lz hz neq in \<open>auto simp: fnx_def fpv_def ft'\<close>)
  moreover have "dom (ft p') = set (ys @ o2 # zs)"
  proof -
    have "ft p' x = None \<longleftrightarrow> x = o1 \<or> x \<noteq> o2 \<and> ft p x = None" for x
      using o2 by (simp add: ft')
    then have "dom (ft p') = insert o2 (dom (ft p) - {o1})"
      using o2 by (auto simp: dom_def)
    then show ?thesis using dm di by auto
  qed
  moreover have "ft p' o2 = Some \<lparr>x_iFreeSize = n, x_iFreeNext = hd0 zs 0, x_iFreePrev = last0 0 ys\<rparr>"
    using o2 by (simp add: ft')
  ultimately show "page_list p' (ys @ o2 # zs)"
    using di n0 o2 by (auto simp: page_list_def dseg_append fnx_def fpv_def)
  show "fsz p' x = fsz p x" if "x \<noteq> o1" "x \<noteq> o2" for x
    using that by (auto simp: fsz_def ft' split: option.splits)
qed

lemma page_list_push:
  assumes pl: "page_list p pl" and o2: "o2 \<noteq> 0" "o2 \<notin> set pl"
    and p': "ft p' = (\<lambda>x. if x = o2 then Some \<lparr>x_iFreeSize = n, x_iFreeNext = x_iFreePageList p, x_iFreePrev = 0\<rparr>
      else if x_iFreePageList p \<noteq> 0 \<and> x = x_iFreePageList p then map_option (\<lambda>t. t\<lparr>x_iFreePrev := o2\<rparr>) (ft p x)
      else ft p x)"
    and hd': "x_iFreePageList p' = o2"
  shows "page_list p' (o2 # pl)" and "\<And>x. x \<noteq> o2 \<Longrightarrow> fsz p' x = fsz p x"
proof -
  have l: "x_iFreePageList p = hd0 pl 0" "dseg (fnx p) (fpv p) 0 pl 0" "distinct pl" "0 \<notin> set pl" "dom (ft p) = set pl"
    using pl by (auto simp: page_list_def)
  have "dseg (fnx p') (fpv p') o2 pl 0"
    by (rule dseg_set_prev [OF l(2,3)]) (use l o2 in \<open>cases pl; auto simp: fnx_def fpv_def p'\<close>)+
  moreover have "dom (ft p') = set (o2 # pl)"
    using l o2 by (auto simp: p' dom_def split: if_splits)
  ultimately show "page_list p' (o2 # pl)"
    using l o2 hd' by (auto simp: page_list_def fnx_def fpv_def p')
  show "fsz p' x = fsz p x" if "x \<noteq> o2" for x
    using that by (auto simp: fsz_def p' split: option.splits)
qed

lemma page_list_resize:
  assumes "page_list p pl" "o1 \<in> set pl"
  shows "page_list (set_ft_size o1 n p) pl" "fsz (set_ft_size o1 n p) x = (if x = o1 then n else fsz p x)"
proof -
  have "fnx (set_ft_size o1 n p) = fnx p" "fpv (set_ft_size o1 n p) = fpv p"
    by (auto simp: fnx_def fpv_def set_ft_simps fun_eq_iff option.map_comp comp_def)
  moreover have "dom (ft (set_ft_size o1 n p)) = dom (ft p)"
    by (auto simp: set_ft_simps dom_def)
  ultimately show "page_list (set_ft_size o1 n p) pl"
    using assms by (simp add: page_list_def set_ft_simps)
  have "\<exists>t. ft p o1 = Some t" using assms by (auto simp: page_list_def)
  then show "fsz (set_ft_size o1 n p) x = (if x = o1 then n else fsz p x)"
    by (auto simp: fsz_def set_ft_simps)
qed


section \<open>The page list with the blocks around it\<close>

text \<open>\<open>R\<close> are all the blocks that are not on the page list.\<close>

definition pg_ok :: "shm_pool \<Rightarrow> off list \<Rightarrow> block multiset \<Rightarrow> bool" where
  "pg_ok p pl R \<longleftrightarrow> size_ok p \<and> page_list p pl \<and> unit_ok LSSHM_SHM_UNITSIZE (page_blocks p pl) \<and>
     cov_ok p (R + page_blocks p pl)"

lemma size_ok_rest: "same_rest p p' \<Longrightarrow> size_ok p' = size_ok p"
  by (simp add: same_rest_def size_ok_def)

lemma offset2ptr_rest: "same_rest p p' \<Longrightarrow> offset2ptr p' x = offset2ptr p x"
  by (simp add: same_rest_def offset2ptr_def isOffsetValid_def)

lemma pg_ok_block:
  assumes "pg_ok p pl R" "o1 \<in> set pl"
  shows "LSSHM_SHM_UNITSIZE \<le> o1" "o1 + fsz p o1 \<le> m_iUsedSize p" "LSSHM_SHM_UNITSIZE \<le> fsz p o1"
    "LSSHM_SHM_UNITSIZE dvd o1" "LSSHM_SHM_UNITSIZE dvd fsz p o1" "offset2ptr p o1"
    "\<exists>t. ft p o1 = Some t \<and> x_iFreeSize t = fsz p o1"
proof -
  have m: "(o1, fsz p o1) \<in># page_blocks p pl" using assms(2) by (auto simp: page_blocks_def)
  then have u: "LSSHM_SHM_UNITSIZE dvd o1" "LSSHM_SHM_UNITSIZE dvd fsz p o1" "0 < fsz p o1"
    using assms(1) by (auto simp: pg_ok_def unit_ok_def)
  then show "LSSHM_SHM_UNITSIZE dvd o1" "LSSHM_SHM_UNITSIZE dvd fsz p o1" "LSSHM_SHM_UNITSIZE \<le> fsz p o1"
    by (auto dest: dvd_imp_le)
  have c: "cov_ok p (R + page_blocks p pl)" using assms(1) by (simp add: pg_ok_def)
  show b: "LSSHM_SHM_UNITSIZE \<le> o1" "o1 + fsz p o1 \<le> m_iUsedSize p"
    using cov_ok_block [OF c, of "(o1, fsz p o1)"] m u by auto
  with u show "offset2ptr p o1"
    using assms(1) by (intro offset2ptr_in) (auto simp: pg_ok_def size_ok_def lay_simps)
  show "\<exists>t. ft p o1 = Some t \<and> x_iFreeSize t = fsz p o1"
  proof -
    have "o1 \<in> dom (ft p)" using assms by (simp add: pg_ok_def page_list_def)
    then show ?thesis by (auto simp: fsz_def)
  qed
qed

lemma pg_ok_notin:
  assumes "pg_ok p pl R" "(o1, n) \<in># R" "0 < n"
  shows "o1 \<notin> set pl" "LSSHM_SHM_UNITSIZE \<le> o1" "o1 + n \<le> m_iUsedSize p" "offset2ptr p o1" "o1 \<noteq> 0"
proof -
  have c: "cov_ok p (R + page_blocks p pl)" using assms(1) by (simp add: pg_ok_def)
  show b: "LSSHM_SHM_UNITSIZE \<le> o1" "o1 + n \<le> m_iUsedSize p"
    using cov_ok_block [OF c, of "(o1, n)"] assms by auto
  then show "offset2ptr p o1" "o1 \<noteq> 0"
    using assms(1,3) by (auto intro!: offset2ptr_in simp: pg_ok_def size_ok_def lay_simps)
  show "o1 \<notin> set pl"
  proof
    assume i: "o1 \<in> set pl"
    then have m: "(o1, fsz p o1) \<in># page_blocks p pl" by (auto simp: page_blocks_def)
    have "0 < fsz p o1" using pg_ok_block(3) [OF assms(1) i] by (simp add: lay_simps)
    then have "cov1 (o1, n) o1 = 1" "cov1 (o1, fsz p o1) o1 = 1" using assms(3) by (auto simp: cov1_def)
    with cov1_le_cov [OF assms(2), of o1] cov1_le_cov [OF m, of o1] cov_ok_le1 [OF c, of o1]
    show False by simp
  qed
qed

lemma page_blocks_cong: "(\<And>x. x \<in> set pl \<Longrightarrow> fsz p' x = fsz p x) \<Longrightarrow> page_blocks p' pl = page_blocks p pl"
  by (auto simp: page_blocks_def intro: image_mset_cong)

lemma page_blocks_simps [simp]:
  "page_blocks p [] = {#}" "page_blocks p (x # xs) = add_mset (x, fsz p x) (page_blocks p xs)"
  "page_blocks p (xs @ ys) = page_blocks p xs + page_blocks p ys"
  by (simp_all add: page_blocks_def)

lemma unit_ok_simps [simp]:
  "unit_ok u {#}" "unit_ok u (add_mset b M) \<longleftrightarrow> u dvd fst b \<and> u dvd snd b \<and> 0 < snd b \<and> unit_ok u M"
  "unit_ok u (M + M') \<longleftrightarrow> unit_ok u M \<and> unit_ok u M'"
  by (auto simp: unit_ok_def)

lemma pg_ok_upd:
  assumes "pg_ok p pl R" "same_rest p p'" "page_list p' pl'" "unit_ok LSSHM_SHM_UNITSIZE (page_blocks p' pl')"
    and "\<And>x. cov R' x + cov (page_blocks p' pl') x \<le> cov R x + cov (page_blocks p pl) x"
  shows "pg_ok p' pl' R'"
proof -
  have "cov_ok p (R + page_blocks p pl)" using assms(1) by (simp add: pg_ok_def)
  then have "cov_ok p' (R' + page_blocks p' pl')"
    by (rule cov_ok_mono) (use assms(2,5) in \<open>auto simp: same_rest_def\<close>)
  with assms size_ok_rest [of p p'] show ?thesis by (simp add: pg_ok_def)
qed

lemma ft_frame [simp]:
  "fsz (p\<lparr>x_stat := v0\<rparr>) = fsz p" "fnx (p\<lparr>x_stat := v0\<rparr>) = fnx p" "fpv (p\<lparr>x_stat := v0\<rparr>) = fpv p"
  "fsz (p\<lparr>fb := v1\<rparr>) = fsz p" "fnx (p\<lparr>fb := v1\<rparr>) = fnx p" "fpv (p\<lparr>fb := v1\<rparr>) = fpv p"
  "fsz (p\<lparr>x_iFreePageList := v2\<rparr>) = fsz p" "fnx (p\<lparr>x_iFreePageList := v2\<rparr>) = fnx p" "fpv (p\<lparr>x_iFreePageList := v2\<rparr>) = fpv p"
  "fsz (p\<lparr>m_iUsedSize := v3\<rparr>) = fsz p" "fnx (p\<lparr>m_iUsedSize := v3\<rparr>) = fnx p" "fpv (p\<lparr>m_iUsedSize := v3\<rparr>) = fpv p"
  "fsz (p\<lparr>m_iFileSize := v4\<rparr>) = fsz p" "fnx (p\<lparr>m_iFileSize := v4\<rparr>) = fnx p" "fpv (p\<lparr>m_iFileSize := v4\<rparr>) = fpv p"
  "fsz (p\<lparr>off2ptr_pages := v5\<rparr>) = fsz p" "fnx (p\<lparr>off2ptr_pages := v5\<rparr>) = fnx p" "fpv (p\<lparr>off2ptr_pages := v5\<rparr>) = fpv p"
  "fsz (p\<lparr>bk_next := v6\<rparr>) = fsz p" "fnx (p\<lparr>bk_next := v6\<rparr>) = fnx p" "fpv (p\<lparr>bk_next := v6\<rparr>) = fpv p"
  "fsz (p\<lparr>x_aFreeBucket := v7\<rparr>) = fsz p" "fnx (p\<lparr>x_aFreeBucket := v7\<rparr>) = fnx p" "fpv (p\<lparr>x_aFreeBucket := v7\<rparr>) = fpv p"
  "fsz (p\<lparr>x_iStart := v8\<rparr>) = fsz p" "fnx (p\<lparr>x_iStart := v8\<rparr>) = fnx p" "fpv (p\<lparr>x_iStart := v8\<rparr>) = fpv p"
  "fsz (p\<lparr>x_iEnd := v9\<rparr>) = fsz p" "fnx (p\<lparr>x_iEnd := v9\<rparr>) = fnx p" "fpv (p\<lparr>x_iEnd := v9\<rparr>) = fpv p"
  by (simp_all add: fsz_def fnx_def fpv_def fun_eq_iff)

lemma pg_ok_frame [simp]:
  "pg_ok (p\<lparr>x_stat := s\<rparr>) pl R = pg_ok p pl R" "pg_ok (p\<lparr>fb := b\<rparr>) pl R = pg_ok p pl R"
  by (simp_all add: pg_ok_def size_ok_def page_list_def cov_ok_def page_blocks_def)

lemma pg_disconnect:
  assumes ok: "pg_ok p (ys @ o1 # zs) R" and ap: "ft p o1 = Some ap"
  shows "pg_ok (disconnectFromFree ap (markTopUsed o1 p)) (ys @ zs) (add_mset (o1, fsz p o1) R)"
proof (rule pg_ok_upd [OF ok])
  let ?p = "disconnectFromFree ap (markTopUsed o1 p)"
  have pl: "page_list p (ys @ o1 # zs)" using ok by (simp add: pg_ok_def)
  note d = page_list_disconnect [OF pl ap]
  have m: "offset2ptr p x" if "x \<in> set (ys @ zs)" for x
    using pg_ok_block(6) [OF ok, of x] that by auto
  show "page_list ?p (ys @ zs)" by (rule d(1)) (rule m)
  have "distinct (ys @ o1 # zs)" using pl by (simp add: page_list_def)
  then have b: "page_blocks ?p (ys @ zs) = page_blocks p (ys @ zs)"
    by (intro page_blocks_cong d(2)) (use m in auto)
  show "unit_ok LSSHM_SHM_UNITSIZE (page_blocks ?p (ys @ zs))"
    unfolding b using ok by (simp add: pg_ok_def)
  show "cov (add_mset (o1, fsz p o1) R) x + cov (page_blocks ?p (ys @ zs)) x
      \<le> cov R x + cov (page_blocks p (ys @ o1 # zs)) x" for x
    unfolding b by simp
qed simp

lemma pg_resize:
  assumes ok: "pg_ok p pl R" and o1: "o1 \<in> set pl" and n: "LSSHM_SHM_UNITSIZE dvd n" "0 < n"
    and c: "\<And>x. cov R' x + cov1 (o1, n) x \<le> cov R x + cov1 (o1, fsz p o1) x"
  shows "pg_ok (set_ft_size o1 n p) pl R'"
proof (rule pg_ok_upd [OF ok])
  let ?p = "set_ft_size o1 n p"
  have pl: "page_list p pl" using ok by (simp add: pg_ok_def)
  show "page_list ?p pl" by (rule page_list_resize(1) [OF pl o1])
  from o1 obtain ys zs where s: "pl = ys @ o1 # zs" by (meson split_list)
  with pl have "distinct (ys @ o1 # zs)" by (simp add: page_list_def)
  then have b: "page_blocks ?p ys = page_blocks p ys" "page_blocks ?p zs = page_blocks p zs"
    using page_list_resize(2) [OF pl o1, of n] by (auto intro!: page_blocks_cong)
  show "unit_ok LSSHM_SHM_UNITSIZE (page_blocks ?p pl)"
    using ok n by (simp add: s b pg_ok_def page_list_resize(2) [OF pl o1])
  show "cov R' x + cov (page_blocks ?p pl) x \<le> cov R x + cov (page_blocks p pl) x" for x
    using c [of x] by (simp add: s b page_list_resize(2) [OF pl o1])
qed simp

end
