(* ===== verification/LsShmPoolPages.thy ===== *)
theory LsShmPoolPages
  imports LsShmPoolInv
begin

text \<open>
  Every operation of the page list keeps the invariant: first fit, the joins with the neighbours,
  growing the file and allocating pages behind the used part.
\<close>


lemma pg_mapped:
  assumes "pg_ok p pl R" "32 \<le> x" "x < m_iUsedSize p"
  shows "offset2ptr p x"
  using assms by (intro offset2ptr_in) (auto simp: pg_ok_def size_ok_def)

text \<open>Taking the last \<open>n\<close> bytes of a block of the list.\<close>

lemma pg_reduce:
  assumes ok: "pg_ok p pl R" and o1: "o1 \<in> set pl" and ap: "ft p o1 = Some ap"
    and n: "LSSHM_SHM_UNITSIZE dvd n" "0 < n" "n \<le> x_iFreeSize ap"
  defines "p' \<equiv> reduceFreeFromBot ap o1 (x_iFreeSize ap - n) p"
  shows "\<exists>pl'. pg_ok p' pl' (add_mset (o1 + (x_iFreeSize ap - n), n) R)" "same_rest p p'"
proof -
  note b = pg_ok_block [OF ok o1]
  have sz: "x_iFreeSize ap = fsz p o1" using ap by (simp add: fsz_def)
  have "(\<exists>pl'. pg_ok p' pl' (add_mset (o1 + (x_iFreeSize ap - n), n) R)) \<and> same_rest p p'"
  proof (cases "x_iFreeSize ap = n")
    case True
    obtain ys zs where s: "pl = ys @ o1 # zs" using o1 by (meson split_list)
    have "offset2ptr p (n - sizeof_FreeBot)"
      using True b sz by (intro pg_mapped [OF ok]) (auto simp: lay_simps)
    then have "p' = disconnectFromFree ap (markTopUsed o1 p)"
      using True by (simp add: p'_def reduceFreeFromBot_def Let_def)
    with pg_disconnect [OF ok [unfolded s] ap] True sz show ?thesis by auto
  next
    case False
    define m where "m = fsz p o1 - n"
    have m: "0 < m" "LSSHM_SHM_UNITSIZE dvd m" "fsz p o1 = m + n" "LSSHM_SHM_UNITSIZE \<le> m"
    proof -
      show "0 < m" "LSSHM_SHM_UNITSIZE dvd m" "fsz p o1 = m + n"
        using False n b(5) sz by (auto simp: m_def intro: dvd_diff_nat)
      then show "LSSHM_SHM_UNITSIZE \<le> m" by (auto dest: dvd_imp_le)
    qed
    then have "offset2ptr p (o1 + m - sizeof_FreeBot)"
      using b by (intro pg_mapped [OF ok]) (auto simp: lay_simps)
    then have p': "p' = set_ft_size o1 m (p\<lparr>fb := (fb p)(o1 + m - sizeof_FreeBot := Some o1)\<rparr>)"
      using m(1) by (simp add: p'_def reduceFreeFromBot_def sz m_def [symmetric])
    have "pg_ok p' pl (add_mset (o1 + m, n) R)"
      unfolding p'
    proof (rule pg_resize [where R = R])
      show "cov (add_mset (o1 + m, n) R) x + cov1 (o1, m) x
          \<le> cov R x + cov1 (o1, fsz (p\<lparr>fb := (fb p)(o1 + m - sizeof_FreeBot := Some o1)\<rparr>) o1) x" for x
        using cov1_split [of o1 m n x] by (simp add: m(3))
    qed (use ok o1 m in simp_all)
    then show ?thesis using sz by (auto simp: m_def p')
  qed
  then show "\<exists>pl'. pg_ok p' pl' (add_mset (o1 + (x_iFreeSize ap - n), n) R)" "same_rest p p'" by auto
qed

lemma getFromFreeList_loop_ok:
  assumes "pg_ok p pl R" "dseg (fnx p) (fpv p) pv zs 0" "set zs \<subseteq> set pl" "LSSHM_SHM_UNITSIZE dvd n" "0 < n"
    and "getFromFreeList_loop k n (hd0 zs 0) p = (r, p')"
  shows "same_rest p p' \<and> (\<exists>pl'. pg_ok p' pl' (if r = 0 then R else add_mset (r, n) R)) \<and> LSSHM_SHM_UNITSIZE dvd r"
  using assms
proof (induction k arbitrary: pv zs)
  case 0
  then show ?case by auto
next
  case (Suc k)
  show ?case
  proof (cases zs)
    case Nil
    with Suc.prems show ?thesis by auto
  next
    case (Cons o1 zs')
    have o1: "o1 \<in> set pl" using Cons Suc.prems by auto
    note b = pg_ok_block [OF Suc.prems(1) o1]
    obtain ap where ap: "ft p o1 = Some ap" "x_iFreeSize ap = fsz p o1" using b(7) by auto
    have nx: "x_iFreeNext ap = hd0 zs' 0" using Cons Suc.prems(2) ap by (simp add: fnx_def)
    have n0: "o1 \<noteq> 0" using b(1) by (auto simp: lay_simps)
    show ?thesis
    proof (cases "n \<le> x_iFreeSize ap")
      case True
      then have r: "r = o1 + (x_iFreeSize ap - n)" "p' = reduceFreeFromBot ap o1 (x_iFreeSize ap - n) p"
        using Suc.prems(6) Cons ap b n0 by (auto simp: Let_def)
      have "LSSHM_SHM_UNITSIZE dvd r" unfolding r using b ap(2) Suc.prems(4) by (auto intro: dvd_add dvd_diff_nat)
      with pg_reduce [OF Suc.prems(1) o1 ap(1) Suc.prems(4,5) True] n0 r show ?thesis by auto
    next
      case False
      then have "getFromFreeList_loop k n (hd0 zs' 0) p = (r, p')"
        using Suc.prems(6) Cons ap b n0 nx by (auto simp: Let_def)
      then show ?thesis using Suc.prems Cons by (intro Suc.IH [of o1 zs']) auto
    qed
  qed
qed

lemma getFromFreeList_ok:
  assumes "pg_ok p pl R" "LSSHM_SHM_UNITSIZE dvd n" "0 < n" "getFromFreeList n p = (r, p')"
  obtains pl' where "same_rest p p'" "pg_ok p' pl' (if r = 0 then R else add_mset (r, n) R)" "LSSHM_SHM_UNITSIZE dvd r"
proof -
  have "x_iFreePageList p = hd0 pl 0" "dseg (fnx p) (fpv p) 0 pl 0"
    using assms(1) by (auto simp: pg_ok_def page_list_def)
  with getFromFreeList_loop_ok [OF assms(1) _ subset_refl assms(2,3), of 0 "m_iFileSize p" r p'] assms(4)
  have "same_rest p p' \<and> (\<exists>pl'. pg_ok p' pl' (if r = 0 then R else add_mset (r, n) R)) \<and> LSSHM_SHM_UNITSIZE dvd r"
    by (simp add: getFromFreeList_def)
  then show ?thesis using that by blast
qed

section \<open>Releasing pages\<close>

lemma joinFreeList_ok:
  assumes ok: "pg_ok p pl (add_mset (o1, n) R)" and u: "LSSHM_SHM_UNITSIZE dvd o1" "LSSHM_SHM_UNITSIZE dvd n" "0 < n"
  shows "\<exists>pl'. pg_ok (joinFreeList o1 n p) pl' R" "same_rest p (joinFreeList o1 n p)"
proof -
  have "(o1, n) \<in># add_mset (o1, n) R" by simp
  note b = pg_ok_notin [OF ok this u(3)]
  have pl: "page_list p pl" using ok by (simp add: pg_ok_def)
  have n1: "1024 \<le> n" using u by (auto simp: lay_simps dest: dvd_imp_le)
  define p1 where "p1 = p\<lparr>ft := (ft p)(o1 \<mapsto> \<lparr>x_iFreeSize = n, x_iFreeNext = x_iFreePageList p, x_iFreePrev = 0\<rparr>),
                  x_iFreePageList := o1\<rparr>"
  define p2 where "p2 = (if x_iFreePageList p \<noteq> 0 \<and> offset2ptr p1 (x_iFreePageList p)
      then set_ft_prev (x_iFreePageList p) o1 p1 else p1)"
  have "offset2ptr p (o1 + n - sizeof_FreeBot)"
    using b n1 by (intro pg_mapped [OF ok]) (auto simp: lay_simps)
  then have "offset2ptr p2 (o1 + n - sizeof_FreeBot)" by (simp add: p2_def p1_def)
  then have j: "\<exists>s. joinFreeList o1 n p = p2\<lparr>fb := (fb p2)(o1 + n - sizeof_FreeBot := Some o1), x_stat := s\<rparr>"
    unfolding joinFreeList_def Let_def p1_def [symmetric] p2_def [symmetric] using b(4) by (simp del: offset2ptr_frame) blast
  have hd: "x_iFreePageList p = 0 \<or> x_iFreePageList p \<in> set pl"
    using pl hd0_in [of pl 0] by (auto simp: page_list_def)
  then have ft2: "ft p2 = (\<lambda>x. if x = o1 then Some \<lparr>x_iFreeSize = n, x_iFreeNext = x_iFreePageList p, x_iFreePrev = 0\<rparr>
      else if x_iFreePageList p \<noteq> 0 \<and> x = x_iFreePageList p then map_option (\<lambda>t. t\<lparr>x_iFreePrev := o1\<rparr>) (ft p x)
      else ft p x)" "x_iFreePageList p2 = o1"
    using pg_ok_block(6) [OF ok] b by (auto simp: p2_def p1_def set_ft_simps fun_eq_iff)
  note push = page_list_push [OF pl b(5,1) ft2]
  have bl: "page_blocks p2 pl = page_blocks p pl"
    by (rule page_blocks_cong, rule push(2)) (use b in auto)
  have f2: "fsz p2 o1 = n" by (simp add: fsz_def ft2)
  have sr: "same_rest p p2" by (simp add: p2_def p1_def)
  have "pg_ok p2 (o1 # pl) R"
    by (rule pg_ok_upd [OF ok sr push(1)]) (use ok u f2 in \<open>auto simp: bl pg_ok_def\<close>)
  with j sr show "\<exists>pl'. pg_ok (joinFreeList o1 n p) pl' R" "same_rest p (joinFreeList o1 n p)" by auto
qed

text \<open>Joining with the free block before the released one.\<close>

lemma isFreeBlockAbove_ok:
  assumes ok: "pg_ok p pl (add_mset (o1, n) R)" and u: "LSSHM_SHM_UNITSIZE dvd o1" "LSSHM_SHM_UNITSIZE dvd n" "0 < n"
    and r: "isFreeBlockAbove o1 n p = (j, p')"
  shows "\<not> j \<Longrightarrow> p' = p"
    and "j \<Longrightarrow> pg_ok p' pl R \<and> same_rest p p' \<and> (\<exists>o2. fb p' (o1 + n - sizeof_FreeBot) = Some o2 \<and> o2 \<in> set pl)"
proof -
  have "(o1, n) \<in># add_mset (o1, n) R" by simp
  note b = pg_ok_notin [OF ok this u(3)]
  have n1: "1024 \<le> n" using u by (auto simp: lay_simps dest: dvd_imp_le)
  have m: "offset2ptr p (o1 + n - sizeof_FreeBot)"
    using b n1 by (intro pg_mapped [OF ok]) (auto simp: lay_simps)
  have dom: "dom (ft p) = set pl" using ok by (simp add: pg_ok_def page_list_def)
  then have no: "ft p o1 = None" using b(1) by auto
  show "p' = p" if "\<not> j"
    using r that m b by (auto simp: isFreeBlockAbove_def Let_def split: if_splits option.splits)
  show "pg_ok p' pl R \<and> same_rest p p' \<and> (\<exists>o2. fb p' (o1 + n - sizeof_FreeBot) = Some o2 \<and> o2 \<in> set pl)" if j
  proof -
    from r that m b obtain o2 ap where o2: "ft p o2 = Some ap" "x_iFreeSize ap + o2 = o1"
      and p': "p' = markTopUsed o1 (set_ft_size o2 (x_iFreeSize ap + n) p
         \<lparr>fb := (fb (set_ft_size o2 (x_iFreeSize ap + n) p))(o1 + n - sizeof_FreeBot := Some o2)\<rparr>)"
      by (auto simp: isFreeBlockAbove_def Let_def split: if_splits option.splits)
    let ?q = "set_ft_size o2 (x_iFreeSize ap + n) p"
    have i: "o2 \<in> set pl" using dom o2 by auto
    have f: "fsz p o2 = x_iFreeSize ap" using o2 by (simp add: fsz_def)
    have "ft ?q o1 = None" using no i b(1) by (auto simp: set_ft_simps)
    then have mt: "markTopUsed o1 (?q\<lparr>fb := g\<rparr>) = ?q\<lparr>fb := g\<rparr>" for g
      by (simp add: markTopUsed_def fun_upd_idem)
    have "pg_ok ?q pl R"
      by (rule pg_resize [OF ok i])
        (use u pg_ok_block(5) [OF ok i] o2 f cov1_split [of o2 "x_iFreeSize ap" n] in \<open>auto simp: add.commute\<close>)
    then show ?thesis using i by (auto simp: p' mt)
  qed
qed

lemma isFreeBlockBelow2_ok:
  assumes ok: "pg_ok p pl R" and i: "o1 \<in> set pl" and n: "n = fsz p o1"
    and r: "isFreeBlockBelow o1 n 2 p = (j, p')"
  shows "\<exists>pl'. pg_ok p' pl' R" "same_rest p p'"
proof -
  note b = pg_ok_block [OF ok i]
  have "(\<exists>pl'. pg_ok p' pl' R) \<and> same_rest p p'"
  proof (cases "p' = p")
    case True
    then show ?thesis using ok by auto
  next
    case False
    define e where "e = o1 + n"
    from r False b obtain ap where ap: "ft p e = Some ap"
      and p': "p' = (let q = disconnectFromFree ap (markTopUsed e p);
           q = q\<lparr>ft := (ft q)(o1 := map_option
                   (\<lambda>xp. xp\<lparr>x_iFreeSize := x_iFreeSize xp + x_iFreeSize ap\<rparr>) (ft q o1))\<rparr>
         in q\<lparr>fb := (fb q)(e + x_iFreeSize ap - sizeof_FreeBot := Some o1)\<rparr>)"
      by (auto simp: isFreeBlockBelow_def Let_def e_def split: if_splits option.splits)
    let ?q = "disconnectFromFree ap (markTopUsed e p)"
    have f: "x_iFreeSize ap = fsz p e" using ap by (simp add: fsz_def)
    have pl: "page_list p pl" using ok by (simp add: pg_ok_def)
    have ie: "e \<in> set pl" using ap pl by (auto simp: page_list_def)
    then obtain ys zs where s: "pl = ys @ e # zs" by (meson split_list)
    have ne: "o1 \<noteq> e" using b n by (auto simp: e_def lay_simps)
    then have i': "o1 \<in> set (ys @ zs)" using i s by auto
    have q: "pg_ok ?q (ys @ zs) (add_mset (e, fsz p e) R)" by (rule pg_disconnect [OF ok [unfolded s] ap])
    have fq: "fsz ?q o1 = n"
      using page_list_disconnect(2) [OF pl [unfolded s] ap _ ne] pg_ok_block(6) [OF ok] n s by auto
    obtain t where t: "ft ?q o1 = Some t" "x_iFreeSize t = n" using pg_ok_block(7) [OF q i'] fq by auto
    have p'': "p' = (set_ft_size o1 (n + fsz p e) ?q)\<lparr>fb := (fb ?q)(e + x_iFreeSize ap - sizeof_FreeBot := Some o1)\<rparr>"
      using t by (simp add: p' Let_def set_ft_size_def f)
    have "pg_ok (set_ft_size o1 (n + fsz p e) ?q) (ys @ zs) R"
    proof (rule pg_resize [OF q i'])
      show "LSSHM_SHM_UNITSIZE dvd n + fsz p e" "0 < n + fsz p e"
        using b(5,3) pg_ok_block(5) [OF ok ie] n by (auto simp: lay_simps)
      show "cov R x + cov1 (o1, n + fsz p e) x \<le> cov (add_mset (e, fsz p e) R) x + cov1 (o1, fsz ?q o1) x" for x
        unfolding fq by (simp add: cov1_split e_def)
    qed
    then show ?thesis by (auto simp: p'')
  qed
  then show "\<exists>pl'. pg_ok p' pl' R" "same_rest p p'" by auto
qed

lemma isFreeBlockBelow1_ok:
  assumes ok: "pg_ok p pl (add_mset (o1, n) R)" and u: "LSSHM_SHM_UNITSIZE dvd o1" "LSSHM_SHM_UNITSIZE dvd n" "0 < n"
    and r: "isFreeBlockBelow o1 n 1 p = (j, p')"
  shows "\<not> j \<Longrightarrow> p' = p" "j \<Longrightarrow> (\<exists>pl'. pg_ok p' pl' R) \<and> same_rest p p'"
proof -
  have "(o1, n) \<in># add_mset (o1, n) R" by simp
  note b = pg_ok_notin [OF ok this u(3)]
  show "p' = p" if "\<not> j"
    using r that b(4) by (auto simp: isFreeBlockBelow_def Let_def split: if_splits option.splits)
  show "(\<exists>pl'. pg_ok p' pl' R) \<and> same_rest p p'" if j: j
  proof -
    define e where "e = o1 + n"
    from r j b obtain ap where ap: "ft p e = Some ap"
      and p': "p' = (let q = (markTopUsed e p);
               q = q\<lparr>ft := (ft q)(o1 \<mapsto> \<lparr>x_iFreeSize = n + x_iFreeSize ap,
                          x_iFreeNext = x_iFreeNext ap, x_iFreePrev = x_iFreePrev ap\<rparr>)\<rparr>;
               q = q\<lparr>fb := (fb q)(e + x_iFreeSize ap - sizeof_FreeBot := Some o1)\<rparr>;
               q = (if x_iFreeNext ap \<noteq> 0 \<and> offset2ptr q (x_iFreeNext ap)
                    then set_ft_prev (x_iFreeNext ap) o1 q else q)
           in (if x_iFreePrev ap \<noteq> 0
               then (if offset2ptr q (x_iFreePrev ap) then set_ft_next (x_iFreePrev ap) o1 q else q)
               else q\<lparr>x_iFreePageList := o1\<rparr>))"
      by (auto simp: isFreeBlockBelow_def Let_def e_def split: if_splits option.splits)
    have f: "x_iFreeSize ap = fsz p e" using ap by (simp add: fsz_def)
    have pl: "page_list p pl" using ok by (simp add: pg_ok_def)
    have ie: "e \<in> set pl" using ap pl by (auto simp: page_list_def)
    then obtain ys zs where s: "pl = ys @ e # zs" by (meson split_list)
    have lk: "x_iFreeNext ap = hd0 zs 0" "x_iFreePrev ap = last0 0 ys"
      using pl ap by (auto simp: page_list_def s dseg_append fnx_def fpv_def)
    have di: "distinct (ys @ e # zs)" using pl by (simp add: page_list_def s)
    have in': "x_iFreeNext ap \<noteq> 0 \<Longrightarrow> x_iFreeNext ap \<in> set zs" "x_iFreePrev ap \<noteq> 0 \<Longrightarrow> x_iFreePrev ap \<in> set ys"
      using hd0_in [of zs 0] last0_in [of 0 ys] lk by auto
    then have m: "x_iFreeNext ap \<noteq> 0 \<Longrightarrow> offset2ptr p (x_iFreeNext ap)" "x_iFreePrev ap \<noteq> 0 \<Longrightarrow> offset2ptr p (x_iFreePrev ap)"
      using pg_ok_block(6) [OF ok] s by auto
    have ne: "x_iFreeNext ap \<noteq> 0 \<Longrightarrow> x_iFreeNext ap \<noteq> e \<and> x_iFreeNext ap \<noteq> o1"
        "x_iFreePrev ap \<noteq> 0 \<Longrightarrow> x_iFreePrev ap \<noteq> e \<and> x_iFreePrev ap \<noteq> o1"
        "x_iFreePrev ap \<noteq> 0 \<Longrightarrow> x_iFreeNext ap \<noteq> 0 \<Longrightarrow> x_iFreePrev ap \<noteq> x_iFreeNext ap" "o1 \<noteq> e"
      using in' di b(1) s u(3) by (auto simp: e_def)
    have ft': "ft p' = (\<lambda>x. if x = e then None
      else if x = o1 then Some \<lparr>x_iFreeSize = n + x_iFreeSize ap, x_iFreeNext = x_iFreeNext ap, x_iFreePrev = x_iFreePrev ap\<rparr>
      else if x_iFreePrev ap \<noteq> 0 \<and> x = x_iFreePrev ap then map_option (\<lambda>t. t\<lparr>x_iFreeNext := o1\<rparr>) (ft p x)
      else if x_iFreeNext ap \<noteq> 0 \<and> x = x_iFreeNext ap then map_option (\<lambda>t. t\<lparr>x_iFreePrev := o1\<rparr>) (ft p x)
      else ft p x)"
      using m ne by (auto simp: p' Let_def set_ft_simps markTopUsed_def fun_eq_iff)
    have hd': "x_iFreePageList p' = (if x_iFreePrev ap = 0 then o1 else x_iFreePageList p)"
      using m by (auto simp: p' Let_def set_ft_simps markTopUsed_def)
    have sr: "same_rest p p'" by (simp add: p' Let_def)
    note rep = page_list_replace [OF pl [unfolded s] ap b(5) b(1) [unfolded s] ft' hd']
    have bl: "page_blocks p' ys = page_blocks p ys" "page_blocks p' zs = page_blocks p zs"
      by (rule page_blocks_cong, rule rep(2), use di b(1) s in auto)+
    have fo: "fsz p' o1 = n + fsz p e" using ne(4) by (simp add: fsz_def ft' f [symmetric] ap)
    have "pg_ok p' (ys @ o1 # zs) R"
    proof (rule pg_ok_upd [OF ok sr rep(1)])
      show "unit_ok LSSHM_SHM_UNITSIZE (page_blocks p' (ys @ o1 # zs))"
        using ok u pg_ok_block(5) [OF ok ie] by (auto simp: bl fo pg_ok_def s)
      show "cov R x + cov (page_blocks p' (ys @ o1 # zs)) x
          \<le> cov (add_mset (o1, n) R) x + cov (page_blocks p pl) x" for x
        by (simp add: bl fo s cov1_split e_def)
    qed
    with sr show ?thesis by auto
  qed
qed

lemma ceil_div_le: "(x::nat) \<le> (x + (d - 1)) div d * d" if "0 < d"
proof -
  have "(x + (d - 1)) div d * d + (x + (d - 1)) mod d = x + (d - 1)" by simp
  moreover have "(x + (d - 1)) mod d < d" using that by simp
  ultimately show ?thesis by linarith
qed

lemma ceil_div_less: "(x + (d - 1)) div d * d < x + d" if "0 < d" for x d :: nat
proof -
  have "(x + (d - 1)) div d * d + (x + (d - 1)) mod d = x + (d - 1)" by simp
  then show ?thesis using that by linarith
qed

lemma roundPageSize_unit:
  "LSSHM_SHM_UNITSIZE dvd roundPageSize n" "n \<le> roundPageSize n" "roundPageSize n < n + LSSHM_SHM_UNITSIZE"
  unfolding roundPageSize_def
  by (simp, rule ceil_div_le, simp add: lay_simps, rule ceil_div_less, simp add: lay_simps)

lemma roundPageSize_id: "LSSHM_SHM_UNITSIZE dvd n \<Longrightarrow> roundPageSize n = n"
  by (auto simp: roundPageSize_def lay_simps elim!: dvdE)

lemma releasePageLocked_ok:
  assumes ok: "pg_ok p pl (add_mset (o1, roundPageSize n) R)" and u: "LSSHM_SHM_UNITSIZE dvd o1" "0 < n"
  shows "\<exists>pl'. pg_ok (releasePageLocked o1 n p) pl' R" "same_rest p (releasePageLocked o1 n p)"
proof -
  define m where "m = roundPageSize n"
  have m: "LSSHM_SHM_UNITSIZE dvd m" "0 < m" using roundPageSize_unit [of n] u(2) by (auto simp: m_def)
  define p0 where "p0 = on_stat (\<lambda>s. s\<lparr>m_iGpReleased := incrCheck (m_iGpReleased s) (m div LSSHM_SHM_UNITSIZE)\<rparr>) p"
  have ok0: "pg_ok p0 pl (add_mset (o1, m) R)" and sr0: "same_rest p p0" using ok by (simp_all add: p0_def m_def)
  obtain j p1 where a: "isFreeBlockAbove o1 m p0 = (j, p1)" by fastforce
  note above = isFreeBlockAbove_ok [OF ok0 u(1) m a]
  have "(\<exists>pl'. pg_ok (releasePageLocked o1 n p) pl' R) \<and> same_rest p (releasePageLocked o1 n p)"
  proof (cases j)
    case True
    with above obtain o2 where p1: "pg_ok p1 pl R" "same_rest p0 p1" "fb p1 (o1 + m - sizeof_FreeBot) = Some o2" "o2 \<in> set pl"
      by auto
    obtain t where t: "ft p1 o2 = Some t" "x_iFreeSize t = fsz p1 o2" using pg_ok_block(7) [OF p1(1,4)] by auto
    obtain j2 p2 where b: "isFreeBlockBelow o2 (fsz p1 o2) 2 p1 = (j2, p2)" by fastforce
    have "releasePageLocked o1 n p = p2"
      using True a b t p1 by (simp add: releasePageLocked_def m_def [symmetric] p0_def [symmetric] Let_def)
    with isFreeBlockBelow2_ok [OF p1(1,4) refl b] sr0 p1(2) show ?thesis by (auto intro: same_rest_trans)
  next
    case False
    obtain j2 p2 where b: "isFreeBlockBelow o1 m 1 p0 = (j2, p2)" by fastforce
    have "releasePageLocked o1 n p = (if j2 then p2 else joinFreeList o1 m p2)"
      using False a b above(1) by (simp add: releasePageLocked_def m_def [symmetric] p0_def [symmetric] Let_def)
    with isFreeBlockBelow1_ok [OF ok0 u(1) m b] joinFreeList_ok [OF ok0 u(1) m] sr0 show ?thesis
      by (cases j2) (auto intro: same_rest_trans)
  qed
  then show "\<exists>pl'. pg_ok (releasePageLocked o1 n p) pl' R" "same_rest p (releasePageLocked o1 n p)" by auto
qed


section \<open>Growing the file\<close>

text \<open>What an allocation may change of the rest of the pool: the sizes grow.\<close>

definition grown :: "shm_pool \<Rightarrow> shm_pool \<Rightarrow> bool" where
  "grown p p' \<longleftrightarrow> m_iUsedSize p \<le> m_iUsedSize p' \<and> m_iFileSize p \<le> m_iFileSize p' \<and>
     off2ptr_pages p \<le> off2ptr_pages p' \<and> m_iMaxShmSize p' = m_iMaxShmSize p \<and>
     x_iStart p' = x_iStart p \<and> x_iEnd p' = x_iEnd p \<and>
     x_iFreeList p' = x_iFreeList p \<and> x_aFreeBucket p' = x_aFreeBucket p \<and> bk_next p' = bk_next p"

lemma grown_refl [simp]: "grown p p"
  by (simp add: grown_def)

lemma grown_trans: "grown p q \<Longrightarrow> grown q r \<Longrightarrow> grown p r"
  by (simp add: grown_def)

lemma grown_rest: "same_rest p q \<Longrightarrow> grown p q"
  by (simp add: grown_def same_rest_def)

lemma mapAddrSpace_pages: "n \<le> off2ptr_pages (mapAddrSpace os n p) * LARGE_PAGE_SIZE"
  "off2ptr_pages p \<le> off2ptr_pages (mapAddrSpace os n p)"
proof -
  have "n - off2ptr_pages p * LARGE_PAGE_SIZE
      \<le> (n - off2ptr_pages p * LARGE_PAGE_SIZE + (LARGE_PAGE_SIZE - 1)) div LARGE_PAGE_SIZE * LARGE_PAGE_SIZE"
    by (rule ceil_div_le) (simp add: lay_simps)
  then show "n \<le> off2ptr_pages (mapAddrSpace os n p) * LARGE_PAGE_SIZE"
    "off2ptr_pages p \<le> off2ptr_pages (mapAddrSpace os n p)"
    by (auto simp: mapAddrSpace_def Let_def distrib_right)
qed

lemma expand_ok:
  assumes ok: "pg_ok p pl R" and r: "expand os n p = (b, p')"
  shows "pg_ok p' pl R" "grown p p'" "m_iUsedSize p' = m_iUsedSize p"
    "b \<Longrightarrow> m_iFileSize p' = add32 (m_iFileSize p) n \<and> m_iFileSize p \<le> add32 (m_iFileSize p) n"
proof -
  let ?s = "add32 (m_iFileSize p) n"
  have c: "p' = p \<and> \<not> b \<or> m_iFileSize p \<le> ?s \<and> p' = mapAddrSpace os ?s (p\<lparr>m_iFileSize := ?s\<rparr>)"
    using r by (auto simp: expand_def Let_def split: if_splits)
  let ?q = "mapAddrSpace os ?s (p\<lparr>m_iFileSize := ?s\<rparr>)"
  have q: "?q = p\<lparr>m_iFileSize := ?s, off2ptr_pages := off2ptr_pages ?q\<rparr>"
    by (simp add: mapAddrSpace_def Let_def)
  have s32: "?s < 2 ^ 32" by (simp add: add32_def)
  have "pg_ok (p\<lparr>m_iFileSize := ?s, off2ptr_pages := k\<rparr>) pl R" if "m_iFileSize p \<le> ?s" "?s \<le> k * LARGE_PAGE_SIZE" for k
    using ok that s32 by (simp add: pg_ok_def size_ok_def page_list_def page_blocks_def cov_ok_def)
  then have "pg_ok ?q pl R" if "m_iFileSize p \<le> ?s"
    using q mapAddrSpace_pages(1) [of ?s os "p\<lparr>m_iFileSize := ?s\<rparr>"] that by metis
  then show "pg_ok p' pl R" using c ok by auto
  show "grown p p'" "m_iUsedSize p' = m_iUsedSize p"
    "b \<Longrightarrow> m_iFileSize p' = add32 (m_iFileSize p) n \<and> m_iFileSize p \<le> add32 (m_iFileSize p) n"
  proof -
    have "grown p (p\<lparr>m_iFileSize := ?s, off2ptr_pages := k\<rparr>)" if "m_iFileSize p \<le> ?s" "off2ptr_pages p \<le> k" for k
      using that by (simp add: grown_def)
    then have "grown p ?q" if "m_iFileSize p \<le> ?s"
      using that mapAddrSpace_pages(2) [of "p\<lparr>m_iFileSize := ?s\<rparr>" os ?s] by (subst q) simp
    then show "grown p p'" using c by auto
    have "m_iUsedSize ?q = m_iUsedSize p" "m_iFileSize ?q = ?s"
      by (simp_all add: mapAddrSpace_def Let_def)
    then show "m_iUsedSize p' = m_iUsedSize p"
      "b \<Longrightarrow> m_iFileSize p' = add32 (m_iFileSize p) n \<and> m_iFileSize p \<le> add32 (m_iFileSize p) n"
      using c by auto
  qed
qed

text \<open>Handing out the bytes behind the used part.\<close>

lemma pg_extend:
  assumes ok: "pg_ok p pl R" and n: "m_iUsedSize p + n \<le> m_iFileSize p" "LSSHM_SHM_UNITSIZE dvd n"
  shows "pg_ok (p\<lparr>m_iUsedSize := m_iUsedSize p + n\<rparr>) pl (add_mset (m_iUsedSize p, n) R)"
proof -
  let ?p = "p\<lparr>m_iUsedSize := m_iUsedSize p + n\<rparr>"
  have f: "page_blocks ?p pl = page_blocks p pl" "page_list ?p pl = page_list p pl"
    by (simp_all add: page_blocks_def page_list_def)
  have "cov_ok ?p (add_mset (m_iUsedSize p, n) R + page_blocks p pl)"
    unfolding cov_ok_def
  proof
    fix x
    have "cov (R + page_blocks p pl) x \<le> (if LSSHM_SHM_UNITSIZE \<le> x \<and> x < m_iUsedSize p then 1 else 0)"
      using ok by (simp add: pg_ok_def cov_ok_def)
    then show "cov (add_mset (m_iUsedSize p, n) R + page_blocks p pl) x
        \<le> (if LSSHM_SHM_UNITSIZE \<le> x \<and> x < m_iUsedSize ?p then 1 else 0)"
      using ok by (auto simp: cov1_def pg_ok_def size_ok_def split: if_splits)
  qed
  then show ?thesis using ok n by (auto simp: f pg_ok_def size_ok_def)
qed

lemma availAddr_loop_unit:
  "LSSHM_SHM_UNITSIZE dvd a \<Longrightarrow> 0 < a \<Longrightarrow>
   LSSHM_SHM_UNITSIZE dvd availAddr_loop os np req a pg k \<and> 0 < availAddr_loop os np req a pg k"
  by (induction k arbitrary: a pg) (auto simp: lay_simps Let_def)

lemma getAvailAddrSpace_unit:
  assumes "LSSHM_SHM_UNITSIZE dvd x"
  shows "LSSHM_SHM_UNITSIZE dvd getAvailAddrSpace os p x n" "0 < getAvailAddrSpace os p x n"
proof -
  have "1024 dvd 1048576 - x mod 1048576" "0 < 1048576 - x mod 1048576"
    using assms by (auto simp: lay_simps intro!: dvd_diff_nat dvd_mod)
  then show "LSSHM_SHM_UNITSIZE dvd getAvailAddrSpace os p x n" "0 < getAvailAddrSpace os p x n"
    using availAddr_loop_unit [of "1048576 - x mod 1048576" os "off2ptr_pages p" n "x div 1048576" "off2ptr_pages p"]
    by (simp_all add: getAvailAddrSpace_def lay_simps)
qed

text \<open>The release of pages does not look at the used size.\<close>

lemma used_offset2ptr [simp]: "offset2ptr (p\<lparr>m_iUsedSize := u\<rparr>) x = offset2ptr p x"
  by (simp add: offset2ptr_def isOffsetValid_def)

lemma used_ft:
  "set_ft_next x y (p\<lparr>m_iUsedSize := u\<rparr>) = (set_ft_next x y p)\<lparr>m_iUsedSize := u\<rparr>"
  "set_ft_prev x y (p\<lparr>m_iUsedSize := u\<rparr>) = (set_ft_prev x y p)\<lparr>m_iUsedSize := u\<rparr>"
  "set_ft_size x n (p\<lparr>m_iUsedSize := u\<rparr>) = (set_ft_size x n p)\<lparr>m_iUsedSize := u\<rparr>"
  "markTopUsed x (p\<lparr>m_iUsedSize := u\<rparr>) = (markTopUsed x p)\<lparr>m_iUsedSize := u\<rparr>"
  by (simp_all add: set_ft_next_def set_ft_prev_def set_ft_size_def markTopUsed_def)

lemma used_disconnect:
  "disconnectFromFree ap (p\<lparr>m_iUsedSize := u\<rparr>) = (disconnectFromFree ap p)\<lparr>m_iUsedSize := u\<rparr>"
  by (simp add: disconnectFromFree_def Let_def set_ft_next_def set_ft_prev_def)

definition used_snd :: "nat \<Rightarrow> 'a \<times> shm_pool \<Rightarrow> 'a \<times> shm_pool" where
  "used_snd u r = (fst r, (snd r)\<lparr>m_iUsedSize := u\<rparr>)"

lemma used_snd_pair [simp]: "used_snd u (a, p) = (a, p\<lparr>m_iUsedSize := u\<rparr>)"
  by (simp add: used_snd_def)

lemma used_above: "isFreeBlockAbove x n (p\<lparr>m_iUsedSize := u\<rparr>) = used_snd u (isFreeBlockAbove x n p)"
  by (simp add: isFreeBlockAbove_def Let_def set_ft_size_def markTopUsed_def split: option.split)

lemma used_below: "isFreeBlockBelow x n j (p\<lparr>m_iUsedSize := u\<rparr>) = used_snd u (isFreeBlockBelow x n j p)"
  by (simp add: isFreeBlockBelow_def Let_def used_ft used_disconnect split: option.split)
    (simp add: set_ft_next_def set_ft_prev_def markTopUsed_def)

lemma used_join: "joinFreeList x n (p\<lparr>m_iUsedSize := u\<rparr>) = (joinFreeList x n p)\<lparr>m_iUsedSize := u\<rparr>"
  by (simp add: joinFreeList_def Let_def set_ft_prev_def)


lemma used_release: "releasePageLocked x n (p\<lparr>m_iUsedSize := u\<rparr>) = (releasePageLocked x n p)\<lparr>m_iUsedSize := u\<rparr>"
proof -
  have stat: "p\<lparr>m_iUsedSize := u, x_stat := s\<rparr> = p\<lparr>x_stat := s, m_iUsedSize := u\<rparr>" for s by simp
  show ?thesis
    unfolding releasePageLocked_def Let_def
    by (simp add: stat used_above used_below used_snd_def used_join split_beta del: shm_pool.update_convs
        split: option.split)
qed

section \<open>Allocating pages\<close>

lemma addLeftOverPages_ok:
  assumes ok: "pg_ok p pl R" and n: "m_iUsedSize p + n \<le> m_iFileSize p" "LSSHM_SHM_UNITSIZE dvd n" "0 < n"
  defines "p' \<equiv> (addLeftOverPages (m_iUsedSize p) n p)\<lparr>m_iUsedSize := m_iUsedSize p + n\<rparr>"
  shows "\<exists>pl'. pg_ok p' pl' R" "grown p p'" "m_iFileSize p' = m_iFileSize p"
    "m_iUsedSize (addLeftOverPages (m_iUsedSize p) n p) = m_iUsedSize p"
proof -
  let ?q = "p\<lparr>m_iUsedSize := m_iUsedSize p + n\<rparr>"
  let ?r = "releasePageLocked (m_iUsedSize p) n ?q"
  have u: "LSSHM_SHM_UNITSIZE dvd m_iUsedSize p" using ok by (simp add: pg_ok_def size_ok_def)
  have q: "pg_ok ?q pl (add_mset (m_iUsedSize p, roundPageSize n) R)"
    using pg_extend [OF ok n(1,2)] by (simp add: roundPageSize_id n(2))
  note r = releasePageLocked_ok [OF q u n(3)]
  have "p' = ?r\<lparr>x_stat := x_stat p'\<rparr>"
    by (simp add: p'_def addLeftOverPages_def used_release)
  then have p': "\<exists>s. p' = ?r\<lparr>x_stat := s\<rparr>" by blast
  then show "\<exists>pl'. pg_ok p' pl' R" using r(1) by auto
  from r(2) p' show "grown p p'" "m_iFileSize p' = m_iFileSize p"
    by (auto simp: grown_def same_rest_def)
  have "m_iUsedSize (releasePageLocked (m_iUsedSize p) n (p\<lparr>m_iUsedSize := m_iUsedSize p\<rparr>)) = m_iUsedSize p"
    unfolding used_release by simp
  then show "m_iUsedSize (addLeftOverPages (m_iUsedSize p) n p) = m_iUsedSize p"
    by (simp add: addLeftOverPages_def)
qed

text \<open>The size the file is grown to, in 32-bit arithmetic.\<close>

lemma target_size:
  assumes "f < 2 ^ 32" "need \<le> 4100000000" "t = add32 (add32 f need) 16383 div 16384 * 16384"
    and "f \<le> add32 f (sub32 t f)"
  shows "f + need \<le> add32 f (sub32 t f)"
proof -
  have t32: "t < 2 ^ 32"
  proof -
    have "t \<le> add32 (add32 f need) 16383" unfolding assms(3) by simp
    then show ?thesis by (simp add: add32_def)
  qed
  have s: "add32 f (sub32 t f) = t"
  proof -
    have "add32 f (sub32 t f) = (f + (t + (2 ^ 32 - f))) mod 2 ^ 32"
      using assms(1) by (simp add: add32_def sub32_def mod_simps)
    also have "f + (t + (2 ^ 32 - f)) = t + 2 ^ 32" using assms(1) by simp
    finally show ?thesis using t32 by simp
  qed
  have le: "t \<le> add32 (add32 f need) 16383" unfolding assms(3) by simp
  have ge: "add32 (add32 f need) 16383 < t + 16384"
    unfolding assms(3) by (simp add: dividend_less_div_times)
  show ?thesis
  proof (rule ccontr)
    assume n: "\<not> ?thesis"
    consider "f + need + 16383 < 2 ^ 32" | "f + need < 2 ^ 32" "2 ^ 32 \<le> f + need + 16383" | "2 ^ 32 \<le> f + need"
      by linarith
    then show False
    proof cases
      case 1
      then have "add32 (add32 f need) 16383 = f + need + 16383" by (simp add: add32_def)
      moreover have "f + need \<le> t"
        unfolding assms(3) calculation using ceil_div_le [of 16384 "f + need"] by simp
      ultimately show False using n s by simp
    next
      case 2
      then have "add32 (add32 f need) 16383 = f + need + 16383 - 2 ^ 32" by (simp add: add32_def mod_if)
      then have "t < 16384" using le 2 by simp
      then show False using assms(4) 2 s assms(2) by simp
    next
      case 3
      then have "add32 f need = f + need - 2 ^ 32" using assms(1,2) by (simp add: add32_def mod_if)
      then have "add32 (add32 f need) 16383 \<le> f + need - 2 ^ 32 + 16383" by (simp add: add32_def)
      then show False using le assms(2,4) s 3 by simp
    qed
  qed
qed


lemma shm_allocPage_ok:
  assumes ok: "pg_ok p pl R" and n: "LSSHM_SHM_UNITSIZE dvd n" "0 < n" "n \<le> 2000001024"
    and r: "shm_allocPage os n p = (off1, p')"
  shows "\<exists>pl'. pg_ok p' pl' (if off1 = 0 then R else add_mset (off1, n) R)" "grown p p'" "LSSHM_SHM_UNITSIZE dvd off1"
proof -
  have take: "(\<exists>pl'. pg_ok q' pl' (if o1 = 0 then R else add_mset (o1, n) R)) \<and> grown q q' \<and> LSSHM_SHM_UNITSIZE dvd o1"
    if "pg_ok q qpl R" "m_iUsedSize q + n \<le> m_iFileSize q" "o1 = m_iUsedSize q" "q' = q\<lparr>m_iUsedSize := m_iUsedSize q + n\<rparr>"
    for q qpl q' o1
  proof -
    have "LSSHM_SHM_UNITSIZE dvd m_iUsedSize q" "m_iUsedSize q \<noteq> 0"
      using that(1) by (auto simp: pg_ok_def size_ok_def lay_simps)
    with pg_extend [OF that(1,2) n(1)] that(3,4) show ?thesis by (auto simp: grown_def)
  qed
  have sz: "m_iUsedSize p \<le> m_iFileSize p" "m_iFileSize p < 2 ^ 32" "LSSHM_SHM_UNITSIZE dvd m_iUsedSize p"
    using ok by (auto simp: pg_ok_def size_ok_def)
  have "(\<exists>pl'. pg_ok p' pl' (if off1 = 0 then R else add_mset (off1, n) R)) \<and> grown p p' \<and> LSSHM_SHM_UNITSIZE dvd off1"
  proof (cases "n > m_iFileSize p - m_iUsedSize p")
    case False
    then show ?thesis using r sz by (intro take [OF ok]) (auto simp: shm_allocPage_def Let_def)
  next
    case True
    define av where "av = getAvailAddrSpace os p (m_iUsedSize p) n"
    define need where "need = (n - (m_iFileSize p - m_iUsedSize p)) + (if n > av then av else 0)"
    define t where "t = add32 (add32 (m_iFileSize p) need) 16383 div 16384 * 16384"
    note av = getAvailAddrSpace_unit [OF sz(3), of os p n, folded av_def]
    obtain b p1 where e: "expand os (sub32 t (m_iFileSize p)) p = (b, p1)" by fastforce
    note ex = expand_ok [OF ok e]
    define p2 where "p2 = (addLeftOverPages (m_iUsedSize p1) av p1)\<lparr>m_iUsedSize := m_iUsedSize p1 + av\<rparr>"
    define p3 where "p3 = (if n > av then (addLeftOverPages (m_iUsedSize p1) av p1)
        \<lparr>m_iUsedSize := m_iUsedSize (addLeftOverPages (m_iUsedSize p1) av p1) + av\<rparr> else p1)"
    have unit: "16 * LSSHM_SHM_UNITSIZE = 16384" by (simp add: lay_simps)
    have eq: "shm_allocPage os n p = (if \<not> b then (0, p1)
        else (m_iUsedSize p3, p3\<lparr>m_iUsedSize := m_iUsedSize p3 + n\<rparr>))"
      using True e [unfolded t_def need_def av_def]
      by (simp add: shm_allocPage_def Let_def unit p3_def av_def)
    show ?thesis
    proof (cases b)
      case False
      then have "off1 = 0" "p' = p1"
        using r eq by simp_all
      with ex show ?thesis by auto
    next
      case b: True
      have "need \<le> 4100000000" using n(3) by (cases "av < n") (simp_all add: need_def)
      from target_size [OF sz(2) this t_def] ex(4) b
      have f: "m_iFileSize p + need \<le> m_iFileSize p1" by simp
      note left = addLeftOverPages_ok [OF ex(1) _ av, folded p2_def]
      show ?thesis
      proof (cases "n > av")
        case over: True
        with f sz True have "m_iUsedSize p1 + av \<le> m_iFileSize p1" by (simp add: need_def ex(3))
        note left = left [OF this]
        have "m_iUsedSize p2 + n \<le> m_iFileSize p2"
          using f sz True over left(3) by (simp add: need_def ex(3) p2_def)
        moreover have "p3 = p2" using over left(4) by (simp add: p3_def p2_def)
        then have "off1 = m_iUsedSize p2" "p' = p2\<lparr>m_iUsedSize := m_iUsedSize p2 + n\<rparr>"
          using r eq b by auto
        moreover obtain pl2 where "pg_ok p2 pl2 R" using left(1) by auto
        ultimately show ?thesis using take [of p2 pl2 off1 p'] left(2) ex(2) by (auto intro: grown_trans)
      next
        case under: False
        have "m_iUsedSize p1 + n \<le> m_iFileSize p1" using f sz True under by (simp add: need_def ex(3))
        moreover have "off1 = m_iUsedSize p1" "p' = p1\<lparr>m_iUsedSize := m_iUsedSize p1 + n\<rparr>"
          using r eq b under by (auto simp: p3_def)
        ultimately show ?thesis using take [OF ex(1), of off1 p'] ex(2) by (auto intro: grown_trans)
      qed
    qed
  qed
  then show "\<exists>pl'. pg_ok p' pl' (if off1 = 0 then R else add_mset (off1, n) R)" "grown p p'" "LSSHM_SHM_UNITSIZE dvd off1"
    by auto
qed

lemma allocPage_ok:
  assumes ok: "pg_ok p pl R" and n: "0 < n" and r: "allocPage os n p = (off1, p')"
  shows "\<exists>pl'. pg_ok p' pl' (if off1 = 0 then R else add_mset (off1, roundPageSize n) R)"
    "grown p p'" "LSSHM_SHM_UNITSIZE dvd off1"
proof -
  let ?n = "roundPageSize n"
  let ?goal = "\<lambda>p' off1. (\<exists>pl'. pg_ok p' pl' (if off1 = 0 then R else add_mset (off1, ?n) R)) \<and>
      grown p p' \<and> LSSHM_SHM_UNITSIZE dvd off1"
  have u: "LSSHM_SHM_UNITSIZE dvd ?n" "0 < ?n" using roundPageSize_unit [of n] n by auto
  obtain o1 p1 where g: "getFromFreeList ?n p = (o1, p1)" by fastforce
  obtain pl1 where p1: "same_rest p p1" "pg_ok p1 pl1 (if o1 = 0 then R else add_mset (o1, ?n) R)" "LSSHM_SHM_UNITSIZE dvd o1"
    using getFromFreeList_ok [OF ok u g] by metis
  obtain o2 p2 where s: "shm_allocPage os ?n p1 = (o2, p2)" by fastforce
  have "?goal p' off1"
  proof (cases "n \<ge> 0x80000000 \<or> n > LSSHM_MAXSIZE")
    case True
    then show ?thesis using r ok by (auto simp: allocPage_def)
  next
    case False
    then have n2: "?n \<le> 2000001024" using roundPageSize_unit(3) [of n] by (auto simp: lay_simps)
    show ?thesis
    proof (cases "o1 = 0")
      case o1: True
      then have pg1: "pg_ok p1 pl1 R" using p1 by simp
      note sa = shm_allocPage_ok [OF pg1 u n2 s]
      have gr: "grown p p2" using grown_rest [OF p1(1)] sa(2) by (rule grown_trans)
      show ?thesis
      proof (cases "o2 = 0")
        case True
        then have "off1 = 0" "p' = p2" using r False g s o1 by (auto simp: allocPage_def Let_def)
        with sa gr True show ?thesis by auto
      next
        case o2: False
        then obtain pl2 where pg2: "pg_ok p2 pl2 (add_mset (o2, ?n) R)" using sa(1) by auto
        have "(o2, ?n) \<in># add_mset (o2, ?n) R" by simp
        note nb = pg_ok_notin [OF pg2 this u(2)]
        have "dom (ft p2) = set pl2" using pg2 by (simp add: pg_ok_def page_list_def)
        with nb(1) have "ft p2 o2 = None" by auto
        then have mt: "markTopUsed o2 p2 = p2" by (simp add: markTopUsed_def fun_upd_idem)
        have "off1 = o2" "p' = p2\<lparr>x_stat := x_stat p'\<rparr>"
          using r False g s o1 o2 nb(4) mt by (auto simp: allocPage_def Let_def)
        moreover have "pg_ok (p2\<lparr>x_stat := x_stat p'\<rparr>) pl2 (add_mset (o2, ?n) R)" using pg2 by simp
        moreover have "grown p (p2\<lparr>x_stat := x_stat p'\<rparr>)" using gr by (simp add: grown_def)
        ultimately show ?thesis using sa(3) o2 by metis
      qed
    next
      case o1: False
      then have "off1 = o1" "p' = p1\<lparr>x_stat := x_stat p'\<rparr>"
        using r False g by (auto simp: allocPage_def Let_def)
      moreover have "pg_ok (p1\<lparr>x_stat := x_stat p'\<rparr>) pl1 (add_mset (o1, ?n) R)" using p1(2) o1 by simp
      moreover have "grown p (p1\<lparr>x_stat := x_stat p'\<rparr>)" using p1(1) by (simp add: grown_def same_rest_def)
      ultimately show ?thesis using p1(3) o1 by metis
    qed
  qed
  then show "\<exists>pl'. pg_ok p' pl' (if off1 = 0 then R else add_mset (off1, roundPageSize n) R)"
    "grown p p'" "LSSHM_SHM_UNITSIZE dvd off1" by auto
qed

end
