(* ===== verification/LsShmPoolSafe.thy ===== *)
theory LsShmPoolSafe
  imports LsShmPoolPages
begin

text \<open>
  Safety of the pool allocator: the invariant of the chunk, the free buckets and the page list with
  the multiset of blocks handed out, its preservation by every step of \<open>alloc2\<close> and \<open>release2\<close>,
  the locale \<open>shm_allocator\<close> that states what the hash table relies on, and the histories of a
  pool from a new file on.
\<close>


definition live_ok :: "block multiset \<Rightarrow> bool" where
  "live_ok L \<longleftrightarrow> (\<forall>b\<in>#L. LSSHM_SHM_UNITSIZE \<le> snd b \<longrightarrow> LSSHM_SHM_UNITSIZE dvd fst b \<and> LSSHM_SHM_UNITSIZE dvd snd b)"

text \<open>The invariant, split into the page list and the rest.\<close>

definition rest_ok :: "shm_pool \<Rightarrow> (nat \<Rightarrow> off list) \<Rightarrow> block multiset \<Rightarrow> bool" where
  "rest_ok p bl L \<longleftrightarrow> x_iFreeList p = 0 \<and>
     x_iStart p \<le> x_iEnd p \<and> LSSHM_POOL_UNITSIZE dvd x_iStart p \<and> LSSHM_POOL_UNITSIZE dvd x_iEnd p \<and>
     bucket_chains p bl \<and> unit_ok LSSHM_POOL_UNITSIZE (bucket_blocks bl + L) \<and> live_ok L"

definition other_blocks :: "shm_pool \<Rightarrow> (nat \<Rightarrow> off list) \<Rightarrow> block multiset \<Rightarrow> block multiset" where
  "other_blocks p bl L = add_mset (chunk_block p) (bucket_blocks bl + L)"

definition pool_st :: "shm_pool \<Rightarrow> (nat \<Rightarrow> off list) \<Rightarrow> off list \<Rightarrow> block multiset \<Rightarrow> bool" where
  "pool_st p bl pl L \<longleftrightarrow> pg_ok p pl (other_blocks p bl L) \<and> rest_ok p bl L"

definition pool_inv :: "shm_pool \<Rightarrow> block multiset \<Rightarrow> bool" where
  "pool_inv p L \<longleftrightarrow> (\<exists>bl pl. pool_st p bl pl L)"

lemma pg_ok_mono: "pg_ok p pl R \<Longrightarrow> (\<And>x. cov R' x \<le> cov R x) \<Longrightarrow> pg_ok p pl R'"
  by (auto simp: pg_ok_def elim!: cov_ok_mono)

lemma rest_ok_grown: "rest_ok p bl L \<Longrightarrow> grown p p' \<Longrightarrow> rest_ok p' bl L"
  by (simp add: rest_ok_def grown_def bucket_chains_def)

lemma other_blocks_grown: "grown p p' \<Longrightarrow> other_blocks p' bl L = other_blocks p bl L"
  by (simp add: other_blocks_def grown_def chunk_block_def)

lemma pool_invI: "pool_st p bl pl L \<Longrightarrow> pool_inv p L"
  by (auto simp: pool_inv_def)

lemma pool_st_stat [simp]: "pool_st (p\<lparr>x_stat := s\<rparr>) bl pl L = pool_st p bl pl L"
  by (simp add: pool_st_def rest_ok_def other_blocks_def chunk_block_def bucket_chains_def)

lemma pool_inv_stat [simp]: "pool_inv (p\<lparr>x_stat := s\<rparr>) L = pool_inv p L"
  by (simp add: pool_inv_def)

lemma sseg_if [simp]:
  "x \<notin> set xs \<Longrightarrow> sseg (\<lambda>y. Some (if y = x then v else f y)) xs nx = sseg (\<lambda>y. Some (f y)) xs nx"
  by (rule sseg_cong) auto

text \<open>Bucket blocks: pushing one, taking one, replacing an empty bucket.\<close>

lemma bucket_blocks_upd:
  assumes "0 < k" "k < LSSHM_POOL_NUMBUCKET"
  shows "bucket_blocks (bl(k := xs)) + image_mset (\<lambda>x. (x, k * LSSHM_POOL_BCKTINCR)) (mset (bl k)) =
    bucket_blocks bl + image_mset (\<lambda>x. (x, k * LSSHM_POOL_BCKTINCR)) (mset xs)"
proof -
  let ?f = "\<lambda>bl k. image_mset (\<lambda>x. (x, k * LSSHM_POOL_BCKTINCR)) (mset (bl k))"
  have k: "k \<in> {1..<LSSHM_POOL_NUMBUCKET}" using assms by simp
  have "bucket_blocks (bl(k := xs)) = ?f (bl(k := xs)) k + (\<Sum>i\<in>{1..<LSSHM_POOL_NUMBUCKET} - {k}. ?f (bl(k := xs)) i)"
    unfolding bucket_blocks_def by (rule sum.remove) (use k in auto)
  moreover have "(\<Sum>i\<in>{1..<LSSHM_POOL_NUMBUCKET} - {k}. ?f (bl(k := xs)) i) = (\<Sum>i\<in>{1..<LSSHM_POOL_NUMBUCKET} - {k}. ?f bl i)"
    by (rule sum.cong) auto
  moreover have "bucket_blocks bl = ?f bl k + (\<Sum>i\<in>{1..<LSSHM_POOL_NUMBUCKET} - {k}. ?f bl i)"
    unfolding bucket_blocks_def by (rule sum.remove) (use k in auto)
  ultimately show ?thesis by (simp add: add.assoc add.commute add.left_commute)
qed

lemma bucket_blocks_push:
  "0 < k \<Longrightarrow> k < LSSHM_POOL_NUMBUCKET \<Longrightarrow>
   bucket_blocks (bl(k := x # bl k)) = add_mset (x, k * LSSHM_POOL_BCKTINCR) (bucket_blocks bl)"
  using bucket_blocks_upd [of k bl "x # bl k"] by simp

lemma bucket_blocks_in:
  "k < LSSHM_POOL_NUMBUCKET \<Longrightarrow> 0 < k \<Longrightarrow> x \<in> set (bl k) \<Longrightarrow> (x, k * LSSHM_POOL_BCKTINCR) \<in># bucket_blocks bl"
  by (auto simp: bucket_blocks_def set_mset_sum intro!: bexI [of _ k])

text \<open>A block outside the buckets does not start like one of them.\<close>

lemma cov_two:
  assumes "cov_ok p M" "{#(x, n), (x, m)#} \<subseteq># M" "0 < n" "0 < m"
  shows False
proof -
  obtain M' where "M = {#(x, n), (x, m)#} + M'" using assms(2) by (metis mset_subset_eq_exists_conv)
  with cov_ok_le1 [OF assms(1), of x] assms(3,4) show False by (simp add: cov1_def)
qed

lemma pool_st_fresh:
  assumes st: "pg_ok p pl (add_mset (x, n) (other_blocks p bl L))" and "0 < n" "k < LSSHM_POOL_NUMBUCKET" "0 < k"
  shows "x \<notin> set (bl k)"
proof
  assume "x \<in> set (bl k)"
  then have i: "(x, k * LSSHM_POOL_BCKTINCR) \<in># bucket_blocks bl" using assms by (intro bucket_blocks_in)
  have c: "cov_ok p (add_mset (x, n) (other_blocks p bl L) + page_blocks p pl)" using st by (simp add: pg_ok_def)
  have s: "{#(x, n), (x, k * LSSHM_POOL_BCKTINCR)#} \<subseteq># add_mset (x, n) (other_blocks p bl L) + page_blocks p pl"
    using i by (auto simp: other_blocks_def insert_subset_eq_iff)
  show False by (rule cov_two [OF c s]) (use assms in \<open>auto simp: lay_simps\<close>)
qed

lemma releaseData_ok:
  assumes st: "pool_st p bl pl (add_mset (x, n) L)" and n: "LSSHM_POOL_UNITSIZE dvd n" "n < LSSHM_POOL_MAXBCKTSIZE"
  shows "pool_st (releaseData x n p) (bl(n div 16 := x # bl (n div 16))) pl L"
    and "x_iStart (releaseData x n p) = x_iStart p" "x_iEnd (releaseData x n p) = x_iEnd p"
proof -
  define k where "k = n div 16"
  have pg: "pg_ok p pl (other_blocks p bl (add_mset (x, n) L))" and r: "rest_ok p bl (add_mset (x, n) L)"
    using st by (auto simp: pool_st_def)
  have n0: "0 < n" "16 dvd x" using r by (auto simp: rest_ok_def lay_simps)
  have k: "0 < k" "k < LSSHM_POOL_NUMBUCKET" "k * LSSHM_POOL_BCKTINCR = n"
    using n n0 by (auto simp: k_def lay_simps elim!: dvdE)
  have eq: "other_blocks p bl (add_mset (x, n) L) = add_mset (x, n) (other_blocks p bl L)"
    by (simp add: other_blocks_def)
  have i: "(x, n) \<in># other_blocks p bl (add_mset (x, n) L)" by (simp add: eq)
  note b = pg_ok_notin [OF pg i n0(1)]
  have ov: "isOffsetValid p x" using b(4) by (simp add: offset2ptr_def)
  have hd: "x_aFreeBucket p k = hd0 (bl k) 0" using r k by (simp add: rest_ok_def bucket_chains_def)
  have hv: "isOffsetValid p (x_aFreeBucket p k)"
  proof (cases "bl k")
    case Nil
    then show ?thesis using hd ov by (auto simp: isOffsetValid_def split: if_splits)
  next
    case (Cons y ys)
    then have "(y, k * LSSHM_POOL_BCKTINCR) \<in># other_blocks p bl (add_mset (x, n) L)"
      using bucket_blocks_in [OF k(2,1), of y bl] by (simp add: other_blocks_def)
    then have "offset2ptr p y" using pg_ok_notin(4) [OF pg] k n0 by auto
    then show ?thesis using hd Cons by (simp add: offset2ptr_def)
  qed
  let ?bl = "bl(k := x # bl k)"
  let ?p = "p\<lparr>bk_next := (bk_next p)(x := x_aFreeBucket p k), x_aFreeBucket := (x_aFreeBucket p)(k := x)\<rparr>"
  have rd: "\<exists>s. releaseData x n p = ?p\<lparr>x_stat := s\<rparr>"
    using n b(4) ov hv by (auto simp: releaseData_def Let_def bk_released_def dataSize2Bucket_def k_def lay_simps)
  have fresh: "x \<notin> set (bl j)" if "j < LSSHM_POOL_NUMBUCKET" for j
    using pool_st_fresh [OF pg [unfolded eq] n0(1) that] r by (cases "j = 0") (auto simp: rest_ok_def bucket_chains_def)
  have "bucket_chains ?p ?bl"
    using r k fresh hd by (auto simp: rest_ok_def bucket_chains_def)
  then have "rest_ok ?p ?bl L"
    using r k by (auto simp: rest_ok_def bucket_blocks_push live_ok_def)
  moreover have "pg_ok ?p pl (other_blocks ?p ?bl L)"
    using pg by (simp add: pg_ok_def size_ok_def page_list_def page_blocks_def cov_ok_def other_blocks_def
        chunk_block_def bucket_blocks_push k)
  ultimately have "pool_st ?p ?bl pl L" by (simp add: pool_st_def)
  with rd show "pool_st (releaseData x n p) (bl(n div 16 := x # bl (n div 16))) pl L"
    "x_iStart (releaseData x n p) = x_iStart p" "x_iEnd (releaseData x n p) = x_iEnd p"
    by (auto simp: k_def)
qed


section \<open>The chunk\<close>

lemma other_blocks_add [simp]: "other_blocks p bl (add_mset b L) = add_mset b (other_blocks p bl L)"
  by (simp add: other_blocks_def)

lemma pool_st_drop: "pool_st p bl pl (M + L) \<Longrightarrow> pool_st p bl pl L"
  by (auto simp: pool_st_def rest_ok_def live_ok_def other_blocks_def elim!: pg_ok_mono)

lemma pool_allocPage:
  assumes st: "pool_st p bl pl L" and n: "0 < n" and r: "allocPage os n p = (x, p')"
  shows "\<exists>pl'. pool_st p' bl pl' (if x = 0 then L else add_mset (x, roundPageSize n) L)"
    and "grown p p'" "LSSHM_SHM_UNITSIZE dvd x"
proof -
  have pg: "pg_ok p pl (other_blocks p bl L)" and re: "rest_ok p bl L" using st by (auto simp: pool_st_def)
  note a = allocPage_ok [OF pg n r]
  have u: "LSSHM_POOL_UNITSIZE dvd x" "LSSHM_POOL_UNITSIZE dvd roundPageSize n" "0 < roundPageSize n"
    using a(3) roundPageSize_unit(1,2) [of n] n dvd_trans [of 16 1024] by (auto simp: lay_simps)
  show "grown p p'" "LSSHM_SHM_UNITSIZE dvd x" by (fact a)+
  have "rest_ok p' bl L" by (rule rest_ok_grown [OF re a(2)])
  then have "rest_ok p' bl (if x = 0 then L else add_mset (x, roundPageSize n) L)"
    using u a(3) roundPageSize_unit(1) [of n] by (auto simp: rest_ok_def live_ok_def)
  then show "\<exists>pl'. pool_st p' bl pl' (if x = 0 then L else add_mset (x, roundPageSize n) L)"
    using a(1) by (auto simp: pool_st_def other_blocks_grown [OF a(2)])
qed

text \<open>A run of \<open>m\<close> blocks of size \<open>s\<close>.\<close>

fun run_offs :: "off \<Rightarrow> nat \<Rightarrow> nat \<Rightarrow> off list" where
  "run_offs x s 0 = []"
| "run_offs x s (Suc m) = x # run_offs (x + s) s m"

definition run :: "off \<Rightarrow> nat \<Rightarrow> nat \<Rightarrow> block multiset" where
  "run x s m = image_mset (\<lambda>y. (y, s)) (mset (run_offs x s m))"

lemma run_simps [simp]: "run x s 0 = {#}" "run x s (Suc m) = add_mset (x, s) (run (x + s) s m)"
  by (simp_all add: run_def)

lemma cov_run: "cov (run x s m) y = cov1 (x, s * m) y"
proof (induction m arbitrary: x)
  case (Suc m)
  have "cov1 (x, s * Suc m) y = cov1 (x, s) y + cov1 (x + s, s * m) y"
    using cov1_split [of x s "s * m" y] by (simp add: add.commute)
  then show ?case by (simp add: Suc.IH)
qed simp

lemma unit_run: "u dvd x \<Longrightarrow> u dvd s \<Longrightarrow> 0 < s \<Longrightarrow> unit_ok u (run x s m)"
  by (induction m arbitrary: x) auto

lemma live_run: "s < LSSHM_SHM_UNITSIZE \<Longrightarrow> live_ok L \<Longrightarrow> live_ok (run x s m + L)"
  by (auto simp: live_ok_def run_def)

lemma chunk_take:
  assumes st: "pool_st p bl pl L" and s: "LSSHM_POOL_UNITSIZE dvd s" "0 < s" "s < LSSHM_SHM_UNITSIZE"
    and m: "s * m \<le> x_iEnd p - x_iStart p"
  shows "pool_st (p\<lparr>x_iStart := x_iStart p + s * m\<rparr>) bl pl (run (x_iStart p) s m + L)"
proof -
  let ?p = "p\<lparr>x_iStart := x_iStart p + s * m\<rparr>"
  have pg: "pg_ok p pl (other_blocks p bl L)" and re: "rest_ok p bl L" using st by (auto simp: pool_st_def)
  have c: "chunk_block p = (x_iStart p, s * m + (x_iEnd p - x_iStart p - s * m))"
    using m by (simp add: chunk_block_def)
  have "pg_ok p pl (other_blocks ?p bl (run (x_iStart p) s m + L))"
    by (rule pg_ok_mono [OF pg])
      (simp add: other_blocks_def c cov1_split cov_run, simp add: chunk_block_def)
  then have "pg_ok ?p pl (other_blocks ?p bl (run (x_iStart p) s m + L))"
    by (simp add: pg_ok_def size_ok_def page_list_def page_blocks_def cov_ok_def)
  moreover have "rest_ok ?p bl (run (x_iStart p) s m + L)"
    using re s m by (auto simp: rest_ok_def bucket_chains_def unit_run live_run)
  ultimately show ?thesis by (simp add: pool_st_def)
qed

text \<open>The rest of the chunk becomes an ordinary block, and a new area becomes the chunk.\<close>

lemma chunk_empty:
  assumes st: "pool_st p bl pl L" and a: "x_iEnd p - x_iStart p < LSSHM_SHM_UNITSIZE"
  defines "n \<equiv> x_iEnd p - x_iStart p"
  shows "pool_st (p\<lparr>x_iStart := x_iStart p + n\<rparr>) bl pl (if n = 0 then L else add_mset (x_iStart p, n) L)"
proof (cases "n = 0")
  case False
  have re: "rest_ok p bl L" using st by (simp add: pool_st_def)
  then have "LSSHM_POOL_UNITSIZE dvd n" by (auto simp: n_def rest_ok_def intro: dvd_diff_nat)
  with chunk_take [OF st this, of 1] a False show ?thesis by (simp add: n_def)
qed (use st in simp)

lemma chunk_new:
  assumes st: "pool_st p bl pl (M + L)" and e: "x_iStart p = x_iEnd p"
    and c: "\<And>y. cov1 (x, n) y \<le> cov M y" and x: "LSSHM_POOL_UNITSIZE dvd x" "LSSHM_POOL_UNITSIZE dvd n"
  shows "pool_st (p\<lparr>x_iStart := x, x_iEnd := x + n\<rparr>) bl pl L"
proof -
  let ?p = "p\<lparr>x_iStart := x, x_iEnd := x + n\<rparr>"
  have pg: "pg_ok p pl (other_blocks p bl (M + L))" and re: "rest_ok p bl (M + L)" using st by (auto simp: pool_st_def)
  have "pg_ok p pl (other_blocks ?p bl L)"
    by (rule pg_ok_mono [OF pg]) (use c in \<open>simp add: other_blocks_def chunk_block_def trans_le_add2\<close>)
  then have "pg_ok ?p pl (other_blocks ?p bl L)"
    by (simp add: pg_ok_def size_ok_def page_list_def page_blocks_def cov_ok_def)
  moreover have "rest_ok ?p bl L" using re x by (auto simp: rest_ok_def bucket_chains_def live_ok_def)
  ultimately show ?thesis by (simp add: pool_st_def)
qed

lemma allocFromDataChunk_take:
  assumes st: "pool_st p bl pl L" and s: "LSSHM_POOL_UNITSIZE dvd s" "0 < s" "s < LSSHM_SHM_UNITSIZE" and m: "0 < m"
    and a: "s \<le> x_iEnd p - x_iStart p"
    and r: "allocFromDataChunk_rec (Suc k) os s m p = (x, m', p')"
  shows "0 < m' \<and> m' \<le> m \<and> pool_st p' bl pl (run x s m' + L)"
proof -
  let ?a = "x_iEnd p - x_iStart p"
  have av: "?a div s \<noteq> 0" using a s(2) by (simp add: div_eq_0_iff)
  then have m': "m' = min (?a div s) m" and x: "x = x_iStart p"
    and p': "p' = p\<lparr>x_iStart := x_iStart p + s * m', x_stat := x_stat p'\<rparr>"
    using r by (auto simp: Let_def min_def split: if_splits)
  have "s * m' \<le> ?a"
  proof -
    have "s * m' \<le> s * (?a div s)" unfolding m' by (intro mult_le_mono2) simp
    also have "\<dots> \<le> ?a" by simp
    finally show ?thesis .
  qed
  from chunk_take [OF st s this]
  have "pool_st (p\<lparr>x_iStart := x_iStart p + s * m', x_stat := x_stat p'\<rparr>) bl pl (run (x_iStart p) s m' + L)"
    by simp
  with p' x have "pool_st p' bl pl (run x s m' + L)" by simp
  with m' av m show ?thesis by simp
qed


lemma allocFromDataChunk_ok:
  assumes st: "pool_st p bl pl L" and s: "LSSHM_POOL_UNITSIZE dvd s" "0 < s" "s < LSSHM_SHM_UNITSIZE" and m: "0 < m"
    and r: "allocFromDataChunk os s m p = (x, m', p')"
  shows "(m' = 0 \<longrightarrow> x = 0) \<and> m' \<le> m \<and>
    (\<exists>bl' pl'. pool_st p' bl' pl' (run x s m' + L) \<and> (\<forall>k\<ge>s div 16. bl' k = bl k))"
proof (cases "s \<le> x_iEnd p - x_iStart p")
  case True
  with allocFromDataChunk_take [OF st s m True, of 1 os x m' p'] r show ?thesis
    by (auto simp: allocFromDataChunk_def numeral_2_eq_2)
next
  case False
  define n where "n = x_iEnd p - x_iStart p"
  define L1 where "L1 = (if n = 0 then L else add_mset (x_iStart p, n) L)"
  define p1 where "p1 = p\<lparr>x_iStart := x_iStart p + n\<rparr>"
  define need where "need = (let needed = roundPageSize (s * m) in if needed < LSSHM_SHM_UNITSIZE then LSSHM_SHM_UNITSIZE else needed)"
  have n1: "n < s" using False by (simp add: n_def)
  have n16: "LSSHM_POOL_UNITSIZE dvd n" "x_iStart p \<le> x_iEnd p" "LSSHM_POOL_UNITSIZE dvd x_iStart p"
    using st by (auto simp: n_def pool_st_def rest_ok_def intro: dvd_diff_nat)
  have need: "LSSHM_SHM_UNITSIZE dvd need" "roundPageSize need = need" "s \<le> need" "0 < need" "LSSHM_POOL_UNITSIZE dvd need"
  proof -
    have "s \<le> s * m" using m by simp
    then show "s \<le> need" using roundPageSize_unit(2) [of "s * m"] s by (auto simp: need_def Let_def)
    show u: "LSSHM_SHM_UNITSIZE dvd need" using roundPageSize_unit(1) by (auto simp: need_def Let_def)
    then show "roundPageSize need = need" by (rule roundPageSize_id)
    show "LSSHM_POOL_UNITSIZE dvd need" using u dvd_trans [of 16 1024] by (auto simp: lay_simps)
    show "0 < need" using \<open>s \<le> need\<close> s(2) by simp
  qed
  have st1: "pool_st p1 bl pl L1"
    unfolding p1_def L1_def n_def by (rule chunk_empty [OF st]) (use n1 s(3) in \<open>simp add: n_def\<close>)
  obtain o2 p2 where al: "allocPage os need p1 = (o2, p2)" by fastforce
  obtain pl2 where st2: "pool_st p2 bl pl2 (if o2 = 0 then L1 else add_mset (o2, need) L1)" and g: "grown p1 p2" and u2: "LSSHM_SHM_UNITSIZE dvd o2"
    using pool_allocPage [OF st1 need(4) al, unfolded need(2)] by blast
  have nav: "(x_iEnd p - x_iStart p) div s = 0" using n1 by (simp add: n_def)
  have emp: "x_iStart p2 = x_iEnd p2" using g n16 by (simp add: grown_def p1_def n_def)
  show ?thesis
  proof (cases "o2 = 0")
    case True
    then have "x = 0" "m' = 0" "p' = p2"
      using r al nav by (auto simp: allocFromDataChunk_def numeral_2_eq_2 need_def p1_def n_def Let_def)
    moreover have "pool_st p2 bl pl2 L"
      using st2 True pool_st_drop [of p2 bl pl2 "{#(x_iStart p, n)#}" L] by (auto simp: L1_def split: if_splits)
    ultimately show ?thesis by auto
  next
    case o2: False
    define p3 where "p3 = on_stat (\<lambda>s. s\<lparr>m_iFreeChunk := add32 (m_iFreeChunk s) need\<rparr>) p2"
    define p4 where "p4 = (if n \<noteq> 0 \<and> x_iStart p + n \<noteq> o2 then on_stat (\<lambda>s. s\<lparr>m_iFreeChunk := sub32 (m_iFreeChunk s) n\<rparr>)
                       (releaseData (x_iStart p) n p3) else p3)"
    define c where "c = (if n \<noteq> 0 \<and> x_iStart p + n = o2 then (x_iStart p, need + n) else (o2, need))"
    define p5 where "p5 = p4\<lparr>x_iStart := fst c, x_iEnd := fst c + snd c\<rparr>"
    have n0: "n \<noteq> 0 \<Longrightarrow> x_iStart p \<noteq> 0"
      using st1 by (auto simp: L1_def pool_st_def dest: pg_ok_notin(5) [where n = n])
    have "allocFromDataChunk_rec (Suc (Suc 0)) os s m p = allocFromDataChunk_rec (Suc 0) os s m p5"
      using al nav o2 n0 unfolding need_def p1_def n_def [symmetric] Let_def
      by (subst allocFromDataChunk_rec.simps(2))
        (auto simp: need_def n_def [symmetric] Let_def p3_def p4_def p5_def c_def
          simp del: allocFromDataChunk_rec.simps)
    then have rec: "allocFromDataChunk_rec (Suc 0) os s m p5 = (x, m', p')"
      using r by (simp add: allocFromDataChunk_def numeral_2_eq_2 del: allocFromDataChunk_rec.simps)
    have st3: "pool_st p3 bl pl2 (add_mset (o2, need) L1)" and emp3: "x_iStart p3 = x_iEnd p3"
      using st2 o2 emp by (simp_all add: p3_def)
    have o16: "LSSHM_POOL_UNITSIZE dvd o2" using u2 dvd_trans [of 16 1024] by (auto simp: lay_simps)
    have "\<exists>bl'. pool_st p5 bl' pl2 L \<and> (\<forall>k\<ge>s div 16. bl' k = bl k)"
    proof -
      consider "n = 0" | "n \<noteq> 0" "x_iStart p + n = o2" | "n \<noteq> 0" "x_iStart p + n \<noteq> o2" by blast
      then show ?thesis
      proof cases
        case 1
        then have "pool_st p5 bl pl2 L"
          unfolding p5_def by (intro chunk_new [where M = "{#(o2, need)#}"]) (use st3 emp3 o16 need in \<open>auto simp: p4_def c_def L1_def\<close>)
        then show ?thesis by auto
      next
        case 2
        have "cov1 (x_iStart p, need + n) y = cov1 (x_iStart p, n) y + cov1 (o2, need) y" for y
          using cov1_split [of "x_iStart p" n need y] 2 by (simp add: add.commute)
        then have "pool_st p5 bl pl2 L" using 2
          unfolding p5_def by (intro chunk_new [where M = "{#(o2, need), (x_iStart p, n)#}"])
            (use st3 emp3 n16 need in \<open>auto simp: p4_def c_def L1_def\<close>)
        then show ?thesis by auto
      next
        case 3
        have "pool_st p3 bl pl2 (add_mset (x_iStart p, n) (add_mset (o2, need) L))"
          using st3 3 by (simp add: L1_def add_mset_commute)
        note rd = releaseData_ok [OF this n16(1)]
        have n2: "n < LSSHM_POOL_MAXBCKTSIZE" using n1 s(3) by (simp add: lay_simps)
        have "pool_st p5 (bl(n div 16 := x_iStart p # bl (n div 16))) pl2 L"
          unfolding p5_def by (rule chunk_new [where M = "{#(o2, need)#}"])
            (use rd [OF n2] 3 emp3 need o16 in \<open>auto simp: p4_def c_def\<close>)
        moreover have "n div 16 < s div 16" using n1 n16(1) s(1) by (auto simp: lay_simps elim!: dvdE)
        ultimately show ?thesis by (intro exI [of _ "bl(n div 16 := x_iStart p # bl (n div 16))"]) auto
      qed
    qed
    then obtain bl' where st5: "pool_st p5 bl' pl2 L" and same: "\<forall>k\<ge>s div 16. bl' k = bl k" by auto
    have "s \<le> x_iEnd p5 - x_iStart p5" using need(3) by (auto simp: p5_def c_def)
    from allocFromDataChunk_take [OF st5 s m this, of 0 os x m' p'] rec same show ?thesis by auto
  qed
qed


section \<open>The buckets\<close>

lemma fill_links_ok:
  assumes "\<And>i. i \<le> m \<Longrightarrow> isOffsetValid p (x + i * s)" "0 < s"
  shows "\<exists>g. fill_links s x m p = (True, p\<lparr>bk_next := g\<rparr>) \<and> sseg (\<lambda>y. Some (g y)) (run_offs x s m) 0 \<and>
    (\<forall>y. y \<notin> set (run_offs x s m) \<longrightarrow> g y = bk_next p y)"
  using assms
proof (induction m arbitrary: x p)
  case 0
  then show ?case by (intro exI [of _ "bk_next p"]) simp
next
  case (Suc m)
  define q where "q = p\<lparr>bk_next := (bk_next p)(x := (if m \<noteq> 0 then x + s else 0))\<rparr>"
  have v: "isOffsetValid p (x + s)" using Suc.prems(1) [of 1] by simp
  have "isOffsetValid q (x + s + i * s)" if "i \<le> m" for i
    using Suc.prems(1) [of "Suc i"] that by (simp add: q_def isOffsetValid_def add.assoc split: if_splits)
  from Suc.IH [OF this Suc.prems(2)] obtain g where
    g: "fill_links s (x + s) m q = (True, q\<lparr>bk_next := g\<rparr>)" "sseg (\<lambda>y. Some (g y)) (run_offs (x + s) s m) 0"
      "\<forall>y. y \<notin> set (run_offs (x + s) s m) \<longrightarrow> g y = bk_next q y" by blast
  have lo: "y \<in> set (run_offs x' s m') \<Longrightarrow> x' \<le> y" for y x' m'
    by (induction m' arbitrary: x') fastforce+
  have "x \<notin> set (run_offs (x + s) s m)" using lo [of x "x + s" m] Suc.prems(2) by auto
  then have "g x = (if m \<noteq> 0 then x + s else 0)" using g(3) by (simp add: q_def)
  then have "g x = hd0 (run_offs (x + s) s m) 0" by (cases m) auto
  with g v show ?case by (intro exI [of _ g]) (auto simp: q_def)
qed

lemma bucket_fill:
  assumes st: "pool_st p bl pl (run x s m + L)" and k: "0 < k" "k < LSSHM_POOL_NUMBUCKET" "s = k * 16" and e: "bl k = []"
    and g: "sseg (\<lambda>y. Some (g y)) (run_offs x s m) 0" "\<forall>y. y \<notin> set (run_offs x s m) \<longrightarrow> g y = bk_next p y"
  shows "pool_st (p\<lparr>x_aFreeBucket := (x_aFreeBucket p)(k := hd0 (run_offs x s m) 0), bk_next := g\<rparr>)
    (bl(k := run_offs x s m)) pl L"
proof -
  let ?p = "p\<lparr>x_aFreeBucket := (x_aFreeBucket p)(k := hd0 (run_offs x s m) 0), bk_next := g\<rparr>"
  let ?bl = "bl(k := run_offs x s m)"
  have pg: "pg_ok p pl (other_blocks p bl (run x s m + L))" and re: "rest_ok p bl (run x s m + L)"
    using st by (auto simp: pool_st_def)
  have bb: "bucket_blocks ?bl = bucket_blocks bl + run x s m"
    using bucket_blocks_upd [OF k(1,2), of bl "run_offs x s m"] e k(3) by (simp add: run_def lay_simps)
  have fresh: "set (run_offs x s m) \<inter> set (bl j) = {}" if j: "j < LSSHM_POOL_NUMBUCKET" "j \<noteq> 0" for j
  proof (rule ccontr)
    assume "\<not> ?thesis"
    then obtain y where y: "y \<in> set (run_offs x s m)" "y \<in> set (bl j)" by auto
    then have "(y, s) \<in># run x s m" by (auto simp: run_def)
    then obtain M where M: "run x s m = add_mset (y, s) M" by (metis insert_DiffM)
    have "pg_ok p pl (add_mset (y, s) (other_blocks p bl (M + L)))" using pg by (simp add: M)
    with y j k show False using pool_st_fresh by auto
  qed
  have "bucket_chains ?p ?bl"
    unfolding bucket_chains_def
  proof (intro conjI allI impI)
    show "?bl 0 = []" using re k by (simp add: rest_ok_def bucket_chains_def)
    fix j assume j: "j < LSSHM_POOL_NUMBUCKET"
    then have b: "x_aFreeBucket p j = hd0 (bl j) 0" "sseg (\<lambda>x. Some (bk_next p x)) (bl j) 0" "bl 0 = []"
      using re by (simp_all add: rest_ok_def bucket_chains_def)
    show "x_aFreeBucket ?p j = hd0 (?bl j) 0" using b by simp
    have "sseg (\<lambda>y. Some (g y)) (bl j) 0 = sseg (\<lambda>x. Some (bk_next p x)) (bl j) 0" if "j \<noteq> k"
      using fresh [OF j] g(2) b(3) by (intro sseg_cong) (cases "j = 0"; auto)
    then show "sseg (\<lambda>x. Some (bk_next ?p x)) (?bl j) 0" using g(1) b(2) by auto
  qed
  then have "rest_ok ?p ?bl L" using re by (auto simp: rest_ok_def bb live_ok_def)
  moreover have "pg_ok ?p pl (other_blocks ?p ?bl L)"
    using pg by (simp add: pg_ok_def size_ok_def page_list_def page_blocks_def cov_ok_def other_blocks_def
        chunk_block_def bb add.assoc)
  ultimately show ?thesis by (simp add: pool_st_def)
qed


lemma pool_block:
  assumes "pool_st p bl pl (M + L)" "(x, n) \<in># M"
  shows "LSSHM_SHM_UNITSIZE \<le> x" "x + n \<le> m_iUsedSize p" "0 < n" "offset2ptr p x" "m_iUsedSize p \<le> m_iFileSize p"
    "LSSHM_POOL_UNITSIZE dvd x" "LSSHM_POOL_UNITSIZE dvd n"
proof -
  show n: "0 < n" "LSSHM_POOL_UNITSIZE dvd x" "LSSHM_POOL_UNITSIZE dvd n"
    using assms by (force simp: pool_st_def rest_ok_def unit_ok_def)+
  have pg: "pg_ok p pl (other_blocks p bl (M + L))" using assms(1) by (simp add: pool_st_def)
  have "(x, n) \<in># other_blocks p bl (M + L)" using assms(2) by (simp add: other_blocks_def)
  from pg_ok_notin [OF pg this n(1)] pg show "LSSHM_SHM_UNITSIZE \<le> x" "x + n \<le> m_iUsedSize p" "offset2ptr p x"
    "m_iUsedSize p \<le> m_iFileSize p" by (auto simp: pg_ok_def size_ok_def)
qed

lemma pool_valid:
  assumes "pool_st p bl pl L" "y \<le> m_iUsedSize p"
  shows "isOffsetValid p y"
  using assms by (auto simp: pool_st_def pg_ok_def size_ok_def isOffsetValid_def lay_simps)

lemma bk_stat_simps [simp]:
  "pool_st (bk_released k n p) bl pl L = pool_st p bl pl L" "pool_st (bk_allocated k n p) bl pl L = pool_st p bl pl L"
  "isOffsetValid (bk_released k n p) = isOffsetValid p" "x_aFreeBucket (bk_released k n p) = x_aFreeBucket p"
  "m_iUsedSize (bk_released k n p) = m_iUsedSize p"
  by (simp_all add: bk_released_def bk_allocated_def isOffsetValid_def fun_eq_iff)

lemma fillDataBucket_ok:
  assumes st: "pool_st p bl pl L" and k: "0 < k" "k < LSSHM_POOL_NUMBUCKET" "s = k * 16" and e: "bl k = []"
    and r: "fillDataBucket os k s p = (x, p')"
  shows "\<exists>bl' pl'. pool_st p' bl' pl' (if x = 0 then L else add_mset (x, s) L)"
proof -
  have s: "LSSHM_POOL_UNITSIZE dvd s" "0 < s" "s < LSSHM_SHM_UNITSIZE" "s div 16 = k"
    using k by (auto simp: lay_simps)
  define num where "num = (let num = (LSSHM_POOL_MAXBCKTSIZE * 4) div s in if num > LSSHM_MAX_BUCKET_SLOT then LSSHM_MAX_BUCKET_SLOT else num)"
  have num: "0 < num"
    using s(2,3) by (auto simp: num_def Let_def lay_simps div_greater_zero_iff)
  obtain x1 m p1 where a: "allocFromDataChunk os s num p = (x1, m, p1)" by (metis prod_cases3)
  from allocFromDataChunk_ok [OF st s(1-3) num a] s(4) e obtain bl' pl' where
    st1: "pool_st p1 bl' pl' (run x1 s m + L)" and e': "bl' k = []" and z: "m = 0 \<Longrightarrow> x1 = 0" by auto
  show ?thesis
  proof (cases m)
    case 0
    then have "x = 0" "p' = p1" using r a z unfolding fillDataBucket_def num_def Let_def by auto
    with st1 0 show ?thesis by auto
  next
    case (Suc m')
    define p2 where "p2 = bk_released k m p1"
    have st2: "pool_st p2 bl' pl' (run (x1 + s) s m' + add_mset (x1, s) L)" using st1 Suc by (simp add: p2_def)
    have u: "x1 + s * m \<le> m_iUsedSize p2" and x1: "x1 \<noteq> 0"
    proof -
      have "(x1, s) \<in># run x1 s m" using Suc by simp
      from pool_block(1) [OF st1 this] show "x1 \<noteq> 0" by (auto simp: lay_simps)
      have "cov1 (x1, s * m) (x1 + s * m - 1) = 1" using Suc s(2) by (simp add: cov1_def)
      then have "1 \<le> cov (run x1 s m) (x1 + s * m - 1)" by (simp add: cov_run)
      moreover have "cov_ok p1 (other_blocks p1 bl' (run x1 s m + L) + page_blocks p1 pl')"
        using st1 by (simp add: pool_st_def pg_ok_def)
      ultimately have "x1 + s * m - 1 < m_iUsedSize p1"
        by (auto simp: cov_ok_def other_blocks_def dest!: spec [of _ "x1 + s * m - 1"] split: if_splits)
      then show "x1 + s * m \<le> m_iUsedSize p2" by (simp add: p2_def)
    qed
    have v: "isOffsetValid q (x1 + s + i * s)" if "i \<le> m'" "isOffsetValid q = isOffsetValid p2" for i q
    proof -
      have "s + i * s \<le> s * m" using that(1) Suc by (simp add: mult.commute)
      then have "x1 + s + i * s \<le> m_iUsedSize p2" using u by linarith
      from pool_valid [OF st2 this] show ?thesis using that(2) by simp
    qed
    define p3 where "p3 = (if m' \<noteq> 0 then p2\<lparr>x_aFreeBucket := (x_aFreeBucket p2)(k := x1 + s)\<rparr> else p2)"
    have iv: "isOffsetValid p3 = isOffsetValid p2" by (simp add: p3_def isOffsetValid_def fun_eq_iff)
    from fill_links_ok [of m' p3 "x1 + s" s] v [OF _ iv] s(2) obtain g where
      g: "fill_links s (x1 + s) m' p3 = (True, p3\<lparr>bk_next := g\<rparr>)" "sseg (\<lambda>y. Some (g y)) (run_offs (x1 + s) s m') 0"
      "\<forall>y. y \<notin> set (run_offs (x1 + s) s m') \<longrightarrow> g y = bk_next p3 y" by auto
    have "x_aFreeBucket p2 k = 0"
      using st2 k(2) e' by (simp add: pool_st_def rest_ok_def bucket_chains_def)
    then have p3: "p3\<lparr>bk_next := g\<rparr> =
        p2\<lparr>x_aFreeBucket := (x_aFreeBucket p2)(k := hd0 (run_offs (x1 + s) s m') 0), bk_next := g\<rparr>"
      by (cases m') (simp_all add: p3_def fun_upd_idem)
    have "fillDataBucket os k s p = (x1, p3\<lparr>bk_next := g\<rparr>)"
      using a [unfolded num_def Let_def] g(1) v [of 0 p2] Suc
      by (cases "m' = 0") (simp_all add: fillDataBucket_def Let_def p2_def p3_def)
    then have "x = x1" "p' = p3\<lparr>bk_next := g\<rparr>" using r by auto
    moreover have "pool_st (p3\<lparr>bk_next := g\<rparr>) (bl'(k := run_offs (x1 + s) s m')) pl' (add_mset (x1, s) L)"
      unfolding p3 by (rule bucket_fill [OF st2 k e' g(2)]) (use g(3) in \<open>auto simp: p3_def\<close>)
    ultimately show ?thesis using x1 by auto
  qed
qed


lemma bucket_pop:
  assumes st: "pool_st p bl pl L" and k: "0 < k" "k < LSSHM_POOL_NUMBUCKET" and b: "bl k = x # xs"
  shows "pool_st (p\<lparr>x_aFreeBucket := (x_aFreeBucket p)(k := bk_next p x)\<rparr>) (bl(k := xs)) pl (add_mset (x, k * 16) L)"
    and "offset2ptr p x" "isOffsetValid p (bk_next p x)" "x \<noteq> 0" "x_aFreeBucket p k = x"
proof -
  let ?p = "p\<lparr>x_aFreeBucket := (x_aFreeBucket p)(k := bk_next p x)\<rparr>"
  have pg: "pg_ok p pl (other_blocks p bl L)" and re: "rest_ok p bl L" using st by (auto simp: pool_st_def)
  have ch: "x_aFreeBucket p k = x" "bk_next p x = hd0 xs 0" "sseg (\<lambda>x. Some (bk_next p x)) xs 0"
    using re k b by (auto simp: rest_ok_def bucket_chains_def)
  have i: "y \<in> set (bl k) \<Longrightarrow> (y, k * 16) \<in># other_blocks p bl L" for y
    using bucket_blocks_in [OF k(2,1), of y bl] by (simp add: other_blocks_def lay_simps)
  have nb: "y \<in> set (bl k) \<Longrightarrow> offset2ptr p y \<and> y \<noteq> 0" for y
    using pg_ok_notin(4,5) [OF pg i] k(1) by auto
  then show "offset2ptr p x" "x \<noteq> 0" using b by auto
  show "x_aFreeBucket p k = x" by (fact ch)
  show "isOffsetValid p (bk_next p x)"
    using nb b pool_valid [OF st, of 0] by (cases xs) (auto simp: ch offset2ptr_def)
  have bb: "bucket_blocks bl = add_mset (x, k * 16) (bucket_blocks (bl(k := xs)))"
    using bucket_blocks_push [OF k, of "bl(k := xs)" x] b by (simp add: fun_upd_idem lay_simps)
  have "bucket_chains ?p (bl(k := xs))" using re ch k(1) by (simp add: rest_ok_def bucket_chains_def)
  moreover have "k * 16 < 1024" using k by (simp add: lay_simps)
  ultimately have "rest_ok ?p (bl(k := xs)) (add_mset (x, k * 16) L)"
    using re by (auto simp: rest_ok_def bb live_ok_def lay_simps)
  moreover have "pg_ok ?p pl (other_blocks ?p (bl(k := xs)) (add_mset (x, k * 16) L))"
    using pg by (simp add: pg_ok_def size_ok_def page_list_def page_blocks_def cov_ok_def other_blocks_def
        chunk_block_def bb)
  ultimately show "pool_st ?p (bl(k := xs)) pl (add_mset (x, k * 16) L)" by (simp add: pool_st_def)
qed

lemma allocFromDataBucket_ok:
  assumes st: "pool_st p bl pl L" and s: "LSSHM_POOL_UNITSIZE dvd s" "0 < s" "s < LSSHM_SHM_UNITSIZE"
    and r: "allocFromDataBucket os s p = (x, p')"
  shows "\<exists>bl' pl'. pool_st p' bl' pl' (if x = 0 then L else add_mset (x, s) L)"
proof -
  define k where "k = s div 16"
  have k: "0 < k" "k < LSSHM_POOL_NUMBUCKET" "s = k * 16" "dataSize2Bucket s = k"
    using s by (auto simp: k_def lay_simps dataSize2Bucket_def elim!: dvdE)
  have hd: "x_aFreeBucket p k = hd0 (bl k) 0" using st k by (simp add: pool_st_def rest_ok_def bucket_chains_def)
  show ?thesis
  proof (cases "bl k")
    case Nil
    obtain x1 p1 where f: "fillDataBucket os k s p = (x1, p1)" by fastforce
    have "x = x1" "p' = (if x1 = 0 then p1 else bk_allocated k 1 p1)"
      using r f hd Nil by (auto simp: allocFromDataBucket_def k(4) Let_def split: if_splits)
    with fillDataBucket_ok [OF st k(1-3) Nil f] show ?thesis by (cases "x1 = 0") simp_all
  next
    case (Cons y ys)
    note pop = bucket_pop [OF st k(1,2) Cons]
    have "x = y" "p' = bk_allocated k 1 (p\<lparr>x_aFreeBucket := (x_aFreeBucket p)(k := bk_next p y)\<rparr>)"
      using r pop by (auto simp: allocFromDataBucket_def k(4) Let_def)
    with pop(1,4) k(3) show ?thesis by auto
  qed
qed

section \<open>Entry points\<close>

lemma roundDataSize_unit:
  "LSSHM_POOL_UNITSIZE dvd roundDataSize n" "n \<le> roundDataSize n" "roundDataSize n < n + LSSHM_POOL_UNITSIZE"
  unfolding roundDataSize_def
  by (simp, rule ceil_div_le, simp add: lay_simps, rule ceil_div_less, simp add: lay_simps)

text \<open>The number of bytes that a block of the given size occupies.\<close>

definition blkSize :: "nat \<Rightarrow> nat" where
  "blkSize n = (if roundDataSize n \<ge> LSSHM_SHM_UNITSIZE then roundPageSize (roundDataSize n) else roundDataSize n)"

lemma alloc2Ex_ok:
  assumes st: "pool_st p bl pl L" and s: "LSSHM_POOL_UNITSIZE dvd s" "0 < s"
    and r: "alloc2Ex os s p = (x, p')"
  shows "\<exists>bl' pl'. pool_st p' bl' pl' (if x = 0 then L
    else add_mset (x, if s \<ge> LSSHM_SHM_UNITSIZE then roundPageSize s else s) L)"
proof (cases "s \<ge> LSSHM_SHM_UNITSIZE")
  case True
  obtain x1 p1 where a: "allocPage os s p = (x1, p1)" by fastforce
  have "x = x1" "p' = p1\<lparr>x_stat := x_stat p'\<rparr>" using r a True by (auto simp: alloc2Ex_def Let_def split: if_splits)
  moreover have "\<exists>pl'. pool_st (p1\<lparr>x_stat := x_stat p'\<rparr>) bl pl' (if x1 = 0 then L else add_mset (x1, roundPageSize s) L)"
    using pool_allocPage(1) [OF st s(2) a] by simp
  ultimately show ?thesis using True by metis
next
  case False
  obtain x1 p1 where a: "allocFromDataBucket os s p = (x1, p1)" by fastforce
  have "x = x1" "p' = p1\<lparr>x_stat := x_stat p'\<rparr>"
    using r a False by (auto simp: alloc2Ex_def Let_def lay_simps split: if_splits)
  moreover have "\<exists>bl' pl'. pool_st (p1\<lparr>x_stat := x_stat p'\<rparr>) bl' pl' (if x1 = 0 then L else add_mset (x1, s) L)"
    using allocFromDataBucket_ok [OF st s _ a] False by simp
  ultimately show ?thesis using False by (metis (full_types))
qed


text \<open>
  \<open>alloc2\<close> hands out a block of the size it reports; on failure nothing changes for the blocks
  in use.
\<close>

lemma alloc2_inv:
  assumes "pool_inv p L" and r: "alloc2 os n p = (x, n', p')"
  shows "if x = 0 then pool_inv p' L else pool_inv p' (add_mset (x, blkSize n') L) \<and> n \<le> n' \<and>
    LSSHM_POOL_UNITSIZE dvd n' \<and> 0 < n'"
proof -
  obtain bl pl where st: "pool_st p bl pl L" using assms(1) by (auto simp: pool_inv_def)
  have bs: "blkSize m = (if m \<ge> LSSHM_SHM_UNITSIZE then roundPageSize m else m)" if "LSSHM_POOL_UNITSIZE dvd m" for m
    using that by (auto simp: blkSize_def roundDataSize_def lay_simps mult.commute elim!: dvdE)
  show ?thesis
  proof (cases "n = 0 \<or> n \<ge> 0x80000000 \<or> n > LSSHM_MAXSIZE")
    case True
    then show ?thesis using r assms(1) by (auto simp: alloc2_def)
  next
    case False
    define s where "s = roundDataSize n"
    note s = roundDataSize_unit [of n, folded s_def]
    have s0: "0 < s" using s False by auto
    obtain x1 p1 where a: "alloc2Ex os s p = (x1, p1)" by fastforce
    obtain bl1 pl1 where st1: "pool_st p1 bl1 pl1 (if x1 = 0 then L else add_mset (x1, blkSize s) L)"
      using alloc2Ex_ok [OF st s(1) s0 a] unfolding bs [OF s(1), symmetric] by blast
    show ?thesis
    proof (cases "s \<ge> LARGE_PAGE_SIZE \<or> x1 div LARGE_PAGE_SIZE = (x1 + s - 1) div LARGE_PAGE_SIZE")
      case True
      then have "x = x1" "n' = s" "p' = p1"
        using r False a by (auto simp: alloc2_def s_def [symmetric] Let_def split: if_splits)
      with st1 s s0 show ?thesis by (auto intro: pool_invI)
    next
      case cross: False
      have st1': "pool_st p1 bl1 pl1 L"
        using st1 pool_st_drop [of p1 bl1 pl1 "{#(x1, blkSize s)#}" L] by (auto split: if_splits)
      obtain x2 p2 where b: "alloc2Ex os LARGE_PAGE_SIZE p1 = (x2, p2)" by fastforce
      have lp: "LSSHM_POOL_UNITSIZE dvd LARGE_PAGE_SIZE" "0 < LARGE_PAGE_SIZE" by (auto simp: lay_simps)
      obtain bl2 pl2 where st2: "pool_st p2 bl2 pl2 (if x2 = 0 then L else add_mset (x2, blkSize LARGE_PAGE_SIZE) L)"
        using alloc2Ex_ok [OF st1' lp b] unfolding bs [OF lp(1), symmetric] by blast
      have "x = x2" "n' = LARGE_PAGE_SIZE" "p' = p2"
        using r False a cross b by (auto simp: alloc2_def s_def [symmetric] Let_def split: if_splits)
      with st2 s cross lp show ?thesis by (auto intro: pool_invI)
    qed
  qed
qed

lemma release2_inv:
  assumes "pool_inv p (add_mset (x, n) L)" and "blkSize sz \<le> n" "0 < sz"
  shows "pool_inv (release2 x sz p) L"
proof -
  obtain bl pl where "pool_st p bl pl (add_mset (x, n) L)" using assms(1) by (auto simp: pool_inv_def)
  moreover define m where "m = roundDataSize sz"
  note m = roundDataSize_unit [of sz, folded m_def]
  have m0: "0 < m" using m assms(3) by simp
  ultimately have st: "pool_st p bl pl (add_mset (x, n) L)" by simp
  have pg: "pg_ok p pl (add_mset (x, n) (other_blocks p bl L))" and re: "rest_ok p bl (add_mset (x, n) L)"
    using st by (auto simp: pool_st_def)
  have re': "rest_ok p bl L" using re by (auto simp: rest_ok_def live_ok_def)
  show ?thesis
  proof (cases "m \<ge> LSSHM_SHM_UNITSIZE")
    case True
    have n: "roundPageSize m \<le> n" using assms(2) True by (simp add: blkSize_def m_def)
    then have "LSSHM_SHM_UNITSIZE \<le> n" using True roundPageSize_unit(2) [of m] by linarith
    then have u: "LSSHM_SHM_UNITSIZE dvd x" using re by (simp add: rest_ok_def live_ok_def)
    have pg': "pg_ok p pl (add_mset (x, roundPageSize m) (other_blocks p bl L))"
      by (rule pg_ok_mono [OF pg]) (use cov1_mono [OF n] in auto)
    note rl = releasePageLocked_ok [OF pg' u m0]
    then have "grown p (releasePageLocked x m p)" by (intro grown_rest)
    then have re2: "rest_ok (releasePageLocked x m p) bl L"
      and ob: "other_blocks (releasePageLocked x m p) bl L = other_blocks p bl L"
      using rest_ok_grown [OF re'] other_blocks_grown by auto
    from rl(1) obtain pl2 where "pool_st (releasePageLocked x m p) bl pl2 L" by (auto simp: pool_st_def re2 ob)
    then have "pool_inv (releasePageLocked x m p) L" by (rule pool_invI)
    then show ?thesis using True by (simp add: release2_def m_def Let_def)
  next
    case False
    have n: "m \<le> n" using assms(2) False by (simp add: blkSize_def m_def)
    have pg': "pg_ok p pl (add_mset (x, m) (other_blocks p bl L))"
      by (rule pg_ok_mono [OF pg]) (use cov1_mono [OF n] in auto)
    have "pool_st p bl pl (add_mset (x, m) L)"
      using pg' re m m0 False by (auto simp: pool_st_def rest_ok_def live_ok_def)
    from releaseData_ok(1) [OF this m(1)] False have "pool_inv (releaseData x m p) L"
      by (auto simp: lay_simps intro: pool_invI)
    then show ?thesis using False by (simp add: release2_def m_def Let_def)
  qed
qed

text \<open>What the invariant says about the blocks in use.\<close>

lemma pool_inv_block:
  assumes "pool_inv p (add_mset (x, n) L)"
  shows "LSSHM_SHM_UNITSIZE \<le> x" "x + n \<le> m_iUsedSize p" "0 < n" "m_iUsedSize p \<le> m_iFileSize p"
    "LSSHM_POOL_UNITSIZE dvd x" "LSSHM_POOL_UNITSIZE dvd n"
    "x \<le> y \<Longrightarrow> y < x + n \<Longrightarrow> offset2ptr p y" "x \<noteq> 0" "x + n < 2 ^ 32"
    "(x', n') \<in># L \<Longrightarrow> blk_disj (x, n) (x', n')"
proof -
  obtain bl pl where st: "pool_st p bl pl ({#(x, n)#} + L)" using assms by (auto simp: pool_inv_def)
  show b: "LSSHM_SHM_UNITSIZE \<le> x" "x + n \<le> m_iUsedSize p" "0 < n" "m_iUsedSize p \<le> m_iFileSize p"
    "LSSHM_POOL_UNITSIZE dvd x" "LSSHM_POOL_UNITSIZE dvd n"
    using pool_block [OF st, of x n] by auto
  then show "x \<noteq> 0" by (auto simp: lay_simps)
  have pg: "pg_ok p pl (other_blocks p bl ({#(x, n)#} + L))" using st by (simp add: pool_st_def)
  then show "x + n < 2 ^ 32" using b by (simp add: pg_ok_def size_ok_def)
  show "offset2ptr p y" if "x \<le> y" "y < x + n"
    by (rule pg_mapped [OF pg]) (use b that in \<open>auto simp: lay_simps\<close>)
  show "blk_disj (x, n) (x', n')" if i: "(x', n') \<in># L"
  proof (rule cov_le1_disj [where M = L])
    have c: "cov_ok p (other_blocks p bl ({#(x, n)#} + L) + page_blocks p pl)" using pg by (simp add: pg_ok_def)
    show "cov (add_mset (x, n) L) y \<le> 1" for y
      using cov_ok_le1 [OF c, of y] by (simp add: other_blocks_def)
    have "unit_ok LSSHM_POOL_UNITSIZE L" using st by (simp add: pool_st_def rest_ok_def)
    with i show "0 < snd (x', n')" by (auto simp: unit_ok_def)
  qed (use i b(3) in simp_all)
qed


lemma newShmMap_inv:
  assumes "newShmMap os mx n = Some p" "n < 2 ^ 32"
  shows "pool_inv p {#}"
proof -
  define n1 where "n1 = (if n < LSSHM_PAGESIZE then LSSHM_PAGESIZE else n)"
  have p: "p = (mapAddrSpace os n1 (createStaticData mx))\<lparr>m_iFileSize := n1, m_iUsedSize := LSSHM_SHM_UNITSIZE\<rparr>"
    using assms(1) by (auto simp: newShmMap_def Let_def n1_def split: if_splits)
  have n1: "1024 \<le> n1" "n1 < 2 ^ 32" using assms(2) by (auto simp: n1_def lay_simps)
  have "size_ok p"
    using mapAddrSpace_pages(1) [of n1 os "createStaticData mx"] n1 by (simp add: p size_ok_def lay_simps)
  moreover have f: "ft p = (\<lambda>_. None)" "x_iFreePageList p = 0" "x_iFreeList p = 0" "x_iStart p = 0" "x_iEnd p = 0"
    "x_aFreeBucket p = (\<lambda>_. 0)"
    by (simp_all add: p mapAddrSpace_def createStaticData_def Let_def)
  ultimately have "pool_st p (\<lambda>_. []) [] {#}"
    by (simp add: pool_st_def pg_ok_def rest_ok_def page_list_def bucket_chains_def bucket_blocks_def live_ok_def
        other_blocks_def chunk_block_def cov_ok_def)
  then show ?thesis by (rule pool_invI)
qed

section \<open>The allocator as its clients see it\<close>

text \<open>
  \<open>inv s L\<close>: in state \<open>s\<close> exactly the blocks \<open>L\<close> (offset and occupied size) are handed out. The laws are
  those the hash table relies on; the lemmas of the locale hold for every provider of them.
\<close>

locale shm_allocator =
  fixes inv :: "'s \<Rightarrow> block multiset \<Rightarrow> bool"
    and alloc :: "nat \<Rightarrow> 's \<Rightarrow> off \<times> nat \<times> 's"
    and release :: "off \<Rightarrow> nat \<Rightarrow> 's \<Rightarrow> 's"
    and mapped :: "'s \<Rightarrow> off \<Rightarrow> bool"
    and occupied :: "nat \<Rightarrow> nat"
  assumes alloc_some: "inv s L \<Longrightarrow> alloc n s = (x, n', s') \<Longrightarrow> x \<noteq> 0 \<Longrightarrow>
      inv s' (add_mset (x, occupied n') L) \<and> n \<le> n' \<and> 0 < n'"
    and alloc_none: "inv s L \<Longrightarrow> alloc n s = (0, n', s') \<Longrightarrow> inv s' L"
    and release_ok: "inv s (add_mset (x, k) L) \<Longrightarrow> occupied n \<le> k \<Longrightarrow> 0 < n \<Longrightarrow> inv (release x n s) L"
    and disjoint: "inv s (add_mset (x, k) (add_mset (y, l) L)) \<Longrightarrow> blk_disj (x, k) (y, l)"
    and block_pos: "inv s (add_mset (x, k) L) \<Longrightarrow> x \<noteq> 0 \<and> 0 < k"
    and block_mapped: "inv s (add_mset (x, k) L) \<Longrightarrow> x \<le> y \<Longrightarrow> y < x + k \<Longrightarrow> mapped s y"
    and occupied_ge: "n \<le> occupied n"
begin

lemma starts_distinct:
  assumes "inv s L" and "(x, k) \<in># L" and "(x, l) \<in># L"
  shows "k = l" and "count L (x, k) = 1"
proof -
  obtain L1 where L1: "L = add_mset (x, k) L1" using assms(2) by (metis insert_DiffM)
  have no: "(x, l') \<notin># L1" for l'
  proof
    assume "(x, l') \<in># L1"
    then obtain L2 where "L = add_mset (x, k) (add_mset (x, l') L2)" using L1 by (metis insert_DiffM)
    with assms(1) disjoint [of s x k x l' L2] block_pos [of s x k] block_pos [of s x l' "add_mset (x, k) L2"]
    show False by (auto simp: blk_disj_def add_mset_commute)
  qed
  show "k = l" using assms(3) L1 no by auto
  show "count L (x, k) = 1" using no [of k] L1 by (simp add: count_eq_zero_iff)
qed

text \<open>A new block is not one of the blocks in use, and shares no byte with them.\<close>

lemma alloc_fresh:
  assumes "inv s L" and "alloc n s = (x, n', s')" and "x \<noteq> 0" and "(y, l) \<in># L"
  shows "blk_disj (x, n') (y, l)" and "y \<noteq> x"
proof -
  obtain L1 where L1: "L = add_mset (y, l) L1" using assms(4) by (metis insert_DiffM)
  have i: "inv s' (add_mset (x, occupied n') (add_mset (y, l) L1))" and "0 < n'"
    using alloc_some [OF assms(1-3)] L1 by auto
  from disjoint [OF i] occupied_ge [of n'] show d: "blk_disj (x, n') (y, l)" by (auto simp: blk_disj_def)
  have "0 < l" using block_pos [of s' y l "add_mset (x, occupied n') L1"] i by (simp add: add_mset_commute)
  with d \<open>0 < n'\<close> show "y \<noteq> x" by (auto simp: blk_disj_def)
qed

lemma alloc_mapped:
  assumes "inv s L" and "alloc n s = (x, n', s')" and "x \<noteq> 0" and "x \<le> y" and "y < x + n"
  shows "mapped s' y"
  using alloc_some [OF assms(1-3)] assms(4,5) occupied_ge [of n']
  by (intro block_mapped [of s' x "occupied n'" L]) auto

text \<open>What is allocated can be given back: the blocks in use are then the same as before.\<close>

lemma alloc_release:
  assumes "inv s L" and "alloc n s = (x, n', s')" and "x \<noteq> 0"
  shows "inv (release x n' s') L"
  using alloc_some [OF assms] by (intro release_ok [of s' x "occupied n'"]) auto

end

lemma blkSize_ge: "n \<le> blkSize n"
  using roundDataSize_unit(2) [of n] roundPageSize_unit(2) [of "roundDataSize n"] by (auto simp: blkSize_def)

interpretation pool: shm_allocator pool_inv "alloc2 os" release2 offset2ptr blkSize for os
proof
  show "pool_inv p' (add_mset (x, blkSize n') L) \<and> n \<le> n' \<and> 0 < n'"
    if "pool_inv p L" "alloc2 os n p = (x, n', p')" "x \<noteq> 0" for p L n x n' p'
    using alloc2_inv [OF that(1,2)] that(3) by simp
  show "pool_inv p' L" if "pool_inv p L" "alloc2 os n p = (0, n', p')" for p L n n' p'
    using alloc2_inv [OF that] by simp
  show "blk_disj (x, k) (y, l)" if "pool_inv p (add_mset (x, k) (add_mset (y, l) L))" for p x k y l L
    using pool_inv_block(10) [OF that, of y l] by simp
  show "x \<noteq> 0 \<and> 0 < k" if "pool_inv p (add_mset (x, k) L)" for p x k L
    using pool_inv_block(3,8) [OF that] by simp
  show "offset2ptr p y" if "pool_inv p (add_mset (x, k) L)" "x \<le> y" "y < x + k" for p x k L y
    using pool_inv_block(7) [OF that] .
qed (auto intro: release2_inv blkSize_ge)

section \<open>Histories of the pool\<close>

text \<open>
  A state with the blocks handed out, as offset and granted size: a new file, then any sequence of
  allocations, failed allocations and releases of blocks in use, with any answers of the operating
  system. A block may be released with a smaller size than granted, as the hash table does after
  \<open>alloc2\<close> enlarged its request.
\<close>

inductive pool_reach :: "shm_pool \<Rightarrow> block multiset \<Rightarrow> bool" where
  reach_new: "newShmMap os mx n = Some p \<Longrightarrow> n < 2 ^ 32 \<Longrightarrow> pool_reach p {#}"
| reach_alloc: "pool_reach p L \<Longrightarrow> alloc2 os n p = (x, n', p') \<Longrightarrow> x \<noteq> 0 \<Longrightarrow> pool_reach p' (add_mset (x, n') L)"
| reach_fail: "pool_reach p L \<Longrightarrow> alloc2 os n p = (0, n', p') \<Longrightarrow> pool_reach p' L"
| reach_release: "pool_reach p (add_mset (x, n) L) \<Longrightarrow> 0 < m \<Longrightarrow> m \<le> n \<Longrightarrow> pool_reach (release2 x m p) L"

lemma blkSize_mono: "m \<le> n \<Longrightarrow> blkSize m \<le> blkSize n"
proof -
  assume "m \<le> n"
  then have a: "roundDataSize m \<le> roundDataSize n" by (simp add: roundDataSize_def div_le_mono)
  then have "roundPageSize (roundDataSize m) \<le> roundPageSize (roundDataSize n)"
    by (simp add: roundPageSize_def div_le_mono)
  with a roundPageSize_unit(2) [of "roundDataSize n"] show ?thesis by (auto simp: blkSize_def)
qed

lemma pool_reach_inv: "pool_reach p L \<Longrightarrow> pool_inv p (image_mset (\<lambda>(x, n). (x, blkSize n)) L)"
proof (induction rule: pool_reach.induct)
  case (reach_new os mx n p)
  then show ?case using newShmMap_inv by simp
next
  case (reach_alloc p L os n x n' p')
  then show ?case using pool.alloc_some by simp
next
  case (reach_fail p L os n n' p')
  then show ?case using pool.alloc_none by simp
next
  case (reach_release p x n L m)
  then show ?case using release2_inv [of p x "blkSize n"] blkSize_mono by simp
qed

section \<open>A small pool\<close>

definition w_os :: os where
  "w_os = \<lparr>expandfile_ok = (\<lambda>_ _. True), mmap_ok = (\<lambda>_. True), mmap_aligned = (\<lambda>_. False), contig = (\<lambda>_. True)\<rparr>"

lemma getFromFreeList_empty [simp]: "getFromFreeList_loop k n 0 p = (0, p)"
  by (cases k) auto

definition w_pool :: shm_pool where
  "w_pool = (createStaticData 0)\<lparr>m_iFileSize := 8192, m_iUsedSize := 1024, off2ptr_pages := 1\<rparr>"

lemma w_pool_new: "newShmMap w_os 0 0 = Some w_pool"
  by (simp add: newShmMap_def w_os_def w_pool_def lay_simps mapAddrSpace_def createStaticData_def)

lemma w_alloc: "alloc2 w_os 1500 w_pool = (1024, 1504, snd (snd (alloc2 w_os 1500 w_pool)))"
  by (simp add: alloc2_def alloc2Ex_def allocPage_def getFromFreeList_def shm_allocPage_def w_pool_def createStaticData_def
      lay_simps roundDataSize_def roundPageSize_def roundSize2pages_def offset2ptr_def isOffsetValid_def
      incrCheck_def markTopUsed_def Let_def)

lemma w_alloc2: "alloc2 w_os 1500 (snd (snd (alloc2 w_os 1500 w_pool))) =
    (3072, 1504, snd (snd (alloc2 w_os 1500 (snd (snd (alloc2 w_os 1500 w_pool))))))"
  by (simp add: alloc2_def alloc2Ex_def allocPage_def getFromFreeList_def shm_allocPage_def w_pool_def createStaticData_def
      lay_simps roundDataSize_def roundPageSize_def roundSize2pages_def offset2ptr_def isOffsetValid_def
      incrCheck_def markTopUsed_def Let_def)


section \<open>Properties\<close>

text \<open>
  C23: In every history of the pool, a successful \<open>alloc2\<close> of \<open>n\<close> bytes returns a block of at least
  \<open>n\<close> bytes that is aligned to 16, lies behind the file header and inside the used part of the
  file, is mapped in full, and shares no byte with any block that is still in use.
\<close>

theorem alloc2_fresh_block:
  assumes "pool_reach p L" and "alloc2 os n p = (x, n', p')" and "x \<noteq> 0"
  shows "n \<le> n' \<and> x mod 16 = 0 \<and> 1024 \<le> x \<and> x + n' \<le> m_iUsedSize p' \<and> m_iUsedSize p' \<le> m_iFileSize p' \<and>
    m_iFileSize p' < 2 ^ 32 \<and> (\<forall>y. x \<le> y \<and> y < x + n' \<longrightarrow> offset2ptr p' y) \<and>
    (\<forall>(y, m) \<in># L. x + n' \<le> y \<or> y + m \<le> x)"
proof -
  let ?L = "image_mset (\<lambda>(x, n). (x, blkSize n)) L"
  have i: "pool_inv p ?L" using assms(1) by (rule pool_reach_inv)
  note a = pool.alloc_some [OF i assms(2,3)]
  note b = pool_inv_block [OF conjunct1 [OF a]] and ge = blkSize_ge [of n']
  have "x + n' \<le> y \<or> y + m \<le> x" if "(y, m) \<in># L" for y m
    using pool.alloc_fresh(1) [OF i assms(2,3), of y "blkSize m"] that blkSize_ge [of m]
    by (force simp: blk_disj_def)
  moreover have "m_iFileSize p' < 2 ^ 32"
    using a by (auto simp: pool_inv_def pool_st_def pg_ok_def size_ok_def)
  ultimately show ?thesis using a b(1,2,4,5) ge by (auto simp: lay_simps intro!: b(7))
qed

theorem alloc2_fresh_block_witness:
  "pool_reach w_pool {#} \<and> 1024 + 1504 \<le> m_iUsedSize (snd (snd (alloc2 w_os 1500 w_pool))) \<and>
   offset2ptr (snd (snd (alloc2 w_os 1500 w_pool))) 2527"
proof -
  have r: "pool_reach w_pool {#}" by (rule reach_new [OF w_pool_new]) simp
  from alloc2_fresh_block [OF r w_alloc] r show ?thesis by simp
qed

text \<open>
  C4: The allocator never hands out a byte twice: in every history of allocations and releases,
  any two blocks in use are disjoint, whatever the operating system answered on the way.
\<close>

theorem pool_blocks_disjoint:
  assumes "pool_reach p (add_mset (x, n) (add_mset (y, m) L))"
  shows "x + n \<le> y \<or> y + m \<le> x"
  using pool_reach_inv [OF assms] pool.disjoint [of p x "blkSize n" y "blkSize m" _] blkSize_ge [of n] blkSize_ge [of m]
  by (force simp: blk_disj_def)

theorem pool_blocks_disjoint_witness:
  "pool_reach (snd (snd (alloc2 w_os 1500 (snd (snd (alloc2 w_os 1500 w_pool)))))) {#(3072, 1504), (1024, 1504)#} \<and>
   (3072 + 1504 \<le> (1024 :: nat) \<or> 1024 + 1504 \<le> (3072 :: nat))"
proof -
  have r: "pool_reach w_pool {#}" by (rule reach_new [OF w_pool_new]) simp
  have r1: "pool_reach (snd (snd (alloc2 w_os 1500 w_pool))) {#(1024, 1504)#}"
    using reach_alloc [OF r w_alloc] by simp
  have r2: "pool_reach (snd (snd (alloc2 w_os 1500 (snd (snd (alloc2 w_os 1500 w_pool)))))) {#(3072, 1504), (1024, 1504)#}"
    using reach_alloc [OF r1 w_alloc2] by simp
  with pool_blocks_disjoint [OF r2] show ?thesis by simp
qed

end
