(* ===== verification/LsShmHashInv.thy ===== *)
theory LsShmHashInv
  imports LsShmHashOps LsShmPoolSafe
begin

text \<open>
  The invariant of a hash table and the map it stores. A table owns blocks of the pool: the index
  with the bitmap, one block per element, and the blocks of the transaction-id table. Chains are
  lists of offsets linked through \<open>x_iNext\<close>. The frame lemmas say which operations leave the
  table as it is: the LRU operations change links, anchors and counters only.
\<close>

section \<open>Blocks owned by a table\<close>

text \<open>
  \<open>owns p M R\<close>: the blocks \<open>M\<close>, given with the sizes they are released with, are in use in the pool,
  next to the blocks \<open>R\<close> of other owners.
\<close>

definition owns :: "shm_pool \<Rightarrow> block multiset \<Rightarrow> block multiset \<Rightarrow> bool" where
  "owns p M R \<longleftrightarrow> (\<exists>f. pool_inv p (image_mset (\<lambda>(x, n). (x, f x)) M + R) \<and>
     (\<forall>(x, n)\<in>#M. 0 < n \<and> blkSize n \<le> f x))"

lemma owns_block:
  assumes "owns p M R" "(x, n) \<in># M"
  shows "LSSHM_SHM_UNITSIZE \<le> x" "x + n \<le> m_iFileSize p" "0 < n" "x \<le> y \<Longrightarrow> y < x + n \<Longrightarrow> offset2ptr p y"
    "offset2ptr p x" "y \<le> x + n \<Longrightarrow> isOffsetValid p y" "x \<noteq> 0"
proof -
  obtain f where f: "pool_inv p (image_mset (\<lambda>(x, n). (x, f x)) M + R)" "0 < n" "blkSize n \<le> f x"
    using assms by (auto simp: owns_def)
  obtain M' where "M = add_mset (x, n) M'" using assms(2) by (metis insert_DiffM)
  with f have i: "pool_inv p (add_mset (x, f x) (image_mset (\<lambda>(x, n). (x, f x)) M' + R))" by simp
  note b = pool_inv_block [OF i] and ge = blkSize_ge [of n]
  show "LSSHM_SHM_UNITSIZE \<le> x" "0 < n" "x \<noteq> 0" using b f by auto
  show e: "x + n \<le> m_iFileSize p" using b(2,4) f(3) ge by linarith
  show "x \<le> y \<Longrightarrow> y < x + n \<Longrightarrow> offset2ptr p y" using f(3) ge by (intro b(7)) auto
  then show "offset2ptr p x" using f(2,3) ge by (intro b(7)) auto
  show "y \<le> x + n \<Longrightarrow> isOffsetValid p y" using e f(2) by (auto simp: isOffsetValid_def)
qed

lemma owns_dup: "owns p (add_mset (x, n) (add_mset (x, m) M)) R \<Longrightarrow> False"
proof -
  assume "owns p (add_mset (x, n) (add_mset (x, m) M)) R"
  then obtain f where "pool_inv p (add_mset (x, f x) (add_mset (x, f x) (image_mset (\<lambda>(x, n). (x, f x)) M + R)))"
    by (auto simp: owns_def)
  from pool.disjoint [OF this] pool_inv_block(3) [OF this] show False by (auto simp: blk_disj_def)
qed

lemma owns_fresh: "owns p (add_mset (x, n) M) R \<Longrightarrow> (x, m) \<notin># M"
  using owns_dup by (metis insert_DiffM)

lemma owns_alloc:
  assumes "owns p M R" "alloc2 os n p = (x, n', p')" "x \<noteq> 0" "0 < n"
  shows "owns p' (add_mset (x, n) M) R"
proof -
  obtain f where f: "pool_inv p (image_mset (\<lambda>(x, n). (x, f x)) M + R)" "\<forall>(x, n)\<in>#M. 0 < n \<and> blkSize n \<le> f x"
    using assms by (auto simp: owns_def)
  have nx: "y \<noteq> x" if "(y, m) \<in># M" for y m
    using pool.alloc_fresh(2) [OF f(1) assms(2,3), of y "f y"] that by force
  have i: "pool_inv p' (add_mset (x, blkSize n') (image_mset (\<lambda>(x, n). (x, f x)) M + R))" and "n \<le> n'"
    using pool.alloc_some [OF f(1) assms(2,3)] by auto
  have eq: "image_mset (\<lambda>(y, n). (y, (f(x := blkSize n')) y)) M = image_mset (\<lambda>(x, n). (x, f x)) M"
    by (rule image_mset_cong) (use nx in auto)
  show ?thesis
    unfolding owns_def
    by (rule exI [of _ "f(x := blkSize n')"])
      (use i eq f(2) nx blkSize_mono [OF \<open>n \<le> n'\<close>] assms(4) in \<open>auto simp: fun_upd_apply\<close>)
qed

lemma owns_alloc_fail: "owns p M R \<Longrightarrow> alloc2 os n p = (0, n', p') \<Longrightarrow> owns p' M R"
  using pool.alloc_none by (fastforce simp: owns_def)

lemma owns_release: "owns p (add_mset (x, n) M) R \<Longrightarrow> owns (release2 x n p) M R"
  using pool.release_ok by (fastforce simp: owns_def)

lemma owns_alloc_foreign:
  assumes "owns p M R" "alloc2 os n p = (x, n', p')" "x \<noteq> 0" "(y, m) \<in># M + R"
  shows "y \<noteq> x"
proof -
  obtain f where f: "pool_inv p (image_mset (\<lambda>(x, n). (x, f x)) M + R)" using assms(1) by (auto simp: owns_def)
  have "(y, f y) \<in># image_mset (\<lambda>(x, n). (x, f x)) M + R \<or> (y, m) \<in># image_mset (\<lambda>(x, n). (x, f x)) M + R"
    using assms(4) by force
  then show ?thesis using pool.alloc_fresh(2) [OF f assms(2,3)] by blast
qed

section \<open>The invariant of the table\<close>

definition nxt :: "LsShmHash \<Rightarrow> off \<Rightarrow> off option" where
  "nxt h x = map_option x_iNext (h_elems h x)"

definition ekey :: "LsShmHash \<Rightarrow> off \<Rightarrow> bytes" where
  "ekey h x = (case h_elems h x of None \<Rightarrow> [] | Some e \<Rightarrow> e_key e)"

definition evalue :: "LsShmHash \<Rightarrow> off \<Rightarrow> bytes" where
  "evalue h x = (case h_elems h x of None \<Rightarrow> [] | Some e \<Rightarrow> take (e_valLen e) (e_val e))"

definition elen :: "LsShmHash \<Rightarrow> off \<Rightarrow> nat" where
  "elen h x = (case h_elems h x of None \<Rightarrow> 0 | Some e \<Rightarrow> x_iLen e)"

definition offs :: "LsShmHash \<Rightarrow> (nat \<Rightarrow> off list) \<Rightarrow> off list" where
  "offs h ch = concat (map ch [0..<x_iCapacity h])"

definition elem_ok :: "env \<Rightarrow> nat \<Rightarrow> LsShmHElem \<Rightarrow> bool" where
  "elem_ok E xs e \<longleftrightarrow> x_hkey e = m_hf E (e_key e) \<and> e_key e \<noteq> [] \<and>
     x_iValOff e = sizeof_vardata + round4 (length (e_key e)) + xs \<and>
     x_iLen e = sizeof_HElem + x_iValOff e + sizeof_vardata + length (e_val e) \<and>
     e_valLen e \<le> length (e_val e) \<and> x_iLen e \<le> 100000000"

definition chain_ok :: "env \<Rightarrow> LsShmHash \<Rightarrow> (nat \<Rightarrow> off list) \<Rightarrow> nat \<Rightarrow> bool" where
  "chain_ok E h ch i \<longleftrightarrow> h_idx h ! i = hd0 (ch i) 0 \<and> sseg (nxt h) (ch i) 0 \<and>
     (ch i \<noteq> [] \<longrightarrow> getBitMapEnt h i) \<and>
     (\<forall>x\<in>set (ch i). \<exists>e. h_elems h x = Some e \<and> elem_ok E (iterExtraSpace h) e \<and> getIndex (x_hkey e) (x_iCapacity h) = i)"

definition tblSz :: "nat \<Rightarrow> nat" where
  "tblSz n = sz2TableSz n + sz2BitMapSz n"

definition htab :: "env \<Rightarrow> LsShmHash \<Rightarrow> (nat \<Rightarrow> off list) \<Rightarrow> bool" where
  "htab E h ch \<longleftrightarrow> 0 < x_iCapacity h \<and> length (h_idx h) = x_iCapacity h \<and>
     x_iBitMapSz h = sz2BitMapSz (x_iCapacity h) \<and> x_iHIdx h = x_iBitMap h + x_iBitMapSz h \<and> x_iGrowFactor h \<le> 2 \<and>
     (\<forall>i<x_iCapacity h. chain_ok E h ch i) \<and>
     x_iSize h = length (offs h ch) \<and> 0 \<notin> set (offs h ch) \<and> distinct (map (ekey h) (offs h ch))"

definition elem_blocks :: "LsShmHash \<Rightarrow> off list \<Rightarrow> block multiset" where
  "elem_blocks h xs = image_mset (\<lambda>x. (x, elen h x)) (mset xs)"

definition tab_block :: "LsShmHash \<Rightarrow> block" where
  "tab_block h = (x_iBitMap h, tblSz (x_iCapacity h))"

text \<open>The contents of the table.\<close>

definition hmap :: "LsShmHash \<Rightarrow> (nat \<Rightarrow> off list) \<Rightarrow> bytes \<Rightarrow> bytes option" where
  "hmap h ch = map_of (map (\<lambda>x. (ekey h x, evalue h x)) (offs h ch))"

section \<open>The transaction-id blocks\<close>

definition blkidx_cnt :: "nat \<Rightarrow> nat" where
  "blkidx_cnt n = (n + 255) div 256 * 256"

definition tid_wf :: "LsShmHash \<Rightarrow> off list \<Rightarrow> bool" where
  "tid_wf h tbs \<longleftrightarrow> x_iBlkCnt h = length tbs \<and> (x_iBlkIdxOff h = 0) = (tbs = []) \<and>
     x_iTidTblCurOff h = last0 0 tbs \<and>
     (tbs \<noteq> [] \<longrightarrow> length (h_blkidx h) = blkidx_cnt (length tbs) \<and> take (length tbs) (h_blkidx h) = tbs) \<and>
     (\<forall>i<length tbs. \<exists>b. h_blks h (tbs ! i) = Some b \<and> length (x_iTidVals b) = TIDTBLBLK_MAXSZ \<and>
        b_iPrev b = (if i = 0 then 0 else tbs ! (i - 1)))"

definition tid_blocks :: "LsShmHash \<Rightarrow> off list \<Rightarrow> block multiset" where
  "tid_blocks h tbs = image_mset (\<lambda>x. (x, sizeof_TidTblBlk)) (mset tbs) +
     (if tbs = [] then {#} else {#(x_iBlkIdxOff h, LSSHMTID_BLKIDX_SIZE (blkidx_cnt (length tbs)))#})"

definition hash_blocks :: "LsShmHash \<Rightarrow> (nat \<Rightarrow> off list) \<Rightarrow> off list \<Rightarrow> block multiset" where
  "hash_blocks h ch tbs = add_mset (tab_block h) (elem_blocks h (offs h ch) + tid_blocks h tbs)"

definition hash_ok :: "env \<Rightarrow> LsShmHash \<Rightarrow> (nat \<Rightarrow> off list) \<Rightarrow> off list \<Rightarrow> block multiset \<Rightarrow> bool" where
  "hash_ok E h ch tbs R \<longleftrightarrow> htab E h ch \<and> tid_wf h tbs \<and> owns (h_pool h) (hash_blocks h ch tbs) R"

text \<open>The table \<open>h\<close> is consistent, stores the map \<open>m\<close>, and the blocks \<open>R\<close> belong to others.\<close>

definition hash_inv :: "env \<Rightarrow> LsShmHash \<Rightarrow> (bytes \<Rightarrow> bytes option) \<Rightarrow> block multiset \<Rightarrow> bool" where
  "hash_inv E h m R \<longleftrightarrow> (\<exists>ch tbs. hash_ok E h ch tbs R \<and> hmap h ch = m)"

section \<open>Elements of a consistent table\<close>

lemma round4_ge: "n \<le> round4 n" "round4 n < n + 4" "4 dvd round4 n"
  using ceil_div_le [of 4 n] ceil_div_less [of 4 n] by (simp_all add: round4_def)

lemma round4_pos: "0 < n \<Longrightarrow> 4 \<le> round4 n"
  by (auto simp: round4_def)

lemma round4_simps [simp]: "round4 16 = 16" "round4 0 = 0"
  by (simp_all add: round4_def)

lemma offs_mem: "x \<in> set (offs h ch) \<longleftrightarrow> (\<exists>i<x_iCapacity h. x \<in> set (ch i))"
  by (auto simp: offs_def)

lemma htab_elem:
  assumes "htab E h ch" "x \<in> set (offs h ch)"
  obtains e where "h_elems h x = Some e" "elem_ok E (iterExtraSpace h) e"
    "x \<in> set (ch (getIndex (x_hkey e) (x_iCapacity h)))" "getIndex (x_hkey e) (x_iCapacity h) < x_iCapacity h"
proof -
  obtain i where i: "i < x_iCapacity h" "x \<in> set (ch i)" using assms(2) by (auto simp: offs_mem)
  then have "chain_ok E h ch i" using assms(1) by (simp add: htab_def)
  with i(2) obtain e where "h_elems h x = Some e" "elem_ok E (iterExtraSpace h) e" "getIndex (x_hkey e) (x_iCapacity h) = i"
    by (auto simp: chain_ok_def)
  with i that show ?thesis by blast
qed

lemma elem_ok_len: "elem_ok E xs e \<Longrightarrow> 28 \<le> x_iLen e \<and> x_iLen e \<le> 100000000"
  using round4_pos [of "length (e_key e)"] by (auto simp: elem_ok_def lay_simps)

text \<open>The plausibility tests of the code accept every element of a consistent table.\<close>

lemma validate_ok:
  assumes ok: "elem_ok E (iterExtraSpace h) e" and v: "\<And>y. y \<le> x + x_iLen e \<Longrightarrow> isOffsetValid (h_pool h) y"
  shows "validate h x e False" "flag_lru h \<Longrightarrow> validate h x e True"
proof -
  have k: "4 \<le> round4 (length (e_key e))" using ok by (intro round4_pos) (auto simp: elem_ok_def)
  have "isOffsetValid (h_pool h) (x_iValOff e + (x + sizeof_HElem))"
    by (rule v) (use ok in \<open>auto simp: elem_ok_def\<close>)
  with ok k show "validate h x e False" "flag_lru h \<Longrightarrow> validate h x e True"
    by (simp_all add: validate_def Let_def elem_ok_def lay_simps iterExtraSpace_def)
qed

definition elem_live :: "env \<Rightarrow> LsShmHash \<Rightarrow> off \<Rightarrow> LsShmHElem \<Rightarrow> bool" where
  "elem_live E h x e \<longleftrightarrow> h_elems h x = Some e \<and> elem_ok E (iterExtraSpace h) e \<and> offset2ptr (h_pool h) x \<and>
     (\<forall>y\<le>x + x_iLen e. isOffsetValid (h_pool h) y)"

lemma elem_live_simps:
  assumes "elem_live E h x e"
  shows "h_elems h x = Some e" "elem_at h x = Some e" "iter_ok h x = Some e" "offset2iterator x h = (Some e, h)"
    "flag_lru h \<Longrightarrow> getLruLinkPtr h x e" "flag_lru h \<Longrightarrow> link_ok h x = Some e" "validate h x e False"
    "offset2iteratorData x h = (Some (e_val e), h)"
proof -
  have ok: "elem_ok E (iterExtraSpace h) e" and v: "y \<le> x + x_iLen e \<Longrightarrow> isOffsetValid (h_pool h) y" for y
    using assms by (auto simp: elem_live_def)
  note val = validate_ok [OF ok v]
  show e: "h_elems h x = Some e" "elem_at h x = Some e" using assms by (auto simp: elem_live_def elem_at_def)
  then show "iter_ok h x = Some e" "offset2iterator x h = (Some e, h)" "flag_lru h \<Longrightarrow> getLruLinkPtr h x e"
    "flag_lru h \<Longrightarrow> link_ok h x = Some e" "validate h x e False" "offset2iteratorData x h = (Some (e_val e), h)"
    using val by (auto simp: iter_ok_def offset2iterator_def getLruLinkPtr_def link_ok_def offset2iteratorData_def)
qed

lemma elem_blocks_mem: "x \<in> set xs \<Longrightarrow> (x, elen h x) \<in># elem_blocks h xs"
  by (auto simp: elem_blocks_def)

lemma hash_ok_elem:
  assumes ok: "hash_ok E h ch tbs R" and x: "x \<in> set (offs h ch)"
  obtains e where "elem_live E h x e" "x \<in> set (ch (getIndex (x_hkey e) (x_iCapacity h)))"
    "getIndex (x_hkey e) (x_iCapacity h) < x_iCapacity h" "ekey h x = e_key e" "evalue h x = take (e_valLen e) (e_val e)"
    "elen h x = x_iLen e"
proof -
  have t: "htab E h ch" and o: "owns (h_pool h) (hash_blocks h ch tbs) R" using ok by (auto simp: hash_ok_def)
  obtain e where e: "h_elems h x = Some e" "elem_ok E (iterExtraSpace h) e"
    "x \<in> set (ch (getIndex (x_hkey e) (x_iCapacity h)))" "getIndex (x_hkey e) (x_iCapacity h) < x_iCapacity h"
    by (rule htab_elem [OF t x])
  have "(x, x_iLen e) \<in># hash_blocks h ch tbs"
    using elem_blocks_mem [OF x, of h] e(1) by (simp add: hash_blocks_def elen_def)
  note b = owns_block [OF o this]
  show ?thesis
    by (rule that [of e]) (use e b(5,6) in \<open>auto simp: elem_live_def ekey_def evalue_def elen_def\<close>)
qed

lemma ekey_inj: "htab E h ch \<Longrightarrow> x \<in> set (offs h ch) \<Longrightarrow> y \<in> set (offs h ch) \<Longrightarrow> ekey h x = ekey h y \<Longrightarrow> x = y"
  unfolding htab_def distinct_map inj_on_def by blast

lemma htab_distinct: "htab E h ch \<Longrightarrow> distinct (offs h ch)"
  by (simp add: htab_def distinct_map)

lemma hmap_None: "hmap h ch k = None \<longleftrightarrow> k \<notin> ekey h ` set (offs h ch)"
  by (simp add: hmap_def map_of_eq_None_iff image_image)

lemma hmap_Some: "htab E h ch \<Longrightarrow> x \<in> set (offs h ch) \<Longrightarrow> hmap h ch (ekey h x) = Some (evalue h x)"
proof -
  assume t: "htab E h ch" and x: "x \<in> set (offs h ch)"
  have "distinct (map fst (map (\<lambda>x. (ekey h x, evalue h x)) (offs h ch)))"
    using t by (simp add: htab_def comp_def)
  moreover have "(ekey h x, evalue h x) \<in> set (map (\<lambda>x. (ekey h x, evalue h x)) (offs h ch))" using x by auto
  ultimately show ?thesis by (simp add: hmap_def)
qed

section \<open>Lookup\<close>

lemma find2_loop_ok:
  assumes "\<And>x. x \<in> set xs \<Longrightarrow> \<exists>e. elem_at h x = Some e \<and> h_elems h x = Some e \<and> x_hkey e = f (e_key e) \<and> x \<noteq> 0"
    and "sseg (nxt h) xs 0" "length xs < k"
  shows "find2_loop k (f key) key (hd0 xs 0) h =
    (case find (\<lambda>x. ekey h x = key) xs of None \<Rightarrow> 0 | Some x \<Rightarrow> x)"
  using assms
proof (induction xs arbitrary: k)
  case Nil
  then show ?case by (cases k) auto
next
  case (Cons x xs)
  obtain k' where k: "k = Suc k'" "length xs < k'" using Cons.prems(3) by (cases k) auto
  obtain e where e: "elem_at h x = Some e" "h_elems h x = Some e" "x_hkey e = f (e_key e)" "x \<noteq> 0"
    using Cons.prems(1) by force
  have "x_iNext e = hd0 xs 0" using Cons.prems(2) e by (simp add: nxt_def)
  moreover have "find2_loop k' (f key) key (hd0 xs 0) h = (case find (\<lambda>x. ekey h x = key) xs of None \<Rightarrow> 0 | Some x \<Rightarrow> x)"
    using Cons.prems k by (intro Cons.IH) auto
  ultimately show ?case using e k by (auto simp: ekey_def)
qed

lemma length_chain: "i < x_iCapacity h \<Longrightarrow> length (ch i) \<le> length (offs h ch)"
proof -
  assume "i < x_iCapacity h"
  then have "ch i \<in> set (map ch [0..<x_iCapacity h])" by auto
  then have "length (ch i) \<le> sum_list (map length (map ch [0..<x_iCapacity h]))"
    by (intro member_le_sum_list) auto
  then show ?thesis by (simp add: offs_def length_concat)
qed

lemma getIndex_less [simp]: "0 < n \<Longrightarrow> getIndex k n < n"
  by (simp add: getIndex_def)

text \<open>\<open>find2\<close> answers the offset of the element with the key, or 0 when there is none.\<close>

lemma find2_ok:
  fixes k :: bytes
  assumes ok: "hash_ok E h ch tbs R"
  defines "x \<equiv> find2 (m_hf E k) k h"
  shows "x = 0 \<longleftrightarrow> hmap h ch k = None" "x \<noteq> 0 \<Longrightarrow> x \<in> set (offs h ch) \<and> ekey h x = k"
proof -
  have t: "htab E h ch" using ok by (simp add: hash_ok_def)
  let ?i = "getIndex (m_hf E k) (x_iCapacity h)"
  have i: "?i < x_iCapacity h" using t by (simp add: htab_def)
  then have c: "chain_ok E h ch ?i" using t by (simp add: htab_def)
  have el: "\<exists>e. elem_at h y = Some e \<and> h_elems h y = Some e \<and> x_hkey e = m_hf E (e_key e) \<and> y \<noteq> 0" if "y \<in> set (ch ?i)" for y
  proof -
    have y: "y \<in> set (offs h ch)" using that i by (auto simp: offs_mem)
    then have "y \<noteq> 0" using t by (metis htab_def)
    with hash_ok_elem [OF ok y] show ?thesis by (metis elem_live_def elem_live_simps(2) elem_ok_def)
  qed
  have here: "y \<in> set (ch ?i)" if "y \<in> set (offs h ch)" "ekey h y = k" for y
    using hash_ok_elem [OF ok that(1)] that(2) by (metis elem_live_def elem_ok_def)
  have x: "x = (case find (\<lambda>x. ekey h x = k) (ch ?i) of None \<Rightarrow> 0 | Some x \<Rightarrow> x)"
  proof (cases "ch ?i = []")
    case True
    then have "h_idx h ! ?i = 0" using c by (simp add: chain_ok_def)
    then show ?thesis using True by (simp add: x_def find2_def Let_def)
  next
    case False
    then have b: "getBitMapEnt h ?i" "h_idx h ! ?i = hd0 (ch ?i) 0" "sseg (nxt h) (ch ?i) 0"
      using c by (auto simp: chain_ok_def)
    have "length (ch ?i) < Suc (x_iSize h)" using length_chain [of ?i h ch] i t by (simp add: htab_def)
    from find2_loop_ok [OF el b(3) this, of k] b(1,2) show ?thesis by (simp add: x_def find2_def Let_def)
  qed
  have 1: "x \<noteq> 0 \<Longrightarrow> x \<in> set (offs h ch) \<and> ekey h x = k"
  proof -
    assume "x \<noteq> 0"
    then have "find (\<lambda>x. ekey h x = k) (ch ?i) = Some x" using x by (cases "find (\<lambda>x. ekey h x = k) (ch ?i)") auto
    then have "x \<in> set (ch ?i)" "ekey h x = k" by (auto simp: find_Some_iff)
    with i show ?thesis by (auto simp: offs_mem)
  qed
  show "x \<noteq> 0 \<Longrightarrow> x \<in> set (offs h ch) \<and> ekey h x = k" by (rule 1)
  have "x = 0 \<Longrightarrow> k \<notin> ekey h ` set (offs h ch)"
  proof
    assume z: "x = 0" and "k \<in> ekey h ` set (offs h ch)"
    then obtain y where y: "y \<in> set (offs h ch)" "ekey h y = k" by auto
    from here [OF this] y(2) have "find (\<lambda>x. ekey h x = k) (ch ?i) \<noteq> None" by (auto simp: find_None_iff)
    then obtain z' where "find (\<lambda>x. ekey h x = k) (ch ?i) = Some z'" by auto
    moreover from this have "z' \<in> set (ch ?i)" by (auto simp: find_Some_iff)
    ultimately show False using z x el by auto
  qed
  then show "x = 0 \<longleftrightarrow> hmap h ch k = None" using 1 by (auto simp: hmap_None)
qed

section \<open>Frames\<close>

definition estrip :: "LsShmHElem \<Rightarrow> LsShmHElem" where
  "estrip e = e\<lparr>x_tid := 0, x_iLinkNext := 0, x_iLinkPrev := 0, x_lasttime := 0\<rparr>"

lemma estrip_eqD:
  assumes "estrip e = estrip e'"
  shows "x_iLen e = x_iLen e'" "x_iValOff e = x_iValOff e'" "x_iNext e = x_iNext e'" "x_hkey e = x_hkey e'"
    "e_key e = e_key e'" "e_valLen e = e_valLen e'" "e_val e = e_val e'"
  using assms by (auto simp: estrip_def dest: arg_cong [where f = x_iLen] arg_cong [where f = x_iValOff]
      arg_cong [where f = x_iNext] arg_cong [where f = x_hkey] arg_cong [where f = e_key]
      arg_cong [where f = e_valLen] arg_cong [where f = e_val])

definition same_tab :: "off set \<Rightarrow> LsShmHash \<Rightarrow> LsShmHash \<Rightarrow> bool" where
  "same_tab S h h' \<longleftrightarrow> x_iCapacity h' = x_iCapacity h \<and> x_iSize h' = x_iSize h \<and> x_iFullFactor h' = x_iFullFactor h \<and>
     x_iGrowFactor h' = x_iGrowFactor h \<and> x_iHIdx h' = x_iHIdx h \<and> h_idx h' = h_idx h \<and> x_iBitMap h' = x_iBitMap h \<and>
     x_iBitMapSz h' = x_iBitMapSz h \<and> h_bits h' = h_bits h \<and> flag_lru h' = flag_lru h \<and> flag_tid h' = flag_tid h \<and>
     flag_tid_slave h' = flag_tid_slave h \<and>
     (\<forall>x\<in>S. map_option estrip (h_elems h' x) = map_option estrip (h_elems h x))"

lemma same_tab_refl [simp]: "same_tab S h h"
  by (simp add: same_tab_def)

lemma same_tab_trans: "same_tab S h h1 \<Longrightarrow> same_tab S h1 h2 \<Longrightarrow> same_tab S h h2"
  by (simp add: same_tab_def)

lemma same_tab_subset: "same_tab S h h' \<Longrightarrow> T \<subseteq> S \<Longrightarrow> same_tab T h h'"
  by (auto simp: same_tab_def)

lemma same_tab_elem:
  assumes "same_tab S h h'" "x \<in> S" "h_elems h x = Some e"
  obtains e' where "h_elems h' x = Some e'" "x_iLen e' = x_iLen e" "x_iValOff e' = x_iValOff e" "x_iNext e' = x_iNext e"
    "x_hkey e' = x_hkey e" "e_key e' = e_key e" "e_valLen e' = e_valLen e" "e_val e' = e_val e"
proof -
  have "map_option estrip (h_elems h' x) = Some (estrip e)" using assms by (simp add: same_tab_def)
  then obtain e' where "h_elems h' x = Some e'" "estrip e' = estrip e" by auto
  with that estrip_eqD [OF this(2)] show ?thesis by auto
qed

lemma same_tab_acc:
  assumes "same_tab S h h'" "x \<in> S"
  shows "nxt h' x = nxt h x" "ekey h' x = ekey h x" "evalue h' x = evalue h x" "elen h' x = elen h x"
proof -
  have m: "map_option estrip (h_elems h' x) = map_option estrip (h_elems h x)" using assms by (simp add: same_tab_def)
  have "nxt h' x = nxt h x \<and> ekey h' x = ekey h x \<and> evalue h' x = evalue h x \<and> elen h' x = elen h x"
  proof (cases "h_elems h x")
    case None
    with m show ?thesis by (simp add: nxt_def ekey_def evalue_def elen_def)
  next
    case (Some e)
    show ?thesis by (rule same_tab_elem [OF assms Some]) (simp add: Some nxt_def ekey_def evalue_def elen_def)
  qed
  then show "nxt h' x = nxt h x" "ekey h' x = ekey h x" "evalue h' x = evalue h x" "elen h' x = elen h x" by auto
qed

lemma offs_frame: "same_tab S h h' \<Longrightarrow> offs h' ch = offs h ch"
  by (simp add: same_tab_def offs_def)

lemma htab_frame:
  assumes t: "htab E h ch" and s: "same_tab (set (offs h ch)) h h'"
  shows "htab E h' ch" "hmap h' ch = hmap h ch" "elem_blocks h' (offs h' ch) = elem_blocks h (offs h ch)"
    "tab_block h' = tab_block h"
proof -
  note acc = same_tab_acc [OF s] and o = offs_frame [OF s, of ch]
  have f: "x_iCapacity h' = x_iCapacity h" "h_idx h' = h_idx h" "iterExtraSpace h' = iterExtraSpace h"
    "getBitMapEnt h' = getBitMapEnt h" "x_iSize h' = x_iSize h" "x_iGrowFactor h' = x_iGrowFactor h"
    "x_iHIdx h' = x_iHIdx h" "x_iBitMap h' = x_iBitMap h" "x_iBitMapSz h' = x_iBitMapSz h"
    using s by (auto simp: same_tab_def iterExtraSpace_def getBitMapEnt_def fun_eq_iff)
  have c: "chain_ok E h' ch i" if i: "i < x_iCapacity h" for i
  proof -
    have ci: "chain_ok E h ch i" using t i by (simp add: htab_def)
    have sub: "x \<in> set (offs h ch)" if "x \<in> set (ch i)" for x using that i by (auto simp: offs_mem)
    have "\<exists>e'. h_elems h' x = Some e' \<and> elem_ok E (iterExtraSpace h) e' \<and> getIndex (x_hkey e') (x_iCapacity h) = i"
      if x: "x \<in> set (ch i)" for x
    proof -
      obtain e where e: "h_elems h x = Some e" "elem_ok E (iterExtraSpace h) e" "getIndex (x_hkey e) (x_iCapacity h) = i"
        using ci x by (auto simp: chain_ok_def)
      show ?thesis
        by (rule same_tab_elem [OF s sub [OF x] e(1)]) (use e in \<open>auto simp: elem_ok_def\<close>)
    qed
    moreover have "sseg (nxt h') (ch i) 0 = sseg (nxt h) (ch i) 0" by (rule sseg_cong) (use acc sub in auto)
    ultimately show ?thesis using ci by (simp add: chain_ok_def f)
  qed
  have k: "map (ekey h') (offs h ch) = map (ekey h) (offs h ch)" using acc by simp
  show "htab E h' ch" using t c unfolding htab_def f o k by simp
  show "hmap h' ch = hmap h ch" unfolding hmap_def o using acc by (intro arg_cong [where f = map_of]) simp
  show "elem_blocks h' (offs h' ch) = elem_blocks h (offs h ch)"
    unfolding elem_blocks_def o using acc by (intro image_mset_cong) simp
  show "tab_block h' = tab_block h" by (simp add: tab_block_def f)
qed

text \<open>Changes of the LRU links only.\<close>

definition lru_frame :: "LsShmHash \<Rightarrow> LsShmHash \<Rightarrow> bool" where
  "lru_frame h h' \<longleftrightarrow> same_tab UNIV h h' \<and> h_pool h' = h_pool h \<and> ti_tid h' = ti_tid h \<and>
     x_lastTidPreClear h' = x_lastTidPreClear h \<and> x_iTidTblStrtOff h' = x_iTidTblStrtOff h \<and>
     x_iTidTblCurOff h' = x_iTidTblCurOff h \<and> x_iBlkIdxOff h' = x_iBlkIdxOff h \<and> x_iBlkCnt h' = x_iBlkCnt h \<and>
     h_blkidx h' = h_blkidx h \<and> h_blks h' = h_blks h"

lemma lru_frame_refl [simp]: "lru_frame h h"
  by (simp add: lru_frame_def)

lemma lru_frame_trans: "lru_frame h h1 \<Longrightarrow> lru_frame h1 h2 \<Longrightarrow> lru_frame h h2"
  by (auto simp: lru_frame_def intro: same_tab_trans)

lemma lru_frame_upd: "(\<And>e. estrip (f e) = estrip e) \<Longrightarrow> lru_frame h (upd_elem x f h1) = lru_frame h h1"
proof -
  assume "\<And>e. estrip (f e) = estrip e"
  then have "map_option estrip (h_elems (upd_elem x f h1) y) = map_option estrip (h_elems h1 y)" for y
    by (simp add: upd_elem_def option.map_comp comp_def)
  then show ?thesis by (simp add: lru_frame_def same_tab_def upd_elem_def)
qed

lemma lru_frame_upd_elem [simp]:
  "lru_frame h (upd_elem x (\<lambda>e. e\<lparr>x_iLinkNext := a\<rparr>) h1) = lru_frame h h1"
  "lru_frame h (upd_elem x (\<lambda>e. e\<lparr>x_iLinkPrev := a\<rparr>) h1) = lru_frame h h1"
  "lru_frame h (upd_elem x (\<lambda>e. e\<lparr>x_iLinkNext := a, x_iLinkPrev := b\<rparr>) h1) = lru_frame h h1"
  "lru_frame h (upd_elem x (\<lambda>e. e\<lparr>x_lasttime := t\<rparr>) h1) = lru_frame h h1"
  "lru_frame h (upd_elem x (\<lambda>e. e\<lparr>x_iLinkNext := a, x_lasttime := t\<rparr>) h1) = lru_frame h h1"
  "lru_frame h (upd_elem x (\<lambda>e. e\<lparr>LsShmHElem.x_tid := d\<rparr>) h1) = lru_frame h h1"
  by (rule lru_frame_upd, simp add: estrip_def)+

lemma lru_frame_anchor [simp]:
  "lru_frame h (h1\<lparr>linkFirst := a\<rparr>) = lru_frame h h1" "lru_frame h (h1\<lparr>linkLast := a\<rparr>) = lru_frame h h1"
  "lru_frame h (h1\<lparr>nvalset := n\<rparr>) = lru_frame h h1" "lru_frame h (h1\<lparr>nvalexp := n\<rparr>) = lru_frame h h1"
  "lru_frame h (h1\<lparr>ndataset := n\<rparr>) = lru_frame h h1" "lru_frame h (h1\<lparr>ndataexp := n\<rparr>) = lru_frame h h1"
  "lru_frame h (rebuild h1) = lru_frame h h1"
  by (simp_all add: lru_frame_def same_tab_def rebuild_def)

lemma lru_offset2iterator [simp]: "lru_frame h (snd (offset2iterator x h1)) = lru_frame h h1"
  by (simp add: offset2iterator_def split: option.split)

lemma lru_set_link [simp]:
  "lru_frame h (snd (set_linkNext x y h1)) = lru_frame h h1" "lru_frame h (snd (set_linkPrev x y h1)) = lru_frame h h1"
  by (simp_all add: set_linkNext_def set_linkPrev_def split_beta split: option.split)

text \<open>The LRU operations change nothing but the links, the anchor and the counters.\<close>

lemma lru_ops [simp]:
  "lru_frame h (linkHElem E x h1) = lru_frame h h1" "lru_frame h (unlinkHElem x h1) = lru_frame h h1"
  "lru_frame h (linkSetTop E x h1) = lru_frame h h1"
  by (simp_all add: linkHElem_def unlinkHElem_def linkSetTop_def Let_def split_beta split: option.split)

lemma lru_SetTopTime [simp]: "lru_frame h (snd (linkSetTopTime E x t h1)) = lru_frame h h1"
  by (simp add: linkSetTopTime_def Let_def split: option.split)

lemma lru_mvTop_loop [simp]: "lru_frame h (snd (mvTop_loop k x t y h1)) = lru_frame h h1"
  by (induction k x t y h1 rule: mvTop_loop.induct) (simp_all add: Let_def split: option.split)

lemma lru_MvTopTime [simp]: "lru_frame h (snd (linkMvTopTime E x t h1)) = lru_frame h h1"
  by (simp add: linkMvTopTime_def Let_def split: option.split)

end
