(* ===== verification/LsShmHashFrame.thy ===== *)
theory LsShmHashFrame
  imports LsShmHashInv
begin

text \<open>
  Allocation by a table and the transaction-id table beside it: its blocks are owned like the
  elements, and none of its operations touches the chains, the index or a stored value.
\<close>

section \<open>Allocation by the table\<close>

definition tid_same :: "LsShmHash \<Rightarrow> LsShmHash \<Rightarrow> bool" where
  "tid_same h h' \<longleftrightarrow> ti_tid h' = ti_tid h \<and> x_lastTidPreClear h' = x_lastTidPreClear h \<and>
     x_iTidTblStrtOff h' = x_iTidTblStrtOff h \<and> x_iTidTblCurOff h' = x_iTidTblCurOff h \<and>
     x_iBlkIdxOff h' = x_iBlkIdxOff h \<and> x_iBlkCnt h' = x_iBlkCnt h \<and> h_blkidx h' = h_blkidx h \<and> h_blks h' = h_blks h"

lemma tid_same_refl [simp]: "tid_same h h"
  by (simp add: tid_same_def)

lemma tid_same_trans: "tid_same h h1 \<Longrightarrow> tid_same h1 h2 \<Longrightarrow> tid_same h h2"
  by (simp add: tid_same_def)

lemma lru_tid_same: "lru_frame h h' \<Longrightarrow> tid_same h h'"
  by (simp add: lru_frame_def tid_same_def)

lemma tid_same_wf: "tid_same h h' \<Longrightarrow> tid_wf h' tbs = tid_wf h tbs"
  by (simp add: tid_same_def tid_wf_def)

lemma tid_same_blocks: "tid_same h h' \<Longrightarrow> tid_blocks h' tbs = tid_blocks h tbs"
  by (simp add: tid_same_def tid_blocks_def)

lemma hash_alloc2_ok:
  assumes "hash_alloc2 E n h = (x, h')"
  shows "same_tab UNIV h h'" "tid_same h h'" "h_elems h' = h_elems h"
    "owns (h_pool h) M R \<Longrightarrow> 0 < n \<Longrightarrow> owns (h_pool h') (if x = 0 then M else add_mset (x, n) M) R"
    "\<exists>u p'. h' = h\<lparr>h_pool := p', m_iHashInUse := u\<rparr>"
proof -
  obtain y n' p' where a: "alloc2 (e_os E) n (h_pool h) = (y, n', p')" by (metis prod_cases3)
  have x: "x = y" and h': "\<exists>u. h' = h\<lparr>h_pool := p', m_iHashInUse := u\<rparr>"
  proof -
    show "x = y" using assms a by (auto simp: hash_alloc2_def Let_def split: if_splits)
    have "h' = h\<lparr>h_pool := p', m_iHashInUse := m_iHashInUse h'\<rparr>"
      using assms a by (auto simp: hash_alloc2_def Let_def split: if_splits)
    then show "\<exists>u. h' = h\<lparr>h_pool := p', m_iHashInUse := u\<rparr>" by blast
  qed
  then show "same_tab UNIV h h'" "tid_same h h'" "h_elems h' = h_elems h" by (auto simp: same_tab_def tid_same_def)
  show "\<exists>u p'. h' = h\<lparr>h_pool := p', m_iHashInUse := u\<rparr>" using h' by blast
  show "owns (h_pool h') (if x = 0 then M else add_mset (x, n) M) R" if "owns (h_pool h) M R" "0 < n"
    using h' x owns_alloc [OF that(1) a _ that(2)] owns_alloc_fail [OF that(1), of "e_os E" n n' p'] a by auto
qed

lemma hash_release2_ok:
  defines "h' \<equiv> \<lambda>x n h. hash_release2 x n h"
  shows "same_tab (- {x}) h (h' x n h)" "tid_same h (h' x n h)"
    "y \<noteq> x \<Longrightarrow> h_elems (h' x n h) y = h_elems h y"
    "owns (h_pool h) (add_mset (x, n) M) R \<Longrightarrow> owns (h_pool (h' x n h)) M R"
    "h_pool (h' x n h) = release2 x n (h_pool h)"
  by (auto simp: h'_def hash_release2_def Let_def upd_elem_def same_tab_def tid_same_def owns_release)

definition starts :: "block multiset \<Rightarrow> off set" where
  "starts M = fst ` set_mset M"

lemma starts_simps [simp]: "starts {#} = {}" "starts (add_mset b M) = insert (fst b) (starts M)"
  "starts (M + M') = starts M \<union> starts M'"
  by (auto simp: starts_def)

lemma starts_image [simp]: "starts (image_mset (\<lambda>x. (x, f x)) (mset xs)) = set xs"
  by (force simp: starts_def)

lemma owns_starts: "owns p (add_mset (x, n) M) R \<Longrightarrow> x \<notin> starts M"
  using owns_fresh by (auto simp: starts_def)

lemma owns_starts2: "owns p (M + add_mset (x, n) M') R \<Longrightarrow> x \<notin> starts M"
  using owns_starts [of p x n "M + M'" R] by simp

section \<open>Growing the transaction-id table\<close>

lemma blkidx_cnt_eq: "0 < r \<Longrightarrow> r \<le> 256 \<Longrightarrow> blkidx_cnt (256 * q + r) = 256 * q + 256"
proof -
  assume r: "0 < r" "r \<le> 256"
  have "(256 * q + r + 255) div 256 = q + 1" by (rule div_nat_eqI) (use r in auto)
  then show ?thesis by (simp add: blkidx_cnt_def)
qed

lemma blkidx_cnt_simps:
  "n mod 256 = 0 \<Longrightarrow> blkidx_cnt n = n" "n mod 256 = 0 \<Longrightarrow> blkidx_cnt (Suc n) = n + 256"
  "n mod 256 \<noteq> 0 \<Longrightarrow> blkidx_cnt (Suc n) = blkidx_cnt n" "n \<le> blkidx_cnt n"
  "n mod 256 \<noteq> 0 \<Longrightarrow> n < blkidx_cnt n"
proof -
  show "n \<le> blkidx_cnt n" using ceil_div_le [of 256 n] by (simp add: blkidx_cnt_def)
  have n: "n = 256 * (n div 256) + n mod 256" and m: "n mod 256 < 256" by simp_all
  have b: "blkidx_cnt (Suc n) = 256 * (n div 256) + 256"
    using blkidx_cnt_eq [of "Suc (n mod 256)" "n div 256"] m by (simp add: n [symmetric])
  show "n mod 256 = 0 \<Longrightarrow> blkidx_cnt n = n"
    by (auto simp: blkidx_cnt_def)
  show "n mod 256 = 0 \<Longrightarrow> blkidx_cnt (Suc n) = n + 256" using b n by simp
  show 1: "n mod 256 \<noteq> 0 \<Longrightarrow> blkidx_cnt (Suc n) = blkidx_cnt n"
    using b blkidx_cnt_eq [of "n mod 256" "n div 256"] m by (simp add: n [symmetric])
  then show "n mod 256 \<noteq> 0 \<Longrightarrow> n < blkidx_cnt n" using b n m by linarith
qed

text \<open>The index array, ready for one more block.\<close>

definition idx_ready :: "LsShmHash \<Rightarrow> off list \<Rightarrow> bool" where
  "idx_ready h tbs \<longleftrightarrow> x_iBlkIdxOff h \<noteq> 0 \<and> length (h_blkidx h) = blkidx_cnt (Suc (length tbs)) \<and>
     take (length tbs) (h_blkidx h) = tbs"

lemma allocBlkIdx_ok:
  assumes wf: "tid_wf h tbs" and c: "length tbs mod 256 = 0"
    and o: "owns (h_pool h) (M + tid_blocks h tbs) R"
    and r: "allocBlkIdx E (x_iBlkIdxOff h) (x_iBlkCnt h) h = (x, h1)"
  shows "x = 0 \<Longrightarrow> same_tab UNIV h h1 \<and> tid_same h h1 \<and> owns (h_pool h1) (M + tid_blocks h1 tbs) R"
    and "x \<noteq> 0 \<Longrightarrow> same_tab (starts M) h h1 \<and> tid_same h (h1\<lparr>h_blkidx := h_blkidx h\<rparr>) \<and>
      idx_ready (h1\<lparr>x_iBlkIdxOff := x\<rparr>) tbs \<and>
      owns (h_pool h1) (add_mset (x, LSSHMTID_BLKIDX_SIZE (blkidx_cnt (Suc (length tbs))))
         (M + image_mset (\<lambda>x. (x, sizeof_TidTblBlk)) (mset tbs))) R"
proof -
  let ?n = "length tbs"
  let ?T = "image_mset (\<lambda>x. (x, sizeof_TidTblBlk)) (mset tbs)"
  obtain y h0 where a: "hash_alloc2 E (LSSHMTID_BLKIDX_SIZE (?n + 256)) h = (y, h0)" by fastforce
  note al = hash_alloc2_ok [OF a]
  obtain u p0 where h0: "h0 = h\<lparr>h_pool := p0, m_iHashInUse := u\<rparr>" using al(5) by blast
  have cnt: "x_iBlkCnt h = ?n" using wf by (simp add: tid_wf_def)
  have pos: "0 < LSSHMTID_BLKIDX_SIZE (?n + 256)" by (simp add: LSSHMTID_BLKIDX_SIZE_def)
  have o0: "owns (h_pool h0) (if y = 0 then M + tid_blocks h tbs
      else add_mset (y, LSSHMTID_BLKIDX_SIZE (?n + 256)) (M + tid_blocks h tbs)) R"
    by (rule al(4) [OF o pos])
  have r': "allocBlkIdx E (x_iBlkIdxOff h) (x_iBlkCnt h) h =
     (if y = 0 then (0, h0)
      else if x_iBlkIdxOff h = 0 then (y, h0\<lparr>h_blkidx := replicate (?n + 256) 0\<rparr>)
      else if \<not> offset2ptr (h_pool h0) (x_iBlkIdxOff h) then (0, h0)
      else if \<not> offset2ptr (h_pool h0) y then (0, h0)
      else (y, hash_release2 (x_iBlkIdxOff h) (LSSHMTID_BLKIDX_SIZE ?n)
              (h0\<lparr>h_blkidx := take ?n (h_blkidx h0) @ replicate 256 0\<rparr>)))"
    using a by (simp add: allocBlkIdx_def cnt Let_def lay_simps)
  show "same_tab UNIV h h1 \<and> tid_same h h1 \<and> owns (h_pool h1) (M + tid_blocks h1 tbs) R" if x: "x = 0"
  proof (cases "y = 0")
    case True
    then have "h1 = h0" using r r' by simp
    with True o0 al(1,2) show ?thesis by (simp add: tid_same_blocks)
  next
    case False
    have o1: "owns (h_pool h0) (add_mset (y, LSSHMTID_BLKIDX_SIZE (?n + 256)) (M + tid_blocks h tbs)) R"
      using o0 False by simp
    have "offset2ptr (h_pool h0) y" by (rule owns_block(5) [OF o1, of y "LSSHMTID_BLKIDX_SIZE (?n + 256)"]) simp
    moreover have "offset2ptr (h_pool h0) (x_iBlkIdxOff h)" if "x_iBlkIdxOff h \<noteq> 0"
    proof -
      have "tbs \<noteq> []" using wf that by (simp add: tid_wf_def)
      then have "(x_iBlkIdxOff h, LSSHMTID_BLKIDX_SIZE (blkidx_cnt ?n)) \<in># tid_blocks h tbs" by (simp add: tid_blocks_def)
      then show ?thesis by (intro owns_block(5) [OF o1, of _ "LSSHMTID_BLKIDX_SIZE (blkidx_cnt ?n)"]) simp
    qed
    ultimately have "x = y" using r r' False by (auto split: if_splits)
    with x False show ?thesis by simp
  qed
  show "same_tab (starts M) h h1 \<and> tid_same h (h1\<lparr>h_blkidx := h_blkidx h\<rparr>) \<and> idx_ready (h1\<lparr>x_iBlkIdxOff := x\<rparr>) tbs \<and>
      owns (h_pool h1) (add_mset (x, LSSHMTID_BLKIDX_SIZE (blkidx_cnt (Suc ?n))) (M + ?T)) R" if x: "x \<noteq> 0"
  proof -
    have xy: "x = y" using r r' x by (auto split: if_splits)
    note bc = blkidx_cnt_simps(1,2) [OF c]
    show ?thesis
    proof (cases "x_iBlkIdxOff h = 0")
      case True
      then have "tbs = []" using wf by (simp add: tid_wf_def)
      moreover have "h1 = h0\<lparr>h_blkidx := replicate (?n + 256) 0\<rparr>" using r r' True x xy by simp
      ultimately show ?thesis
        using o0 x xy bc by (simp add: h0 same_tab_def tid_same_def idx_ready_def tid_blocks_def)
    next
      case False
      then have ne: "tbs \<noteq> []" using wf by (simp add: tid_wf_def)
      let ?h = "h0\<lparr>h_blkidx := take ?n (h_blkidx h0) @ replicate 256 0\<rparr>"
      let ?io = "x_iBlkIdxOff h"
      have h1: "h1 = hash_release2 ?io (LSSHMTID_BLKIDX_SIZE ?n) ?h" using r r' False x xy by (auto split: if_splits)
      have tb: "tid_blocks h tbs = add_mset (?io, LSSHMTID_BLKIDX_SIZE ?n) ?T"
        using ne by (simp add: tid_blocks_def bc)
      have oh: "owns (h_pool ?h) (add_mset (?io, LSSHMTID_BLKIDX_SIZE ?n)
          (add_mset (y, LSSHMTID_BLKIDX_SIZE (?n + 256)) (M + ?T))) R"
        using o0 x xy by (simp add: tb add_mset_commute)
      note rl = hash_release2_ok [where x = ?io and n = "LSSHMTID_BLKIDX_SIZE ?n" and h = ?h, folded h1]
      have "?io \<notin> starts M" using owns_starts [OF oh] by simp
      then have s1: "same_tab (starts M) ?h h1" using rl(1) by (auto intro: same_tab_subset)
      have "same_tab (starts M) h ?h" by (simp add: h0 same_tab_def)
      then have st: "same_tab (starts M) h h1" using s1 by (rule same_tab_trans)
      have ts: "tid_same ?h h1" by (rule rl(2))
      then have t2: "tid_same h (h1\<lparr>h_blkidx := h_blkidx h\<rparr>)" by (simp add: tid_same_def h0)
      have le: "take ?n (h_blkidx h) = tbs" using wf ne by (simp add: tid_wf_def)
      then have lt: "length (take ?n (h_blkidx h)) = ?n" by simp
      have "h_blkidx h1 = tbs @ replicate 256 0" using ts le by (simp add: tid_same_def h0)
      then have "idx_ready (h1\<lparr>x_iBlkIdxOff := x\<rparr>) tbs" using x bc by (simp add: idx_ready_def)
      moreover have "owns (h_pool h1) (add_mset (y, LSSHMTID_BLKIDX_SIZE (?n + 256)) (M + ?T)) R" by (rule rl(4) [OF oh])
      ultimately show ?thesis using st t2 xy bc by simp
    qed
  qed
qed


lemma tid_wf_blk:
  assumes "tid_wf h tbs" "x \<in> set tbs"
  obtains b where "h_blks h x = Some b" "length (x_iTidVals b) = TIDTBLBLK_MAXSZ"
  using assms by (metis in_set_conv_nth tid_wf_def)

text \<open>Appending a block whose index slot is ready.\<close>

lemma tid_wf_append:
  assumes wf: "tid_wf h tbs" and fresh: "x \<notin> set tbs"
    and same: "\<And>y. y \<in> set tbs \<Longrightarrow> \<exists>b b'. h_blks h y = Some b \<and> h_blks h' y = Some b' \<and>
      x_iTidVals b' = x_iTidVals b \<and> b_iPrev b' = b_iPrev b"
    and new: "h_blks h' x = Some nb" "length (x_iTidVals nb) = TIDTBLBLK_MAXSZ" "b_iPrev nb = last0 0 tbs"
    and f: "x_iBlkCnt h' = Suc (length tbs)" "x_iBlkIdxOff h' \<noteq> 0" "x_iTidTblCurOff h' = x"
      "length (h_blkidx h') = blkidx_cnt (Suc (length tbs))" "take (Suc (length tbs)) (h_blkidx h') = tbs @ [x]"
  shows "tid_wf h' (tbs @ [x])"
proof -
  have "\<exists>b. h_blks h' ((tbs @ [x]) ! i) = Some b \<and> length (x_iTidVals b) = TIDTBLBLK_MAXSZ \<and>
      b_iPrev b = (if i = 0 then 0 else (tbs @ [x]) ! (i - 1))" if i: "i < length (tbs @ [x])" for i
  proof (cases "i < length tbs")
    case True
    then obtain b where "h_blks h (tbs ! i) = Some b" "length (x_iTidVals b) = TIDTBLBLK_MAXSZ"
      "b_iPrev b = (if i = 0 then 0 else tbs ! (i - 1))" using wf by (auto simp: tid_wf_def)
    with same [of "tbs ! i"] True show ?thesis by (auto simp: nth_append)
  next
    case False
    then have "i = length tbs" using i by simp
    with new show ?thesis by (cases tbs rule: rev_cases) (auto simp: nth_append last0_def)
  qed
  then show ?thesis using f by (auto simp: tid_wf_def last0_def)
qed

text \<open>The blocks after one was appended: the last one links to the new one, which is empty.\<close>

definition grown_blks :: "u64 \<Rightarrow> off list \<Rightarrow> off \<Rightarrow> (off \<Rightarrow> LsShmTidTblBlk option) \<Rightarrow> off \<Rightarrow> LsShmTidTblBlk option" where
  "grown_blks base tbs y bs =
     (if tbs = [] then bs else bs(last0 0 tbs := map_option (\<lambda>b. b\<lparr>b_iNext := y\<rparr>) (bs (last0 0 tbs))))
       (y \<mapsto> \<lparr>x_tidBase = base, x_iIterCnt = 0, x_iDelCnt = 0, b_iNext = 0, b_iPrev = last0 0 tbs, x_iTidVals = replicate TIDTBLBLK_MAXSZ 0\<rparr>)"

lemma attachTidBlk_ok:
  assumes wf: "tid_wf (h\<lparr>h_blkidx := bi, x_iBlkIdxOff := io\<rparr>) tbs" and rd: "idx_ready h tbs"
    and ow: "owns (h_pool h) (add_mset (x_iBlkIdxOff h, LSSHMTID_BLKIDX_SIZE (blkidx_cnt (Suc (length tbs))))
       (add_mset (y, sizeof_TidTblBlk) (M + image_mset (\<lambda>x. (x, sizeof_TidTblBlk)) (mset tbs)))) R"
    and r: "attachTidBlk base y h = (x, h')"
  shows "x = y" "tid_wf h' (tbs @ [y])" "owns (h_pool h') (M + tid_blocks h' (tbs @ [y])) R" "same_tab UNIV h h'"
    "ti_tid h' = ti_tid h" "x_lastTidPreClear h' = x_lastTidPreClear h"
    "h_blks h' = grown_blks base tbs y (h_blks h)" "y \<notin> set tbs"
proof -
  let ?n = "length tbs"
  let ?T = "image_mset (\<lambda>x. (x, sizeof_TidTblBlk)) (mset tbs)"
  define cur where "cur = x_iTidTblCurOff h"
  define h2 where "h2 = (if cur \<noteq> 0 \<and> blk_at h cur \<noteq> None then upd_blk cur (\<lambda>b. b\<lparr>b_iNext := y\<rparr>) h
               else h\<lparr>x_iTidTblStrtOff := y\<rparr>)"
  have cn: "x_iBlkCnt h = ?n" "cur = last0 0 tbs" using wf by (auto simp: tid_wf_def cur_def)
  have p2: "h_pool h2 = h_pool h" "x_iBlkIdxOff h2 = x_iBlkIdxOff h" "x_iBlkCnt h2 = ?n" "h_blkidx h2 = h_blkidx h"
    "same_tab UNIV h h2" "ti_tid h2 = ti_tid h" "x_lastTidPreClear h2 = x_lastTidPreClear h"
    using cn by (auto simp: h2_def upd_blk_def same_tab_def)
  have m1: "offset2ptr (h_pool h) (x_iBlkIdxOff h)"
    by (rule owns_block(5) [OF ow, of _ "LSSHMTID_BLKIDX_SIZE (blkidx_cnt (Suc ?n))"]) simp
  have m2: "offset2ptr (h_pool h) y" by (rule owns_block(5) [OF ow, of _ sizeof_TidTblBlk]) simp
  have "attachTidBlk base y h = (y, h2\<lparr>h_blkidx := (h_blkidx h)[?n := y], x_iBlkCnt := Suc ?n,
          h_blks := (h_blks h2)(y \<mapsto> \<lparr>x_tidBase = base, x_iIterCnt = 0, x_iDelCnt = 0, b_iNext = 0, b_iPrev = cur,
             x_iTidVals = replicate TIDTBLBLK_MAXSZ 0\<rparr>), x_iTidTblCurOff := y\<rparr>)"
    using m1 m2 unfolding attachTidBlk_def cur_def [symmetric] h2_def [symmetric] Let_def by (simp add: p2)
  then have xh: "x = y" "h' = h2\<lparr>h_blkidx := (h_blkidx h)[?n := y], x_iBlkCnt := Suc ?n,
          h_blks := (h_blks h2)(y \<mapsto> \<lparr>x_tidBase = base, x_iIterCnt = 0, x_iDelCnt = 0, b_iNext = 0, b_iPrev = cur,
             x_iTidVals = replicate TIDTBLBLK_MAXSZ 0\<rparr>), x_iTidTblCurOff := y\<rparr>"
    using r by auto
  then show "x = y" "same_tab UNIV h h'" "ti_tid h' = ti_tid h" "x_lastTidPreClear h' = x_lastTidPreClear h"
    using p2(5-7) by (auto simp: same_tab_def)
  have ow': "owns (h_pool h) (add_mset (y, sizeof_TidTblBlk)
      (add_mset (x_iBlkIdxOff h, LSSHMTID_BLKIDX_SIZE (blkidx_cnt (Suc ?n))) (M + ?T))) R"
    using ow by (simp add: add_mset_commute)
  have nt: "y \<notin> set tbs" using owns_starts [OF ow'] by simp
  show "tid_wf h' (tbs @ [y])"
  proof (rule tid_wf_append [OF wf nt])
    show "\<exists>b b'. h_blks (h\<lparr>h_blkidx := bi, x_iBlkIdxOff := io\<rparr>) z = Some b \<and> h_blks h' z = Some b' \<and>
        x_iTidVals b' = x_iTidVals b \<and> b_iPrev b' = b_iPrev b" if z: "z \<in> set tbs" for z
      by (rule tid_wf_blk [OF wf z]) (use z nt in \<open>auto simp: xh(2) h2_def upd_blk_def\<close>)
  qed (use rd xh cn blkidx_cnt_simps(4) [of "Suc ?n"] in \<open>auto simp: idx_ready_def p2 take_Suc_conv_app_nth\<close>)
  show "owns (h_pool h') (M + tid_blocks h' (tbs @ [y])) R"
    using ow by (simp add: xh p2 tid_blocks_def add_mset_commute)
  show "y \<notin> set tbs" by (rule nt)
  show "h_blks h' = grown_blks base tbs y (h_blks h)"
  proof (cases "tbs = []")
    case True
    then show ?thesis by (simp add: xh(2) h2_def upd_blk_def cn grown_blks_def)
  next
    case False
    then have i: "last0 0 tbs \<in> set tbs" by (simp add: last0_def)
    then have "(last0 0 tbs, sizeof_TidTblBlk) \<in># ?T" by auto
    then have "offset2ptr (h_pool h) (last0 0 tbs)" "last0 0 tbs \<noteq> 0"
      using owns_block(5,7) [OF ow, of "last0 0 tbs" sizeof_TidTblBlk] by auto
    moreover obtain b where "h_blks h (last0 0 tbs) = Some b" by (rule tid_wf_blk [OF wf i]) simp
    ultimately show ?thesis using False by (simp add: xh(2) h2_def upd_blk_def blk_at_def cn grown_blks_def)
  qed
qed

lemma growTidTbl_ok:
  assumes wf: "tid_wf h tbs" and o: "owns (h_pool h) (M + tid_blocks h tbs) R"
    and r: "growTidTbl E base h = (x, h')"
  shows "\<exists>tbs'. tid_wf h' tbs' \<and> owns (h_pool h') (M + tid_blocks h' tbs') R \<and> same_tab (starts M) h h' \<and>
    ti_tid h' = ti_tid h \<and> x_lastTidPreClear h' = x_lastTidPreClear h \<and> (if x = 0 then tbs' = tbs \<and> h_blks h' = h_blks h
      else tbs' = tbs @ [x] \<and> x \<notin> set tbs \<and> h_blks h' = grown_blks base tbs x (h_blks h))"
proof -
  let ?n = "length tbs"
  let ?T = "image_mset (\<lambda>x. (x, sizeof_TidTblBlk)) (mset tbs)"
  obtain y h0 where a: "hash_alloc2 E sizeof_TidTblBlk h = (y, h0)" by fastforce
  note al = hash_alloc2_ok [OF a]
  have wf0: "tid_wf h0 tbs" and tb0: "tid_blocks h0 tbs = tid_blocks h tbs"
    using wf al(2) by (simp_all add: tid_same_wf tid_same_blocks)
  have o0: "owns (h_pool h0) (if y = 0 then M + tid_blocks h tbs else add_mset (y, sizeof_TidTblBlk) (M + tid_blocks h tbs)) R"
    by (rule al(4) [OF o]) (simp add: lay_simps)
  have cnt: "x_iBlkCnt h0 = ?n" using wf0 by (simp add: tid_wf_def)
  have st0: "same_tab (starts M) h h0" using al(1) by (auto intro: same_tab_subset)
  have ti0: "ti_tid h0 = ti_tid h" "x_lastTidPreClear h0 = x_lastTidPreClear h" "h_blks h0 = h_blks h" using al(2) by (simp_all add: tid_same_def)
  show ?thesis
  proof (cases "y = 0")
    case True
    then have "x = 0" "h' = h0" using r a by (auto simp: growTidTbl_def Let_def)
    with o0 True wf0 tb0 st0 ti0 show ?thesis by auto
  next
    case y: False
    let ?M = "add_mset (y, sizeof_TidTblBlk) M"
    have o1: "owns (h_pool h0) (?M + tid_blocks h0 tbs) R" using o0 y tb0 by simp
    show ?thesis
    proof (cases "?n mod 256 = 0")
      case False
      then have ne: "tbs \<noteq> []" by auto
      have eq: "attachTidBlk base y h0 = (x, h')" using r a y False cnt by (simp add: growTidTbl_def Let_def lay_simps)
      have rd: "idx_ready h0 tbs" using wf0 ne blkidx_cnt_simps(3) [OF False] by (simp add: tid_wf_def idx_ready_def)
      have ow: "owns (h_pool h0) (add_mset (x_iBlkIdxOff h0, LSSHMTID_BLKIDX_SIZE (blkidx_cnt (Suc ?n))) (?M + ?T)) R"
        using o1 ne blkidx_cnt_simps(3) [OF False] by (simp add: tid_blocks_def)
      have wf0': "tid_wf (h0\<lparr>h_blkidx := h_blkidx h0, x_iBlkIdxOff := x_iBlkIdxOff h0\<rparr>) tbs" using wf0 by simp
      note at = attachTidBlk_ok [OF wf0' rd ow [simplified] eq]
      show ?thesis using at y st0 ti0 same_tab_trans [OF st0 same_tab_subset [OF at(4) subset_UNIV]]
        by (intro exI [of _ "tbs @ [y]"]) simp
    next
      case True
      obtain z h1 where b: "allocBlkIdx E (x_iBlkIdxOff h0) (x_iBlkCnt h0) h0 = (z, h1)" by fastforce
      note ab = allocBlkIdx_ok [OF wf0 True o1 b]
      show ?thesis
      proof (cases "z = 0")
        case z: True
        note ab = ab(1) [OF z]
        let ?h = "hash_release2 y sizeof_TidTblBlk h1"
        note rl = hash_release2_ok [where x = y and n = sizeof_TidTblBlk and h = h1]
        have xh: "x = 0" "h' = ?h" using r a y b z True cnt by (auto simp: growTidTbl_def Let_def lay_simps)
        have o2: "owns (h_pool h1) (add_mset (y, sizeof_TidTblBlk) (M + tid_blocks h1 tbs)) R" using ab by simp
        have "y \<notin> starts M" using owns_starts [OF o2] by simp
        then have "same_tab (starts M) h1 ?h" by (intro same_tab_subset [OF rl(1)]) auto
        moreover have "same_tab (starts M) h0 h1" using ab by (auto intro: same_tab_subset)
        ultimately have st: "same_tab (starts M) h ?h" using st0 by (blast intro: same_tab_trans)
        have ts: "tid_same h0 ?h" using ab rl(2) by (blast intro: tid_same_trans)
        then have "tid_wf ?h tbs" using wf0 by (simp add: tid_same_wf)
        moreover have "owns (h_pool ?h) (M + tid_blocks ?h tbs) R"
          using rl(4) [OF o2] tid_same_blocks [OF rl(2)] by simp
        ultimately show ?thesis using xh st ts ti0 by (intro exI [of _ tbs]) (simp add: tid_same_def)
      next
        case z: False
        note ab = ab(2) [OF z]
        let ?h = "h1\<lparr>x_iBlkIdxOff := z\<rparr>"
        have eq: "attachTidBlk base y ?h = (x, h')" using r a y b z True cnt by (simp add: growTidTbl_def Let_def lay_simps)
        have wf1: "tid_wf (?h\<lparr>h_blkidx := h_blkidx h0, x_iBlkIdxOff := x_iBlkIdxOff h0\<rparr>) tbs"
          using ab wf0 by (auto simp: tid_same_def tid_wf_def)
        have ow: "owns (h_pool ?h) (add_mset (x_iBlkIdxOff ?h, LSSHMTID_BLKIDX_SIZE (blkidx_cnt (Suc ?n))) (?M + ?T)) R"
          using ab by simp
        have rd: "idx_ready ?h tbs" using ab by simp
        note at = attachTidBlk_ok [OF wf1 rd _ eq, where M = M and R = R]
        have ow': "owns (h_pool ?h) (add_mset (x_iBlkIdxOff ?h, LSSHMTID_BLKIDX_SIZE (blkidx_cnt (Suc ?n)))
            (add_mset (y, sizeof_TidTblBlk) (M + ?T))) R" using ow by simp
        note at = at [OF ow']
        have "same_tab (starts M) h0 ?h" using ab by (auto simp: same_tab_def)
        then have st: "same_tab (starts M) h h'"
          using st0 same_tab_subset [OF at(4) subset_UNIV] by (blast intro: same_tab_trans)
        have "ti_tid ?h = ti_tid h" "x_lastTidPreClear ?h = x_lastTidPreClear h" "h_blks ?h = h_blks h" using ab ti0 by (auto simp: tid_same_def)
        then show ?thesis using at y st by (intro exI [of _ "tbs @ [y]"]) simp
      qed
    qed
  qed
qed

section \<open>The operations on transaction ids leave the table alone\<close>

text \<open>\<open>M\<close> are the blocks of the index and of the elements.\<close>

definition tid_frame :: "block multiset \<Rightarrow> block multiset \<Rightarrow> LsShmHash \<Rightarrow> LsShmHash \<Rightarrow> bool" where
  "tid_frame M R h h' \<longleftrightarrow> (\<forall>tbs. tid_wf h tbs \<and> owns (h_pool h) (M + tid_blocks h tbs) R \<longrightarrow>
     same_tab (starts M) h h' \<and> (\<exists>tbs'. tid_wf h' tbs' \<and> owns (h_pool h') (M + tid_blocks h' tbs') R))"

lemma tid_frame_refl [simp]: "tid_frame M R h h"
  by (auto simp: tid_frame_def)

lemma tid_frame_trans: "tid_frame M R h h1 \<Longrightarrow> tid_frame M R h1 h2 \<Longrightarrow> tid_frame M R h h2"
  unfolding tid_frame_def by (blast intro: same_tab_trans)

lemma tid_frame_lru: "lru_frame h h' \<Longrightarrow> tid_frame M R h h'"
proof -
  assume l: "lru_frame h h'"
  then have "same_tab (starts M) h h'" "h_pool h' = h_pool h" by (auto simp: lru_frame_def intro: same_tab_subset)
  with tid_same_wf [OF lru_tid_same [OF l]] tid_same_blocks [OF lru_tid_same [OF l]] show ?thesis
    by (auto simp: tid_frame_def)
qed

lemma tid_frame_upd_blk:
  assumes "\<And>b. length (x_iTidVals (f b)) = length (x_iTidVals b) \<and> b_iPrev (f b) = b_iPrev b"
  shows "tid_frame M R h (upd_blk x f h)"
proof -
  have "tid_wf (upd_blk x f h) tbs" if wf: "tid_wf h tbs" for tbs
  proof -
    have "\<exists>b. h_blks (upd_blk x f h) (tbs ! i) = Some b \<and> length (x_iTidVals b) = TIDTBLBLK_MAXSZ \<and>
        b_iPrev b = (if i = 0 then 0 else tbs ! (i - 1))" if i: "i < length tbs" for i
    proof -
      obtain b where "h_blks h (tbs ! i) = Some b" "length (x_iTidVals b) = TIDTBLBLK_MAXSZ"
        "b_iPrev b = (if i = 0 then 0 else tbs ! (i - 1))" using wf i by (auto simp: tid_wf_def)
      with assms show ?thesis by (auto simp: upd_blk_def)
    qed
    then show ?thesis using wf by (auto simp: tid_wf_def upd_blk_def)
  qed
  moreover have "tid_blocks (upd_blk x f h) tbs = tid_blocks h tbs" for tbs by (simp add: tid_blocks_def upd_blk_def)
  moreover have "same_tab (starts M) h (upd_blk x f h)" by (simp add: same_tab_def upd_blk_def)
  ultimately show ?thesis by (auto simp: tid_frame_def upd_blk_def)
qed

lemma tid_frame_grow: "tid_frame M R h (snd (growTidTbl E base h))"
proof -
  obtain x h' where r: "growTidTbl E base h = (x, h')" by fastforce
  show ?thesis unfolding tid_frame_def r snd_conv using growTidTbl_ok [OF _ _ r] by blast
qed

lemma tid_frame_ti [simp]: "tid_frame M R h (h1\<lparr>ti_tid := t\<rparr>) = tid_frame M R h h1"
  by (simp add: tid_frame_def same_tab_def tid_wf_def tid_blocks_def)

lemma tid_frame_set: "tid_frame M R h (snd (setTidTblEnt E v t h))"
proof (cases "t \<noteq> 0 \<and> t \<le> ti_tid h")
  case True
  then show ?thesis by (simp add: setTidTblEnt_def)
next
  case False
  define t1 where "t1 = (if t = 0 then ti_tid h + 1 else t)"
  define h1 where "h1 = h\<lparr>ti_tid := t1\<rparr>"
  define i where "i = unat (t1 mod of_nat TIDTBLBLK_MAXSZ)"
  define r where "r = (if case blk_at h1 (x_iTidTblCurOff h1) of None \<Rightarrow> True
                    | Some pBlk \<Rightarrow> t1 \<ge> x_tidBase pBlk + of_nat TIDTBLBLK_MAXSZ then growTidTbl E (t1 - of_nat i) h1 else (x_iTidTblCurOff h1, h1))"
  have f1: "tid_frame M R h (snd r)"
    using tid_frame_grow [of M R h1 E "t1 - of_nat i"] tid_frame_trans [of M R h h1]
    by (auto simp: r_def h1_def)
  have f2: "tid_frame M R (snd r) (upd_blk (fst r) (\<lambda>b. (if isTidValIterOff v then b\<lparr>x_iIterCnt := x_iIterCnt b + 1\<rparr>
                                  else b\<lparr>x_iDelCnt := x_iDelCnt b + 1\<rparr>)\<lparr>x_iTidVals := (x_iTidVals b)[i := v]\<rparr>) (snd r))"
    by (rule tid_frame_upd_blk) simp
  have "snd (setTidTblEnt E v t h) = (if fst r = 0 then snd r else case blk_at (snd r) (fst r) of None \<Rightarrow> snd r
     | Some _ \<Rightarrow> upd_blk (fst r) (\<lambda>b. (if isTidValIterOff v then b\<lparr>x_iIterCnt := x_iIterCnt b + 1\<rparr>
                                  else b\<lparr>x_iDelCnt := x_iDelCnt b + 1\<rparr>)\<lparr>x_iTidVals := (x_iTidVals b)[i := v]\<rparr>) (snd r))"
    using False unfolding setTidTblEnt_def Let_def t1_def [symmetric] h1_def [symmetric] i_def [symmetric] r_def [symmetric] split_beta
    by (cases "t = 0") (simp_all split: option.split)
  then show ?thesis using f1 tid_frame_trans [OF f1 f2] by (simp split: option.split)
qed

lemma tid_frame_clr: "tid_frame M R h (clrTidTblEnt t h)"
  by (auto simp: clrTidTblEnt_def intro: tid_frame_upd_blk split: option.split)

lemma tid_frame_link: "tid_frame M R h (linkTid E x t h)"
proof -
  obtain r h1 where s: "setTidTblEnt E (iterOff2tidVal x) t h = (r, h1)" by fastforce
  have f: "tid_frame M R h h1" using tid_frame_set [of M R h E "iterOff2tidVal x" t] s by simp
  have "lru_frame h1 (linkTid E x t h)"
    by (cases r) (simp_all add: linkTid_def s split_beta split: option.split)
  with f show ?thesis by (blast intro: tid_frame_trans tid_frame_lru)
qed

lemma tid_frame_unlink: "tid_frame M R h (unlinkTid E t h)"
  using tid_frame_clr tid_frame_set by (fastforce simp: unlinkTid_def Let_def intro: tid_frame_trans)

lemma tid_frame_erase: "tid_frame M R h (eraseIterCb E x h)"
  by (auto simp: eraseIterCb_def Let_def split: option.split
      intro: tid_frame_trans [OF tid_frame_lru tid_frame_unlink])

lemma tid_frame_insert: "tid_frame M R h (insertIterCb E x h)"
  by (simp add: insertIterCb_def tid_frame_link)

lemma tid_frame_update: "tid_frame M R h (updateIterCb E x h)"
  unfolding updateIterCb_def by (rule tid_frame_trans [OF tid_frame_erase tid_frame_link])

section \<open>Blocks of other owners\<close>

lemma owns_give:
  assumes "owns p (add_mset (y, n) M) R"
  obtains k where "blkSize n \<le> k" "owns p M (add_mset (y, k) R)" "0 < n"
proof -
  obtain f where "pool_inv p (image_mset (\<lambda>(x, n). (x, f x)) M + add_mset (y, f y) R)"
    "\<forall>(x, n)\<in>#M. 0 < n \<and> blkSize n \<le> f x" "blkSize n \<le> f y" "0 < n"
    using assms by (auto simp: owns_def)
  then show ?thesis using that [of "f y"] unfolding owns_def by blast
qed

lemma owns_take:
  assumes "owns p M (add_mset (y, k) R)" "blkSize n \<le> k" "0 < n"
  shows "owns p (add_mset (y, n) M) R"
proof -
  obtain f where f: "pool_inv p (image_mset (\<lambda>(x, n). (x, f x)) M + add_mset (y, k) R)" "\<forall>(x, n)\<in>#M. 0 < n \<and> blkSize n \<le> f x"
    using assms by (auto simp: owns_def)
  have nx: "z \<noteq> y" if z: "(z, l) \<in># M" for z l
  proof
    assume "z = y"
    obtain M' where "M = add_mset (z, l) M'" using z by (metis insert_DiffM)
    with f(1) \<open>z = y\<close> have i: "pool_inv p (add_mset (y, k) (add_mset (y, f y) (image_mset (\<lambda>(x, n). (x, f x)) M' + R)))" by simp
    then have "pool_inv p (add_mset (y, f y) (add_mset (y, k) (image_mset (\<lambda>(x, n). (x, f x)) M' + R)))"
      by (metis add_mset_commute)
    from pool_inv_block(3) [OF this] pool_inv_block(3) [OF i] pool.disjoint [OF i] show False by (auto simp: blk_disj_def)
  qed
  have eq: "image_mset (\<lambda>(z, n). (z, (f(y := k)) z)) M = image_mset (\<lambda>(x, n). (x, f x)) M"
    by (rule image_mset_cong) (use nx in auto)
  show ?thesis
    unfolding owns_def
    by (rule exI [of _ "f(y := k)"]) (use f eq nx assms(2,3) in \<open>auto simp: fun_upd_apply\<close>)
qed

lemma tid_frame_foreign:
  assumes "\<And>M R. tid_frame M R h h'" "tid_wf h tbs" "owns (h_pool h) (M + tid_blocks h tbs) R" "(y, k) \<in># R"
  shows "same_tab {y} h h'" "y \<notin> starts M"
proof -
  obtain R' where R: "R = add_mset (y, k) R'" using assms(4) by (metis insert_DiffM)
  obtain f where f: "pool_inv (h_pool h) (add_mset (y, k) (image_mset (\<lambda>(x, n). (x, f x)) (M + tid_blocks h tbs) + R'))"
    using assms(3) by (auto simp: owns_def R)
  have "16 \<le> k" using pool_inv_block(3,6) [OF f] by (auto simp: lay_simps elim!: dvdE)
  moreover have "blkSize 1 = 16" by (simp add: blkSize_def roundDataSize_def lay_simps)
  ultimately have o: "owns (h_pool h) (add_mset (y, 1) (M + tid_blocks h tbs)) R'"
    using owns_take [of "h_pool h" "M + tid_blocks h tbs" y k R' 1] assms(3) R by simp
  then have "same_tab (starts (add_mset (y, 1) M)) h h'"
    using assms(1) [of "add_mset (y, 1) M" R'] assms(2) unfolding tid_frame_def by auto
  then show "same_tab {y} h h'" by (rule same_tab_subset) simp
  show "y \<notin> starts M" using owns_starts [OF o] by simp
qed

end
