(* ===== verification/LsShmHashChain.thy ===== *)
theory LsShmHashChain
  imports LsShmHashFrame
begin

text \<open>
  The effect of \<open>push_chain\<close> and \<open>eraseIteratorHelper\<close> on the chains and on the stored map.
\<close>

section \<open>Frames of a consistent table\<close>

abbreviation tab_elem_blocks :: "LsShmHash \<Rightarrow> (nat \<Rightarrow> off list) \<Rightarrow> block multiset" where
  "tab_elem_blocks h ch \<equiv> add_mset (tab_block h) (elem_blocks h (offs h ch))"

lemma starts_elem_blocks [simp]: "starts (elem_blocks h xs) = set xs"
  by (simp add: elem_blocks_def)

lemma hash_blocks_alt: "hash_blocks h ch tbs = tab_elem_blocks h ch + tid_blocks h tbs"
  by (simp add: hash_blocks_def)

lemma hash_ok_tid:
  assumes ok: "hash_ok E h ch tbs R" and f: "tid_frame (tab_elem_blocks h ch) R h h'"
  shows "\<exists>tbs'. hash_ok E h' ch tbs' R" "hmap h' ch = hmap h ch" "same_tab (set (offs h ch)) h h'"
proof -
  have t: "htab E h ch" and w: "tid_wf h tbs" and o: "owns (h_pool h) (tab_elem_blocks h ch + tid_blocks h tbs) R"
    using ok by (auto simp: hash_ok_def hash_blocks_alt)
  from f w o obtain tbs' where s: "same_tab (starts (tab_elem_blocks h ch)) h h'" and w': "tid_wf h' tbs'"
    and o': "owns (h_pool h') (tab_elem_blocks h ch + tid_blocks h' tbs') R" by (auto simp: tid_frame_def)
  show s': "same_tab (set (offs h ch)) h h'" by (rule same_tab_subset [OF s]) auto
  note fr = htab_frame [OF t s']
  show "hmap h' ch = hmap h ch" by (rule fr)
  show "\<exists>tbs'. hash_ok E h' ch tbs' R" using fr w' o' by (auto simp: hash_ok_def hash_blocks_alt)
qed

lemmas hash_ok_lru = hash_ok_tid [OF _ tid_frame_lru]

lemma hmap_iff: "htab E h ch \<Longrightarrow> hmap h ch k = Some v \<longleftrightarrow> (\<exists>x\<in>set (offs h ch). ekey h x = k \<and> evalue h x = v)"
proof
  assume "htab E h ch" "hmap h ch k = Some v"
  then show "\<exists>x\<in>set (offs h ch). ekey h x = k \<and> evalue h x = v"
    by (auto simp: hmap_def dest!: map_of_SomeD)
qed (auto simp: hmap_Some)

section \<open>Adding an element to its chain\<close>

lemma offs_upd:
  assumes "i < x_iCapacity h"
  shows "mset (offs h (ch(i := xs))) + mset (ch i) = mset (offs h ch) + mset xs"
proof -
  let ?n = "x_iCapacity h"
  have s: "[0..<?n] = [0..<i] @ i # [Suc i..<?n]"
    using assms by (metis less_imp_le_nat upt_conv_Cons upt_add_eq_append le_add_diff_inverse zero_le)
  have "map (ch(i := xs)) [0..<i] = map ch [0..<i]" "map (ch(i := xs)) [Suc i..<?n] = map ch [Suc i..<?n]" by auto
  then show ?thesis unfolding offs_def s by simp
qed

lemma offs_push: "i < x_iCapacity h \<Longrightarrow> mset (offs h (ch(i := x # ch i))) = add_mset x (mset (offs h ch))"
  using offs_upd [of i h ch "x # ch i"] by simp

lemma distinct_map_mset: "mset xs = mset ys \<Longrightarrow> distinct (map f xs) = distinct (map f ys)"
  by (metis distinct_count_atmost_1 mset_map set_map set_mset_mset)

lemma push_chain_ok:
  assumes t: "htab E h ch" and w: "tid_wf h tbs" and e: "h_elems h x = Some e" "elem_ok E (iterExtraSpace h) e"
    and o: "owns (h_pool h) (add_mset (x, x_iLen e) (hash_blocks h ch tbs)) R"
    and k: "e_key e \<notin> ekey h ` set (offs h ch)"
  defines "i \<equiv> getIndex (x_hkey e) (x_iCapacity h)" and "h' \<equiv> push_chain (x_hkey e) x h"
  shows "hash_ok E h' (ch(i := x # ch i)) tbs R" "hmap h' (ch(i := x # ch i)) = (hmap h ch)(e_key e \<mapsto> take (e_valLen e) (e_val e))"
proof -
  let ?ch = "ch(i := x # ch i)"
  let ?e = "e\<lparr>x_iNext := h_idx h ! i\<rparr>"
  have cap: "0 < x_iCapacity h" "length (h_idx h) = x_iCapacity h" using t by (auto simp: htab_def)
  then have i: "i < x_iCapacity h" by (simp add: i_def)
  have h': "h_elems h' = (h_elems h)(x \<mapsto> ?e)" "h_idx h' = (h_idx h)[i := x]" "x_iSize h' = x_iSize h + 1"
    "x_iCapacity h' = x_iCapacity h" "h_pool h' = h_pool h" "iterExtraSpace h' = iterExtraSpace h"
    "x_iBitMapSz h' = x_iBitMapSz h" "x_iHIdx h' = x_iHIdx h" "x_iBitMap h' = x_iBitMap h" "x_iGrowFactor h' = x_iGrowFactor h"
    "getBitMapEnt h' = (\<lambda>j. j = i \<or> getBitMapEnt h j)" "tid_same h h'"
    using e(1) by (auto simp: h'_def push_chain_def Let_def i_def upd_elem_def setBitMapEnt_def getBitMapEnt_def
        iterExtraSpace_def tid_same_def fun_eq_iff)
  have x: "x \<notin> set (offs h ch)" "x \<noteq> 0"
    using owns_starts [OF o] owns_block(7) [OF o, of x "x_iLen e"] by (auto simp: hash_blocks_def)
  have of': "offs h' c = offs h c" for c by (simp add: offs_def h')
  have ms: "mset (offs h ?ch) = add_mset x (mset (offs h ch))" by (rule offs_push [OF i])
  then have st: "set (offs h ?ch) = insert x (set (offs h ch))" by (metis set_mset_add_mset_insert set_mset_mset)
  have acc: "y \<noteq> x \<Longrightarrow> nxt h' y = nxt h y" "y \<noteq> x \<Longrightarrow> ekey h' y = ekey h y" "y \<noteq> x \<Longrightarrow> evalue h' y = evalue h y"
    "y \<noteq> x \<Longrightarrow> elen h' y = elen h y" for y by (auto simp: nxt_def ekey_def evalue_def elen_def h')
  have ax: "ekey h' x = e_key e" "evalue h' x = take (e_valLen e) (e_val e)" "elen h' x = x_iLen e" "nxt h' x = Some (h_idx h ! i)"
    by (simp_all add: nxt_def ekey_def evalue_def elen_def h')
  have c: "chain_ok E h' ?ch j" if j: "j < x_iCapacity h" for j
  proof -
    have cj: "chain_ok E h ch j" using t j by (simp add: htab_def)
    have nj: "y \<in> set (ch j) \<Longrightarrow> y \<noteq> x" for y using x j by (auto simp: offs_mem)
    have el: "\<exists>e. h_elems h' y = Some e \<and> elem_ok E (iterExtraSpace h') e \<and> getIndex (x_hkey e) (x_iCapacity h') = j"
      if "y \<in> set (ch j)" for y using cj that nj [OF that] by (auto simp: chain_ok_def h')
    have sj: "sseg (nxt h') (ch j) 0" using cj nj acc(1) by (auto simp: chain_ok_def intro: sseg_cong [THEN iffD1, rotated])
    show ?thesis
    proof (cases "j = i")
      case True
      then have "sseg (nxt h') (x # ch i) 0" using sj ax(4) cj by (simp add: chain_ok_def)
      moreover have "\<exists>e. h_elems h' x = Some e \<and> elem_ok E (iterExtraSpace h') e \<and> getIndex (x_hkey e) (x_iCapacity h') = i"
        using e(2) by (simp add: h' elem_ok_def i_def)
      ultimately show ?thesis using True el i cap by (auto simp: chain_ok_def h')
    next
      case False
      then show ?thesis using sj el cj by (simp add: chain_ok_def h')
    qed
  qed
  have dk: "distinct (map (ekey h') (offs h ?ch))"
  proof -
    have "map (ekey h') (offs h ch) = map (ekey h) (offs h ch)" by (rule map_cong [OF refl], rule acc(2)) (use x in auto)
    then have "distinct (map (ekey h') (x # offs h ch))"
      using t k ax(1) unfolding htab_def by (metis distinct.simps(2) list.simps(9) set_map)
    then show ?thesis using distinct_map_mset [of "x # offs h ch" "offs h ?ch" "ekey h'"] ms by simp
  qed
  have "length (offs h ?ch) = Suc (length (offs h ch))" using ms by (metis size_add_mset size_mset)
  then have t': "htab E h' ?ch" using t c dk x st by (simp add: htab_def h' of')
  have "elem_blocks h' (offs h' ?ch) = add_mset (x, x_iLen e) (elem_blocks h (offs h ch))"
  proof -
    have "{#(y, elen h' y). y \<in># mset (offs h ch)#} = {#(y, elen h y). y \<in># mset (offs h ch)#}"
      by (rule image_mset_cong) (use x(1) acc(4) in \<open>metis set_mset_mset\<close>)
    then show ?thesis by (simp add: elem_blocks_def of' ms ax(3))
  qed
  then have "hash_blocks h' ?ch tbs = add_mset (x, x_iLen e) (hash_blocks h ch tbs)"
    using tid_same_blocks [OF h'(12)] by (simp add: hash_blocks_def tab_block_def h')
  with t' w o tid_same_wf [OF h'(12)] show "hash_ok E h' ?ch tbs R" by (simp add: hash_ok_def h')
  show "hmap h' ?ch = (hmap h ch)(e_key e \<mapsto> take (e_valLen e) (e_val e))"
  proof
    fix kk
    have k': "\<forall>y\<in>set (offs h ch). ekey h y \<noteq> e_key e" using k by (metis imageI)
    have ac: "\<forall>y\<in>set (offs h ch). ekey h' y = ekey h y \<and> evalue h' y = evalue h y"
      using x(1) acc(2,3) by metis
    have "hmap h' ?ch kk = Some v \<longleftrightarrow> ((hmap h ch)(e_key e \<mapsto> take (e_valLen e) (e_val e))) kk = Some v" for v
      using k' ac ax(1,2) by (auto simp: hmap_iff [OF t'] hmap_iff [OF t] of' st)
    then show "hmap h' ?ch kk = ((hmap h ch)(e_key e \<mapsto> take (e_valLen e) (e_val e))) kk"
      by (metis not_None_eq)
  qed
qed


section \<open>Removing an element from its chain\<close>

lemma erase_loop_ok:
  assumes "ys \<noteq> []" "sseg (nxt h) ys x" "x \<notin> set ys" "length ys < k"
    and "\<And>y. y \<in> set ys \<Longrightarrow> y \<noteq> 0 \<and> elem_at h y = h_elems h y"
  shows "erase_loop k x next (hd0 ys 0) h = upd_elem (last ys) (\<lambda>e. e\<lparr>x_iNext := next\<rparr>) h"
  using assms
proof (induction ys arbitrary: k)
  case (Cons y ys)
  obtain k' where k: "k = Suc k'" "length ys < k'" using Cons.prems(4) by (cases k) auto
  obtain e where e: "h_elems h y = Some e" "x_iNext e = hd0 ys x"
    using Cons.prems(2) by (auto simp: nxt_def)
  show ?case
  proof (cases ys)
    case Nil
    then show ?thesis using k e Cons.prems(5) [of y] by simp
  next
    case (Cons z zs)
    then have "z \<noteq> x" using \<open>x \<notin> set (y # ys)\<close> by auto
    moreover have "erase_loop k' x next (hd0 ys 0) h = upd_elem (last ys) (\<lambda>e. e\<lparr>x_iNext := next\<rparr>) h"
      using Cons Cons.prems k by (intro Cons.IH) auto
    ultimately show ?thesis using k e Cons.prems(5) [of y] Cons by simp
  qed
qed simp

lemma hash_ok_remove:
  assumes ok: "hash_ok E h ch tbs R" and i: "i < x_iCapacity h" and c: "ch i = ys @ x # zs"
    and el: "\<And>y. y \<in> set (offs h ch) \<Longrightarrow> y \<noteq> x \<Longrightarrow> h_elems h' y =
      (if ys \<noteq> [] \<and> y = last ys then map_option (\<lambda>e. e\<lparr>x_iNext := hd0 zs 0\<rparr>) (h_elems h y) else h_elems h y)"
    and f: "h_idx h' = (h_idx h)[i := hd0 (ys @ zs) 0]" "x_iSize h' = x_iSize h - 1" "x_iCapacity h' = x_iCapacity h"
      "iterExtraSpace h' = iterExtraSpace h" "x_iBitMapSz h' = x_iBitMapSz h" "x_iHIdx h' = x_iHIdx h"
      "x_iBitMap h' = x_iBitMap h" "x_iGrowFactor h' = x_iGrowFactor h" "tid_same h h'"
    and b: "\<And>j. j \<noteq> i \<or> ys @ zs \<noteq> [] \<Longrightarrow> getBitMapEnt h' j = getBitMapEnt h j"
    and p: "h_pool h' = release2 x (elen h x) (h_pool h)"
  shows "hash_ok E h' (ch(i := ys @ zs)) tbs R" "hmap h' (ch(i := ys @ zs)) = (hmap h ch)(ekey h x := None)"
proof -
  let ?ch = "ch(i := ys @ zs)"
  have t: "htab E h ch" and w: "tid_wf h tbs" and o: "owns (h_pool h) (hash_blocks h ch tbs) R"
    using ok by (auto simp: hash_ok_def)
  have of': "offs h' cc = offs h cc" for cc by (simp add: offs_def f)
  have ms: "mset (offs h ch) = add_mset x (mset (offs h ?ch))"
    using offs_upd [OF i, of ch "ys @ zs"] c by simp
  then have st: "set (offs h ch) = insert x (set (offs h ?ch))" by (metis set_mset_add_mset_insert set_mset_mset)
  have dk: "distinct (map (ekey h) (x # offs h ?ch))"
    using distinct_map_mset [of "x # offs h ?ch" "offs h ch" "ekey h"] ms t by (simp add: htab_def)
  then have x: "x \<notin> set (offs h ?ch)" by auto
  have el': "y \<in> set (offs h ?ch) \<Longrightarrow> h_elems h' y =
      (if ys \<noteq> [] \<and> y = last ys then map_option (\<lambda>e. e\<lparr>x_iNext := hd0 zs 0\<rparr>) (h_elems h y) else h_elems h y)" for y
    by (rule el) (use x st in auto)
  have acc: "ekey h' y = ekey h y" "evalue h' y = evalue h y" "elen h' y = elen h y"
    "nxt h' y = (if ys \<noteq> [] \<and> y = last ys then map_option (\<lambda>_. hd0 zs 0) (nxt h y) else nxt h y)"
    if "y \<in> set (offs h ?ch)" for y
    using el' [OF that] by (auto simp: ekey_def evalue_def elen_def nxt_def option.map_comp comp_def split: option.splits)
  have in': "y \<in> set (?ch j) \<Longrightarrow> j < x_iCapacity h \<Longrightarrow> y \<in> set (offs h ?ch)" for y j by (auto simp: offs_mem)
  have dch: "distinct (ys @ x # zs)"
  proof -
    have "distinct (concat (map ch [0..<x_iCapacity h]))" using htab_distinct [OF t] by (simp add: offs_def)
    then have "distinct (ch i)" using i by (auto simp: distinct_concat_iff)
    then show ?thesis using c by simp
  qed
  have ch: "chain_ok E h' ?ch j" if j: "j < x_iCapacity h" for j
  proof -
    have cj: "chain_ok E h ch j" using t j by (simp add: htab_def)
    have sub: "set (?ch j) \<subseteq> set (ch j)" using c by auto
    have e1: "\<exists>e. h_elems h' y = Some e \<and> elem_ok E (iterExtraSpace h') e \<and> getIndex (x_hkey e) (x_iCapacity h') = j"
      if y: "y \<in> set (?ch j)" for y
    proof -
      obtain e where "h_elems h y = Some e" "elem_ok E (iterExtraSpace h) e" "getIndex (x_hkey e) (x_iCapacity h) = j"
        using cj sub y by (auto simp: chain_ok_def)
      with el' [OF in' [OF y j]] show ?thesis by (auto simp: f elem_ok_def)
    qed
    show ?thesis
    proof (cases "j = i")
      case True
      have s: "sseg (nxt h) (ys @ x # zs) 0" using cj c True by (simp add: chain_ok_def)
      have zs: "sseg (nxt h') zs 0"
      proof -
        have "nxt h' y = nxt h y" if "y \<in> set zs" for y
          using that acc(4) [of y] in' [of y i] i dch by (auto dest: last_in_set)
        then have "sseg (nxt h') zs 0 = sseg (nxt h) zs 0" by (rule sseg_cong)
        with s show ?thesis by (simp add: sseg_append)
      qed
      have ys: "sseg (nxt h') ys (hd0 zs 0)"
      proof (cases ys rule: rev_cases)
        case (snoc us u)
        have "nxt h' y = ((nxt h)(u := Some (hd0 zs 0))) y" if y: "y \<in> set ys" for y
        proof -
          have "nxt h y \<noteq> None" using s y sseg_dom by fastforce
          then show ?thesis using acc(4) [of y] in' [of y i] i y snoc by auto
        qed
        then have "sseg (nxt h') ys (hd0 zs 0) = sseg ((nxt h)(u := Some (hd0 zs 0))) ys (hd0 zs 0)" by (rule sseg_cong)
        with sseg_relink [of "nxt h" us u x "hd0 zs 0"] s dch snoc show ?thesis by (simp add: sseg_append)
      qed simp
      have bm: "?ch i \<noteq> [] \<longrightarrow> getBitMapEnt h' i" using b [of i] cj True c by (auto simp: chain_ok_def)
      have "h_idx h' ! i = hd0 (ys @ zs) 0" using f(1) i t by (simp add: htab_def)
      then show ?thesis using True ys zs e1 bm by (auto simp: chain_ok_def sseg_append)
    next
      case False
      have "nxt h' y = nxt h y" if y: "y \<in> set (ch j)" for y
      proof -
        have "ys \<noteq> [] \<Longrightarrow> y \<noteq> last ys"
        proof
          assume ne: "ys \<noteq> []" and l: "y = last ys"
          then have "y \<in> set (ch i)" using c by auto
          moreover have "set (ch i) \<inter> set (ch j) = {}"
          proof -
            have "chain_ok E h ch i" using t i by (simp add: htab_def)
            then show ?thesis using cj False by (fastforce simp: chain_ok_def)
          qed
          ultimately show False using y by auto
        qed
        then show ?thesis using acc(4) [of y] in' [of y j] y False j by auto
      qed
      then have "sseg (nxt h') (ch j) 0 = sseg (nxt h) (ch j) 0" by (rule sseg_cong)
      then show ?thesis using False cj e1 b [of j] f(1) by (auto simp: chain_ok_def)
    qed
  qed
  have mk: "map (ekey h') (offs h ?ch) = map (ekey h) (offs h ?ch)" using acc(1) by simp
  have len: "length (offs h ch) = Suc (length (offs h ?ch))" using ms by (metis size_add_mset size_mset)
  have n0: "0 \<notin> set (offs h ?ch)" using t st by (auto simp: htab_def)
  have t': "htab E h' ?ch" using t ch dk n0 len by (simp add: htab_def f of' mk)
  have eb: "elem_blocks h (offs h ch) = add_mset (x, elen h x) (elem_blocks h' (offs h' ?ch))"
    using acc(3) by (auto simp: elem_blocks_def of' ms intro: image_mset_cong)
  have "hash_blocks h ch tbs = add_mset (x, elen h x) (hash_blocks h' ?ch tbs)"
    using eb tid_same_blocks [OF f(9)] by (simp add: hash_blocks_def tab_block_def f add_mset_commute)
  with o have "owns (release2 x (elen h x) (h_pool h)) (hash_blocks h' ?ch tbs) R" by (simp add: owns_release)
  with t' w tid_same_wf [OF f(9)] p show "hash_ok E h' ?ch tbs R" by (simp add: hash_ok_def)
  show "hmap h' ?ch = (hmap h ch)(ekey h x := None)"
  proof
    fix kk
    have k': "\<forall>y\<in>set (offs h ?ch). ekey h y \<noteq> ekey h x" using dk by (auto simp: image_iff)
    have "hmap h' ?ch kk = Some v \<longleftrightarrow> ((hmap h ch)(ekey h x := None)) kk = Some v" for v
      using k' acc(1,2) by (auto simp: hmap_iff [OF t'] hmap_iff [OF t] of' st)
    then show "hmap h' ?ch kk = ((hmap h ch)(ekey h x := None)) kk" by (metis not_None_eq)
  qed
qed

section \<open>Erasing an element\<close>

lemma mset_remove_set:
  assumes "mset xs = add_mset x (mset ys)" "distinct xs"
  shows "set ys = set xs - {x}"
proof -
  have "mset xs = mset (x # ys)" using assms(1) by simp
  then have "distinct (x # ys)" "set xs = set (x # ys)"
    using assms(2) mset_eq_imp_distinct_iff mset_eq_setD by blast+
  then show ?thesis by auto
qed

lemma eraseIteratorHelper_ok:
  assumes ok: "hash_ok E h ch tbs R" and x: "x \<in> set (offs h ch)"
  shows "\<exists>ch' tbs'. hash_ok E (eraseIteratorHelper E x h) ch' tbs' R \<and>
    hmap (eraseIteratorHelper E x h) ch' = (hmap h ch)(ekey h x := None) \<and>
    set (offs (eraseIteratorHelper E x h) ch') = set (offs h ch) - {x}"
    "y \<in> set (offs h ch) - {x} \<Longrightarrow> ekey (eraseIteratorHelper E x h) y = ekey h y"
    "y \<in> set (offs h ch) - {x} \<Longrightarrow> evalue (eraseIteratorHelper E x h) y = evalue h y"
    "iterExtraSpace (eraseIteratorHelper E x h) = iterExtraSpace h"
    "flag_lru (eraseIteratorHelper E x h) = flag_lru h" "flag_tid (eraseIteratorHelper E x h) = flag_tid h"
    "flag_tid_slave (eraseIteratorHelper E x h) = flag_tid_slave h"
    "(y, k) \<in># R \<Longrightarrow> map_option estrip (h_elems (eraseIteratorHelper E x h) y) = map_option estrip (h_elems h y)"
proof -
  obtain e where e: "elem_live E h x e" "x \<in> set (ch (getIndex (x_hkey e) (x_iCapacity h)))"
    "getIndex (x_hkey e) (x_iCapacity h) < x_iCapacity h" "elen h x = x_iLen e"
    by (rule hash_ok_elem [OF ok x])
  define i where "i = getIndex (x_hkey e) (x_iCapacity h)"
  obtain ys zs where c: "ch i = ys @ x # zs" using e(2) unfolding i_def by (meson split_list)
  have i: "i < x_iCapacity h" using e(3) by (simp add: i_def)
  have t: "htab E h ch" using ok by (simp add: hash_ok_def)
  have ci: "chain_ok E h ch i" using t i by (simp add: htab_def)
  have x0: "x \<noteq> 0" using t x by (metis htab_def)
  have nx: "x_iNext e = hd0 zs 0" and hd: "h_idx h ! i = hd0 (ys @ x # zs) 0"
    using ci c elem_live_simps(1) [OF e(1)] by (auto simp: chain_ok_def sseg_append nxt_def)
  define h1 where "h1 = (if flag_lru h then unlinkHElem x h else h)"
  define h2 where "h2 = (if flag_tid h1 then eraseIterCb E x h1 else h1)"
  have l1: "lru_frame h h1" by (simp add: h1_def)
  obtain tbs1 where ok1: "hash_ok E h1 ch tbs1 R" using hash_ok_lru(1) [OF ok l1] by blast
  have f1: "same_tab (set (offs h ch)) h h1" "hmap h1 ch = hmap h ch" using hash_ok_lru(2,3) [OF ok l1] by auto
  have o1: "offs h1 ch = offs h ch" by (rule offs_frame [OF f1(1)])
  have tf: "tid_frame (tab_elem_blocks h1 ch) R h1 h2" by (simp add: h2_def tid_frame_erase)
  obtain tbs2 where ok2: "hash_ok E h2 ch tbs2 R" using hash_ok_tid(1) [OF ok1 tf] by blast
  have f2: "same_tab (set (offs h ch)) h1 h2" "hmap h2 ch = hmap h1 ch" using hash_ok_tid(2,3) [OF ok1 tf] o1 by auto
  have sm: "same_tab (set (offs h ch)) h h2" using f1(1) f2(1) by (rule same_tab_trans)
  have o2: "offs h2 ch = offs h ch" by (rule offs_frame [OF sm])
  have tf2: "x_iCapacity h2 = x_iCapacity h" "x_iSize h2 = x_iSize h" "h_idx h2 = h_idx h" using sm by (auto simp: same_tab_def)
  have t2: "htab E h2 ch" using ok2 by (simp add: hash_ok_def)
  have ci2: "chain_ok E h2 ch i" using t2 i tf2 by (simp add: htab_def)
  have dch: "distinct (ys @ x # zs)"
  proof -
    have "distinct (concat (map ch [0..<x_iCapacity h]))" using htab_distinct [OF t] by (simp add: offs_def)
    then have "distinct (ch i)" using i by (auto simp: distinct_concat_iff)
    then show ?thesis using c by simp
  qed
  define h3 where "h3 = (if ys = [] then
        (if hd0 zs 0 = 0 then clrBitMapEnt i (h2\<lparr>h_idx := (h_idx h2)[i := hd0 zs 0]\<rparr>) else h2\<lparr>h_idx := (h_idx h2)[i := hd0 zs 0]\<rparr>)
      else upd_elem (last ys) (\<lambda>e. e\<lparr>x_iNext := hd0 zs 0\<rparr>) h2)"
  have loop: "erase_loop (Suc (x_iSize h2)) x (hd0 zs 0) (hd0 ys 0) h2 = upd_elem (last ys) (\<lambda>e. e\<lparr>x_iNext := hd0 zs 0\<rparr>) h2"
    if ne: "ys \<noteq> []"
  proof (rule erase_loop_ok [OF ne])
    show "sseg (nxt h2) ys x" using ci2 c by (simp add: chain_ok_def sseg_append)
    show "x \<notin> set ys" using dch by auto
    show "length ys < Suc (x_iSize h2)"
      using length_chain [of i h2 ch] i tf2 c t2 by (simp add: htab_def)
    fix y assume y: "y \<in> set ys"
    then have y': "y \<in> set (offs h2 ch)" using c i tf2 by (auto simp: offs_mem)
    then have "y \<noteq> 0" using t2 by (metis htab_def)
    with hash_ok_elem [OF ok2 y'] show "y \<noteq> 0 \<and> elem_at h2 y = h_elems h2 y" by (metis elem_live_simps(1,2))
  qed
  have xo: "(h_idx h ! i = x) = (ys = [])" using hd dch by (cases ys) auto
  define h4 where "h4 = (hash_release2 x (x_iLen e) h3)\<lparr>x_iSize := x_iSize (hash_release2 x (x_iLen e) h3) - 1\<rparr>"
  have eq0: "eraseIteratorHelper E x h = (let hx = (if h_idx h ! i = x then
        (let hy = h2\<lparr>h_idx := (h_idx h2)[i := x_iNext e]\<rparr> in if x_iNext e = 0 then clrBitMapEnt i hy else hy)
      else erase_loop (Suc (x_iSize h2)) x (x_iNext e) (h_idx h ! i) h2); hz = hash_release2 x (x_iLen e) hx
    in hz\<lparr>x_iSize := x_iSize hz - 1\<rparr>)"
    using x0 by (simp add: eraseIteratorHelper_def elem_live_simps(4) [OF e(1)] Let_def h1_def h2_def i_def del: erase_loop.simps)
  have eq: "eraseIteratorHelper E x h = h4"
  proof (cases ys)
    case Nil
    then show ?thesis using hd by (simp add: eq0 h4_def h3_def Let_def nx)
  next
    case (Cons y ys')
    then have "h_idx h ! i = hd0 ys 0" "h_idx h ! i \<noteq> x" using hd xo by auto
    then show ?thesis using loop Cons by (simp add: eq0 h4_def h3_def Let_def nx del: erase_loop.simps)
  qed
  have h3: "h_pool h3 = h_pool h2" "tid_same h2 h3" "x_iSize h3 = x_iSize h2" "x_iCapacity h3 = x_iCapacity h2"
    "iterExtraSpace h3 = iterExtraSpace h2" "x_iBitMapSz h3 = x_iBitMapSz h2" "x_iHIdx h3 = x_iHIdx h2"
    "x_iBitMap h3 = x_iBitMap h2" "x_iGrowFactor h3 = x_iGrowFactor h2" "flag_lru h3 = flag_lru h2" "flag_tid h3 = flag_tid h2"
    "flag_tid_slave h3 = flag_tid_slave h2"
    by (auto simp: h3_def clrBitMapEnt_def upd_elem_def tid_same_def iterExtraSpace_def)
  have h4: "h_pool h4 = release2 x (x_iLen e) (h_pool h3)" "tid_same h3 h4" "x_iSize h4 = x_iSize h3 - 1"
    "x_iCapacity h4 = x_iCapacity h3" "iterExtraSpace h4 = iterExtraSpace h3" "x_iBitMapSz h4 = x_iBitMapSz h3"
    "x_iHIdx h4 = x_iHIdx h3" "x_iBitMap h4 = x_iBitMap h3" "x_iGrowFactor h4 = x_iGrowFactor h3" "h_idx h4 = h_idx h3"
    "getBitMapEnt h4 = getBitMapEnt h3" "flag_lru h4 = flag_lru h3" "flag_tid h4 = flag_tid h3" "flag_tid_slave h4 = flag_tid_slave h3"
    "y \<noteq> x \<Longrightarrow> h_elems h4 y = h_elems h3 y" for y
    by (auto simp: h4_def hash_release2_def Let_def upd_elem_def tid_same_def iterExtraSpace_def getBitMapEnt_def fun_eq_iff)
  have el: "h_elems h4 y = (if ys \<noteq> [] \<and> y = last ys then map_option (\<lambda>e. e\<lparr>x_iNext := hd0 zs 0\<rparr>) (h_elems h2 y) else h_elems h2 y)"
    if "y \<noteq> x" for y
    using h4(15) [OF that] by (auto simp: h3_def clrBitMapEnt_def upd_elem_def)
  have len2: "elen h2 x = x_iLen e" using same_tab_acc(4) [OF sm x] e(4) by simp
  have rm: "hash_ok E h4 (ch(i := ys @ zs)) tbs2 R" "hmap h4 (ch(i := ys @ zs)) = (hmap h2 ch)(ekey h2 x := None)"
  proof -
    have "tid_same h2 h4" using h3(2) h4(2) by (rule tid_same_trans)
    moreover have "h_idx h4 = (h_idx h2)[i := hd0 (ys @ zs) 0]"
    proof (cases ys)
      case (Cons y ys')
      then have "(h_idx h2)[i := hd0 (ys @ zs) 0] = h_idx h2" using hd tf2 list_update_id [of "h_idx h" i] by simp
      then show ?thesis using Cons h4(10) by (simp add: h3_def upd_elem_def)
    qed (simp add: h4 h3_def clrBitMapEnt_def)
    moreover have "getBitMapEnt h4 j = getBitMapEnt h2 j" if j: "j \<noteq> i \<or> ys @ zs \<noteq> []" for j
    proof -
      have "hd0 zs 0 = 0 \<Longrightarrow> zs = []"
      proof (rule ccontr)
        assume "hd0 zs 0 = 0" "zs \<noteq> []"
        then have "0 \<in> set zs" using hd0_in [of zs 0] by auto
        then have "0 \<in> set (offs h ch)" using c i by (auto simp: offs_mem)
        then show False using t by (simp add: htab_def)
      qed
      then show ?thesis using j by (auto simp: h4 h3_def clrBitMapEnt_def upd_elem_def getBitMapEnt_def)
    qed
    ultimately show "hash_ok E h4 (ch(i := ys @ zs)) tbs2 R" "hmap h4 (ch(i := ys @ zs)) = (hmap h2 ch)(ekey h2 x := None)"
      using hash_ok_remove [OF ok2, of i ys x zs h4] i c el h3 h4 tf2 len2 by auto
  qed
  have "offs h4 (ch(i := ys @ zs)) = offs h (ch(i := ys @ zs))" by (simp add: offs_def h4 h3 tf2)
  moreover have "mset (offs h ch) = add_mset x (mset (offs h (ch(i := ys @ zs))))"
    using offs_upd [OF i, of ch "ys @ zs"] c by simp
  then have "set (offs h (ch(i := ys @ zs))) = set (offs h ch) - {x}"
    using htab_distinct [OF t] by (rule mset_remove_set)
  ultimately show "\<exists>ch' tbs'. hash_ok E (eraseIteratorHelper E x h) ch' tbs' R \<and>
    hmap (eraseIteratorHelper E x h) ch' = (hmap h ch)(ekey h x := None) \<and>
    set (offs (eraseIteratorHelper E x h) ch') = set (offs h ch) - {x}"
    using rm f1(2) f2(2) same_tab_acc(2) [OF sm x] eq by (intro exI [of _ "ch(i := ys @ zs)"] exI [of _ tbs2]) simp
  show "ekey (eraseIteratorHelper E x h) y = ekey h y" "evalue (eraseIteratorHelper E x h) y = evalue h y"
    if "y \<in> set (offs h ch) - {x}"
    using same_tab_acc(2,3) [OF sm, of y] that el [of y]
    by (auto simp: eq ekey_def evalue_def split: option.splits)
  show "iterExtraSpace (eraseIteratorHelper E x h) = iterExtraSpace h"
    "flag_lru (eraseIteratorHelper E x h) = flag_lru h" "flag_tid (eraseIteratorHelper E x h) = flag_tid h"
    "flag_tid_slave (eraseIteratorHelper E x h) = flag_tid_slave h"
    using sm by (auto simp: eq h4 h3 same_tab_def iterExtraSpace_def)
  show "map_option estrip (h_elems (eraseIteratorHelper E x h) y) = map_option estrip (h_elems h y)" if y: "(y, k) \<in># R"
  proof -
    have fr: "tid_frame M R h h2" for M R
      using tid_frame_trans [OF tid_frame_lru [OF l1]] tid_frame_erase by (auto simp: h2_def tid_frame_lru [OF l1])
    have "tid_wf h tbs" "owns (h_pool h) (tab_elem_blocks h ch + tid_blocks h tbs) R"
      using ok by (auto simp: hash_ok_def hash_blocks_alt)
    note fg = tid_frame_foreign [OF fr this y]
    then have "y \<notin> set (offs h ch)" by simp
    moreover have "ys \<noteq> [] \<Longrightarrow> last ys \<in> set (offs h ch)" using c i by (auto simp: offs_mem)
    moreover have "y \<noteq> x" using calculation(1) x by blast
    ultimately have "h_elems h4 y = h_elems h2 y" unfolding el [OF \<open>y \<noteq> x\<close>] by auto
    with fg(1) show ?thesis by (simp add: eq same_tab_def)
  qed
qed

end
