(* ===== verification/LsShmHashRehash.thy ===== *)
theory LsShmHashRehash
  imports LsShmHashChain
begin

text \<open>
  Iteration over the table in index order, and \<open>rehash\<close>: the loop moves every element exactly once,
  ends, and leaves a consistent table with the same contents.
\<close>

section \<open>Iteration\<close>

lemma find_concat:
  assumes "\<And>j. j < n \<Longrightarrow> idx ! j = hd0 (oc j) 0" "0 \<notin> set (concat (map oc [i..<n]))"
  shows "(case find (\<lambda>j. idx ! j \<noteq> 0) [i..<n] of None \<Rightarrow> 0 | Some j \<Rightarrow> idx ! j) = hd0 (concat (map oc [i..<n])) 0"
  using assms
proof (induction "n - i" arbitrary: i)
  case (Suc k)
  then have i: "i < n" by simp
  then have u: "[i..<n] = i # [Suc i..<n]" by (simp add: upt_conv_Cons)
  have h: "idx ! i = hd0 (oc i) 0" using Suc.prems(1) i by simp
  show ?case
  proof (cases "oc i")
    case Nil
    have "(case find (\<lambda>j. idx ! j \<noteq> 0) [Suc i..<n] of None \<Rightarrow> 0 | Some j \<Rightarrow> idx ! j) = hd0 (concat (map oc [Suc i..<n])) 0"
      using Suc.prems Suc.hyps(2) u by (intro Suc.hyps(1)) auto
    then show ?thesis using Nil h unfolding u by simp
  next
    case (Cons x xs)
    then have "x \<noteq> 0" using Suc.prems(2) unfolding u by (metis (no_types) concat.simps(2) Un_iff list.set_intros(1) list.simps(9) set_append)
    then show ?thesis using Cons h unfolding u by simp
  qed
qed simp

lemma begin_off_ok:
  assumes "htab E h ch"
  shows "begin_off h = hd0 (offs h ch) 0"
proof -
  have "(case find (\<lambda>i. h_idx h ! i \<noteq> 0) [0..<x_iCapacity h] of None \<Rightarrow> 0 | Some i \<Rightarrow> h_idx h ! i) = hd0 (offs h ch) 0"
    unfolding offs_def by (rule find_concat) (use assms in \<open>auto simp: htab_def chain_ok_def offs_def\<close>)
  moreover have "offs h ch = []" if "x_iSize h = 0" using assms that by (simp add: htab_def)
  ultimately show ?thesis by (auto simp: begin_off_def)
qed

lemma next_scan_ok:
  assumes "\<And>j. j < x_iCapacity h \<Longrightarrow> h_idx h ! j = hd0 (oc j) 0"
    "0 \<notin> set (concat (map oc [i..<x_iCapacity h]))" "x \<notin> set (concat (map oc [i..<x_iCapacity h]))"
  shows "next_scan x i h = (hd0 (concat (map oc [i..<x_iCapacity h])) 0, h)"
  using assms
proof (induction "x_iCapacity h - i" arbitrary: i)
  case 0
  then show ?case by (simp add: next_scan.simps)
next
  case (Suc k)
  let ?n = "x_iCapacity h"
  have i: "i < ?n" using Suc.hyps(2) by simp
  then have u: "[i..<?n] = i # [Suc i..<?n]" by (simp add: upt_conv_Cons)
  have h: "h_idx h ! i = hd0 (oc i) 0" using Suc.prems(1) i by simp
  show ?case
  proof (cases "oc i")
    case Nil
    have "next_scan x (Suc i) h = (hd0 (concat (map oc [Suc i..<?n])) 0, h)"
      using Suc.prems Suc.hyps(2) u by (intro Suc.hyps(1)) auto
    then show ?thesis using Nil h i unfolding u by (subst next_scan.simps) simp
  next
    case (Cons y ys)
    then have "y \<noteq> 0" "y \<noteq> x" using Suc.prems(2,3) unfolding u by auto
    then show ?thesis using Cons h i unfolding u by (subst next_scan.simps) simp
  qed
qed

lemma next_off_ok:
  assumes e: "elem_live E h x e" and i: "i < x_iCapacity h" "getIndex (x_hkey e) (x_iCapacity h) = i"
    and idx: "\<And>j. j < x_iCapacity h \<Longrightarrow> h_idx h ! j = hd0 (oc j) 0" and nx: "x_iNext e = hd0 ys 0"
    and d: "0 \<notin> set (ys @ concat (map oc [Suc i..<x_iCapacity h]))" "x \<notin> set (ys @ concat (map oc [Suc i..<x_iCapacity h]))" "x \<noteq> 0"
  shows "next_off x h = (hd0 (ys @ concat (map oc [Suc i..<x_iCapacity h])) 0, h)"
proof (cases ys)
  case Nil
  have "next_scan x (Suc i) h = (hd0 (concat (map oc [Suc i..<x_iCapacity h])) 0, h)"
    by (rule next_scan_ok) (use idx d Nil in auto)
  then show ?thesis using Nil nx i d(3) elem_live_simps(4) [OF e] by (simp add: next_off_def)
next
  case (Cons y ys')
  then have "y \<noteq> 0" "y \<noteq> x" using d by auto
  then show ?thesis using Cons nx d(3) elem_live_simps(4) [OF e] by (simp add: next_off_def)
qed

section \<open>Rehashing\<close>

definition enx :: "LsShmHElem \<Rightarrow> LsShmHElem" where
  "enx e = e\<lparr>x_iNext := 0\<rparr>"

text \<open>Changes of the chain links, of the index, the bitmap and the signal counter only.\<close>

definition nx_frame :: "LsShmHash \<Rightarrow> LsShmHash \<Rightarrow> bool" where
  "nx_frame h h' \<longleftrightarrow> h_pool h' = h_pool h \<and> tid_same h h' \<and> x_iCapacity h' = x_iCapacity h \<and> x_iSize h' = x_iSize h \<and>
     x_iFullFactor h' = x_iFullFactor h \<and> x_iGrowFactor h' = x_iGrowFactor h \<and> x_iHIdx h' = x_iHIdx h \<and>
     x_iBitMap h' = x_iBitMap h \<and> x_iBitMapSz h' = x_iBitMapSz h \<and> flag_lru h' = flag_lru h \<and> flag_tid h' = flag_tid h \<and>
     flag_tid_slave h' = flag_tid_slave h \<and> (\<forall>y. map_option enx (h_elems h' y) = map_option enx (h_elems h y))"

lemma nx_frame_refl [simp]: "nx_frame h h"
  by (simp add: nx_frame_def)

lemma nx_frame_trans: "nx_frame h h1 \<Longrightarrow> nx_frame h1 h2 \<Longrightarrow> nx_frame h h2"
  by (auto simp: nx_frame_def intro: tid_same_trans)

lemma enx_eqD:
  assumes "enx e = enx e'"
  shows "x_iLen e = x_iLen e'" "x_iValOff e = x_iValOff e'" "x_hkey e = x_hkey e'"
    "e_key e = e_key e'" "e_valLen e = e_valLen e'" "e_val e = e_val e'"
  using assms by (auto simp: enx_def dest: arg_cong [where f = x_iLen] arg_cong [where f = x_iValOff]
      arg_cong [where f = x_hkey] arg_cong [where f = e_key] arg_cong [where f = e_valLen] arg_cong [where f = e_val])

lemma nx_frame_elem:
  assumes "nx_frame h h'" "h_elems h x = Some e"
  obtains e' where "h_elems h' x = Some e'" "enx e' = enx e"
proof -
  have "map_option enx (h_elems h' x) = Some (enx e)" using assms by (simp add: nx_frame_def)
  then show ?thesis using that by auto
qed

lemma nx_frame_acc:
  assumes "nx_frame h h'"
  shows "ekey h' x = ekey h x" "evalue h' x = evalue h x" "elen h' x = elen h x"
proof -
  have m: "map_option enx (h_elems h' x) = map_option enx (h_elems h x)" using assms by (simp add: nx_frame_def)
  have "ekey h' x = ekey h x \<and> evalue h' x = evalue h x \<and> elen h' x = elen h x"
  proof (cases "h_elems h x")
    case None
    with m show ?thesis by (simp add: ekey_def evalue_def elen_def)
  next
    case (Some e)
    with m obtain e' where "h_elems h' x = Some e'" "enx e' = enx e" by auto
    with Some enx_eqD [OF this(2)] show ?thesis by (simp add: ekey_def evalue_def elen_def)
  qed
  then show "ekey h' x = ekey h x" "evalue h' x = evalue h x" "elen h' x = elen h x" by auto
qed

lemma nx_frame_live:
  assumes f: "nx_frame h h'" and e: "elem_live E h x e"
  obtains e' where "elem_live E h' x e'" "x_hkey e' = x_hkey e"
proof -
  obtain e' where e': "h_elems h' x = Some e'" "enx e' = enx e"
    using nx_frame_elem [OF f elem_live_simps(1) [OF e]] by blast
  have "elem_live E h' x e'"
    using e e'(1) enx_eqD [OF e'(2)] f by (simp add: elem_live_def elem_ok_def nx_frame_def iterExtraSpace_def)
  with that enx_eqD(3) [OF e'(2)] show ?thesis by blast
qed

text \<open>
  The state of the rehash loop: the old chains \<open>oc\<close> that are still to do, the new chains \<open>nc\<close>
  built so far.
\<close>

definition rh_ok :: "env \<Rightarrow> (nat \<Rightarrow> off list) \<Rightarrow> (nat \<Rightarrow> off list) \<Rightarrow> nat \<Rightarrow> off list \<Rightarrow> LsShmHash \<Rightarrow> bool" where
  "rh_ok E oc nc n new h \<longleftrightarrow> 0 < x_iCapacity h \<and> 0 < n \<and> length (h_idx h) = x_iCapacity h \<and> length new = n \<and>
     (\<forall>j<x_iCapacity h. h_idx h ! j = hd0 (oc j) 0 \<and> sseg (nxt h) (oc j) 0 \<and>
        (\<forall>x\<in>set (oc j). \<exists>e. elem_live E h x e \<and> getIndex (x_hkey e) (x_iCapacity h) = j)) \<and>
     (\<forall>j<n. new ! j = hd0 (nc j) 0 \<and> sseg (nxt h) (nc j) 0 \<and> (nc j \<noteq> [] \<longrightarrow> getBitMapEnt h j) \<and>
        (\<forall>x\<in>set (nc j). \<exists>e. elem_live E h x e \<and> getIndex (x_hkey e) n = j)) \<and>
     distinct (concat (map oc [0..<x_iCapacity h]) @ concat (map nc [0..<n])) \<and>
     0 \<notin> set (concat (map oc [0..<x_iCapacity h])) \<union> set (concat (map nc [0..<n]))"

lemma concat_first:
  assumes "concat (map oc [0..<n]) = x # xs"
  obtains i ys where "i < n" "\<forall>j<i. oc j = []" "oc i = x # ys" "xs = ys @ concat (map oc [Suc i..<n])"
proof -
  have ex: "\<exists>i. i < n \<and> oc i \<noteq> []"
  proof (rule ccontr)
    assume "\<not> ?thesis"
    then have "concat (map oc [0..<n]) = []" by simp
    with assms show False by simp
  qed
  define i where "i = (LEAST i. i < n \<and> oc i \<noteq> [])"
  have i: "i < n" "oc i \<noteq> []" using LeastI_ex [OF ex] by (auto simp: i_def)
  have less: "oc j = []" if "j < i" for j using not_less_Least [of j "\<lambda>i. i < n \<and> oc i \<noteq> []"] that i(1) by (auto simp: i_def)
  have s: "[0..<n] = [0..<i] @ i # [Suc i..<n]"
    using i(1) by (metis less_imp_le_nat upt_conv_Cons upt_add_eq_append le_add_diff_inverse zero_le)
  have "concat (map oc [0..<i]) = []" using less by simp
  moreover have "concat (map oc [0..<i]) @ oc i @ concat (map oc [Suc i..<n]) = x # xs" using assms unfolding s by simp
  ultimately have "oc i @ concat (map oc [Suc i..<n]) = x # xs" by (metis append_Nil)
  then obtain ys where "oc i = x # ys" "xs = ys @ concat (map oc [Suc i..<n])" using i(2) by (cases "oc i") auto
  with that i(1) less show ?thesis by blast
qed

lemma concat_upd:
  assumes "i < n"
  shows "mset (concat (map (f(i := xs)) [0..<n])) + mset (f i) = mset (concat (map f [0..<n])) + mset xs"
proof -
  have s: "[0..<n] = [0..<i] @ i # [Suc i..<n]"
    using assms by (metis less_imp_le_nat upt_conv_Cons upt_add_eq_append le_add_diff_inverse zero_le)
  have "map (f(i := xs)) [0..<i] = map f [0..<i]" "map (f(i := xs)) [Suc i..<n] = map f [Suc i..<n]" by auto
  then show ?thesis unfolding s by simp
qed

text \<open>One round of the loop moves the first remaining element to the head of its new chain.\<close>

lemma rehash_step:
  assumes ok: "rh_ok E oc nc n new h" and x: "concat (map oc [0..<x_iCapacity h]) = x # xs"
  obtains e oc' nc' new' h' cnt' where
    "rehash_loop (Suc k) (x_iCapacity h) n cnt x new h = rehash_loop k (x_iCapacity h') n cnt' (hd0 xs 0) new' h'"
    "rh_ok E oc' nc' n new' h'" "nx_frame h h'" "concat (map oc' [0..<x_iCapacity h']) = xs"
    "mset (concat (map nc' [0..<n])) = add_mset x (mset (concat (map nc [0..<n])))"
proof -
  let ?c = "x_iCapacity h"
  obtain i ys where i: "i < ?c" "\<forall>j<i. oc j = []" "oc i = x # ys" "xs = ys @ concat (map oc [Suc i..<?c])"
    by (rule concat_first [OF x])
  have oi: "h_idx h ! i = x" "sseg (nxt h) (x # ys) 0" using ok i by (auto simp: rh_ok_def)
  obtain e where e: "elem_live E h x e" "getIndex (x_hkey e) ?c = i" using ok i by (force simp: rh_ok_def)
  have idx: "\<And>j. j < ?c \<Longrightarrow> h_idx h ! j = hd0 (oc j) 0" using ok by (simp add: rh_ok_def)
  have nx: "x_iNext e = hd0 ys 0" using oi(2) elem_live_simps(1) [OF e(1)] by (simp add: nxt_def)
  have di: "distinct (x # xs @ concat (map nc [0..<n]))" "0 \<notin> set (x # xs @ concat (map nc [0..<n]))"
    using ok x by (auto simp: rh_ok_def)
  have no: "next_off x h = (hd0 xs 0, h)"
    unfolding i(4) by (rule next_off_ok [OF e(1) i(1) e(2) idx nx]) (use di i(4) in auto)
  define ni where "ni = getIndex (x_hkey e) n"
  have ni: "ni < n" using ok by (simp add: ni_def rh_ok_def)
  have nn: "new ! ni = hd0 (nc ni) 0" "new ! ni \<noteq> x"
  proof -
    show n1: "new ! ni = hd0 (nc ni) 0" using ok ni by (simp add: rh_ok_def)
    have "hd0 (nc ni) 0 \<in> insert 0 (set (concat (map nc [0..<n])))" using ni hd0_in [of "nc ni" 0] by auto
    with n1 di show "new ! ni \<noteq> x" by auto
  qed
  define h1 where "h1 = setBitMapEnt ni h"
  define h2 where "h2 = h1\<lparr>h_idx := (h_idx h1)[i := hd0 ys 0]\<rparr>"
  define h3 where "h3 = upd_elem x (\<lambda>e. e\<lparr>x_iNext := new ! ni\<rparr>) h2"
  define h4 where "h4 = (if cnt + 1 > ?c + ?c div 2 then rebuild h3 else h3)"
  have h1: "h_idx h1 = h_idx h" "h_elems h1 = h_elems h" by (simp_all add: h1_def setBitMapEnt_def)
  have loop: "rehash_loop (Suc k) ?c n cnt x new h = rehash_loop k ?c n (cnt + 1) (hd0 xs 0) (new[ni := x]) h4"
    using e di(2) no oi(1) nn(2) elem_live_simps(1,4) [OF e(1)] nx h1
    by (simp add: Let_def ni_def [symmetric] h1_def [symmetric] h4_def h3_def h2_def)
  have f4: "h_elems h4 = (h_elems h)(x \<mapsto> e\<lparr>x_iNext := new ! ni\<rparr>)" "h_idx h4 = (h_idx h)[i := hd0 ys 0]"
    "x_iCapacity h4 = ?c" "getBitMapEnt h4 = (\<lambda>j. j = ni \<or> getBitMapEnt h j)"
    using elem_live_simps(1) [OF e(1)]
    by (auto simp: h4_def h3_def h2_def h1_def setBitMapEnt_def rebuild_def upd_elem_def getBitMapEnt_def fun_eq_iff)
  have fr: "nx_frame h h4"
    using elem_live_simps(1) [OF e(1)]
    by (auto simp: nx_frame_def h4_def h3_def h2_def h1_def setBitMapEnt_def rebuild_def upd_elem_def tid_same_def enx_def)
  let ?oc = "oc(i := ys)" and ?nc = "nc(ni := x # nc ni)"
  have co: "concat (map ?oc [0..<?c]) = xs"
  proof -
    have s: "[0..<?c] = [0..<i] @ i # [Suc i..<?c]"
      using i(1) by (metis less_imp_le_nat upt_conv_Cons upt_add_eq_append le_add_diff_inverse zero_le)
    have "map ?oc [0..<i] = map (\<lambda>_. []) [0..<i]" "map ?oc [Suc i..<?c] = map oc [Suc i..<?c]" using i(2) by auto
    then show ?thesis unfolding s i(4) by (simp add: concat_eq_Nil_conv)
  qed
  have cn: "mset (concat (map ?nc [0..<n])) = add_mset x (mset (concat (map nc [0..<n])))"
    using concat_upd [OF ni, of nc "x # nc ni"] by simp
  have nxt4: "nxt h4 y = (if y = x then Some (hd0 (nc ni) 0) else nxt h y)" for y
    by (simp add: nxt_def f4 nn)
  have xo: "x \<notin> set (?oc j)" if "j < ?c" for j
  proof -
    have "set (?oc j) \<subseteq> set xs" unfolding co [symmetric] using that by auto
    then show ?thesis using di by auto
  qed
  have xn: "x \<notin> set (nc j)" if "j < n" for j
  proof -
    have "set (nc j) \<subseteq> set (concat (map nc [0..<n]))" using that by auto
    then show ?thesis using di by auto
  qed
  have live: "\<exists>e'. elem_live E h4 y e' \<and> x_hkey e' = x_hkey e0" if "elem_live E h y e0" for y e0
    using nx_frame_live [OF fr that] by blast
  have O: "h_idx h4 ! j = hd0 (?oc j) 0 \<and> sseg (nxt h4) (?oc j) 0 \<and>
      (\<forall>y\<in>set (?oc j). \<exists>e. elem_live E h4 y e \<and> getIndex (x_hkey e) ?c = j)" if j: "j < ?c" for j
  proof -
    have "sseg (nxt h4) (?oc j) 0 = sseg (nxt h) (?oc j) 0" by (rule sseg_cong) (use xo [OF j] nxt4 in auto)
    moreover have "sseg (nxt h) (?oc j) 0" using ok j i by (auto simp: rh_ok_def)
    moreover have "h_idx h4 ! j = hd0 (?oc j) 0" using ok j by (auto simp: f4 rh_ok_def nth_list_update)
    moreover have "\<exists>e. elem_live E h4 y e \<and> getIndex (x_hkey e) ?c = j" if y: "y \<in> set (?oc j)" for y
    proof -
      have "y \<in> set (oc j)" using y i(3) by (auto split: if_splits)
      then obtain e0 where "elem_live E h y e0" "getIndex (x_hkey e0) ?c = j" using ok j by (auto simp: rh_ok_def)
      with live show ?thesis by metis
    qed
    ultimately show ?thesis by blast
  qed
  have N: "(new[ni := x]) ! j = hd0 (?nc j) 0 \<and> sseg (nxt h4) (?nc j) 0 \<and> (?nc j \<noteq> [] \<longrightarrow> getBitMapEnt h4 j) \<and>
      (\<forall>y\<in>set (?nc j). \<exists>e. elem_live E h4 y e \<and> getIndex (x_hkey e) n = j)" if j: "j < n" for j
  proof -
    have ln: "length new = n" using ok by (simp add: rh_ok_def)
    have sj: "sseg (nxt h4) (nc j) 0"
    proof -
      have "sseg (nxt h4) (nc j) 0 = sseg (nxt h) (nc j) 0" by (rule sseg_cong) (use xn [OF j] nxt4 in auto)
      then show ?thesis using ok j by (simp add: rh_ok_def)
    qed
    have lj: "\<exists>e. elem_live E h4 y e \<and> getIndex (x_hkey e) n = j" if y: "y \<in> set (nc j)" for y
    proof -
      obtain e0 where "elem_live E h y e0" "getIndex (x_hkey e0) n = j" using ok j y unfolding rh_ok_def by blast
      with live show ?thesis by metis
    qed
    have lx: "\<exists>e'. elem_live E h4 x e' \<and> getIndex (x_hkey e') n = ni" using live [OF e(1)] by (auto simp: ni_def)
    show ?thesis using ok j ln ni sj lj lx nxt4 by (auto simp: nth_list_update f4 rh_ok_def)
  qed
  have D: "distinct (concat (map ?oc [0..<?c]) @ concat (map ?nc [0..<n]))"
    "0 \<notin> set (concat (map ?oc [0..<?c])) \<union> set (concat (map ?nc [0..<n]))"
  proof -
    have m: "mset (concat (map ?oc [0..<?c]) @ concat (map ?nc [0..<n])) = mset (x # xs @ concat (map nc [0..<n]))"
      unfolding co mset_append cn by simp
    show "distinct (concat (map ?oc [0..<?c]) @ concat (map ?nc [0..<n]))" using di(1) mset_eq_imp_distinct_iff [OF m] by simp
    show "0 \<notin> set (concat (map ?oc [0..<?c])) \<union> set (concat (map ?nc [0..<n]))" using di(2) mset_eq_setD [OF m] by auto
  qed
  have "rh_ok E ?oc ?nc n (new[ni := x]) h4"
    using ok O N D unfolding rh_ok_def f4(3) by (simp add: f4(2) del: concat_map_singleton)
  with that loop fr co cn f4(3) show ?thesis by metis
qed

lemma rehash_loop_ok:
  assumes "rh_ok E oc nc n new h" "length (concat (map oc [0..<x_iCapacity h])) < k"
    and "rehash_loop k (x_iCapacity h) n cnt (hd0 (concat (map oc [0..<x_iCapacity h])) 0) new h = (new', h')"
  shows "\<exists>oc' nc'. rh_ok E oc' nc' n new' h' \<and> nx_frame h h' \<and>
    mset (concat (map nc' [0..<n])) = mset (concat (map oc [0..<x_iCapacity h])) + mset (concat (map nc [0..<n]))"
  using assms
proof (induction "concat (map oc [0..<x_iCapacity h])" arbitrary: oc nc new h cnt k)
  case Nil
  obtain k' where "k = Suc k'" using Nil.prems(2) by (cases k) auto
  then have "new' = new" "h' = h" using Nil.prems(3) Nil.hyps [symmetric] by auto
  then show ?case using Nil.prems(1) Nil.hyps by (intro exI [of _ oc] exI [of _ nc]) simp
next
  case (Cons x xs)
  obtain k' where k: "k = Suc k'" using Cons.prems(2) by (cases k) auto
  obtain e oc1 nc1 new1 h1 cnt1 where s:
    "rehash_loop (Suc k') (x_iCapacity h) n cnt x new h = rehash_loop k' (x_iCapacity h1) n cnt1 (hd0 xs 0) new1 h1"
    "rh_ok E oc1 nc1 n new1 h1" "nx_frame h h1" "concat (map oc1 [0..<x_iCapacity h1]) = xs"
    "mset (concat (map nc1 [0..<n])) = add_mset x (mset (concat (map nc [0..<n])))"
    by (rule rehash_step [OF Cons.prems(1) Cons.hyps(2) [symmetric], of k' cnt])
  have l: "length (concat (map oc1 [0..<x_iCapacity h1])) < k'"
    using Cons.prems(2) k unfolding s(4) Cons.hyps(2) [symmetric] by simp
  have r: "rehash_loop k' (x_iCapacity h1) n cnt1 (hd0 (concat (map oc1 [0..<x_iCapacity h1])) 0) new1 h1 = (new', h')"
    using Cons.prems(3) unfolding s(4) s(1) [symmetric] Cons.hyps(2) [symmetric] k by simp
  from Cons.hyps(1) [OF s(4) [symmetric] s(2) l r] obtain oc' nc' where "rh_ok E oc' nc' n new' h'" "nx_frame h1 h'"
    "mset (concat (map nc' [0..<n])) = mset xs + mset (concat (map nc1 [0..<n]))" unfolding s(4) by blast
  then show ?case using s(5) nx_frame_trans [OF s(3)] unfolding Cons.hyps(2) [symmetric] by auto
qed

lemma findRange_loop_le: "sz \<le> s_primeList ! m \<Longrightarrow> i \<le> m \<Longrightarrow> m < prime_count - 1 \<Longrightarrow> findRange_loop sz i \<le> m"
proof (induction sz i rule: findRange_loop.induct)
  case (1 sz i)
  show ?case
  proof (cases "sz \<le> s_primeList ! i")
    case True
    then show ?thesis using "1.prems" by (subst findRange_loop.simps) simp
  next
    case False
    then have "i \<noteq> m" using "1.prems"(1) by auto
    then have "findRange_loop sz (Suc i) \<le> m" using "1.IH" "1.prems" False by simp
    then show ?thesis using False "1.prems" by (subst findRange_loop.simps) simp
  qed
qed

lemma prime_pos: "i < prime_count \<Longrightarrow> 0 < s_primeList ! i"
proof -
  have "\<forall>i<prime_count. 0 < s_primeList ! i" by (simp add: prime_count_def s_primeList_def All_less_Suc nth_Cons')
  then show "i < prime_count \<Longrightarrow> 0 < s_primeList ! i" by blast
qed

lemma owns_live:
  assumes "owns (h_pool h) M R" "(x, x_iLen e) \<in># M" "h_elems h x = Some e" "elem_ok E (iterExtraSpace h) e"
  shows "elem_live E h x e"
  using owns_block(5,6) [OF assms(1,2)] assms(3,4) by (auto simp: elem_live_def)

lemma owns_file: "owns p M R \<Longrightarrow> m_iFileSize p < 2 ^ 32"
  by (auto simp: owns_def pool_inv_def pool_st_def pg_ok_def size_ok_def)

lemma newSize_pos:
  assumes ok: "hash_ok E h ch tbs R"
  shows "0 < s_primeList ! (findRange (x_iCapacity h) + x_iGrowFactor h)"
proof -
  have o: "owns (h_pool h) (hash_blocks h ch tbs) R" and g: "x_iGrowFactor h \<le> 2"
    using ok by (auto simp: hash_ok_def htab_def)
  have "(x_iBitMap h, tblSz (x_iCapacity h)) \<in># hash_blocks h ch tbs" by (simp add: hash_blocks_def tab_block_def)
  from owns_block(2) [OF o this] owns_file [OF o] have "x_iCapacity h * 4 < 2 ^ 32"
    by (simp add: tblSz_def sz2TableSz_def)
  then have "x_iCapacity h \<le> s_primeList ! 28" by (simp add: s_primeList_def)
  then have "findRange (x_iCapacity h) \<le> 28" unfolding findRange_def
    by (rule findRange_loop_le) (simp_all add: prime_count_def)
  with g show ?thesis by (intro prime_pos) (simp add: prime_count_def)
qed

lemma rehash_ok:
  assumes ok: "hash_ok E h ch tbs R" and r: "rehash E h = (b, h')"
  shows "\<exists>ch'. hash_ok E h' ch' tbs R \<and> hmap h' ch' = hmap h ch"
    "flag_lru h' = flag_lru h" "flag_tid h' = flag_tid h" "flag_tid_slave h' = flag_tid_slave h"
proof -
  define n where "n = s_primeList ! (findRange (x_iCapacity h) + x_iGrowFactor h)"
  have n: "0 < n" unfolding n_def by (rule newSize_pos [OF ok])
  have t: "htab E h ch" and w: "tid_wf h tbs" and o: "owns (h_pool h) (hash_blocks h ch tbs) R"
    using ok by (auto simp: hash_ok_def)
  obtain x h0 where a: "hash_alloc2 E (tblSz n) h = (x, h0)" by fastforce
  note al = hash_alloc2_ok [OF a]
  have o0: "owns (h_pool h0) (if x = 0 then hash_blocks h ch tbs else add_mset (x, tblSz n) (hash_blocks h ch tbs)) R"
    by (rule al(4) [OF o]) (use n in \<open>simp add: tblSz_def sz2TableSz_def\<close>)
  have st0: "same_tab (set (offs h ch)) h h0" using al(1) by (auto intro: same_tab_subset)
  have of0: "offs h0 ch = offs h ch" by (rule offs_frame [OF st0])
  note fr0 = htab_frame [OF t st0]
  have hb0: "hash_blocks h0 ch tbs = hash_blocks h ch tbs"
    using fr0 tid_same_blocks [OF al(2)] by (simp add: hash_blocks_def)
  have fl0: "flag_lru h0 = flag_lru h" "flag_tid h0 = flag_tid h" "flag_tid_slave h0 = flag_tid_slave h"
    "x_iCapacity h0 = x_iCapacity h" "x_iHIdx h0 = x_iHIdx h" "iterExtraSpace h0 = iterExtraSpace h"
    using st0 by (auto simp: same_tab_def iterExtraSpace_def)
  have "(\<exists>ch'. hash_ok E h' ch' tbs R \<and> hmap h' ch' = hmap h ch) \<and>
    flag_lru h' = flag_lru h \<and> flag_tid h' = flag_tid h \<and> flag_tid_slave h' = flag_tid_slave h"
  proof (cases "x = 0")
    case True
    then have "h' = h0" using r a by (simp add: rehash_def n_def tblSz_def Let_def)
    with True o0 fr0 hb0 w tid_same_wf [OF al(2)] fl0 show ?thesis by (auto simp: hash_ok_def)
  next
    case x: False
    define h1 where "h1 = h0\<lparr>x_iBitMap := x, x_iBitMapSz := sz2BitMapSz n, h_bits := (\<lambda>_. False)\<rparr>"
    obtain new h2 where l: "rehash_loop (Suc (x_iSize h1)) (x_iCapacity h1) n 0 (begin_off h1) (replicate n 0) h1 = (new, h2)"
      by fastforce
    have o1: "owns (h_pool h1) (add_mset (x, tblSz n) (hash_blocks h ch tbs)) R" using o0 x by (simp add: h1_def)
    have f1: "x_iCapacity h1 = x_iCapacity h" "h_elems h1 = h_elems h0" "h_idx h1 = h_idx h0" "x_iSize h1 = x_iSize h0"
      "iterExtraSpace h1 = iterExtraSpace h0" "tid_same h0 h1"
      using fl0 by (auto simp: h1_def iterExtraSpace_def tid_same_def)
    have nx1: "nxt h1 = nxt h0" by (simp add: nxt_def f1 fun_eq_iff)
    have bo: "begin_off h1 = hd0 (concat (map ch [0..<x_iCapacity h1])) 0"
    proof -
      have "begin_off h1 = begin_off h0" unfolding begin_off_def f1 fl0 by (rule refl)
      then show ?thesis using begin_off_ok [OF fr0(1)] by (simp add: f1 fl0 offs_def)
    qed
    have live: "\<exists>e. elem_live E h1 y e \<and> getIndex (x_hkey e) (x_iCapacity h1) = j" if j: "j < x_iCapacity h" and y: "y \<in> set (ch j)" for j y
    proof -
      obtain e where e: "h_elems h0 y = Some e" "elem_ok E (iterExtraSpace h0) e" "getIndex (x_hkey e) (x_iCapacity h0) = j"
        using fr0(1) j y fl0 by (auto simp: htab_def chain_ok_def)
      have "y \<in> set (offs h0 ch)" using j y fl0 by (auto simp: offs_mem)
      then have "(y, x_iLen e) \<in># hash_blocks h0 ch tbs"
        using elem_blocks_mem [of y "offs h0 ch" h0] e(1) by (simp add: hash_blocks_def elen_def)
      then have "(y, x_iLen e) \<in># add_mset (x, tblSz n) (hash_blocks h ch tbs)" by (simp add: hb0)
      from owns_live [OF o1 this] e f1 fl0 show ?thesis by auto
    qed
    have ce: "concat (map (\<lambda>_. [] :: off list) [0..<n]) = []" by (induction n) auto
    have rh: "rh_ok E ch (\<lambda>_. []) n (replicate n 0) h1"
      unfolding rh_ok_def
      using n fr0(1) live of0 htab_distinct [OF fr0(1)]
      by (auto simp: f1 fl0 nx1 htab_def chain_ok_def offs_def ce)
    have len: "length (concat (map ch [0..<x_iCapacity h1])) < Suc (x_iSize h1)"
      using fr0(1) by (simp add: f1 fl0 htab_def offs_def)
    obtain oc' nc' where rl: "rh_ok E oc' nc' n new h2" "nx_frame h1 h2"
      "mset (concat (map nc' [0..<n])) = mset (offs h ch)"
      using rehash_loop_ok [OF rh len l [unfolded bo]] unfolding ce by (auto simp: f1 offs_def)
    define h3 where "h3 = hash_release2 (x_iBitMap h) (tblSz (x_iCapacity h)) h2"
    define h4 where "h4 = h3\<lparr>x_iCapacity := n, x_iHIdx := x + sz2BitMapSz n, h_idx := new\<rparr>"
    have hi: "x_iHIdx h - sz2BitMapSz (x_iCapacity h) = x_iBitMap h" using t by (simp add: htab_def)
    have eq: "h' = h4"
      using r a l x hi unfolding rehash_def n_def [symmetric] Let_def h4_def h3_def
      by (simp add: tblSz_def h1_def fl0)
    have fr2: "h_pool h2 = h_pool h1" "tid_same h1 h2" "x_iSize h2 = x_iSize h1" "x_iGrowFactor h2 = x_iGrowFactor h1"
      "x_iBitMap h2 = x" "x_iBitMapSz h2 = sz2BitMapSz n" "flag_lru h2 = flag_lru h" "flag_tid h2 = flag_tid h"
      "flag_tid_slave h2 = flag_tid_slave h" "iterExtraSpace h2 = iterExtraSpace h"
      using rl(2) fl0 by (auto simp: nx_frame_def h1_def iterExtraSpace_def)
    have f4: "x_iCapacity h4 = n" "h_idx h4 = new" "x_iSize h4 = x_iSize h2" "x_iGrowFactor h4 = x_iGrowFactor h2"
      "x_iBitMap h4 = x" "x_iBitMapSz h4 = sz2BitMapSz n" "x_iHIdx h4 = x + sz2BitMapSz n" "tid_same h2 h4"
      "getBitMapEnt h4 = getBitMapEnt h2" "iterExtraSpace h4 = iterExtraSpace h" "flag_lru h4 = flag_lru h"
      "flag_tid h4 = flag_tid h" "flag_tid_slave h4 = flag_tid_slave h"
      "h_pool h4 = release2 (x_iBitMap h) (tblSz (x_iCapacity h)) (h_pool h1)"
      using fr2 by (auto simp: h4_def h3_def hash_release2_def Let_def upd_elem_def tid_same_def getBitMapEnt_def iterExtraSpace_def fun_eq_iff)
    have el4: "y \<noteq> x_iBitMap h \<Longrightarrow> h_elems h4 y = h_elems h2 y" for y
      by (simp add: h4_def h3_def hash_release2_def Let_def upd_elem_def)
    have ofs4: "offs h4 nc' = concat (map nc' [0..<n])" by (simp add: offs_def f4)
    have ms: "mset (offs h4 nc') = mset (offs h ch)" using rl(3) ofs4 by simp
    have set4: "set (offs h4 nc') = set (offs h ch)" using mset_eq_setD [OF ms] .
    have nb: "x_iBitMap h \<notin> set (offs h ch)"
      using owns_starts [of "h_pool h" "x_iBitMap h" "tblSz (x_iCapacity h)" "elem_blocks h (offs h ch) + tid_blocks h tbs" R] o
      by (simp add: hash_blocks_def tab_block_def)
    have el4': "y \<in> set (offs h ch) \<Longrightarrow> h_elems h4 y = h_elems h2 y" for y by (rule el4) (use nb in auto)
    have acc: "ekey h4 y = ekey h y" "evalue h4 y = evalue h y" "elen h4 y = elen h y" if y: "y \<in> set (offs h ch)" for y
    proof -
      have "ekey h4 y = ekey h2 y" "evalue h4 y = evalue h2 y" "elen h4 y = elen h2 y"
        using el4' [OF y] by (simp_all add: ekey_def evalue_def elen_def)
      moreover have "ekey h1 y = ekey h y" "evalue h1 y = evalue h y" "elen h1 y = elen h y"
        using same_tab_acc(2-4) [OF st0 y] by (simp_all add: ekey_def evalue_def elen_def f1)
      ultimately show "ekey h4 y = ekey h y" "evalue h4 y = evalue h y" "elen h4 y = elen h y"
        using nx_frame_acc [OF rl(2)] by simp_all
    qed
    have "chain_ok E h4 nc' j" if j: "j < n" for j
    proof -
      have sub: "y \<in> set (offs h ch)" if "y \<in> set (nc' j)" for y
        unfolding set4 [symmetric] ofs4 using that j by auto
      have N: "new ! j = hd0 (nc' j) 0" "sseg (nxt h2) (nc' j) 0" "nc' j \<noteq> [] \<longrightarrow> getBitMapEnt h2 j"
        "\<forall>x\<in>set (nc' j). \<exists>e. elem_live E h2 x e \<and> getIndex (x_hkey e) n = j"
        using rl(1) j unfolding rh_ok_def by blast+
      have "sseg (nxt h4) (nc' j) 0 = sseg (nxt h2) (nc' j) 0"
        by (rule sseg_cong) (use el4' sub in \<open>simp add: nxt_def\<close>)
      moreover have "\<exists>e. h_elems h4 y = Some e \<and> elem_ok E (iterExtraSpace h) e \<and> getIndex (x_hkey e) n = j"
        if y: "y \<in> set (nc' j)" for y
        using N(4) y el4' [OF sub [OF y]] fr2(10) by (auto simp: elem_live_def)
      ultimately show ?thesis using N by (simp add: chain_ok_def f4)
    qed
    moreover have "distinct (map (ekey h4) (offs h4 nc'))"
    proof -
      have "map (ekey h4) (offs h ch) = map (ekey h) (offs h ch)" using acc(1) by simp
      then show ?thesis using distinct_map_mset [OF ms, of "ekey h4"] t unfolding htab_def by metis
    qed
    moreover have "x_iSize h4 = length (offs h4 nc')"
      using mset_eq_length [OF ms] fr0(1) t of0 by (simp add: f4 fr2 f1 htab_def)
    moreover have "0 \<notin> set (offs h4 nc')" using t by (simp add: set4 htab_def)
    moreover have "length new = n" using rl(1) by (simp add: rh_ok_def)
    moreover have "x_iGrowFactor h4 \<le> 2" using t st0 by (simp add: f4 fr2 htab_def h1_def same_tab_def)
    ultimately have t4: "htab E h4 nc'" using n by (simp add: htab_def f4)
    have ts: "tid_same h h4" using al(2) f1(6) fr2(2) f4(8) by (blast intro: tid_same_trans)
    have "elem_blocks h4 (offs h4 nc') = elem_blocks h (offs h ch)"
      unfolding elem_blocks_def ms by (rule image_mset_cong) (use acc(3) in simp)
    then have hb: "add_mset (x_iBitMap h, tblSz (x_iCapacity h)) (hash_blocks h4 nc' tbs) = add_mset (x, tblSz n) (hash_blocks h ch tbs)"
      using tid_same_blocks [OF ts] by (simp add: hash_blocks_def tab_block_def f4 add_mset_commute)
    have "owns (h_pool h4) (hash_blocks h4 nc' tbs) R"
      unfolding f4 by (rule owns_release) (use o1 hb in simp)
    with t4 w tid_same_wf [OF ts] have ok4: "hash_ok E h4 nc' tbs R" by (simp add: hash_ok_def)
    have "hmap h4 nc' = hmap h ch"
    proof
      fix kk
      have "hmap h4 nc' kk = Some v \<longleftrightarrow> hmap h ch kk = Some v" for v
        using acc by (auto simp: hmap_iff [OF t4] hmap_iff [OF t] set4)
      then show "hmap h4 nc' kk = hmap h ch kk" by (metis not_None_eq)
    qed
    with ok4 f4 show ?thesis by (auto simp: eq)
  qed
  then show "\<exists>ch'. hash_ok E h' ch' tbs R \<and> hmap h' ch' = hmap h ch"
    "flag_lru h' = flag_lru h" "flag_tid h' = flag_tid h" "flag_tid_slave h' = flag_tid_slave h" by auto
qed

end
