(* ===== verification/LsShmHashSafe.thy ===== *)
theory LsShmHashSafe
  imports LsShmHashRehash
begin

text \<open>
  The entry points of a table on the map it stores: lookup, insertion with growth, replacement in
  place or by a new element, update, removal, and find-or-create. Each lemma says what the operation
  answers and which map the table stores afterwards, next to the blocks of other owners.
\<close>

section \<open>The table with a current element\<close>

text \<open>\<open>hash_at E h m R x k\<close>: the consistent table stores the map \<open>m\<close>, and the key \<open>k\<close> is stored in
  the element at offset \<open>x\<close>.\<close>

definition hash_at :: "env \<Rightarrow> LsShmHash \<Rightarrow> (bytes \<Rightarrow> bytes option) \<Rightarrow> block multiset \<Rightarrow> off \<Rightarrow> bytes \<Rightarrow> bool" where
  "hash_at E h m R x k \<longleftrightarrow> (\<exists>ch tbs. hash_ok E h ch tbs R \<and> hmap h ch = m \<and> x \<in> set (offs h ch) \<and> ekey h x = k)"

lemma hash_atD:
  assumes "hash_at E h m R x k"
  shows "hash_inv E h m R" "x \<noteq> 0" "\<exists>e. elem_live E h x e \<and> e_key e = k \<and> m k = Some (take (e_valLen e) (e_val e))"
proof -
  obtain ch tbs where ok: "hash_ok E h ch tbs R" "hmap h ch = m" "x \<in> set (offs h ch)" "ekey h x = k"
    using assms by (auto simp: hash_at_def)
  then show "hash_inv E h m R" by (auto simp: hash_inv_def)
  have t: "htab E h ch" using ok by (simp add: hash_ok_def)
  then show "x \<noteq> 0" using ok(3) by (metis htab_def)
  show "\<exists>e. elem_live E h x e \<and> e_key e = k \<and> m k = Some (take (e_valLen e) (e_val e))"
    by (rule hash_ok_elem [OF ok(1,3)]) (use hmap_Some [OF t ok(3)] ok in auto)
qed

lemma find2_hash:
  assumes "hash_inv E h m R"
  shows "if m k = None then find2 (m_hf E k) k h = 0 else hash_at E h m R (find2 (m_hf E k) k h) k"
proof -
  obtain ch tbs where ok: "hash_ok E h ch tbs R" "hmap h ch = m" using assms by (auto simp: hash_inv_def)
  from find2_ok [OF ok(1), of k] ok show ?thesis by (auto simp: hash_at_def)
qed

text \<open>Changes outside of the table: LRU links, transaction ids.\<close>

definition hash_frame :: "LsShmHash \<Rightarrow> LsShmHash \<Rightarrow> bool" where
  "hash_frame h h' \<longleftrightarrow> (\<forall>M R. tid_frame M R h h')"

lemma hash_frameI:
  "lru_frame h h' \<Longrightarrow> hash_frame h h'" "hash_frame h (insertIterCb E x h)" "hash_frame h (updateIterCb E x h)"
  "hash_frame h (eraseIterCb E x h)" "hash_frame h (linkTid E x t h)" "hash_frame h (unlinkTid E t h)"
  by (auto simp: hash_frame_def tid_frame_lru tid_frame_insert tid_frame_update tid_frame_erase tid_frame_link tid_frame_unlink)

lemma hash_frame_refl [simp]: "hash_frame h h"
  by (simp add: hash_frame_def)

lemma hash_frame_trans: "hash_frame h h1 \<Longrightarrow> hash_frame h1 h2 \<Longrightarrow> hash_frame h h2"
  unfolding hash_frame_def using tid_frame_trans by blast

lemma hash_frame_ok:
  assumes "hash_frame h h'"
  shows "hash_inv E h m R \<Longrightarrow> hash_inv E h' m R" "hash_at E h m R x k \<Longrightarrow> hash_at E h' m R x k"
proof -
  have fr: "tid_frame (tab_elem_blocks h ch) R h h'" for ch using assms by (simp add: hash_frame_def)
  show "hash_inv E h' m R" if "hash_inv E h m R"
  proof -
    obtain ch tbs where "hash_ok E h ch tbs R" "hmap h ch = m" using \<open>hash_inv E h m R\<close> by (auto simp: hash_inv_def)
    with hash_ok_tid(1,2) [OF this(1) fr] show ?thesis by (auto simp: hash_inv_def)
  qed
  show "hash_at E h' m R x k" if "hash_at E h m R x k"
  proof -
    obtain ch tbs where ok: "hash_ok E h ch tbs R" "hmap h ch = m" "x \<in> set (offs h ch)" "ekey h x = k"
      using \<open>hash_at E h m R x k\<close> by (auto simp: hash_at_def)
    have st: "same_tab (set (offs h ch)) h h'" by (rule hash_ok_tid(3) [OF ok(1) fr])
    show ?thesis
      using hash_ok_tid(1,2) [OF ok(1) fr] ok offs_frame [OF st] same_tab_acc(2) [OF st ok(3)]
      by (auto simp: hash_at_def)
  qed
qed

lemma hash_frame_flags:
  assumes "hash_frame h h'" "hash_inv E h m R"
  shows "flag_lru h' = flag_lru h" "flag_tid h' = flag_tid h" "flag_tid_slave h' = flag_tid_slave h"
proof -
  obtain ch tbs where ok: "hash_ok E h ch tbs R" using assms(2) by (auto simp: hash_inv_def)
  have "same_tab (set (offs h ch)) h h'" by (rule hash_ok_tid(3) [OF ok]) (use assms(1) in \<open>simp add: hash_frame_def\<close>)
  then show "flag_lru h' = flag_lru h" "flag_tid h' = flag_tid h" "flag_tid_slave h' = flag_tid_slave h"
    by (auto simp: same_tab_def)
qed

section \<open>Insertion\<close>

definition elem_size :: "LsShmHash \<Rightarrow> nat \<Rightarrow> nat \<Rightarrow> nat" where
  "elem_size h kl vl = sizeof_HElem + (sizeof_vardata + round4 kl + iterExtraSpace h) + sizeof_vardata + round4 vl"

text \<open>The value a new element gets: what is copied in, or what the memory contained.\<close>

definition new_value :: "env \<Rightarrow> off \<Rightarrow> valarg \<Rightarrow> bytes" where
  "new_value E x val = (case fst val of None \<Rightarrow> take (snd val) (junk_bytes E x (round4 (snd val))) | Some v \<Rightarrow> take (snd val) v)"

definition val_ok :: "valarg \<Rightarrow> bool" where
  "val_ok val \<longleftrightarrow> (case fst val of None \<Rightarrow> True | Some v \<Rightarrow> snd val \<le> length v)"

text \<open>A fresh element, filled and linked, but not yet in its chain.\<close>

lemma allocIter_ok:
  assumes ok: "hash_ok E h ch tbs R" and r: "allocIter E kl vl h = (x, h')"
  shows "x = 0 \<Longrightarrow> hash_ok E h' ch tbs R \<and> hmap h' ch = hmap h ch"
    and "x \<noteq> 0 \<Longrightarrow> htab E h' ch \<and> hmap h' ch = hmap h ch \<and> tid_wf h' tbs \<and> offset2ptr (h_pool h') x \<and>
      owns (h_pool h') (add_mset (x, elem_size h kl vl) (hash_blocks h' ch tbs)) R \<and>
      same_tab (set (offs h ch)) h h' \<and> x \<notin> set (offs h ch) \<and>
      (\<exists>e. h_elems h' x = Some e \<and> x_iLen e = elem_size h kl vl \<and>
        x_iValOff e = sizeof_vardata + round4 kl + iterExtraSpace h \<and> e_valLen e = vl \<and> e_val e = junk_bytes E x (round4 vl))"
    and "same_tab (set (offs h ch)) h h'"
proof -
  have t: "htab E h ch" and w: "tid_wf h tbs" and o: "owns (h_pool h) (hash_blocks h ch tbs) R"
    using ok by (auto simp: hash_ok_def)
  obtain y h0 where a: "hash_alloc2 E (elem_size h kl vl) h = (y, h0)" by fastforce
  note al = hash_alloc2_ok [OF a]
  have o0: "owns (h_pool h0) (if y = 0 then hash_blocks h ch tbs else add_mset (y, elem_size h kl vl) (hash_blocks h ch tbs)) R"
    by (rule al(4) [OF o]) (simp add: elem_size_def lay_simps)
  have st0: "same_tab (set (offs h ch)) h h0" using al(1) by (auto intro: same_tab_subset)
  have hb: "hash_blocks g ch tbs = hash_blocks h ch tbs" if "same_tab (set (offs h ch)) h g" "tid_same h g" for g
    using htab_frame(3,4) [OF t that(1)] tid_same_blocks [OF that(2)] by (simp add: hash_blocks_def)
  have m: "y \<noteq> 0 \<Longrightarrow> offset2ptr (h_pool h0) y"
    using owns_block(5) [of "h_pool h0" "add_mset (y, elem_size h kl vl) (hash_blocks h ch tbs)" R y "elem_size h kl vl"] o0 by simp
  define h1 where "h1 = h0\<lparr>h_elems := (h_elems h0)(y \<mapsto> \<lparr>x_iLen = elem_size h kl vl, x_iValOff = sizeof_vardata + round4 kl + iterExtraSpace h, x_iNext = 0, x_hkey = 0,
               e_key = replicate kl CHR 0x00, e_valLen = vl, e_val = junk_bytes E y (round4 vl),
               x_tid = junk_tid E y, x_iLinkNext = 0, x_iLinkPrev = 0, x_lasttime = 0\<rparr>)\<rparr>"
  have "allocIter E kl vl h = (if y = 0 then (0, h0) else (y, h1))"
    using m a by (simp add: allocIter_def Let_def h1_def elem_size_def)
  with r have xh: "x = y" "h' = (if y = 0 then h0 else h1)" by (auto split: if_splits)
  have nin: "y \<noteq> 0 \<Longrightarrow> y \<notin> set (offs h ch)"
    using owns_starts [of "h_pool h0" y "elem_size h kl vl" "hash_blocks h ch tbs" R] o0 by (simp add: hash_blocks_def)
  have st1: "y \<noteq> 0 \<Longrightarrow> same_tab (set (offs h ch)) h h1"
    using st0 nin by (auto simp: same_tab_def h1_def)
  show st: "same_tab (set (offs h ch)) h h'" using st0 st1 xh by auto
  have ts: "tid_same h h'" using al(2) xh by (auto simp: h1_def tid_same_def)
  note fr = htab_frame [OF t st]
  show "hash_ok E h' ch tbs R \<and> hmap h' ch = hmap h ch" if "x = 0"
    using that xh fr w o0 tid_same_wf [OF ts] hb [OF st ts] by (simp add: hash_ok_def)
  show "htab E h' ch \<and> hmap h' ch = hmap h ch \<and> tid_wf h' tbs \<and> offset2ptr (h_pool h') x \<and>
      owns (h_pool h') (add_mset (x, elem_size h kl vl) (hash_blocks h' ch tbs)) R \<and>
      same_tab (set (offs h ch)) h h' \<and> x \<notin> set (offs h ch) \<and>
      (\<exists>e. h_elems h' x = Some e \<and> x_iLen e = elem_size h kl vl \<and>
        x_iValOff e = sizeof_vardata + round4 kl + iterExtraSpace h \<and> e_valLen e = vl \<and> e_val e = junk_bytes E x (round4 vl))" if "x \<noteq> 0"
    using that xh fr w o0 tid_same_wf [OF ts] hb [OF st ts] m nin st by (simp add: h1_def)
qed

definition same_flags :: "LsShmHash \<Rightarrow> LsShmHash \<Rightarrow> bool" where
  "same_flags h h' \<longleftrightarrow> flag_lru h' = flag_lru h \<and> flag_tid h' = flag_tid h \<and> flag_tid_slave h' = flag_tid_slave h"

lemma same_flags_refl [simp]: "same_flags h h"
  by (simp add: same_flags_def)

lemma same_flags_trans: "same_flags h h1 \<Longrightarrow> same_flags h1 h2 \<Longrightarrow> same_flags h h2"
  by (simp add: same_flags_def)

lemma same_tab_flags: "same_tab S h h' \<Longrightarrow> same_flags h h'"
  by (simp add: same_flags_def same_tab_def)

lemma same_flags_size: "same_flags h h' \<Longrightarrow> elem_size h' = elem_size h" "same_flags h h' \<Longrightarrow> iterExtraSpace h' = iterExtraSpace h"
  by (simp_all add: same_flags_def elem_size_def iterExtraSpace_def fun_eq_iff)

text \<open>Filling a fresh element with the key and the value, and linking it into the LRU list.\<close>

definition fill :: "env \<Rightarrow> u32 \<Rightarrow> bytes \<Rightarrow> valarg \<Rightarrow> off \<Rightarrow> LsShmHash \<Rightarrow> LsShmHash" where
  "fill E hkey key val x h =
     (let h = upd_elem x (\<lambda>e. e\<lparr>x_hkey := hkey, e_key := key\<rparr>) h;
          h = setIterData x (fst val) h
      in if flag_lru h then linkHElem E x h else h)"

lemma fill_ok:
  assumes e: "h_elems h x = Some e" "e_valLen e = snd val" "snd val \<le> length (e_val e)" and v: "val_ok val"
    and xS: "x \<notin> S"
  shows "same_tab S h (fill E hk key val x h)" "tid_same h (fill E hk key val x h)" "h_pool (fill E hk key val x h) = h_pool h"
    "\<exists>e'. h_elems (fill E hk key val x h) x = Some e' \<and> x_iLen e' = x_iLen e \<and> x_iValOff e' = x_iValOff e \<and> x_hkey e' = hk \<and>
      e_key e' = key \<and> e_valLen e' = snd val \<and> length (e_val e') = length (e_val e) \<and>
      take (snd val) (e_val e') = (case fst val of None \<Rightarrow> take (snd val) (e_val e) | Some v \<Rightarrow> take (snd val) v)"
proof -
  define g where "g = setIterData x (fst val) (upd_elem x (\<lambda>e. e\<lparr>x_hkey := hk, e_key := key\<rparr>) h)"
  have f: "fill E hk key val x h = (if flag_lru g then linkHElem E x g else g)" by (simp add: fill_def g_def)
  have l: "lru_frame g (fill E hk key val x h)" by (simp add: f)
  have g: "same_tab S h g" "tid_same h g" "h_pool g = h_pool h"
    using xS by (auto simp: g_def setIterData_def upd_elem_def same_tab_def tid_same_def split: option.split)
  then show "same_tab S h (fill E hk key val x h)" "tid_same h (fill E hk key val x h)" "h_pool (fill E hk key val x h) = h_pool h"
    using l lru_tid_same [OF l] by (auto simp: lru_frame_def intro: same_tab_trans same_tab_subset tid_same_trans)
  define v' where "v' = (case fst val of None \<Rightarrow> e_val e | Some v \<Rightarrow> wr (e_val e) 0 (take (snd val) v))"
  have ge: "h_elems g x = Some (e\<lparr>x_hkey := hk, e_key := key, e_val := v'\<rparr>)"
    using e by (simp add: g_def setIterData_def upd_elem_def v'_def split: option.split)
  have v1: "length v' = length (e_val e)" "take (snd val) v' = (case fst val of None \<Rightarrow> take (snd val) (e_val e) | Some v \<Rightarrow> take (snd val) v)"
    using v e(3) by (auto simp: v'_def val_ok_def wr_def split: option.split)
  have "same_tab UNIV g (fill E hk key val x h)" using l by (simp add: lru_frame_def)
  from same_tab_elem [OF this UNIV_I ge] obtain e' where
    "h_elems (fill E hk key val x h) x = Some e'" "x_iLen e' = x_iLen e" "x_iValOff e' = x_iValOff e"
    "x_hkey e' = hk" "e_key e' = key" "e_valLen e' = snd val" "e_val e' = v'" using e(2) by auto
  with v1 show "\<exists>e'. h_elems (fill E hk key val x h) x = Some e' \<and> x_iLen e' = x_iLen e \<and> x_iValOff e' = x_iValOff e \<and> x_hkey e' = hk \<and>
      e_key e' = key \<and> e_valLen e' = snd val \<and> length (e_val e') = length (e_val e) \<and>
      take (snd val) (e_val e') = (case fst val of None \<Rightarrow> take (snd val) (e_val e) | Some v \<Rightarrow> take (snd val) v)"
    by auto
qed

lemma insert_fresh:
  assumes ok: "hash_ok E h ch tbs R" and a: "allocIter E (length key) (snd val) h = (x, h1)" and x: "x \<noteq> 0"
    and key: "key \<noteq> []" "hmap h ch key = None" and sz: "elem_size h (length key) (snd val) \<le> 100000000" and v: "val_ok val"
  defines "h2 \<equiv> fill E (m_hf E key) key val x h1"
  shows "hash_at E (push_chain (m_hf E key) x h2) ((hmap h ch)(key \<mapsto> new_value E x val)) R x key"
    "same_flags h (push_chain (m_hf E key) x h2)"
proof -
  note al = allocIter_ok(2) [OF ok a x]
  have st1: "same_tab (set (offs h ch)) h h1" and nin: "x \<notin> set (offs h ch)" and t1: "htab E h1 ch"
    and w1: "tid_wf h1 tbs" and m1: "hmap h1 ch = hmap h ch"
    and o1: "owns (h_pool h1) (add_mset (x, elem_size h (length key) (snd val)) (hash_blocks h1 ch tbs)) R" using al by auto
  obtain e where e: "h_elems h1 x = Some e" "x_iLen e = elem_size h (length key) (snd val)"
    "x_iValOff e = sizeof_vardata + round4 (length key) + iterExtraSpace h" "e_valLen e = snd val"
    "e_val e = junk_bytes E x (round4 (snd val))" using al by auto
  have of1: "offs h1 ch = offs h ch" by (rule offs_frame [OF st1])
  have le: "snd val \<le> length (e_val e)" using e(5) round4_ge(1) by simp
  note f = fill_ok [OF e(1,4) le v nin, of E "m_hf E key" key, folded h2_def]
  have nv: "(case fst val of None \<Rightarrow> take (snd val) (e_val e) | Some v \<Rightarrow> take (snd val) v) = new_value E x val"
    by (cases "fst val") (simp_all add: new_value_def e(5))
  obtain e2 where e2: "h_elems h2 x = Some e2" "x_iLen e2 = x_iLen e" "x_iValOff e2 = x_iValOff e" "x_hkey e2 = m_hf E key"
    "e_key e2 = key" "e_valLen e2 = snd val" "length (e_val e2) = length (e_val e)"
    "take (snd val) (e_val e2) = new_value E x val"
    using f(4) unfolding nv by blast
  have st2: "same_tab (set (offs h ch)) h h2" by (rule same_tab_trans [OF st1 f(1)])
  have fl: "same_flags h h2" by (rule same_tab_flags [OF st2])
  note fr = htab_frame [OF t1, of h2, unfolded of1, OF f(1)]
  have hb: "hash_blocks h2 ch tbs = hash_blocks h1 ch tbs"
    using fr(3,4) tid_same_blocks [OF f(2)] by (simp add: hash_blocks_def of1)
  have eok: "elem_ok E (iterExtraSpace h2) e2"
    using e e2 sz key(1) le by (simp add: elem_ok_def same_flags_size [OF fl] elem_size_def)
  have ow: "owns (h_pool h2) (add_mset (x, x_iLen e2) (hash_blocks h2 ch tbs)) R" using o1 hb f(3) e(2) e2(2) by simp
  have kn: "e_key e2 \<notin> ekey h2 ` set (offs h2 ch)"
    using key(2) fr(2) m1 hmap_None [of h2 ch key] e2(5) by simp
  define i where "i = getIndex (m_hf E key) (x_iCapacity h2)"
  note p = push_chain_ok [OF fr(1) _ e2(1) eok ow kn, unfolded e2(4), folded i_def]
  have w2: "tid_wf h2 tbs" using w1 tid_same_wf [OF f(2)] by simp
  let ?h = "push_chain (m_hf E key) x h2"
  have cap: "0 < x_iCapacity h2" using fr(1) by (simp add: htab_def)
  have "x_iCapacity ?h = x_iCapacity h2" by (simp add: push_chain_def Let_def setBitMapEnt_def upd_elem_def)
  then have "x \<in> set (offs ?h (ch(i := x # ch i)))" using cap by (auto simp: offs_mem i_def)
  moreover have "ekey ?h x = key"
    using e2(1,5) by (simp add: ekey_def push_chain_def Let_def setBitMapEnt_def upd_elem_def)
  moreover have "hmap ?h (ch(i := x # ch i)) = (hmap h ch)(key \<mapsto> new_value E x val)"
    using p(2) [OF w2] fr(2) m1 e2 by simp
  ultimately show "hash_at E ?h ((hmap h ch)(key \<mapsto> new_value E x val)) R x key"
    unfolding hash_at_def using p(1) [OF w2] by blast
  show "same_flags h ?h" using fl by (simp add: same_flags_def push_chain_def Let_def setBitMapEnt_def upd_elem_def)
qed

text \<open>The outcome of an operation that stores a value under a key, at the offset \<open>x\<close> it answers.\<close>

definition stored :: "env \<Rightarrow> LsShmHash \<Rightarrow> LsShmHash \<Rightarrow> (bytes \<Rightarrow> bytes option) \<Rightarrow> block multiset \<Rightarrow> off \<Rightarrow> bytes \<Rightarrow> bytes \<Rightarrow> bool" where
  "stored E h h' m R x key v \<longleftrightarrow> same_flags h h' \<and>
     (if x = 0 then hash_inv E h' m R else hash_at E h' (m(key \<mapsto> v)) R x key)"

lemma insertCopy2_ok:
  assumes inv: "hash_inv E h m R" and key: "key \<noteq> []" "m key = None"
    and sz: "elem_size h (length key) (snd val) \<le> 100000000" and v: "val_ok val"
    and r: "insertCopy2 E (m_hf E key) key val h = (x, h')"
  shows "stored E h h' m R x key (new_value E x val)"
proof -
  obtain ch tbs where ok: "hash_ok E h ch tbs R" "hmap h ch = m" using inv by (auto simp: hash_inv_def)
  define br where "br = (if x_iSize h * x_iFullFactor h > x_iCapacity h then rehash E h else (True, h))"
  obtain b h0 where br0: "br = (b, h0)" by fastforce
  have "\<exists>ch'. hash_ok E h0 ch' tbs R \<and> hmap h0 ch' = m" and fl: "same_flags h h0"
    using rehash_ok [OF ok(1), of b h0] ok br0 by (auto simp: br_def same_flags_def split: if_splits)
  then obtain ch0 where ok0: "hash_ok E h0 ch0 tbs R" "hmap h0 ch0 = m" by blast
  obtain y h1 where a: "allocIter E (length key) (snd val) h0 = (y, h1)" by fastforce
  note al = allocIter_ok(1,3) [OF ok0(1) a]
  have fl1: "same_flags h h1" using same_flags_trans [OF fl same_tab_flags [OF al(2)]] .
  have ptr: "y \<noteq> 0 \<Longrightarrow> offset2ptr (h_pool h1) y" using allocIter_ok(2) [OF ok0(1) a] by blast
  have res: "insertCopy2 E (m_hf E key) key val h = (if \<not> b \<and> x_iSize h0 = x_iCapacity h0 then (0, h0) else if y = 0 then (0, h1)
      else (y, push_chain (m_hf E key) y (fill E (m_hf E key) key val y h1)))"
    unfolding insertCopy2_def br_def [symmetric] br0 using a ptr by (auto simp: Let_def fill_def)
  consider "x = 0" "h' = h0" | "x = 0" "y = 0" "h' = h1" | "x = y" "y \<noteq> 0" "h' = push_chain (m_hf E key) y (fill E (m_hf E key) key val y h1)"
    using res r by (auto split: if_splits)
  then show ?thesis
  proof cases
    case 1
    then show ?thesis using ok0 fl by (auto simp: stored_def hash_inv_def)
  next
    case 2
    then show ?thesis using al(1) ok0 fl1 by (auto simp: stored_def hash_inv_def)
  next
    case 3
    have "same_flags h0 h'" "hash_at E h' (m(key \<mapsto> new_value E x val)) R x key"
      using insert_fresh [OF ok0(1) a 3(2) key(1) _ _ v] ok0(2) key(2) sz 3 same_flags_size(1) [OF fl] by auto
    then show ?thesis using 3 same_flags_trans [OF fl] by (simp add: stored_def)
  qed
qed

lemma stored_frame:
  assumes s: "stored E h h1 m R x key v" and f: "hash_frame h1 h2"
  shows "stored E h h2 m R x key v"
proof -
  have "\<exists>m'. hash_inv E h1 m' R" using s by (auto simp: stored_def split: if_splits dest: hash_atD(1))
  then have "same_flags h1 h2" using hash_frame_flags [OF f] by (auto simp: same_flags_def)
  then show ?thesis using s hash_frame_ok [OF f] same_flags_trans by (auto simp: stored_def split: if_splits)
qed

lemma insert2_ok:
  assumes "hash_inv E h m R" "key \<noteq> []" "m key = None" "elem_size h (length key) (snd val) \<le> 100000000" "val_ok val"
    and r: "insert2 E (m_hf E key) key val h = (x, h')"
  shows "stored E h h' m R x key (new_value E x val)"
proof -
  obtain h1 where c: "insertCopy2 E (m_hf E key) key val h = (x, h1)" "h' = (if flag_tid h1 then insertIterCb E x h1 else h1)"
    using r by (auto simp: insert2_def split: prod.splits)
  from stored_frame [OF insertCopy2_ok [OF assms(1-5) c(1)]] hash_frameI(2) show ?thesis by (simp add: c(2))
qed

section \<open>Writing a value in place\<close>

definition same_shape :: "LsShmHElem \<Rightarrow> LsShmHElem \<Rightarrow> bool" where
  "same_shape e e' \<longleftrightarrow> x_iLen e' = x_iLen e \<and> x_iValOff e' = x_iValOff e \<and> x_iNext e' = x_iNext e \<and> x_hkey e' = x_hkey e \<and>
     e_key e' = e_key e \<and> length (e_val e') = length (e_val e) \<and> e_valLen e' \<le> length (e_val e')"

lemma hash_at_write:
  assumes at: "hash_at E h m R x k" and e: "h_elems h x = Some e" and f: "same_shape e (f e)"
  shows "hash_at E (upd_elem x f h) (m(k \<mapsto> take (e_valLen (f e)) (e_val (f e)))) R x k" "same_flags h (upd_elem x f h)"
proof -
  let ?h = "upd_elem x f h"
  obtain ch tbs where ok: "hash_ok E h ch tbs R" "hmap h ch = m" and x: "x \<in> set (offs h ch)" "ekey h x = k"
    using at by (auto simp: hash_at_def)
  have t: "htab E h ch" using ok by (simp add: hash_ok_def)
  have fe: "x_iLen (f e) = x_iLen e" "x_iValOff (f e) = x_iValOff e" "x_iNext (f e) = x_iNext e" "x_hkey (f e) = x_hkey e"
    "e_key (f e) = e_key e" "length (e_val (f e)) = length (e_val e)" "e_valLen (f e) \<le> length (e_val (f e))"
    using f by (auto simp: same_shape_def)
  have h': "h_elems ?h y = (if y = x then Some (f e) else h_elems h y)" for y using e by (simp add: upd_elem_def)
  have acc: "nxt ?h = nxt h" "ekey ?h = ekey h" "elen ?h = elen h"
    by (auto simp: nxt_def ekey_def elen_def h' e fe fun_eq_iff)
  have v: "evalue ?h y = (if y = x then take (e_valLen (f e)) (e_val (f e)) else evalue h y)" for y
    by (simp add: evalue_def h')
  have g: "x_iCapacity ?h = x_iCapacity h" "h_idx ?h = h_idx h" "iterExtraSpace ?h = iterExtraSpace h" "h_pool ?h = h_pool h"
    "getBitMapEnt ?h = getBitMapEnt h" "x_iSize ?h = x_iSize h" "x_iGrowFactor ?h = x_iGrowFactor h"
    "x_iHIdx ?h = x_iHIdx h" "x_iBitMap ?h = x_iBitMap h" "x_iBitMapSz ?h = x_iBitMapSz h" "offs ?h ch = offs h ch" "tid_same h ?h"
    by (auto simp: upd_elem_def iterExtraSpace_def getBitMapEnt_def fun_eq_iff offs_def tid_same_def)
  have c: "chain_ok E ?h ch i" if "i < x_iCapacity h" for i
  proof -
    have ci: "chain_ok E h ch i" using t that by (simp add: htab_def)
    have "\<exists>e'. h_elems ?h y = Some e' \<and> elem_ok E (iterExtraSpace h) e' \<and> getIndex (x_hkey e') (x_iCapacity h) = i"
      if y: "y \<in> set (ch i)" for y
    proof -
      obtain e0 where e0: "h_elems h y = Some e0" "elem_ok E (iterExtraSpace h) e0" "getIndex (x_hkey e0) (x_iCapacity h) = i"
        using ci y by (auto simp: chain_ok_def)
      have "elem_ok E (iterExtraSpace h) (f e)" if "elem_ok E (iterExtraSpace h) e"
        using that fe unfolding elem_ok_def by simp
      then show ?thesis using e0 e fe(4) by (cases "y = x") (auto simp: h')
    qed
    then show ?thesis using ci by (simp add: chain_ok_def acc g)
  qed
  have t': "htab E ?h ch" using t c unfolding htab_def g acc by simp
  have "hash_blocks ?h ch tbs = hash_blocks h ch tbs"
    using tid_same_blocks [OF g(12)] by (simp add: hash_blocks_def elem_blocks_def tab_block_def g acc)
  then have ok': "hash_ok E ?h ch tbs R" using ok t' tid_same_wf [OF g(12)] by (simp add: hash_ok_def g)
  have inj: "\<forall>y\<in>set (offs h ch). ekey h y = k \<longrightarrow> y = x" using ekey_inj [OF t] x by blast
  have "hmap ?h ch kk = Some w \<longleftrightarrow> (m(k \<mapsto> take (e_valLen (f e)) (e_val (f e)))) kk = Some w" for kk w
  proof (cases "kk = k")
    case True
    then have "(\<exists>y\<in>set (offs h ch). ekey h y = kk \<and> (if y = x then take (e_valLen (f e)) (e_val (f e)) else evalue h y) = w) \<longleftrightarrow>
      take (e_valLen (f e)) (e_val (f e)) = w" using inj x by metis
    then show ?thesis unfolding hmap_iff [OF t'] g acc v using True by simp
  next
    case False
    then have "(\<exists>y\<in>set (offs h ch). ekey h y = kk \<and> (if y = x then take (e_valLen (f e)) (e_val (f e)) else evalue h y) = w) \<longleftrightarrow>
      (\<exists>y\<in>set (offs h ch). ekey h y = kk \<and> evalue h y = w)" using x(2) by metis
    then show ?thesis unfolding hmap_iff [OF t'] g acc v using False hmap_iff [OF t, of kk w] ok(2) by simp
  qed
  then have "hmap ?h ch = m(k \<mapsto> take (e_valLen (f e)) (e_val (f e)))" by (intro ext) (metis not_None_eq)
  with ok' x show "hash_at E ?h (m(k \<mapsto> take (e_valLen (f e)) (e_val (f e)))) R x k"
    unfolding hash_at_def acc by (metis g(11))
  show "same_flags h ?h" by (simp add: same_flags_def upd_elem_def)
qed

section \<open>The entry points\<close>

lemma hash_at_frame_refl: "hash_frame h h'  \<Longrightarrow> hash_at E h m R x k \<Longrightarrow> same_flags h h'"
  using hash_frame_flags hash_atD(1) by (fastforce simp: same_flags_def)

lemma eraseIteratorHelper_hash:
  assumes "hash_at E h m R x k"
  shows "hash_inv E (eraseIteratorHelper E x h) (m(k := None)) R" "same_flags h (eraseIteratorHelper E x h)"
proof -
  obtain ch tbs where ok: "hash_ok E h ch tbs R" "hmap h ch = m" and x: "x \<in> set (offs h ch)" "ekey h x = k"
    using assms by (auto simp: hash_at_def)
  note er = eraseIteratorHelper_ok [OF ok(1) x(1)]
  show "hash_inv E (eraseIteratorHelper E x h) (m(k := None)) R" using er(1) ok(2) x(2) by (auto simp: hash_inv_def)
  show "same_flags h (eraseIteratorHelper E x h)" using er(5-7) by (simp add: same_flags_def)
qed

text \<open>The value an operation stores: what is copied in, or unspecified bytes of the requested length.\<close>

definition val_is :: "valarg \<Rightarrow> bytes \<Rightarrow> bool" where
  "val_is val v \<longleftrightarrow> length v = snd val \<and> (case fst val of None \<Rightarrow> True | Some w \<Rightarrow> v = take (snd val) w)"

lemma val_is_new: "val_ok val \<Longrightarrow> val_is val (new_value E x val)"
  using round4_ge(1) [of "snd val"] by (auto simp: val_is_def new_value_def val_ok_def split: option.split)

definition put_ok :: "LsShmHash \<Rightarrow> bytes \<Rightarrow> valarg \<Rightarrow> bool" where
  "put_ok h key val \<longleftrightarrow> key \<noteq> [] \<and> elem_size h (length key) (snd val) \<le> 100000000 \<and> val_ok val"

lemma put_ok_flags: "same_flags h h' \<Longrightarrow> put_ok h' key val = put_ok h key val"
  by (simp add: put_ok_def same_flags_size)

lemma put_ok_bad_size: "put_ok h key val \<Longrightarrow> \<not> bad_size (snd val)"
  using round4_ge(1) [of "snd val"] by (auto simp: put_ok_def elem_size_def bad_size_def LSSHM_MAXSIZE_def)

lemma doSet_in_place:
  assumes at: "hash_at E h m R x key" and e: "elem_live E h x e" and n: "snd val \<le> length (e_val e)" and v: "val_ok val"
  defines "h1 \<equiv> setIterData x (fst val) (upd_elem x (\<lambda>e. e\<lparr>e_valLen := snd val\<rparr>) h)"
  shows "\<exists>v. val_is val v \<and> hash_at E h1 (m(key \<mapsto> v)) R x key" "same_flags h h1"
proof -
  define f where "f = (\<lambda>e :: LsShmHElem. e\<lparr>e_valLen := snd val, e_val := (case fst val of None \<Rightarrow> e_val e | Some v \<Rightarrow> wr (e_val e) 0 (take (snd val) v))\<rparr>)"
  have h1: "h1 = upd_elem x f h"
    using e by (simp add: h1_def f_def setIterData_def upd_elem_def elem_live_def split: option.split)
  have x: "h_elems h x = Some e" using e by (simp add: elem_live_def)
  have "length (e_val (f e)) = length (e_val e)" using v n by (auto simp: f_def val_ok_def split: option.splits)
  then have sh: "same_shape e (f e)" using n by (simp add: same_shape_def f_def)
  have "val_is val (take (e_valLen (f e)) (e_val (f e)))"
    using v n x by (cases "fst val") (auto simp: f_def val_is_def val_ok_def wr_def)
  with hash_at_write [where f = f, OF at x sh] show "\<exists>v. val_is val v \<and> hash_at E h1 (m(key \<mapsto> v)) R x key" "same_flags h h1"
    by (auto simp: h1)
qed

text \<open>The outcome of an operation that puts a value: done, or failed with the table as it was, or,
  when a larger value replaced a smaller one, failed after the old element was erased.\<close>

definition put_result :: "env \<Rightarrow> LsShmHash \<Rightarrow> LsShmHash \<Rightarrow> (bytes \<Rightarrow> bytes option) \<Rightarrow> block multiset \<Rightarrow> off \<Rightarrow> bytes \<Rightarrow> valarg \<Rightarrow> bool" where
  "put_result E h h' m R x key val \<longleftrightarrow> same_flags h h' \<and>
     (if x = 0 then hash_inv E h' m R \<or> hash_inv E h' (m(key := None)) R
      else \<exists>v. val_is val v \<and> hash_at E h' (m(key \<mapsto> v)) R x key)"

lemma insert2_put:
  assumes "hash_inv E h m R" "m key = None" "put_ok h key val" "insert2 E (m_hf E key) key val h = (x, h')"
  shows "put_result E h h' m R x key val"
  using insert2_ok [OF assms(1) _ assms(2) _ _ assms(4)] assms(3) val_is_new [of val E x]
  by (auto simp: put_ok_def stored_def put_result_def)

lemma find2_zero: "hash_inv E h m R \<Longrightarrow> find2 (m_hf E key) key h = 0 \<longleftrightarrow> m key = None"
  using find2_hash [of E h m R key] hash_atD(2) [of E h m R "find2 (m_hf E key) key h" key] by (auto split: if_splits)

lemma doSet_ok:
  assumes inv: "hash_inv E h m R" and p: "put_ok h key val"
    and r: "doSet E (find2 (m_hf E key) key h) (m_hf E key) key val h = (x, h')"
  shows "put_result E h h' m R x key val"
proof (cases "find2 (m_hf E key) key h = 0")
  case True
  then show ?thesis
    using insert2_put [OF inv _ p] find2_zero [OF inv, of key] r put_ok_bad_size [OF p] by (simp add: doSet_def)
next
  case False
  let ?y = "find2 (m_hf E key) key h"
  note bad = put_ok_bad_size [OF p]
  have v: "val_ok val" using p by (simp add: put_ok_def)
  have at: "hash_at E h m R ?y key" using find2_hash [OF inv, of key] find2_zero [OF inv, of key] False by (auto split: if_splits)
  obtain e where e: "elem_live E h ?y e" using hash_atD(3) [OF at] by auto
  have ln: "realValLen e = length (e_val e)" using e by (simp add: elem_live_def elem_ok_def realValLen_def)
  show ?thesis
  proof (cases "snd val \<le> length (e_val e)")
    case True
    define h1 where "h1 = setIterData ?y (fst val) (upd_elem ?y (\<lambda>e. e\<lparr>e_valLen := snd val\<rparr>) h)"
    define h2 where "h2 = (if flag_lru h1 then linkSetTop E ?y h1 else h1)"
    have "doSet E ?y (m_hf E key) key val h = (?y, if flag_tid h2 then updateIterCb E ?y h2 else h2)"
      using bad True False by (simp add: doSet_def elem_live_simps(4) [OF e] ln Let_def h1_def h2_def)
    then have rr: "x = ?y" "h' = (if flag_tid h2 then updateIterCb E ?y h2 else h2)" using r by auto
    have "hash_frame h1 h2" by (simp add: h2_def hash_frameI(1))
    then have fr: "hash_frame h1 h'" using hash_frame_trans hash_frameI(3) by (simp add: rr)
    note ip = doSet_in_place [OF at e True v, folded h1_def]
    then obtain v where v1: "val_is val v" "hash_at E h1 (m(key \<mapsto> v)) R x key" using rr(1) by auto
    show ?thesis using False rr(1) v1(1) hash_frame_ok(2) [OF fr v1(2)] same_flags_trans [OF ip(2) hash_at_frame_refl [OF fr v1(2)]]
      by (auto simp: put_result_def)
  next
    case ng: False
    note er = eraseIteratorHelper_hash [OF at]
    have i: "insert2 E (m_hf E key) key val (eraseIteratorHelper E ?y h) = (x, h')"
      using r bad ng False by (simp add: doSet_def elem_live_simps(4) [OF e] ln Let_def)
    have "put_result E (eraseIteratorHelper E ?y h) h' (m(key := None)) R x key val"
      by (rule insert2_put [OF er(1) _ _ i]) (use p put_ok_flags [OF er(2)] in auto)
    then show ?thesis using same_flags_trans [OF er(2)] by (auto simp: put_result_def split: if_splits)
  qed
qed

lemma doUpdate_ok:
  assumes inv: "hash_inv E h m R" and p: "put_ok h key val" and r: "updatePtr E key val h = (x, h')"
  shows "if m key = None then x = 0 \<and> h' = h else put_result E h h' m R x key val"
  using doSet_ok [OF inv p] r find2_zero [OF inv, of key] by (auto simp: updatePtr_def doUpdate_def split: if_splits)

lemma doInsert_ok:
  assumes inv: "hash_inv E h m R" and p: "put_ok h key val" and r: "insertPtr E key val h = (x, h')"
  shows "if m key = None then put_result E h h' m R x key val else x = 0 \<and> h' = h"
  using insert2_put [OF inv _ p] r find2_zero [OF inv, of key] put_ok_bad_size [OF p]
  by (auto simp: insertPtr_def doInsert_def split: if_splits)

lemma hash_remove_ok:
  assumes inv: "hash_inv E h m R"
  shows "fst (hash_remove E key h) \<longleftrightarrow> m key \<noteq> None" "hash_inv E (snd (hash_remove E key h)) (m(key := None)) R"
    "same_flags h (snd (hash_remove E key h))"
proof -
  note z = find2_zero [OF inv, of key] and f = find2_hash [OF inv, of key]
  show "fst (hash_remove E key h) \<longleftrightarrow> m key \<noteq> None" using z by (auto simp: hash_remove_def Let_def findPtr_def)
  show "hash_inv E (snd (hash_remove E key h)) (m(key := None)) R" "same_flags h (snd (hash_remove E key h))"
    using z f inv eraseIteratorHelper_hash by (auto simp: hash_remove_def Let_def findPtr_def fun_upd_idem split: if_splits)
qed

text \<open>\<open>getPtr\<close>: find, or create with the given initial value.\<close>

lemma getPtr_ok:
  assumes inv: "hash_inv E h m R" and p: "put_ok h key val" and r: "getPtr E key val flag h = ((x, flag'), h')"
  shows "m key \<noteq> None \<Longrightarrow> flag' = LSSHM_VAL_NONE \<and> hash_at E h' m R x key \<and> same_flags h h'"
    "m key = None \<Longrightarrow> flag \<noteq> LSSHM_VAL_INIT \<Longrightarrow> put_result E h h' m R x key val \<and> flag' = (if x = 0 then flag else LSSHM_VAL_CREATED)"
    "m key = None \<Longrightarrow> flag = LSSHM_VAL_INIT \<Longrightarrow> same_flags h h' \<and>
      (if x = 0 then flag' = flag \<and> (hash_inv E h' m R \<or> hash_inv E h' (m(key := None)) R)
       else flag' = LSSHM_VAL_CREATED \<and> hash_at E h' (m(key \<mapsto> replicate (snd val) CHR 0x00)) R x key)"
proof -
  let ?y = "find2 (m_hf E key) key h"
  note z = find2_zero [OF inv, of key] and f = find2_hash [OF inv, of key] and bad = put_ok_bad_size [OF p]
  show "flag' = LSSHM_VAL_NONE \<and> hash_at E h' m R x key \<and> same_flags h h'" if "m key \<noteq> None"
  proof -
    have at: "hash_at E h m R ?y key" using f that by (simp split: if_splits)
    obtain e where e: "elem_live E h ?y e" using hash_atD(3) [OF at] by auto
    have y: "?y \<noteq> 0" using z that by simp
    have "getPtr E key val flag h = ((?y, LSSHM_VAL_NONE), if flag_lru h then linkSetTop E ?y h else h)"
      using y by (simp add: getPtr_def doGet_def elem_live_simps(4) [OF e])
    then have rr: "x = ?y" "flag' = LSSHM_VAL_NONE" "h' = (if flag_lru h then linkSetTop E ?y h else h)" using r by auto
    have "hash_frame h h'" by (simp add: rr hash_frameI(1))
    then show ?thesis using hash_frame_ok(2) hash_at_frame_refl at rr(1,2) by blast
  qed
  obtain x1 h1 where i: "insert2 E (m_hf E key) key val h = (x1, h1)" by fastforce
  have pr: "put_result E h h1 m R x1 key val" if "m key = None" by (rule insert2_put [OF inv that p i])
  show "put_result E h h' m R x key val \<and> flag' = (if x = 0 then flag else LSSHM_VAL_CREATED)"
    if n: "m key = None" "flag \<noteq> LSSHM_VAL_INIT"
  proof -
    have "getPtr E key val flag h = ((x1, if x1 = 0 then flag else LSSHM_VAL_CREATED), h1)"
      using z n bad i by (auto simp: getPtr_def doGet_def)
    then show ?thesis using r pr [OF n(1)] by auto
  qed
  show "same_flags h h' \<and>
      (if x = 0 then flag' = flag \<and> (hash_inv E h' m R \<or> hash_inv E h' (m(key := None)) R)
       else flag' = LSSHM_VAL_CREATED \<and> hash_at E h' (m(key \<mapsto> replicate (snd val) CHR 0x00)) R x key)"
    if n: "m key = None" "flag = LSSHM_VAL_INIT"
  proof (cases "x1 = 0")
    case True
    have "getPtr E key val flag h = ((0, flag), h1)" using z n bad i True by (auto simp: getPtr_def doGet_def)
    then show ?thesis using r pr [OF n(1)] True by (auto simp: put_result_def)
  next
    case False
    obtain v where v: "val_is val v" "hash_at E h1 (m(key \<mapsto> v)) R x1 key" "same_flags h h1"
      using pr [OF n(1)] False by (auto simp: put_result_def)
    obtain e where e: "elem_live E h1 x1 e" "v = take (e_valLen e) (e_val e)" using hash_atD(3) [OF v(2)] by auto
    define f where "f = (\<lambda>e :: LsShmHElem. e\<lparr>e_val := wr (e_val e) 0 (replicate (snd val) CHR 0x00)\<rparr>)"
    have l: "e_valLen e \<le> length (e_val e)" "h_elems h1 x1 = Some e" using e(1) by (auto simp: elem_live_def elem_ok_def)
    then have ln: "e_valLen e = snd val" using v(1) e(2) by (simp add: val_is_def)
    have sh: "same_shape e (f e)" using l ln by (simp add: same_shape_def f_def)
    have "getPtr E key val flag h = ((x1, LSSHM_VAL_CREATED), upd_elem x1 f h1)"
      using z n bad i False by (simp add: getPtr_def doGet_def elem_live_simps(8) [OF e(1)] f_def)
    then have rr: "x = x1" "flag' = LSSHM_VAL_CREATED" "h' = upd_elem x1 f h1" using r by auto
    have "take (e_valLen (f e)) (e_val (f e)) = replicate (snd val) CHR 0x00" using l ln by (simp add: f_def wr_in)
    then show ?thesis using hash_at_write [where f = f, OF v(2) l(2) sh] rr False same_flags_trans [OF v(3)] by auto
  qed
qed

end
