(* ===== verification/LsShmHashStore.thy ===== *)
theory LsShmHashStore
  imports LsShmHashSafe
begin

text \<open>
  The operations of a table that release or move blocks as a whole: clearing the table together with
  its transaction-id blocks, creating a table in a pool, and growing a value into a new element.
\<close>

section \<open>Clearing the transaction-id table\<close>

lemma clrTid_loop_ok:
  assumes "owns (h_pool h) (M + image_mset (\<lambda>x. (x, sizeof_TidTblBlk)) (mset tbs)) R"
    and "\<forall>i<length tbs. \<exists>b. h_blks h (tbs ! i) = Some b \<and> b_iPrev b = (if i = 0 then 0 else tbs ! (i - 1))"
  shows "\<exists>h'. clrTid_loop (length tbs) (last0 0 tbs) h = (True, h') \<and> owns (h_pool h') M R \<and> same_tab (starts M) h h' \<and> tid_same h h'"
  using assms
proof (induction tbs arbitrary: h rule: rev_induct)
  case Nil
  then show ?case by simp
next
  case (snoc x tbs)
  let ?I = "image_mset (\<lambda>x. (x, sizeof_TidTblBlk)) (mset tbs)"
  have o: "owns (h_pool h) (add_mset (x, sizeof_TidTblBlk) (M + ?I)) R" using snoc.prems(1) by simp
  have x: "x \<noteq> 0" "offset2ptr (h_pool h) x" using owns_block(5,7) [OF o, of x sizeof_TidTblBlk] by auto
  obtain b where b: "h_blks h x = Some b" "b_iPrev b = last0 0 tbs"
    using snoc.prems(2) [rule_format, of "length tbs"] by (auto simp: last0_def last_conv_nth nth_append)
  let ?h = "hash_release2 x sizeof_TidTblBlk h"
  note rl = hash_release2_ok [where x = x and h = h and n = sizeof_TidTblBlk]
  have bl: "h_blks ?h = h_blks h" using rl(2) by (simp add: tid_same_def)
  have "\<forall>i<length tbs. \<exists>b. h_blks ?h (tbs ! i) = Some b \<and> b_iPrev b = (if i = 0 then 0 else tbs ! (i - 1))"
    using snoc.prems(2) unfolding bl by (fastforce simp: nth_append)
  from snoc.IH [OF rl(4) [OF o] this] obtain h' where h': "clrTid_loop (length tbs) (last0 0 tbs) ?h = (True, h')"
    "owns (h_pool h') M R" "same_tab (starts M) ?h h'" "tid_same ?h h'" by blast
  have "x \<notin> starts M" using owns_starts [OF o] by simp
  then have "same_tab (starts M) h h'" using same_tab_subset [OF rl(1)] h'(3) by (metis Compl_iff singletonD same_tab_trans subsetI)
  then show ?case using h' x b tid_same_trans [OF rl(2)] by (auto simp: blk_at_def)
qed

lemma clrTidTbl_mid:
  assumes w: "tid_wf h tbs" and o: "owns (h_pool h) (M + tid_blocks h tbs) R"
  obtains h3 where "clrTidTbl E h = (if flag_tid_slave h then h3 else snd (setTidTblEnt E TIDDEL_FLUSHALL 0 h3))"
    "tid_wf h3 []" "owns (h_pool h3) M R" "same_tab (starts M) h h3" "ti_tid h3 = ti_tid h" "x_lastTidPreClear h3 = ti_tid h"
proof -
  let ?I = "image_mset (\<lambda>x. (x, sizeof_TidTblBlk)) (mset tbs)"
  define rs where "rs = blkidx_cnt (length tbs)"
  define h1 where "h1 = (if tbs = [] then h else hash_release2 (x_iBlkIdxOff h) (LSSHMTID_BLKIDX_SIZE rs) h)"
  have cur: "x_iTidTblCurOff h = last0 0 tbs" "x_iBlkCnt h = length tbs" using w by (auto simp: tid_wf_def)
  have nz: "y \<noteq> 0" if "y \<in> set tbs" for y
    using owns_block(7) [OF o, of y sizeof_TidTblBlk] that by (auto simp: tid_blocks_def)
  have c0: "last0 0 tbs = 0 \<longleftrightarrow> tbs = []" using last0_in [of 0 tbs] nz by (metis last0_simps(1))
  have rnd: "(if n div 256 * 256 < n then n div 256 * 256 + 256 else n div 256 * 256) = blkidx_cnt n" for n
  proof (cases "n mod 256 = 0")
    case True
    then have "n div 256 * 256 = n" by (metis add_0_right div_mult_mod_eq)
    then show ?thesis using blkidx_cnt_simps(1) [OF True] by simp
  next
    case False
    have "blkidx_cnt (256 * (n div 256) + n mod 256) = 256 * (n div 256) + 256"
      by (rule blkidx_cnt_eq) (use False in auto)
    moreover have "n div 256 * 256 < n" using False div_mult_mod_eq [of n 256] by linarith
    ultimately show ?thesis by simp
  qed
  have h1: "owns (h_pool h1) (M + ?I) R" "same_tab (starts M) h h1" "tid_same h h1"
  proof -
    note rl = hash_release2_ok [where x = "x_iBlkIdxOff h" and h = h and n = "LSSHMTID_BLKIDX_SIZE rs"]
    have o2: "owns (h_pool h) (add_mset (x_iBlkIdxOff h, LSSHMTID_BLKIDX_SIZE rs) (M + ?I)) R" if "tbs \<noteq> []"
      using o that by (simp add: tid_blocks_def rs_def)
    show "owns (h_pool h1) (M + ?I) R" using o rl(4) [OF o2] by (cases "tbs = []") (auto simp: h1_def tid_blocks_def)
    show "same_tab (starts M) h h1"
      using same_tab_subset [OF rl(1), of "starts M"] owns_starts [OF o2] by (auto simp: h1_def)
    show "tid_same h h1" using rl(2) by (simp add: h1_def)
  qed
  have "\<forall>i<length tbs. \<exists>b. h_blks h1 (tbs ! i) = Some b \<and> b_iPrev b = (if i = 0 then 0 else tbs ! (i - 1))"
    using w h1(3) by (fastforce simp: tid_wf_def tid_same_def)
  from clrTid_loop_ok [OF h1(1) this] obtain h2 where h2: "clrTid_loop (length tbs) (last0 0 tbs) h1 = (True, h2)"
    "owns (h_pool h2) M R" "same_tab (starts M) h1 h2" "tid_same h1 h2" by blast
  define h3 where "h3 = h2\<lparr>x_iTidTblStrtOff := 0, x_iTidTblCurOff := 0, x_iBlkIdxOff := 0, x_iBlkCnt := 0, x_lastTidPreClear := ti_tid h2\<rparr>"
  have "x_iBlkCnt h1 = length tbs" using h1(3) cur by (simp add: tid_same_def)
  then have eq: "clrTidTbl E h = (if flag_tid_slave h3 then h3 else snd (setTidTblEnt E TIDDEL_FLUSHALL 0 h3))"
    using h2(1) c0 rnd [of "length tbs"] by (simp add: clrTidTbl_def Let_def cur h1_def rs_def lay_simps h3_def split: if_splits)
  have s3: "same_tab (starts M) h h3"
    using same_tab_trans [OF h1(2) h2(3)] by (simp add: same_tab_def h3_def)
  have "ti_tid h2 = ti_tid h" using h1(3) h2(4) by (simp add: tid_same_def)
  moreover have "flag_tid_slave h3 = flag_tid_slave h" using s3 by (simp add: same_tab_def)
  ultimately show thesis using that [of h3] eq s3 h2(2) by (simp add: h3_def tid_wf_def)
qed

lemma tid_frame_clrTbl: "tid_frame M R h (clrTidTbl E h)"
  unfolding tid_frame_def
proof (intro allI impI, elim conjE)
  fix tbs
  assume w: "tid_wf h tbs" and o: "owns (h_pool h) (M + tid_blocks h tbs) R"
  obtain h3 where h3: "clrTidTbl E h = (if flag_tid_slave h then h3 else snd (setTidTblEnt E TIDDEL_FLUSHALL 0 h3))"
    "tid_wf h3 []" "owns (h_pool h3) M R" "same_tab (starts M) h h3"
    by (rule clrTidTbl_mid [OF w o, of E]) auto
  have "tid_frame M R h3 (clrTidTbl E h)" using tid_frame_set by (simp add: h3(1))
  moreover have "owns (h_pool h3) (M + tid_blocks h3 []) R" using h3(3) by (simp add: tid_blocks_def)
  ultimately show "same_tab (starts M) h (clrTidTbl E h) \<and>
      (\<exists>tbs'. tid_wf (clrTidTbl E h) tbs' \<and> owns (h_pool (clrTidTbl E h)) (M + tid_blocks (clrTidTbl E h) tbs') R)"
    using h3(2,4) same_tab_trans unfolding tid_frame_def by blast
qed

section \<open>Clearing the table\<close>

lemma offs_split:
  assumes t: "htab E h ch" and o: "offs h ch = ys @ x # xs" and i: "i < x_iCapacity h" "x \<in> set (ch i)"
  obtains as bs where "ch i = as @ x # bs" "xs = bs @ concat (map ch [Suc i..<x_iCapacity h])"
proof -
  obtain as bs where c: "ch i = as @ x # bs" using i(2) by (auto simp: in_set_conv_decomp)
  have u: "[0..<x_iCapacity h] = [0..<i] @ i # [Suc i..<x_iCapacity h]"
    using i(1) by (metis le0 less_imp_le_nat upt_add_eq_append upt_conv_Cons le_add_diff_inverse add_0)
  let ?p = "concat (map ch [0..<i]) @ as" and ?s = "bs @ concat (map ch [Suc i..<x_iCapacity h])"
  have eq: "?p @ x # ?s = ys @ x # xs" using o c by (simp add: offs_def u)
  have d: "distinct (ys @ x # xs)" using htab_distinct [OF t] o by simp
  then have "x \<notin> set ys" "distinct (?p @ x # ?s)" using eq by auto
  then have "x \<notin> set ?p" "x \<notin> set ?s" by auto
  with eq have "?s = xs" using append_Cons_eq_iff [of x ?p ?s ys xs] by blast
  with c that show ?thesis by blast
qed

lemma clear_loop_ok:
  assumes ok: "hash_ok E h0 ch tbs R"
  shows "offs h0 ch = ys @ xs \<Longrightarrow> same_tab (set xs) h0 h \<Longrightarrow> tid_same h0 h \<Longrightarrow>
    owns (h_pool h) (add_mset (tab_block h0) (elem_blocks h0 xs + tid_blocks h0 tbs)) R \<Longrightarrow> length xs < k \<Longrightarrow>
    \<exists>h'. for_each2_loop k release_hash_elem (hd0 xs 0) n h = (n + length xs, h') \<and> same_tab {} h0 h' \<and> tid_same h0 h' \<and>
      owns (h_pool h') (add_mset (tab_block h0) (tid_blocks h0 tbs)) R"
proof (induction xs arbitrary: h ys n k)
  case Nil
  then show ?case by (cases k) (auto simp: elem_blocks_def)
next
  case (Cons x xs)
  have t: "htab E h0 ch" using ok by (simp add: hash_ok_def)
  obtain k' where k: "k = Suc k'" "length xs < k'" using Cons.prems(5) by (cases k) auto
  have x: "x \<in> set (offs h0 ch)" "x \<noteq> 0" "0 \<notin> set xs" "x \<notin> set xs"
    using Cons.prems(1) t htab_distinct [OF t] by (auto simp: htab_def)
  obtain e0 where e0: "elem_live E h0 x e0" "x \<in> set (ch (getIndex (x_hkey e0) (x_iCapacity h0)))"
    "getIndex (x_hkey e0) (x_iCapacity h0) < x_iCapacity h0" "elen h0 x = x_iLen e0" by (rule hash_ok_elem [OF ok x(1)])
  have h0x: "h_elems h0 x = Some e0" "elem_ok E (iterExtraSpace h0) e0" using e0(1) by (auto simp: elem_live_def)
  obtain e where e: "h_elems h x = Some e" "x_iLen e = x_iLen e0" "x_iValOff e = x_iValOff e0" "x_iNext e = x_iNext e0"
    "x_hkey e = x_hkey e0" "e_key e = e_key e0" "e_valLen e = e_valLen e0" "e_val e = e_val e0"
    by (rule same_tab_elem [OF Cons.prems(2) _ h0x(1)]) auto
  let ?i = "getIndex (x_hkey e0) (x_iCapacity h0)"
  have f: "x_iCapacity h = x_iCapacity h0" "h_idx h = h_idx h0" "iterExtraSpace h = iterExtraSpace h0"
    using Cons.prems(2) same_flags_size(2) [OF same_tab_flags [OF Cons.prems(2)]] by (auto simp: same_tab_def)
  have eok: "elem_ok E (iterExtraSpace h) e" using h0x(2) e f(3) by (simp add: elem_ok_def)
  have o: "owns (h_pool h) (add_mset (x, x_iLen e) (add_mset (tab_block h0) (elem_blocks h0 xs + tid_blocks h0 tbs))) R"
    using Cons.prems(4) e(2) e0(4) by (simp add: elem_blocks_def add_mset_commute)
  have l: "elem_live E h x e" by (rule owns_live [OF o _ e(1) eok]) simp
  obtain as bs where c: "ch ?i = as @ x # bs" "xs = bs @ concat (map ch [Suc ?i..<x_iCapacity h0])"
    by (rule offs_split [OF t Cons.prems(1) e0(3,2)])
  have ck: "chain_ok E h0 ch j" if "j < x_iCapacity h0" for j using t that by (simp add: htab_def)
  have "sseg (nxt h0) (as @ x # bs) 0" using ck [OF e0(3)] c(1) by (simp add: chain_ok_def)
  then have nx: "x_iNext e0 = hd0 bs 0" using h0x(1) by (simp add: sseg_append nxt_def)
  have "next_off x h = (hd0 (bs @ concat (map ch [Suc ?i..<x_iCapacity h])) 0, h)"
    by (rule next_off_ok [OF l]) (use e0(3) e(4,5) f ck nx x c(2) in \<open>auto simp: chain_ok_def\<close>)
  then have no: "next_off x h = (hd0 xs 0, h)" using c(2) f(1) by simp
  let ?h = "hash_release2 x (x_iLen e) h"
  note rl = hash_release2_ok [where x = x and h = h and n = "x_iLen e"]
  have "for_each2_loop k release_hash_elem (hd0 (x # xs) 0) n h = for_each2_loop k' release_hash_elem (hd0 xs 0) (n + 1) ?h"
    using x(2) no by (simp add: k(1) release_hash_elem_def elem_live_simps(4) [OF l])
  moreover have "\<exists>h'. for_each2_loop k' release_hash_elem (hd0 xs 0) (n + 1) ?h = (n + 1 + length xs, h') \<and> same_tab {} h0 h' \<and>
      tid_same h0 h' \<and> owns (h_pool h') (add_mset (tab_block h0) (tid_blocks h0 tbs)) R"
  proof (rule Cons.IH)
    show "offs h0 ch = (ys @ [x]) @ xs" using Cons.prems(1) by simp
    show "same_tab (set xs) h0 ?h"
      using same_tab_subset [OF rl(1), of "set xs"] same_tab_subset [OF Cons.prems(2), of "set xs"] x(4)
      by (auto intro: same_tab_trans)
    show "tid_same h0 ?h" using tid_same_trans [OF Cons.prems(3) rl(2)] .
    show "owns (h_pool ?h) (add_mset (tab_block h0) (elem_blocks h0 xs + tid_blocks h0 tbs)) R" by (rule rl(4) [OF o])
    show "length xs < k'" by (rule k(2))
  qed
  ultimately show ?case by auto
qed

lemma hash_clear_ok:
  assumes inv: "hash_inv E h m R"
  shows "hash_inv E (hash_clear E h) Map.empty R" "same_flags h (hash_clear E h)"
proof -
  obtain ch tbs where ok: "hash_ok E h ch tbs R" "hmap h ch = m" using inv by (auto simp: hash_inv_def)
  have t: "htab E h ch" and w: "tid_wf h tbs" and o: "owns (h_pool h) (hash_blocks h ch tbs) R"
    using ok(1) by (auto simp: hash_ok_def)
  have "\<exists>h'. for_each2_loop (Suc (x_iSize h)) release_hash_elem (hd0 (offs h ch) 0) 0 h = (0 + length (offs h ch), h') \<and> same_tab {} h h' \<and>
      tid_same h h' \<and> owns (h_pool h') (add_mset (tab_block h) (tid_blocks h tbs)) R"
    by (rule clear_loop_ok [OF ok(1), where ys = "[]"]) (use t o in \<open>auto simp: htab_def hash_blocks_def\<close>)
  then obtain h1 where h1: "for_each2_loop (Suc (x_iSize h)) release_hash_elem (hd0 (offs h ch) 0) 0 h = (length (offs h ch), h1)"
    "same_tab {} h h1" "tid_same h h1" "owns (h_pool h1) (add_mset (tab_block h) (tid_blocks h tbs)) R" by auto
  have bm: "offset2ptr (h_pool h1) (x_iBitMap h1)"
    using owns_block(5) [OF h1(4), of "x_iBitMap h" "tblSz (x_iCapacity h)"] h1(2) by (simp add: tab_block_def same_tab_def)
  define h2 where "h2 = h1\<lparr>h_bits := (\<lambda>_. False), h_idx := replicate (x_iCapacity h1) 0, x_iSize := 0\<rparr>"
  define h3 where "h3 = (if flag_lru h2 then h2\<lparr>linkFirst := 0, linkLast := 0, nvalset := 0, ndataset := 0\<rparr> else h2)"
  have eq: "hash_clear E h = (if flag_tid h3 then clrTidTbl E h3 else h3)"
    using h1(1) bm by (simp add: hash_clear_def for_each2_def begin_off_ok [OF t] Let_def h2_def h3_def clearCb_def)
  have f1: "x_iCapacity h1 = x_iCapacity h" "x_iBitMap h1 = x_iBitMap h" "x_iBitMapSz h1 = x_iBitMapSz h" "x_iHIdx h1 = x_iHIdx h"
    "x_iGrowFactor h1 = x_iGrowFactor h" using h1(2) by (auto simp: same_tab_def)
  have f3: "x_iCapacity h3 = x_iCapacity h" "x_iBitMap h3 = x_iBitMap h" "x_iBitMapSz h3 = x_iBitMapSz h" "x_iHIdx h3 = x_iHIdx h"
    "x_iGrowFactor h3 = x_iGrowFactor h" "h_idx h3 = replicate (x_iCapacity h) 0" "x_iSize h3 = 0" "h_pool h3 = h_pool h1"
    "tid_same h1 h3" "same_flags h1 h3"
    using f1 by (auto simp: h3_def h2_def tid_same_def same_flags_def)
  have of3: "offs h3 (\<lambda>_. []) = []" by (simp add: offs_def)
  have t3: "htab E h3 (\<lambda>_. [])" using t by (simp add: htab_def f3 of3 chain_ok_def)
  have ts: "tid_same h h3" by (rule tid_same_trans [OF h1(3) f3(9)])
  have "hash_blocks h3 (\<lambda>_. []) tbs = add_mset (tab_block h) (tid_blocks h tbs)"
    using tid_same_blocks [OF ts] by (simp add: hash_blocks_def tab_block_def f3 of3 elem_blocks_def)
  then have "hash_ok E h3 (\<lambda>_. []) tbs R" using t3 w h1(4) tid_same_wf [OF ts] by (simp add: hash_ok_def f3)
  moreover have "hmap h3 (\<lambda>_. []) = Map.empty" by (simp add: hmap_def of3)
  ultimately have i3: "hash_inv E h3 Map.empty R" unfolding hash_inv_def by blast
  have fr: "hash_frame h3 (hash_clear E h)" by (simp add: eq hash_frame_def tid_frame_clrTbl)
  show "hash_inv E (hash_clear E h) Map.empty R" by (rule hash_frame_ok(1) [OF fr i3])
  have "same_flags h3 (hash_clear E h)" using hash_frame_flags [OF fr i3] by (simp add: same_flags_def)
  then show "same_flags h (hash_clear E h)"
    using same_tab_flags [OF h1(2)] f3(10) same_flags_trans by blast
qed

section \<open>Creation\<close>

lemma findRange_loop_less: "i < prime_count \<Longrightarrow> findRange_loop sz i < prime_count"
proof (induction sz i rule: findRange_loop.induct)
  case (1 sz i)
  then show ?case by (subst findRange_loop.simps) simp
qed

lemma roundUp_pos: "0 < roundUp n"
  unfolding roundUp_def findRange_def by (rule prime_pos [OF findRange_loop_less]) (simp add: prime_count_def)

lemma allocHTable_ok:
  assumes o: "pool_inv p R" and r: "allocHTable E n lru tid slave p = (x, p', Some h)"
  shows "\<exists>k. hash_inv E h Map.empty (add_mset (x, k) R)" "h_pool h = p'" "flag_lru h = lru" "flag_tid h = tid" "flag_tid_slave h = slave"
proof -
  obtain y s p1 where a: "alloc2 (e_os E) sizeof_HTable p = (y, s, p1)" by (metis prod_cases3)
  obtain z s2 p2 where b: "alloc2 (e_os E) (tblSz (roundUp n)) p1 = (z, s2, p2)" by (metis prod_cases3)
  have nz: "y \<noteq> 0" "z \<noteq> 0" and xy: "x = y" "p' = p2" and h: "h_pool h = p2" "x_iCapacity h = roundUp n" "x_iSize h = 0"
    "x_iGrowFactor h = 2" "x_iHIdx h = z + sz2BitMapSz (roundUp n)" "h_idx h = replicate (roundUp n) 0" "x_iBitMap h = z"
    "x_iBitMapSz h = sz2BitMapSz (roundUp n)" "x_iBlkCnt h = 0" "x_iBlkIdxOff h = 0" "x_iTidTblCurOff h = 0"
    and "flag_lru h = lru" "flag_tid h = tid" "flag_tid_slave h = slave"
    using r a b unfolding allocHTable_def tblSz_def by (auto simp: Let_def split: if_splits)
  then show "h_pool h = p'" "flag_lru h = lru" "flag_tid h = tid" "flag_tid_slave h = slave" by auto
  have "owns p1 {#} (add_mset (x, blkSize s) R)"
    using pool.alloc_some [OF o a nz(1)] xy by (simp add: owns_def)
  from owns_alloc [OF this b nz(2)] have o2: "owns p2 {#(z, tblSz (roundUp n))#} (add_mset (x, blkSize s) R)"
    using roundUp_pos [of n] by (simp add: tblSz_def sz2TableSz_def)
  have of0: "offs h (\<lambda>_. []) = []" by (simp add: offs_def)
  have "htab E h (\<lambda>_. [])" using roundUp_pos [of n] by (simp add: htab_def h of0 chain_ok_def)
  moreover have "tid_wf h []" by (simp add: tid_wf_def h)
  moreover have "owns (h_pool h) (hash_blocks h (\<lambda>_. []) []) (add_mset (x, blkSize s) R)"
    using o2 by (simp add: hash_blocks_def tab_block_def elem_blocks_def tid_blocks_def h of0)
  ultimately have "hash_ok E h (\<lambda>_. []) [] (add_mset (x, blkSize s) R)" by (simp add: hash_ok_def)
  moreover have "hmap h (\<lambda>_. []) = Map.empty" by (simp add: hmap_def of0)
  ultimately show "\<exists>k. hash_inv E h Map.empty (add_mset (x, k) R)" unfolding hash_inv_def by blast
qed

section \<open>Growing a value\<close>

lemma hash_at_ok:
  assumes "hash_at E h m R x k"
  obtains ch tbs where "hash_ok E h ch tbs R" "hmap h ch = m" "x \<in> set (offs h ch)" "ekey h x = k"
  using assms by (auto simp: hash_at_def)

text \<open>Frames leave the memory of other owners alone.\<close>

lemma hash_frame_foreign:
  assumes "hash_frame h h'" "hash_inv E h m R" "(y, k) \<in># R"
  shows "map_option estrip (h_elems h' y) = map_option estrip (h_elems h y)"
proof -
  obtain ch tbs where "hash_ok E h ch tbs R" using assms(2) by (auto simp: hash_inv_def)
  then have "tid_wf h tbs" "owns (h_pool h) (tab_elem_blocks h ch + tid_blocks h tbs) R" by (auto simp: hash_ok_def hash_blocks_alt)
  from tid_frame_foreign(1) [OF _ this assms(3), of h'] assms(1) show ?thesis by (auto simp: hash_frame_def same_tab_def)
qed

text \<open>An element that is complete but not in the table is put at the head of its chain.\<close>

lemma push_chain_hash:
  assumes inv: "hash_inv E h m (add_mset (y, k) R)" and e: "h_elems h y = Some e" "elem_ok E (iterExtraSpace h) e"
    and b: "blkSize (x_iLen e) \<le> k" and n: "m (e_key e) = None"
  shows "hash_at E (push_chain (x_hkey e) y h) (m(e_key e \<mapsto> take (e_valLen e) (e_val e))) R y (e_key e)"
    "same_flags h (push_chain (x_hkey e) y h)"
proof -
  let ?h = "push_chain (x_hkey e) y h"
  obtain ch tbs where ok: "hash_ok E h ch tbs (add_mset (y, k) R)" "hmap h ch = m" using inv by (auto simp: hash_inv_def)
  have t: "htab E h ch" "tid_wf h tbs" using ok by (auto simp: hash_ok_def)
  have "0 < x_iLen e" using elem_ok_len [OF e(2)] by simp
  then have o: "owns (h_pool h) (add_mset (y, x_iLen e) (hash_blocks h ch tbs)) R"
    using ok(1) b by (auto simp: hash_ok_def intro: owns_take)
  have kn: "e_key e \<notin> ekey h ` set (offs h ch)" using n ok(2) hmap_None [of h ch "e_key e"] by simp
  define i where "i = getIndex (x_hkey e) (x_iCapacity h)"
  note p = push_chain_ok [OF t e o kn, folded i_def]
  have "0 < x_iCapacity h" using t by (simp add: htab_def)
  moreover have c: "x_iCapacity ?h = x_iCapacity h" by (simp add: push_chain_def Let_def setBitMapEnt_def upd_elem_def)
  ultimately have "y \<in> set (offs ?h (ch(i := y # ch i)))" by (auto simp: offs_mem i_def)
  moreover have "ekey ?h y = e_key e"
    using e(1) by (simp add: ekey_def push_chain_def Let_def setBitMapEnt_def upd_elem_def)
  ultimately show "hash_at E ?h (m(e_key e \<mapsto> take (e_valLen e) (e_val e))) R y (e_key e)"
    unfolding hash_at_def using p ok(2) by blast
  show "same_flags h ?h" by (simp add: same_flags_def push_chain_def Let_def setBitMapEnt_def upd_elem_def)
qed

definition grown :: "env \<Rightarrow> LsShmHElem \<Rightarrow> nat \<Rightarrow> bool \<Rightarrow> off \<Rightarrow> LsShmHElem" where
  "grown E e n front y = \<lparr>x_iLen = x_iLen e + round4 n, x_iValOff = x_iValOff e, x_iNext = 0,
     x_hkey = x_hkey e, e_key = e_key e, e_valLen = e_valLen e + n,
     e_val = wr (junk_bytes E y (x_iLen e + round4 n - sizeof_HElem - x_iValOff e - sizeof_vardata))
               (if front then n else 0) (take (e_valLen e) (e_val e)),
     x_tid = junk_tid E y, x_iLinkNext = 0, x_iLinkPrev = 0, x_lasttime = 0\<rparr>"

lemma grown_ok:
  assumes "elem_ok E xs e" "x_iLen e + round4 n \<le> 100000000"
  shows "elem_ok E xs (grown E e n front y)"
    "rd (take (e_valLen (grown E e n front y)) (e_val (grown E e n front y))) (if front then n else 0) (e_valLen e) = take (e_valLen e) (e_val e)"
    "length (take (e_valLen (grown E e n front y)) (e_val (grown E e n front y))) = e_valLen e + n"
proof -
  let ?a = "x_iLen e + round4 n - sizeof_HElem - x_iValOff e - sizeof_vardata"
  let ?f = "if front then n else 0"
  have v: "e_valLen e \<le> length (e_val e)" "x_iLen e = sizeof_HElem + x_iValOff e + sizeof_vardata + length (e_val e)"
    using assms(1) by (auto simp: elem_ok_def)
  then have a: "?a = length (e_val e) + round4 n" by simp
  have fit: "?f + length (take (e_valLen e) (e_val e)) \<le> ?a" "e_valLen e + n \<le> ?a" using v a round4_ge(1) [of n] by auto
  then have l: "length (e_val (grown E e n front y)) = ?a" by (simp add: grown_def)
  show "elem_ok E xs (grown E e n front y)"
    using assms v fit(2) l a by (simp add: elem_ok_def) (simp add: grown_def)
  show "length (take (e_valLen (grown E e n front y)) (e_val (grown E e n front y))) = e_valLen e + n"
    using l fit by (simp add: grown_def)
  show "rd (take (e_valLen (grown E e n front y)) (e_val (grown E e n front y))) ?f (e_valLen e) = take (e_valLen e) (e_val e)"
    using fit v by (auto simp: grown_def rd_def drop_take wr_in)
qed

text \<open>A fresh block next to the table, with a cell written into it.\<close>

lemma hash_at_fresh:
  assumes at: "hash_at E h m R x k" and a: "hash_alloc2 E n h = (y, h0)" "0 < n"
  shows "y = 0 \<Longrightarrow> hash_at E h0 m R x k" "same_flags h h0"
    "y \<noteq> 0 \<Longrightarrow> \<exists>b. blkSize n \<le> b \<and> offset2ptr (h_pool h0) y \<and>
       hash_at E (h0\<lparr>h_elems := (h_elems h0)(y \<mapsto> c)\<rparr>) m (add_mset (y, b) R) x k"
proof -
  obtain ch tbs where ok: "hash_ok E h ch tbs R" "hmap h ch = m" "x \<in> set (offs h ch)" "ekey h x = k" by (rule hash_at_ok [OF at])
  have t: "htab E h ch" and w: "tid_wf h tbs" and o: "owns (h_pool h) (hash_blocks h ch tbs) R" using ok(1) by (auto simp: hash_ok_def)
  note al = hash_alloc2_ok [OF a(1)]
  have o0: "owns (h_pool h0) (if y = 0 then hash_blocks h ch tbs else add_mset (y, n) (hash_blocks h ch tbs)) R" by (rule al(4) [OF o a(2)])
  show "same_flags h h0" using al(1) by (rule same_tab_flags)
  have step: "hash_at E g m R' x k" if st: "same_tab (set (offs h ch)) h g" and ts: "tid_same h g"
    and ow: "owns (h_pool g) (hash_blocks h ch tbs) R'" for g R'
  proof -
    note fr = htab_frame [OF t st]
    have "hash_blocks g ch tbs = hash_blocks h ch tbs" using fr(3,4) tid_same_blocks [OF ts] by (simp add: hash_blocks_def)
    then have "hash_ok E g ch tbs R'" using fr(1) w ow tid_same_wf [OF ts] by (simp add: hash_ok_def)
    then show ?thesis using fr(2) ok offs_frame [OF st] same_tab_acc(2) [OF st ok(3)] unfolding hash_at_def by metis
  qed
  have st0: "same_tab (set (offs h ch)) h h0" by (rule same_tab_subset [OF al(1)]) simp
  show "hash_at E h0 m R x k" if "y = 0" using step [OF st0 al(2)] o0 that by simp
  show "\<exists>b. blkSize n \<le> b \<and> offset2ptr (h_pool h0) y \<and>
       hash_at E (h0\<lparr>h_elems := (h_elems h0)(y \<mapsto> c)\<rparr>) m (add_mset (y, b) R) x k" if y: "y \<noteq> 0"
  proof -
    have o1: "owns (h_pool h0) (add_mset (y, n) (hash_blocks h ch tbs)) R" using o0 y by simp
    obtain b where b: "blkSize n \<le> b" "owns (h_pool h0) (hash_blocks h ch tbs) (add_mset (y, b) R)" by (rule owns_give [OF o1])
    have "y \<notin> set (offs h ch)" using owns_starts [OF o1] by (simp add: hash_blocks_def)
    then have "same_tab (set (offs h ch)) h (h0\<lparr>h_elems := (h_elems h0)(y \<mapsto> c)\<rparr>)" using st0 by (auto simp: same_tab_def)
    from step [OF this] al(2) b owns_block(5) [OF o1, of y n] show ?thesis by (auto simp: tid_same_def)
  qed
qed

lemma iterGrowValue_ok:
  assumes at: "hash_at E h m R x k" and e: "elem_live E h x e" and sz: "x_iLen e + round4 n \<le> 100000000"
    and r: "iterGrowValue E x n front h = (y, h')"
  shows "same_flags h h'" "y = 0 \<Longrightarrow> hash_at E h' m R x k"
    "y \<noteq> 0 \<Longrightarrow> \<exists>v. hash_at E h' (m(k \<mapsto> v)) R y k \<and> length v = e_valLen e + n \<and>
       rd v (if front then n else 0) (e_valLen e) = take (e_valLen e) (e_val e)"
proof -
  have eok: "elem_ok E (iterExtraSpace h) e" and kx: "e_key e = k"
    using e hash_atD(3) [OF at] by (auto simp: elem_live_def)
  have pos: "0 < x_iLen e + round4 n" using elem_ok_len [OF eok] by simp
  obtain z h0 where a: "hash_alloc2 E (x_iLen e + round4 n) h = (z, h0)" by fastforce
  note fz = hash_at_fresh [OF at a pos]
  define g where "g = grown E e n front z"
  define h1 where "h1 = h0\<lparr>h_elems := (h_elems h0)(z \<mapsto> g)\<rparr>"
  define h2 where "h2 = eraseIteratorHelper E x h1"
  define h3 where "h3 = (if flag_lru h2 then linkHElem E z h2 else h2)"
  define h4 where "h4 = (if flag_tid h3 then insertIterCb E z h3 else h3)"
  have main: "y = z \<and> h' = push_chain (x_hkey g) z h4 \<and> same_flags h h4 \<and> (\<exists>b e4. hash_inv E h4 (m(k := None)) (add_mset (z, b) R) \<and>
      h_elems h4 z = Some e4 \<and> estrip e4 = estrip g \<and> blkSize (x_iLen g) \<le> b)" if z: "z \<noteq> 0"
  proof -
    obtain b where b: "blkSize (x_iLen e + round4 n) \<le> b" "offset2ptr (h_pool h0) z" "hash_at E h1 m (add_mset (z, b) R) x k"
      using fz(3) [OF z] unfolding h1_def by blast
    note er = eraseIteratorHelper_hash [OF b(3), folded h2_def]
    obtain ch tbs where ok1: "hash_ok E h1 ch tbs (add_mset (z, b) R)" "x \<in> set (offs h1 ch)" by (rule hash_at_ok [OF b(3)]) auto
    have c2: "map_option estrip (h_elems h2 z) = Some (estrip g)"
      using eraseIteratorHelper_ok(8) [OF ok1, of z b] by (simp add: h2_def) (simp add: h1_def)
    have fr: "hash_frame h2 h4" using hash_frame_trans [of h2 h3 h4] hash_frameI(1) [of h2 h3] hash_frameI(2) by (simp add: h3_def h4_def)
    have c4: "map_option estrip (h_elems h4 z) = Some (estrip g)" using hash_frame_foreign [OF fr er(1), of z b] c2 by simp
    have i4: "hash_inv E h4 (m(k := None)) (add_mset (z, b) R)" by (rule hash_frame_ok(1) [OF fr er(1)])
    have fl: "same_flags h h4"
      using fz(2) er(2) hash_frame_flags [OF fr er(1)] by (simp add: same_flags_def h1_def)
    obtain e4 where e4: "h_elems h4 z = Some e4" "estrip e4 = estrip g" using c4 by auto
    note q = estrip_eqD [OF e4(2)]
    have xl: "x_iLen g = x_iLen e + round4 n" by (simp add: g_def grown_def)
    have gok: "elem_ok E (iterExtraSpace h) g" unfolding g_def by (rule grown_ok(1) [OF eok sz])
    have e4ok: "elem_ok E (iterExtraSpace h4) e4" using gok q same_flags_size(2) [OF fl] by (simp add: elem_ok_def)
    have lv: "elem_live E h4 z e4"
    proof -
      obtain ch4 tbs4 where "hash_ok E h4 ch4 tbs4 (add_mset (z, b) R)" using i4 by (auto simp: hash_inv_def)
      then have "owns (h_pool h4) (add_mset (z, x_iLen e4) (hash_blocks h4 ch4 tbs4)) R"
        using b(1) q(1) xl pos by (auto simp: hash_ok_def intro: owns_take)
      then show ?thesis by (rule owns_live [OF _ _ e4(1) e4ok]) simp
    qed
    have "iterGrowValue E x n front h = (z, push_chain (x_hkey e) z h4)"
      using z b(2) a elem_live_simps(4) [OF lv] unfolding h4_def h3_def h2_def h1_def g_def
      by (auto simp: iterGrowValue_def elem_live_simps(2) [OF e] Let_def grown_def)
    then show ?thesis using r i4 e4 b(1) xl fl by (auto simp: g_def grown_def)
  qed
  have z0: "y = 0 \<and> h' = h0" if "z = 0" using r a that by (simp add: iterGrowValue_def elem_live_simps(2) [OF e] Let_def)
  show "y = 0 \<Longrightarrow> hash_at E h' m R x k" using main z0 fz(1) by (cases "z = 0") auto
  have res: "same_flags h h' \<and> (\<exists>v. hash_at E h' (m(k \<mapsto> v)) R y k \<and> length v = e_valLen e + n \<and>
       rd v (if front then n else 0) (e_valLen e) = take (e_valLen e) (e_val e))" if z: "z \<noteq> 0"
  proof -
    obtain b e4 where m: "y = z" "h' = push_chain (x_hkey g) z h4" "same_flags h h4" "hash_inv E h4 (m(k := None)) (add_mset (z, b) R)"
      "h_elems h4 z = Some e4" "estrip e4 = estrip g" "blkSize (x_iLen g) \<le> b" using main [OF z] by blast
    note q = estrip_eqD [OF m(6)]
    have gk: "e_key g = k" by (simp add: g_def grown_def kx)
    have "elem_ok E (iterExtraSpace h4) e4"
      using grown_ok(1) [OF eok sz, of front z] q same_flags_size(2) [OF m(3)] by (simp add: elem_ok_def g_def)
    note p = push_chain_hash [OF m(4,5) this, unfolded q gk, OF m(7)]
    have "hash_at E h' (m(k \<mapsto> take (e_valLen g) (e_val g))) R y k" "same_flags h h'"
      using p m(1-3) same_flags_trans by auto
    then show ?thesis using grown_ok(2,3) [OF eok sz, of front z, folded g_def] by blast
  qed
  show "same_flags h h'" using res z0 fz(2) by (cases "z = 0") auto
  show "y \<noteq> 0 \<Longrightarrow> \<exists>v. hash_at E h' (m(k \<mapsto> v)) R y k \<and> length v = e_valLen e + n \<and>
       rd v (if front then n else 0) (e_valLen e) = take (e_valLen e) (e_val e)" using res z0 by (cases "z = 0") auto
qed

end
