(* ===== verification/LsShmHashMap.thy ===== *)
theory LsShmHashMap
  imports LsShmHashStore
begin

text \<open>
  What a table promises to its clients, as a specification over maps, and the proof that the byte-level
  interface of the shared-memory hash keeps the promise for every sequence of calls.

  An operation that needs memory may fail; then the map is unchanged, except that replacing a value by
  a larger one may have dropped the old value.
\<close>

section \<open>The specification\<close>

datatype ('k, 'v) kv_op = Find 'k | Set 'k 'v | Insert 'k 'v | Update 'k 'v | Remove 'k | Clear
datatype 'v kv_res = Value "'v option" | Done bool

inductive kv_step :: "('k \<Rightarrow> 'v option) \<Rightarrow> ('k, 'v) kv_op \<Rightarrow> 'v kv_res \<Rightarrow> ('k \<Rightarrow> 'v option) \<Rightarrow> bool" where
  kv_find: "kv_step m (Find k) (Value (m k)) m"
| kv_set: "kv_step m (Set k v) (Done True) (m(k \<mapsto> v))"
| kv_set_fail: "kv_step m (Set k v) (Done False) m"
| kv_set_lost: "kv_step m (Set k v) (Done False) (m(k := None))"
| kv_insert: "m k = None \<Longrightarrow> kv_step m (Insert k v) (Done True) (m(k \<mapsto> v))"
| kv_insert_fail: "kv_step m (Insert k v) (Done False) m"
| kv_update: "m k \<noteq> None \<Longrightarrow> kv_step m (Update k v) (Done True) (m(k \<mapsto> v))"
| kv_update_fail: "kv_step m (Update k v) (Done False) m"
| kv_update_lost: "kv_step m (Update k v) (Done False) (m(k := None))"
| kv_remove: "kv_step m (Remove k) (Done (m k \<noteq> None)) (m(k := None))"
| kv_clear: "kv_step m Clear (Done True) Map.empty"

inductive_simps kv_step_simps:
  "kv_step m (Find k) r m'" "kv_step m (Set k v) r m'" "kv_step m (Insert k v) r m'" "kv_step m (Update k v) r m'"
  "kv_step m (Remove k) r m'" "kv_step m Clear r m'"

inductive kv_steps :: "('k \<Rightarrow> 'v option) \<Rightarrow> ('k, 'v) kv_op list \<Rightarrow> 'v kv_res list \<Rightarrow> ('k \<Rightarrow> 'v option) \<Rightarrow> bool" where
  kv_nil: "kv_steps m [] [] m"
| kv_cons: "kv_step m op r m1 \<Longrightarrow> kv_steps m1 ops rs m2 \<Longrightarrow> kv_steps m (op # ops) (r # rs) m2"

inductive_simps kv_steps_simps: "kv_steps m [] rs m'" "kv_steps m (op # ops) rs m'"

fun op_key :: "('k, 'v) kv_op \<Rightarrow> 'k option" where
  "op_key (Find k) = Some k" | "op_key (Set k v) = Some k" | "op_key (Insert k v) = Some k"
| "op_key (Update k v) = Some k" | "op_key (Remove k) = Some k" | "op_key Clear = None"

lemma kv_step_other: "kv_step m op r m' \<Longrightarrow> op \<noteq> Clear \<Longrightarrow> op_key op \<noteq> Some k \<Longrightarrow> m' k = m k"
  by (cases rule: kv_step.cases) auto

section \<open>The interface\<close>

fun run_ops :: "(('k, 'v) kv_op \<Rightarrow> 's \<Rightarrow> 'v kv_res \<times> 's) \<Rightarrow> ('k, 'v) kv_op list \<Rightarrow> 's \<Rightarrow> 'v kv_res list \<times> 's" where
  "run_ops step [] s = ([], s)"
| "run_ops step (op # ops) s = (let (r, s) = step op s; (rs, s) = run_ops step ops s in (r # rs, s))"

locale kv_table =
  fixes inv :: "'s \<Rightarrow> ('k \<Rightarrow> 'v option) \<Rightarrow> bool"
    and step :: "('k, 'v) kv_op \<Rightarrow> 's \<Rightarrow> 'v kv_res \<times> 's"
    and fits :: "'s \<Rightarrow> ('k, 'v) kv_op \<Rightarrow> bool"
  assumes find_law: "inv s m \<Longrightarrow> step (Find k) s = (r, s') \<Longrightarrow> r = Value (m k) \<and> inv s' m"
    and set_law: "inv s m \<Longrightarrow> fits s (Set k v) \<Longrightarrow> step (Set k v) s = (r, s') \<Longrightarrow>
      (r = Done True \<and> inv s' (m(k \<mapsto> v))) \<or> (r = Done False \<and> (inv s' m \<or> inv s' (m(k := None))))"
    and insert_law: "inv s m \<Longrightarrow> fits s (Insert k v) \<Longrightarrow> step (Insert k v) s = (r, s') \<Longrightarrow>
      (r = Done True \<and> m k = None \<and> inv s' (m(k \<mapsto> v))) \<or> (r = Done False \<and> inv s' m)"
    and update_law: "inv s m \<Longrightarrow> fits s (Update k v) \<Longrightarrow> step (Update k v) s = (r, s') \<Longrightarrow>
      (r = Done True \<and> m k \<noteq> None \<and> inv s' (m(k \<mapsto> v))) \<or> (r = Done False \<and> (inv s' m \<or> inv s' (m(k := None))))"
    and remove_law: "inv s m \<Longrightarrow> step (Remove k) s = (r, s') \<Longrightarrow> r = Done (m k \<noteq> None) \<and> inv s' (m(k := None))"
    and clear_law: "inv s m \<Longrightarrow> step Clear s = (r, s') \<Longrightarrow> r = Done True \<and> inv s' Map.empty"
    and fits_stable: "inv s m \<Longrightarrow> fits s op \<Longrightarrow> step op s = (r, s') \<Longrightarrow> fits s' op' = fits s op'"
begin

lemma step_refines:
  assumes "inv s m" "fits s op" "step op s = (r, s')"
  shows "\<exists>m'. kv_step m op r m' \<and> inv s' m'"
proof (cases op)
  case (Find k)
  then show ?thesis using find_law assms by (auto simp: kv_step_simps)
next
  case (Set k v)
  then show ?thesis using set_law [of s m k v r s'] assms by (auto simp: kv_step_simps)
next
  case (Insert k v)
  then show ?thesis using insert_law [of s m k v r s'] assms by (auto simp: kv_step_simps)
next
  case (Update k v)
  then show ?thesis using update_law [of s m k v r s'] assms by (auto simp: kv_step_simps)
next
  case (Remove k)
  then show ?thesis using remove_law [of s m k r s'] assms by (auto simp: kv_step_simps)
next
  case Clear
  then show ?thesis using clear_law [of s m r s'] assms by (auto simp: kv_step_simps)
qed

theorem run_refines:
  assumes "inv s m" "\<forall>op\<in>set ops. fits s op" "run_ops step ops s = (rs, s')"
  shows "\<exists>m'. kv_steps m ops rs m' \<and> inv s' m'"
  using assms
proof (induction ops arbitrary: s m rs)
  case Nil
  then show ?case by (auto simp: kv_steps_simps)
next
  case (Cons op ops)
  obtain r s1 where a: "step op s = (r, s1)" by fastforce
  obtain rs1 where b: "run_ops step ops s1 = (rs1, s')" "rs = r # rs1"
    using Cons.prems(3) a by (auto simp: Let_def split: prod.splits)
  obtain m1 where m1: "kv_step m op r m1" "inv s1 m1" using step_refines [OF Cons.prems(1) _ a] Cons.prems(2) by auto
  have "\<forall>op\<in>set ops. fits s1 op" using fits_stable [OF Cons.prems(1) _ a] Cons.prems(2) by auto
  from Cons.IH [OF m1(2) this b(1)] m1(1) b(2) show ?case by (auto simp: kv_steps_simps)
qed

text \<open>A value that was set is found again, whatever happened to other keys in between.\<close>

theorem find_after_set:
  assumes i: "inv s m" and f: "fits s (Set k v)" "\<forall>op\<in>set ops. fits s op"
    and o: "\<forall>op\<in>set ops. op \<noteq> Clear \<and> op_key op \<noteq> Some k"
    and st: "step (Set k v) s = (Done True, s1)" and r: "run_ops step ops s1 = (rs, s2)" and fd: "step (Find k) s2 = (res, s3)"
  shows "res = Value (Some v)"
proof -
  have i1: "inv s1 (m(k \<mapsto> v))" using set_law [OF i f(1) st] by simp
  have "\<forall>op\<in>set ops. fits s1 op" using fits_stable [OF i f(1) st] f(2) by simp
  from run_refines [OF i1 this r] obtain m' where m': "kv_steps (m(k \<mapsto> v)) ops rs m'" "inv s2 m'" by blast
  have "kv_steps m0 ops rs m' \<Longrightarrow> \<forall>op\<in>set ops. op \<noteq> Clear \<and> op_key op \<noteq> Some k \<Longrightarrow> m' k = m0 k" for m0
    by (induction m0 ops rs m' rule: kv_steps.induct) (auto dest: kv_step_other)
  from this [OF m'(1) o] have "m' k = Some v" by simp
  then show ?thesis using find_law [OF m'(2) fd] by simp
qed

end

section \<open>The shared-memory hash keeps the promise\<close>

fun hash_exec :: "env \<Rightarrow> (bytes, bytes) kv_op \<Rightarrow> LsShmHash \<Rightarrow> bytes kv_res \<times> LsShmHash" where
  "hash_exec E (Find k) h = (case hash_find E k h of (r, h) \<Rightarrow> (Value (map_option snd r), h))"
| "hash_exec E (Set k v) h = (case hash_set E k v h of (x, h) \<Rightarrow> (Done (x \<noteq> 0), h))"
| "hash_exec E (Insert k v) h = (case hash_insert E k v h of (x, h) \<Rightarrow> (Done (x \<noteq> 0), h))"
| "hash_exec E (Update k v) h = (case hash_update E k v h of (x, h) \<Rightarrow> (Done (x \<noteq> 0), h))"
| "hash_exec E (Remove k) h = (case hash_remove E k h of (b, h) \<Rightarrow> (Done b, h))"
| "hash_exec E Clear h = (Done True, hash_clear E h)"

text \<open>Keys are not empty, and the element that holds key and value is at most 100000000 bytes long: the
  plausibility test of the code rejects longer ones.\<close>

fun op_fits :: "LsShmHash \<Rightarrow> (bytes, bytes) kv_op \<Rightarrow> bool" where
  "op_fits h (Set k v) = (k \<noteq> [] \<and> elem_size h (length k) (length v) \<le> 100000000)"
| "op_fits h (Insert k v) = (k \<noteq> [] \<and> elem_size h (length k) (length v) \<le> 100000000)"
| "op_fits h (Update k v) = (k \<noteq> [] \<and> elem_size h (length k) (length v) \<le> 100000000)"
| "op_fits h _ = True"

lemma op_fits_flags: "same_flags h h' \<Longrightarrow> op_fits h' op = op_fits h op"
  by (cases op) (simp_all add: same_flags_size)

lemma iter_value_ok:
  assumes "hash_at E h m R x k"
  shows "\<exists>e. iter_value x h = (Some (getVal_off x e, the (m k)), h) \<and> data_ret x h = (getVal_off x e, h) \<and> getVal_off x e \<noteq> 0"
proof -
  obtain e where e: "elem_live E h x e" "m k = Some (take (e_valLen e) (e_val e))" using hash_atD(3) [OF assms] by auto
  show ?thesis
    by (rule exI [of _ e]) (use elem_live_simps [OF e(1)] e(2) hash_atD(2) [OF assms] in \<open>simp add: iter_value_def data_ret_def getVal_off_def\<close>)
qed

lemma hash_find_ok:
  assumes inv: "hash_inv E h m R"
  shows "hash_exec E (Find k) h = (Value (m k), h)"
proof (cases "m k")
  case None
  then show ?thesis using find2_zero [OF inv, of k] by (simp add: hash_find_def findPtr_def iter_value_def)
next
  case (Some v)
  have "hash_at E h m R (find2 (m_hf E k) k h) k" using find2_hash [OF inv, of k] Some by simp
  from iter_value_ok [OF this] Some show ?thesis by (auto simp: hash_find_def findPtr_def)
qed

text \<open>The three storing operations end alike.\<close>

lemma put_result_ret:
  assumes p: "put_result E h h' m R x k (Some v, length v)" and d: "data_ret x h' = (y, h2)"
  shows "same_flags h h2" "y \<noteq> 0 \<Longrightarrow> hash_inv E h2 (m(k \<mapsto> v)) R" "y = 0 \<Longrightarrow> hash_inv E h2 m R \<or> hash_inv E h2 (m(k := None)) R"
    "y = 0 \<longleftrightarrow> x = 0"
proof -
  have at: "hash_at E h' (m(k \<mapsto> v)) R x k" if "x \<noteq> 0" using p that by (auto simp: put_result_def val_is_def)
  have "h2 = h' \<and> (y = 0 \<longleftrightarrow> x = 0)" using iter_value_ok [OF at] d by (cases "x = 0") (auto simp: data_ret_def)
  with p at hash_atD(1) show "same_flags h h2" "y \<noteq> 0 \<Longrightarrow> hash_inv E h2 (m(k \<mapsto> v)) R"
    "y = 0 \<Longrightarrow> hash_inv E h2 m R \<or> hash_inv E h2 (m(k := None)) R" "y = 0 \<longleftrightarrow> x = 0"
    by (auto simp: put_result_def split: if_splits)
qed

lemma put_ok_Some: "k \<noteq> [] \<and> elem_size h (length k) (length v) \<le> 100000000 \<Longrightarrow> put_ok h k (Some v, length v)"
  by (simp add: put_ok_def val_ok_def)

lemma hash_set_ok:
  assumes inv: "hash_inv E h m R" and f: "op_fits h (Set k v)" and r: "hash_exec E (Set k v) h = (r, h')"
  shows "r = Done True \<and> hash_inv E h' (m(k \<mapsto> v)) R \<or> r = Done False \<and> (hash_inv E h' m R \<or> hash_inv E h' (m(k := None)) R)"
    "same_flags h h'"
proof -
  obtain x h1 y where a: "setPtr E k (Some v, length v) h = (x, h1)" "data_ret x h1 = (y, h')" "r = Done (y \<noteq> 0)"
    using r by (auto simp: hash_set_def split: prod.splits)
  have p: "put_ok h k (Some v, length v)" by (rule put_ok_Some) (use f in simp)
  note q = put_result_ret [OF doSet_ok [OF inv p a(1) [unfolded setPtr_def]] a(2)]
  then show "r = Done True \<and> hash_inv E h' (m(k \<mapsto> v)) R \<or> r = Done False \<and> (hash_inv E h' m R \<or> hash_inv E h' (m(k := None)) R)"
    "same_flags h h'" using a(3) by auto
qed

lemma hash_insert_ok:
  assumes inv: "hash_inv E h m R" and f: "op_fits h (Insert k v)" and r: "hash_exec E (Insert k v) h = (r, h')"
  shows "r = Done True \<and> m k = None \<and> hash_inv E h' (m(k \<mapsto> v)) R \<or> r = Done False \<and> hash_inv E h' m R" "same_flags h h'"
proof -
  obtain x h1 y where a: "insertPtr E k (Some v, length v) h = (x, h1)" "data_ret x h1 = (y, h')" "r = Done (y \<noteq> 0)"
    using r by (auto simp: hash_insert_def split: prod.splits)
  have p: "put_ok h k (Some v, length v)" by (rule put_ok_Some) (use f in simp)
  note i = doInsert_ok [OF inv p a(1)]
  have "(r = Done True \<and> m k = None \<and> hash_inv E h' (m(k \<mapsto> v)) R \<or> r = Done False \<and> hash_inv E h' m R) \<and> same_flags h h'"
  proof (cases "m k")
    case None
    then have pr: "put_result E h h1 m R x k (Some v, length v)" using i by simp
    have "m(k := None) = m" using None by auto
    then show ?thesis using put_result_ret [OF pr a(2)] a(3) None by auto
  next
    case (Some w)
    then have "x = 0" "h1 = h" using i by auto
    then show ?thesis using a(2,3) inv by (simp add: data_ret_def)
  qed
  then show "r = Done True \<and> m k = None \<and> hash_inv E h' (m(k \<mapsto> v)) R \<or> r = Done False \<and> hash_inv E h' m R" "same_flags h h'" by auto
qed

lemma hash_update_ok:
  assumes inv: "hash_inv E h m R" and f: "op_fits h (Update k v)" and r: "hash_exec E (Update k v) h = (r, h')"
  shows "r = Done True \<and> m k \<noteq> None \<and> hash_inv E h' (m(k \<mapsto> v)) R \<or>
      r = Done False \<and> (hash_inv E h' m R \<or> hash_inv E h' (m(k := None)) R)" "same_flags h h'"
proof -
  obtain x h1 y where a: "updatePtr E k (Some v, length v) h = (x, h1)" "data_ret x h1 = (y, h')" "r = Done (y \<noteq> 0)"
    using r by (auto simp: hash_update_def split: prod.splits)
  have p: "put_ok h k (Some v, length v)" by (rule put_ok_Some) (use f in simp)
  note i = doUpdate_ok [OF inv p a(1)]
  have "(r = Done True \<and> m k \<noteq> None \<and> hash_inv E h' (m(k \<mapsto> v)) R \<or>
      r = Done False \<and> (hash_inv E h' m R \<or> hash_inv E h' (m(k := None)) R)) \<and> same_flags h h'"
  proof (cases "m k")
    case None
    then have "x = 0" "h1 = h" using i by auto
    then show ?thesis using a(2,3) inv by (simp add: data_ret_def)
  next
    case (Some w)
    then have pr: "put_result E h h1 m R x k (Some v, length v)" using i by simp
    show ?thesis using put_result_ret [OF pr a(2)] a(3) Some by auto
  qed
  then show "r = Done True \<and> m k \<noteq> None \<and> hash_inv E h' (m(k \<mapsto> v)) R \<or>
      r = Done False \<and> (hash_inv E h' m R \<or> hash_inv E h' (m(k := None)) R)" "same_flags h h'" by auto
qed

lemma hash_exec_flags:
  assumes "hash_inv E h m R" "op_fits h op" "hash_exec E op h = (r, h')"
  shows "same_flags h h'"
proof (cases op)
  case (Find k)
  then show ?thesis using hash_find_ok [OF assms(1), of k] assms(3) by simp
next
  case (Remove k)
  then show ?thesis using hash_remove_ok(3) [OF assms(1), of k] assms(3) by (auto split: prod.splits)
next
  case Clear
  then show ?thesis using hash_clear_ok(2) [OF assms(1)] assms(3) by auto
next
  case (Set k v)
  then show ?thesis using hash_set_ok(2) assms by blast
next
  case (Insert k v)
  then show ?thesis using hash_insert_ok(2) assms by blast
next
  case (Update k v)
  then show ?thesis using hash_update_ok(2) assms by blast
qed

interpretation hashtab: kv_table "\<lambda>h m. hash_inv E h m R" "hash_exec E" op_fits for E R
proof (unfold_locales, goal_cases)
  case (1 s m k r s')
  then show ?case using hash_find_ok [of E s m R k] by simp
next
  case (2 s m k v r s')
  then show ?case by (rule hash_set_ok(1))
next
  case (3 s m k v r s')
  then show ?case by (rule hash_insert_ok(1))
next
  case (4 s m k v r s')
  then show ?case by (rule hash_update_ok(1))
next
  case (5 s m k r s')
  then show ?case using hash_remove_ok(1,2) [OF 5(1), of k] by (auto split: prod.splits)
next
  case (6 s m r s')
  then show ?case using hash_clear_ok(1) [OF 6(1)] by auto
next
  case (7 s m op r s' op')
  then show ?case using op_fits_flags [OF hash_exec_flags] by blast
qed

section \<open>A concrete table\<close>

definition w_env :: env where
  "w_env = \<lparr>e_os = w_os, m_hf = (\<lambda>k. of_nat (length k)), time_now = 1000, junk_val = (\<lambda>_. []), junk_tid = (\<lambda>_. 0), sys_stats = []\<rparr>"

definition w_hash :: LsShmHash where
  "w_hash = the (snd (snd (allocHTable w_env 7 True False False w_pool)))"

lemma fill_links_num: "fill_links s x (numeral v) p =
  (if \<not> isOffsetValid p (x + s) then (False, p)
      else fill_links s (x + s) (pred_numeral v)
             (p\<lparr>bk_next := (bk_next p)(x := (if pred_numeral v \<noteq> 0 then x + s else 0))\<rparr>))"
  by (simp add: numeral_eq_Suc Let_def)

lemma chunk_num: "allocFromDataChunk os a b p = allocFromDataChunk_rec (Suc (Suc 0)) os a b p"
  by (simp add: allocFromDataChunk_def numeral_2_eq_2)

lemmas pool_eval = alloc2_def alloc2Ex_def allocFromDataBucket_def fillDataBucket_def chunk_num fill_links_num
  bk_allocated_def bk_released_def add32_def sub32_def dataSize2Bucket_def
  allocPage_def getFromFreeList_def shm_allocPage_def lay_simps roundDataSize_def roundPageSize_def roundSize2pages_def
  offset2ptr_def isOffsetValid_def incrCheck_def markTopUsed_def Let_def LSSHM_MAXSIZE_def

lemmas hash_eval = allocHTable_def roundUp_def findRange_def findRange_loop.simps s_primeList_def sz2TableSz_def sz2BitMapSz_def
  w_env_def size2roundSize_def w_pool_def createStaticData_def

lemma w_hash_new: "allocHTable w_env 7 True False False w_pool = (1024, h_pool w_hash, Some w_hash)"
  unfolding w_hash_def by (simp add: pool_eval hash_eval)

lemma w_pool_reach: "pool_reach w_pool {#}"
  by (rule reach_new [OF w_pool_new]) simp

section \<open>Properties\<close>

text \<open>
  C1: The shared-memory hash implements a map. A table created in any reachable pool, driven by any
  sequence of \<open>find\<close>, \<open>set\<close>, \<open>insert\<close>, \<open>update\<close>, \<open>remove\<close> and \<open>clear\<close>, answers exactly
  what the specification over maps allows, whatever the hash function, the collisions, the rehashes
  and the answers of the operating system are.
\<close>

theorem hash_refines_map:
  assumes "pool_reach p L" and "allocHTable E n lru tid slave p = (x, p', Some h)"
    and "\<forall>op\<in>set ops. op_fits h op" and "run_ops (hash_exec E) ops h = (rs, h')"
  shows "\<exists>m. kv_steps Map.empty ops rs m"
proof -
  obtain R where "hash_inv E h Map.empty R"
    using allocHTable_ok(1) [OF pool_reach_inv [OF assms(1)] assms(2)] by blast
  from hashtab.run_refines [OF this assms(3,4)] show ?thesis by blast
qed

theorem hash_refines_map_witness:
  "\<exists>m. kv_steps Map.empty [Set ''key'' ''v'', Find ''key'', Remove ''key'']
     (fst (run_ops (hash_exec w_env) [Set ''key'' ''v'', Find ''key'', Remove ''key''] w_hash)) m"
  by (rule hash_refines_map [OF w_pool_reach w_hash_new _ prod.collapse [symmetric]])
    (auto simp: elem_size_def lay_simps round4_def iterExtraSpace_def allocHTable_ok(3,4) [OF pool_reach_inv [OF w_pool_reach] w_hash_new])

text \<open>
  C21: A value that was set successfully is found again, unchanged, after any sequence of operations on
  other keys: insertions that grow and rehash the table, replacements, removals.
\<close>

theorem hash_find_after_set:
  assumes "hash_inv E h m R" and "op_fits h (Set k v)" and "\<forall>op\<in>set ops. op_fits h op"
    and "\<forall>op\<in>set ops. op \<noteq> Clear \<and> op_key op \<noteq> Some k"
    and "hash_exec E (Set k v) h = (Done True, h1)" and "run_ops (hash_exec E) ops h1 = (rs, h2)"
  shows "map_option snd (fst (hash_find E k h2)) = Some v"
proof -
  obtain r h3 where "hash_exec E (Find k) h2 = (r, h3)" by fastforce
  with hashtab.find_after_set [OF assms this] show ?thesis by (auto split: prod.splits)
qed

lemmas op_eval = hash_set_def setPtr_def find2_def getIndex_def getBitMapEnt_def doSet_def bad_size_def insert2_def insertCopy2_def
  allocIter_def hash_alloc2_def iterExtraSpace_def round4_def upd_elem_def setIterData_def linkHElem_def link_ok_def getLruLinkPtr_def
  validate_def push_chain_def setBitMapEnt_def offset2iterator_def iter_ok_def elem_at_def data_ret_def offset2iteratorData_def
  getVal_off_def set_linkNext_def set_linkPrev_def junk_bytes_def

lemma w_hash_inv: "\<exists>R. hash_inv w_env w_hash Map.empty R"
  using allocHTable_ok(1) [OF pool_reach_inv [OF w_pool_reach] w_hash_new] by blast

lemma w_hash_flags: "flag_lru w_hash" "\<not> flag_tid w_hash" "\<not> flag_tid_slave w_hash"
  using allocHTable_ok(3,4,5) [OF pool_reach_inv [OF w_pool_reach] w_hash_new] by simp_all

lemma w_fits: "op_fits w_hash (Set k v) \<longleftrightarrow> k \<noteq> [] \<and> elem_size w_hash (length k) (length v) \<le> 100000000"
  "elem_size w_hash a b = 16 + (4 + round4 a + 16) + 4 + round4 b"
  by (simp_all add: elem_size_def iterExtraSpace_def w_hash_flags lay_simps)

lemma w_set: "fst (hash_exec w_env (Set ''key'' ''v'') w_hash) = Done True"
  unfolding w_hash_def by (simp add: pool_eval hash_eval op_eval)

theorem hash_find_after_set_witness:
  "map_option snd (fst (hash_find w_env ''key'' (snd (run_ops (hash_exec w_env) [Set ''other'' ''w'', Remove ''x'']
     (snd (hash_exec w_env (Set ''key'' ''v'') w_hash)))))) = Some ''v''"
proof -
  obtain R where i: "hash_inv w_env w_hash Map.empty R" using w_hash_inv by blast
  have s: "hash_exec w_env (Set ''key'' ''v'') w_hash = (Done True, snd (hash_exec w_env (Set ''key'' ''v'') w_hash))"
    using w_set by (metis prod.collapse)
  show ?thesis
    by (rule hash_find_after_set [OF i _ _ _ s prod.collapse [symmetric]]) (auto simp: w_fits round4_def)
qed

text \<open>
  C22: Growing the table keeps its contents: after \<open>rehash\<close>, whether it found memory or not, every key
  is found with the value it had, and a key that was not stored is still not found.
\<close>

theorem rehash_keeps_contents:
  assumes "hash_inv E h m R"
  shows "map_option snd (fst (hash_find E k (snd (rehash E h)))) = map_option snd (fst (hash_find E k h))"
proof -
  obtain ch tbs where ok: "hash_ok E h ch tbs R" "hmap h ch = m" using assms by (auto simp: hash_inv_def)
  obtain b h' where r: "rehash E h = (b, h')" by fastforce
  have i: "hash_inv E h' m R" using rehash_ok(1) [OF ok(1) r] ok(2) by (auto simp: hash_inv_def)
  show ?thesis using hash_find_ok [OF i, of k] hash_find_ok [OF assms, of k] by (auto simp: r split: prod.splits)
qed

theorem rehash_keeps_contents_witness:
  "map_option snd (fst (hash_find w_env ''key'' (snd (rehash w_env (snd (hash_exec w_env (Set ''key'' ''v'') w_hash)))))) = Some ''v''"
proof -
  obtain R where i: "hash_inv w_env w_hash Map.empty R" using w_hash_inv by blast
  have s: "hash_exec w_env (Set ''key'' ''v'') w_hash = (Done True, snd (hash_exec w_env (Set ''key'' ''v'') w_hash))"
    using w_set by (metis prod.collapse)
  have i1: "hash_inv w_env (snd (hash_exec w_env (Set ''key'' ''v'') w_hash)) [''key'' \<mapsto> ''v''] R"
    using hash_set_ok(1) [OF i _ s] by (simp add: w_fits round4_def)
  show ?thesis
    using rehash_keeps_contents [OF i1, of "''key''"] hash_find_ok [OF i1, of "''key''"] by (auto split: prod.splits)
qed

end
