(* ===== verification/McToken.thy ===== *)
theory McToken
  imports Lsmcd_Prelude
begin

text \<open>
  Lexical layer of the text protocol (\<^verbatim>\<open>memcache/lsmemcache.cpp\<close>): the blank-separated token
  scanner \<open>advToken\<close>, the numeric argument parsers \<open>myStrto*\<close> with the C library conversion
  they call, the \<open>noreply\<close> check, and the command dispatcher \<open>getCmdFunction\<close> with its table.
  A pointer into the command buffer is a position in a byte string.
\<close>

section \<open>Tokens\<close>

definition memchr :: "bytes \<Rightarrow> char \<Rightarrow> nat \<Rightarrow> nat \<Rightarrow> nat option" where
  "memchr buf c p n = find (\<lambda>i. byte_at buf i = c) [p..<p + n]"

function advToken_skip :: "bytes \<Rightarrow> nat \<Rightarrow> nat \<Rightarrow> nat" where
  "advToken_skip buf pStr pStrEnd =
     (if pStr < pStrEnd \<and> byte_at buf pStr = CHR '' '' then advToken_skip buf (Suc pStr) pStrEnd
      else pStr)"
  by pat_completeness auto
termination
  by (relation "measure (\<lambda>(buf, p, e). e - p)") auto

declare advToken_skip.simps [simp del]

text \<open>Result: the position after the token, the token's position and its length.\<close>

definition advToken :: "bytes \<Rightarrow> nat \<Rightarrow> nat \<Rightarrow> nat \<times> nat \<times> nat" where
  "advToken buf pStr pStrEnd =
     (let pStr = advToken_skip buf pStr pStrEnd in
      if pStr \<ge> pStrEnd then (pStrEnd, pStrEnd, 0)
      else
        let pTok = pStr;
            pStr = (case memchr buf CHR '' '' pStr (pStrEnd - pStr) of
                      None \<Rightarrow> pStrEnd | Some q \<Rightarrow> q);
            tokLen = pStr - pTok
        in (if byte_at buf pStr = CHR '' '' then Suc pStr else pStr, pTok, tokLen))"

definition chkEndToken :: "bytes \<Rightarrow> nat \<Rightarrow> nat \<Rightarrow> bool" where
  "chkEndToken buf pStr pStrEnd = (snd (snd (advToken buf pStr pStrEnd)) \<le> 0)"

definition tokNoreply :: bytes where
  "tokNoreply = ''noreply''"

definition chkNoreply :: "bytes \<Rightarrow> nat \<Rightarrow> nat \<Rightarrow> bool" where
  "chkNoreply buf tokPtr tokLen \<longleftrightarrow>
     tokLen = length tokNoreply \<and> rd buf tokPtr tokLen = tokNoreply"

section \<open>Numbers\<close>

definition isspace :: "char \<Rightarrow> bool" where
  "isspace c \<longleftrightarrow> c = CHR '' '' \<or> c = CHR 0x09 \<or> c = CHR 0x0A \<or> c = CHR 0x0B \<or> c = CHR 0x0C \<or> c = CHR 0x0D"

definition isdigit :: "char \<Rightarrow> bool" where
  "isdigit c \<longleftrightarrow> 48 \<le> (of_char c :: nat) \<and> (of_char c :: nat) \<le> 57"

definition dval :: "char \<Rightarrow> nat" where
  "dval c = of_char c - 48"

fun digits_val :: "nat \<Rightarrow> bytes \<Rightarrow> nat" where
  "digits_val acc [] = acc"
| "digits_val acc (c # cs) = digits_val (10 * acc + dval c) cs"

text \<open>
  The scan common to \<open>strtol\<close>, \<open>strtoul\<close>, \<open>strtoll\<close> and \<open>strtoull\<close> in base 10: white space,
  an optional sign, digits. Without a digit nothing is converted (\<open>endptr == pStr\<close>), which is
  \<open>None\<close>; otherwise the sign, the magnitude and the unread rest.
\<close>

definition strto_scan :: "bytes \<Rightarrow> (bool \<times> nat \<times> bytes) option" where
  "strto_scan s =
     (let s1 = dropWhile isspace s;
          neg = (case s1 of c # _ \<Rightarrow> c = CHR ''-'' | [] \<Rightarrow> False);
          s2 = (case s1 of c # cs \<Rightarrow> if c = CHR ''-'' \<or> c = CHR ''+'' then cs else s1 | [] \<Rightarrow> []);
          ds = takeWhile isdigit s2
      in if ds = [] then None else Some (neg, digits_val 0 ds, dropWhile isdigit s2))"

text \<open>The test \<open>*endptr && !isspace(*endptr)\<close> on the unread rest, negated.\<close>

definition end_ok :: "bytes \<Rightarrow> bool" where
  "end_ok rest = (case rest of [] \<Rightarrow> True | c # _ \<Rightarrow> c = CHR 0x00 \<or> isspace c)"

text \<open>
  Unsigned conversions accept a minus sign and negate modulo the width; \<open>ERANGE\<close> is reported when
  the magnitude exceeds the 64-bit maximum. Signed ones report \<open>ERANGE\<close> outside the signed range.
\<close>

definition strtoull :: "bytes \<Rightarrow> (u64 \<times> bytes) option" where
  "strtoull s =
     (case strto_scan s of None \<Rightarrow> None
      | Some (neg, v, rest) \<Rightarrow>
          if 2 ^ 64 \<le> v then None
          else Some (if neg then - of_nat v else of_nat v, rest))"

definition strtoll :: "bytes \<Rightarrow> (u64 \<times> bytes) option" where
  "strtoll s =
     (case strto_scan s of None \<Rightarrow> None
      | Some (neg, v, rest) \<Rightarrow>
          if (if neg then 2 ^ 63 < v else 2 ^ 63 \<le> v) then None
          else Some (if neg then - of_nat v else of_nat v, rest))"

definition myStrtoull :: "bytes \<Rightarrow> nat \<Rightarrow> u64 option" where
  "myStrtoull buf pStr =
     (case strtoull (drop pStr buf) of None \<Rightarrow> None
      | Some (val, rest) \<Rightarrow> if end_ok rest then Some val else None)"

definition myStrtoll :: "bytes \<Rightarrow> nat \<Rightarrow> u64 option" where
  "myStrtoll buf pStr =
     (case strtoll (drop pStr buf) of None \<Rightarrow> None
      | Some (val, rest) \<Rightarrow> if end_ok rest then Some val else None)"

definition myStrtoul :: "bytes \<Rightarrow> nat \<Rightarrow> u32 option" where
  "myStrtoul buf pStr =
     (case strtoull (drop pStr buf) of None \<Rightarrow> None
      | Some (val, rest) \<Rightarrow> if end_ok rest then Some (ucast val) else None)"

definition myStrtol :: "bytes \<Rightarrow> nat \<Rightarrow> u32 option" where
  "myStrtol buf pStr =
     (case strtoll (drop pStr buf) of None \<Rightarrow> None
      | Some (val, rest) \<Rightarrow> if end_ok rest then Some (ucast val) else None)"

section \<open>The command table\<close>

datatype mc_func =
    fn_doCmdTest1 | fn_doCmdTest2 | fn_doCmdPrintTids | fn_doCmdGet | fn_doCmdUpdate | fn_doCmdArithmetic
  | fn_doCmdDelete | fn_doCmdTouch | fn_doCmdStats | fn_doCmdFlush | fn_doCmdVersion | fn_doCmdQuit
  | fn_notImplemented | fn_doCmdVerbosity | fn_doCmdClear

definition LSMC_USECAS :: nat where "LSMC_USECAS = 0x200"
definition LSMC_WITHCAS :: nat where "LSMC_WITHCAS = 0x100"
definition LSMC_CMDMASK :: nat where "LSMC_CMDMASK = 0xff"

definition s_LsMcCmdFuncs :: "(bytes \<times> nat \<times> mc_func) list" where
  "s_LsMcCmdFuncs =
    [(''test1'', 0, fn_doCmdTest1), (''test2'', 0, fn_doCmdTest2), (''printtids'', 0, fn_doCmdPrintTids),
     (''get'', 0x00, fn_doCmdGet), (''bget'', 0x00, fn_doCmdGet), (''gets'', 0x100, fn_doCmdGet),
     (''add'', 0x02, fn_doCmdUpdate), (''set'', 0x01, fn_doCmdUpdate), (''replace'', 0x03, fn_doCmdUpdate),
     (''append'', 0x0e, fn_doCmdUpdate), (''prepend'', 0x0f, fn_doCmdUpdate),
     (''cas'', 0x103, fn_doCmdUpdate), (''incr'', 0x05, fn_doCmdArithmetic),
     (''decr'', 0x06, fn_doCmdArithmetic), (''delete'', 0x04, fn_doCmdDelete),
     (''touch'', 0x1c, fn_doCmdTouch), (''stats'', 0x10, fn_doCmdStats), (''flush_all'', 0, fn_doCmdFlush),
     (''version'', 0x0b, fn_doCmdVersion), (''quit'', 0x07, fn_doCmdQuit),
     (''shutdown'', 0, fn_notImplemented), (''verbosity'', 0x1b, fn_doCmdVerbosity),
     (''clear'', 0, fn_doCmdClear)]"

text \<open>
  \<open>cmd_guess\<close> is the \<open>switch\<close> over the first letters: a table entry that is returned at once
  (\<open>Inl\<close>), or a candidate entry with the number of letters already compared (\<open>Inr\<close>).
\<close>

definition cmd_guess :: "bytes \<Rightarrow> (nat + nat \<times> nat) option" where
  "cmd_guess pCmd =
     (let len = length pCmd; c0 = byte_at pCmd 0; c1 = byte_at pCmd 1; c2 = byte_at pCmd 2 in
      if c0 = CHR ''b'' then Some (Inr (4, 1))
      else if c0 = CHR ''f'' then Some (Inr (17, 1))
      else if c0 = CHR ''i'' then Some (Inr (12, 1))
      else if c0 = CHR ''q'' then Some (Inr (19, 1))
      else if c0 = CHR ''r'' then Some (Inr (8, 1))
      else if c0 = CHR ''a'' then
        (if c1 = CHR ''d'' then Some (Inr (6, 2))
         else if c1 = CHR ''p'' then Some (Inr (9, 2)) else None)
      else if c0 = CHR ''c'' then
        (if c1 = CHR ''a'' then Some (Inr (11, 2))
         else if c1 = CHR ''l'' then Some (Inr (22, 2)) else None)
      else if c0 = CHR ''d'' then
        (if c1 \<noteq> CHR ''e'' then None
         else if c2 = CHR ''c'' then Some (Inr (13, 3))
         else if c2 = CHR ''l'' then Some (Inr (14, 3)) else None)
      else if c0 = CHR ''p'' then
        (if c1 \<noteq> CHR ''r'' then None
         else if c2 = CHR ''i'' then Some (Inr (2, 3))
         else if c2 = CHR ''e'' then Some (Inr (10, 3)) else None)
      else if c0 = CHR ''s'' then
        (if c1 = CHR ''e'' then Some (Inr (7, 2))
         else if c1 = CHR ''t'' then Some (Inr (16, 2))
         else if c1 = CHR ''h'' then Some (Inr (20, 2)) else None)
      else if c0 = CHR ''v'' then
        (if len < 7 \<or> rd pCmd 1 2 \<noteq> ''er'' then None
         else if byte_at pCmd 3 = CHR ''s'' then Some (Inr (18, 4))
         else if byte_at pCmd 3 = CHR ''b'' then Some (Inr (21, 4)) else None)
      else if c0 = CHR ''t'' then
        (if c1 = CHR ''o'' then Some (Inr (15, 2))
         else if len \<noteq> 5 \<or> rd pCmd 1 3 \<noteq> ''est'' then None
         else if byte_at pCmd 4 = CHR ''1'' then Some (Inl 0)
         else if byte_at pCmd 4 = CHR ''2'' then Some (Inl 1) else None)
      else if c0 = CHR ''g'' then
        (if rd pCmd 1 2 = ''et'' then
           (if len = 3 then Some (Inl 3)
            else if len = 4 \<and> byte_at pCmd 3 = CHR ''s'' then Some (Inl 5) else None)
         else None)
      else None)"

definition getCmdFunction :: "bytes \<Rightarrow> nat option" where
  "getCmdFunction pCmd =
     (if length pCmd < 3 then None
      else case cmd_guess pCmd of
        None \<Rightarrow> None
      | Some (Inl i) \<Rightarrow> Some i
      | Some (Inr (iPossible, iOffset)) \<Rightarrow>
          let name = fst (s_LsMcCmdFuncs ! iPossible) in
          if length pCmd = length name \<and>
             rd pCmd iOffset (length pCmd - iOffset) = rd name iOffset (length pCmd - iOffset)
          then Some iPossible else None)"


section \<open>Tokens are the blank-separated words\<close>

text \<open>Reference tokenizer: drop blanks, take the maximal blank-free word, repeat.\<close>

function words :: "bytes \<Rightarrow> bytes list" where
  "words s =
     (let s1 = dropWhile (\<lambda>c. c = CHR '' '') s in
      if s1 = [] then [] else takeWhile (\<lambda>c. c \<noteq> CHR '' '') s1 # words (dropWhile (\<lambda>c. c \<noteq> CHR '' '') s1))"
  by pat_completeness auto
termination
proof (relation "measure length", goal_cases)
  case (2 s s1)
  from 2(2) have "hd s1 \<noteq> CHR '' ''"
    unfolding 2(1) by (rule hd_dropWhile)
  with 2(2) obtain c cs where s1: "s1 = c # cs" and c: "c \<noteq> CHR '' ''" by (cases s1) auto
  then have "length (dropWhile (\<lambda>c. c \<noteq> CHR '' '') s1) \<le> length cs"
    by (simp add: length_dropWhile_le)
  moreover have "length s1 \<le> length s"
    unfolding 2(1) by (rule length_dropWhile_le)
  ultimately show ?case using s1 by simp
qed simp

declare words.simps [simp del]

lemma words_blank_Cons: "words (CHR '' '' # s) = words s"
  by (simp add: words.simps [of "CHR '' '' # s"] words.simps [of s])

lemma rd_step: "p < e \<Longrightarrow> e \<le> length buf \<Longrightarrow> rd buf p (e - p) = buf ! p # rd buf (Suc p) (e - Suc p)"
  by (simp add: rd_def Cons_nth_drop_Suc [symmetric] Suc_diff_Suc take_Cons')

lemma rd_split: "p \<le> q \<Longrightarrow> q \<le> e \<Longrightarrow> rd buf p (e - p) = rd buf p (q - p) @ rd buf q (e - q)"
  using take_add [of "q - p" "e - q" "drop p buf"] by (simp add: rd_def)

lemma set_rd: "e \<le> length buf \<Longrightarrow> c \<in> set (rd buf p (e - p)) \<longleftrightarrow> (\<exists>i. p \<le> i \<and> i < e \<and> c = buf ! i)"
proof -
  assume e: "e \<le> length buf"
  have "c \<in> set (rd buf p (e - p)) \<longleftrightarrow> (\<exists>k. k < e - p \<and> c = buf ! (p + k))"
    using e by (auto simp: rd_def in_set_conv_nth)
  also have "\<dots> \<longleftrightarrow> (\<exists>i. p \<le> i \<and> i < e \<and> c = buf ! i)"
    by (metis add.commute le_add1 le_add_diff_inverse less_diff_conv)
  finally show ?thesis .
qed

lemma advToken_skip_dropWhile:
  "p \<le> e \<Longrightarrow> e \<le> length buf \<Longrightarrow>
     p \<le> advToken_skip buf p e \<and> advToken_skip buf p e \<le> e \<and>
     rd buf (advToken_skip buf p e) (e - advToken_skip buf p e) =
       dropWhile (\<lambda>c. c = CHR '' '') (rd buf p (e - p))"
proof (induction buf p e rule: advToken_skip.induct)
  case (1 buf p e)
  show ?case
  proof (cases "p < e \<and> byte_at buf p = CHR '' ''")
    case True
    then have "advToken_skip buf p e = advToken_skip buf (Suc p) e"
      by (simp add: advToken_skip.simps [of buf p e])
    with 1 True show ?thesis by (auto simp: rd_step)
  next
    case False
    then have "advToken_skip buf p e = p"
      by (subst advToken_skip.simps) auto
    with False "1.prems" show ?thesis
      by (cases "p < e") (simp_all add: rd_step, simp add: rd_def)
  qed
qed

lemma memchr_Some_split:
  assumes "memchr buf c q (e - q) = Some r" and "q \<le> e" and "e \<le> length buf"
  shows "q \<le> r" and "r < e" and "buf ! r = c"
    and "takeWhile (\<lambda>x. x \<noteq> c) (rd buf q (e - q)) = rd buf q (r - q)"
    and "dropWhile (\<lambda>x. x \<noteq> c) (rd buf q (e - q)) = c # rd buf (Suc r) (e - Suc r)"
proof -
  from assms have r: "q \<le> r" "r < e" "byte_at buf r = c" "\<forall>j. q \<le> j \<and> j < r \<longrightarrow> byte_at buf j \<noteq> c"
    by (auto simp: memchr_def find_upt_Some_iff)
  then show "q \<le> r" and "r < e" by auto
  from r assms show hd: "buf ! r = c" by simp
  have split: "rd buf q (e - q) = rd buf q (r - q) @ c # rd buf (Suc r) (e - Suc r)"
    using r assms hd by (simp add: rd_split [of q r e] rd_step [of r e])
  have "\<forall>x \<in> set (rd buf q (r - q)). x \<noteq> c"
    using r assms by (fastforce simp: set_rd)
  then show "takeWhile (\<lambda>x. x \<noteq> c) (rd buf q (e - q)) = rd buf q (r - q)"
    and "dropWhile (\<lambda>x. x \<noteq> c) (rd buf q (e - q)) = c # rd buf (Suc r) (e - Suc r)"
    unfolding split by (simp_all add: takeWhile_append2 dropWhile_append2)
qed

lemma memchr_None_all:
  assumes "memchr buf c q (e - q) = None" and "q \<le> e" and "e \<le> length buf"
  shows "\<forall>x \<in> set (rd buf q (e - q)). x \<noteq> c"
proof -
  from assms have "\<forall>j. q \<le> j \<and> j < e \<longrightarrow> byte_at buf j \<noteq> c"
    by (auto simp: memchr_def find_upt_None_iff)
  with assms(3) show ?thesis by (auto simp: set_rd)
qed

lemma advToken_words_aux:
  assumes "p \<le> e" and "e \<le> length buf" and "advToken buf p e = (p', t, n)"
  shows "words (rd buf p (e - p)) =
           (if n = 0 then [] else rd buf t n # words (rd buf p' (e - p')))"
proof -
  define q where "q = advToken_skip buf p e"
  define s1 where "s1 = rd buf q (e - q)"
  note sk = advToken_skip_dropWhile [OF assms(1,2), folded q_def]
  have s1: "s1 = dropWhile (\<lambda>c. c = CHR '' '') (rd buf p (e - p))" using sk s1_def by simp
  show ?thesis
  proof (cases "e \<le> q")
    case True
    with sk have "s1 = []" by (simp add: s1_def rd_def)
    moreover from True assms(3) have "n = 0" by (simp add: advToken_def q_def [symmetric])
    ultimately show ?thesis using s1 by (subst words.simps) simp
  next
    case False
    then have qe: "q < e" by simp
    then have ne: "s1 \<noteq> []" using assms(2) by (simp add: s1_def rd_step)
    have w: "words (rd buf p (e - p)) = takeWhile (\<lambda>c. c \<noteq> CHR '' '') s1 #
        words (dropWhile (\<lambda>c. c \<noteq> CHR '' '') s1)"
      using s1 ne by (subst words.simps) (simp add: Let_def)
    have hd: "hd s1 \<noteq> CHR '' ''" using ne unfolding s1 by (rule hd_dropWhile)
    then have bq: "buf ! q \<noteq> CHR '' ''" using qe assms(2) by (simp add: s1_def rd_step)
    show ?thesis
    proof (cases "memchr buf CHR '' '' q (e - q)")
      case None
      then have all: "\<forall>x \<in> set s1. x \<noteq> CHR '' ''"
        using memchr_None_all qe assms(2) s1_def by simp
      from None qe assms(3) have "t = q" "n = e - q" "e \<le> p'"
        by (auto simp: advToken_def q_def [symmetric] Let_def split: if_splits)
      have tw: "takeWhile (\<lambda>c. c \<noteq> CHR '' '') s1 = s1" and dw: "dropWhile (\<lambda>c. c \<noteq> CHR '' '') s1 = []"
        using all by (simp_all add: takeWhile_eq_all_conv)
      have nil: "words [] = []" by (subst words.simps) simp
      have "words (rd buf p (e - p)) = [rd buf t n]"
        unfolding w tw dw nil by (simp add: s1_def \<open>t = q\<close> \<open>n = e - q\<close>)
      with qe \<open>n = e - q\<close> \<open>e \<le> p'\<close> nil show ?thesis by (simp add: rd_def [of buf p'])
    next
      case (Some r)
      note m = memchr_Some_split [OF Some less_imp_le [OF qe] assms(2), folded s1_def]
      from Some qe assms(2,3) m(2,3) have "t = q" "n = r - q" "p' = Suc r"
        by (auto simp: advToken_def q_def [symmetric] Let_def split: if_splits)
      moreover from m bq have "q < r" by (metis le_neq_implies_less)
      ultimately show ?thesis unfolding w using m by (simp add: words_blank_Cons)
    qed
  qed
qed

text \<open>
  C37: the scanner is a tokenizer. For every command buffer and region, \<open>advToken\<close> returns length 0
  exactly when only blanks are left, and otherwise the first blank-separated word, leaving a region
  whose words are the remaining ones.
\<close>

theorem advToken_words:
  assumes "p \<le> e" and "e \<le> length buf"
  shows "words (rd buf p (e - p)) =
    (case advToken buf p e of (p', t, n) \<Rightarrow>
       if n = 0 then [] else rd buf t n # words (rd buf p' (e - p')))"
  using advToken_words_aux [OF assms] by (cases "advToken buf p e") auto

theorem advToken_words_witness:
  "words (rd ''set  k1 0'' 3 (9 - 3)) =
    (case advToken ''set  k1 0'' 3 9 of (p', t, n) \<Rightarrow>
       if n = 0 then [] else rd ''set  k1 0'' t n # words (rd ''set  k1 0'' p' (9 - p')))"
  by (rule advToken_words) simp_all

section \<open>Dispatch agrees with the command table\<close>

lemma s_LsMcCmdFuncs_names:
  "map fst s_LsMcCmdFuncs =
    [''test1'', ''test2'', ''printtids'', ''get'', ''bget'', ''gets'', ''add'', ''set'',
     ''replace'', ''append'', ''prepend'', ''cas'', ''incr'', ''decr'', ''delete'', ''touch'',
     ''stats'', ''flush_all'', ''version'', ''quit'', ''shutdown'', ''verbosity'', ''clear'']"
  by (simp add: s_LsMcCmdFuncs_def)

lemma length_s_LsMcCmdFuncs [simp]: "length s_LsMcCmdFuncs = 23"
  by (simp add: s_LsMcCmdFuncs_def)

lemma getCmdFunction_table:
  assumes "i < 23"
  shows "getCmdFunction (fst (s_LsMcCmdFuncs ! i)) = Some i"
proof -
  have "\<forall>i \<in> set [0..<23]. getCmdFunction (fst (s_LsMcCmdFuncs ! i)) = Some i"
    by code_simp
  with assms show ?thesis by simp
qed

lemma cmd_guess_Inr:
  assumes "cmd_guess s = Some (Inr (i, k))" and "3 \<le> length s"
  shows "i < 23 \<and> k \<le> length (fst (s_LsMcCmdFuncs ! i)) \<and> take k s = take k (fst (s_LsMcCmdFuncs ! i))"
proof -
  from assms(2) obtain a b c r where s: "s = a # b # c # r"
    by (metis Suc_le_length_iff numeral_3_eq_3)
  show ?thesis
    using assms(1) unfolding s cmd_guess_def Let_def
    by (cases r) (auto simp: s_LsMcCmdFuncs_def rd_def byte_at_def split: if_splits)
qed

lemma getCmdFunction_sound:
  assumes "getCmdFunction s = Some i"
  shows "i < 23 \<and> fst (s_LsMcCmdFuncs ! i) = s"
proof -
  from assms have len: "3 \<le> length s" by (auto simp: getCmdFunction_def split: if_splits)
  from assms len consider (l) "cmd_guess s = Some (Inl i)"
    | (r) k where "cmd_guess s = Some (Inr (i, k))" "length s = length (fst (s_LsMcCmdFuncs ! i))"
        "drop k s = drop k (fst (s_LsMcCmdFuncs ! i))"
    by (auto simp: getCmdFunction_def Let_def rd_def split: option.splits sum.splits prod.splits if_splits)
  then show ?thesis
  proof cases
    case l
    from len obtain a b c r where s: "s = a # b # c # r"
      by (metis Suc_le_length_iff numeral_3_eq_3)
    show ?thesis using l unfolding s cmd_guess_def Let_def
      by (cases r; cases "tl r") (auto simp: s_LsMcCmdFuncs_def rd_def byte_at_def split: if_splits)
  next
    case r
    then show ?thesis using cmd_guess_Inr [OF r(1) len] by (metis append_take_drop_id)
  qed
qed

text \<open>
  C38: the hand-written \<open>switch\<close> over the first letters is a complete and sound lookup: a token is
  dispatched to entry \<open>i\<close> of the command table exactly when it is that entry's name, and any
  other token is rejected.
\<close>

theorem getCmdFunction_iff:
  "getCmdFunction tok = Some i \<longleftrightarrow> i < length s_LsMcCmdFuncs \<and> fst (s_LsMcCmdFuncs ! i) = tok"
  using getCmdFunction_sound getCmdFunction_table by auto

section \<open>Numbers: printing and parsing\<close>

lemma of_char_dig: "d < 10 \<Longrightarrow> (of_char (dig d) :: nat) = 48 + d"
  by (simp add: dig_def)

lemma isdigit_dig [simp]: "d < 10 \<Longrightarrow> isdigit (dig d)"
  by (simp add: isdigit_def of_char_dig)

lemma dval_dig [simp]: "d < 10 \<Longrightarrow> dval (dig d) = d"
  by (simp add: dval_def of_char_dig)

lemma isdigit_not_space: "isdigit c \<Longrightarrow> \<not> isspace c \<and> c \<noteq> CHR ''-'' \<and> c \<noteq> CHR ''+''"
  by (auto simp: isdigit_def isspace_def)

lemma digits_val_append: "digits_val acc (xs @ ys) = digits_val (digits_val acc xs) ys"
  by (induction xs arbitrary: acc) auto

lemma dec_str_digits: "\<forall>c \<in> set (dec_str n). isdigit c"
proof (induction n rule: dec_str.induct)
  case (1 n)
  then show ?case by (subst dec_str.simps) auto
qed

lemma digits_val_dec_str: "digits_val 0 (dec_str n) = n"
proof (induction n rule: dec_str.induct)
  case (1 n)
  then show ?case by (subst dec_str.simps) (auto simp: digits_val_append)
qed

lemma end_ok_not_digit: "end_ok rest \<Longrightarrow> takeWhile isdigit rest = [] \<and> dropWhile isdigit rest = rest"
  by (cases rest) (auto simp: end_ok_def isdigit_def isspace_def)

lemma strto_scan_dec_str:
  assumes "end_ok rest"
  shows "strto_scan (dec_str n @ rest) = Some (False, n, rest)"
proof -
  obtain c cs where d: "dec_str n = c # cs" by (meson dec_str_nonempty neq_Nil_conv)
  then have c: "\<not> isspace c" "c \<noteq> CHR ''-''" "c \<noteq> CHR ''+''"
    using dec_str_digits [of n] isdigit_not_space by auto
  have "takeWhile isdigit (dec_str n @ rest) = dec_str n" "dropWhile isdigit (dec_str n @ rest) = rest"
    using dec_str_digits [of n] end_ok_not_digit [OF assms]
    by (simp_all add: takeWhile_append2 dropWhile_append2)
  moreover have "dropWhile isspace (dec_str n @ rest) = dec_str n @ rest" using d c by simp
  ultimately show ?thesis
    using d c digits_val_dec_str [of n] unfolding strto_scan_def Let_def by simp
qed

text \<open>
  C39: a decimal numeral below \<open>2^64\<close> that ends the token is read back as its value by
  \<open>myStrtoull\<close>; from \<open>2^64\<close> on, and on a numeral followed by a stray character, it fails.
\<close>

theorem myStrtoull_roundtrip:
  assumes "end_ok rest"
  shows "myStrtoull (pre @ dec_str n @ rest) (length pre) = (if n < 2 ^ 64 then Some (of_nat n) else None)"
  using strto_scan_dec_str [OF assms] assms by (simp add: myStrtoull_def strtoull_def)

theorem myStrtoull_roundtrip_witness:
  "myStrtoull (''incr k '' @ dec_str 42 @ '' noreply'') (length ''incr k '') =
     (if (42::nat) < 2 ^ 64 then Some (of_nat 42) else None)"
  by (rule myStrtoull_roundtrip) (simp add: end_ok_def isspace_def)

lemma ucast_of_nat_u64: "(ucast (of_nat n :: u64) :: u32) = of_nat n"
  by (rule bit_word_eqI) (simp add: bit_simps)

lemma of_nat_mod_u32: "(of_nat (n mod 4294967296) :: u32) = of_nat n"
  using word_of_nat_eq_iff [where ?'a = 32, of "n mod 2 ^ 32" n] by (simp add: take_bit_eq_mod)

text \<open>
  C40: the 32-bit readers used for the flags and the length of an update keep only the low 32 bits
  of a numeral the C library accepts, without an error: \<open>2^32 + 5\<close> is read as 5.
\<close>

theorem myStrtoul_wraps:
  assumes "end_ok rest"
  shows "myStrtoul (pre @ dec_str n @ rest) (length pre) =
           (if n < 2 ^ 64 then Some (of_nat (n mod 2 ^ 32)) else None) \<and>
         myStrtol (pre @ dec_str n @ rest) (length pre) =
           (if n < 2 ^ 63 then Some (of_nat (n mod 2 ^ 32)) else None)"
  using strto_scan_dec_str [OF assms] assms
  by (simp add: myStrtoul_def strtoull_def myStrtol_def strtoll_def ucast_of_nat_u64 of_nat_mod_u32
      del: of_nat_numeral)

theorem myStrtoul_wraps_witness:
  "myStrtoul (''set k 0 0 '' @ dec_str 4294967301 @ []) (length ''set k 0 0 '') =
     (if (4294967301::nat) < 2 ^ 64 then Some (of_nat (4294967301 mod 2 ^ 32)) else None) \<and>
   myStrtol (''set k 0 0 '' @ dec_str 4294967301 @ []) (length ''set k 0 0 '') =
     (if (4294967301::nat) < 2 ^ 63 then Some (of_nat (4294967301 mod 2 ^ 32)) else None)"
  by (rule myStrtoul_wraps) (simp add: end_ok_def)

end
