(* ===== verification/McItem.thy ===== *)
theory McItem
  imports LsShmHashOps McToken
begin

text \<open>
  The state of the memcached engine (\<^verbatim>\<open>memcache/lsmemcache.h\<close>) and what all its commands share:
  the item record stored in front of every value, the statistics, the slices, the connection, and the
  response functions of \<^verbatim>\<open>memcache/lsmemcache.cpp\<close>. SASL and per-user tables are not modelled:
  \<open>m_usesasl\<close> only blocks the text protocol, as in \<open>processCmd\<close>.
\<close>

section \<open>Stored items\<close>

text \<open>
  A value area starts with the expiration time (8 bytes), the flags (4 bytes) and 4 bytes of
  padding; with \<open>m_usecas\<close> 8 bytes of cas follow; then the data.
\<close>

definition sizeof_item :: nat where [lay_simps]: "sizeof_item = 16"
definition sizeof_cas :: nat where [lay_simps]: "sizeof_cas = 8"
definition KEY_MAXLEN :: nat where [lay_simps]: "KEY_MAXLEN = 250"
definition ULL_MAXLEN :: nat where [lay_simps]: "ULL_MAXLEN = 24"
definition LSMC_MAXDELTATIME :: int where "LSMC_MAXDELTATIME = 60 * 60 * 24 * 30"

definition enc_time :: "int \<Rightarrow> bytes" where
  "enc_time t = le_enc 8 (nat (t mod 2 ^ 64))"

definition dec_time :: "bytes \<Rightarrow> int" where
  "dec_time bs = (let n = int (le_dec bs) in if n < 2 ^ 63 then n else n - 2 ^ 64)"

record LsMcDataItem =
  it_exptime :: int
  it_flags :: u32
  it_pad :: bytes

definition enc_item :: "LsMcDataItem \<Rightarrow> bytes" where
  "enc_item it = enc_time (it_exptime it) @ le_enc 4 (unat (it_flags it)) @ take 4 (it_pad it @ replicate 4 CHR 0x00)"

definition x_exptime :: "bytes \<Rightarrow> int" where
  "x_exptime v = dec_time (rd v 0 8)"

definition x_flags :: "bytes \<Rightarrow> u32" where
  "x_flags v = of_nat (le_dec (rd v 8 4))"

definition x_pad :: "bytes \<Rightarrow> bytes" where
  "x_pad v = rd v 12 4"

definition x_cas :: "bytes \<Rightarrow> u64" where
  "x_cas v = of_nat (le_dec (rd v sizeof_item 8))"

definition item_of :: "bytes \<Rightarrow> LsMcDataItem" where
  "item_of v = \<lparr>it_exptime = x_exptime v, it_flags = x_flags v, it_pad = x_pad v\<rparr>"

text \<open>\<open>mcIter2data\<close>: position and length of the data in an element's value.\<close>

definition data_off :: "bool \<Rightarrow> nat" where
  "data_off usecas = sizeof_item + (if usecas then sizeof_cas else 0)"

definition mcIter2data :: "LsShmHElem \<Rightarrow> bool \<Rightarrow> nat \<times> nat" where
  "mcIter2data iter usecas = (data_off usecas, e_valLen iter - data_off usecas)"

definition mcIter2num :: "LsShmHElem \<Rightarrow> bool \<Rightarrow> u64 option" where
  "mcIter2num iter usecas =
     (case mcIter2data iter usecas of (valPtr, valLen) \<Rightarrow>
        if valLen = 0 \<or> valLen > ULL_MAXLEN then None
        else myStrtoull (rd (e_val iter) valPtr valLen) 0)"

definition isExpired :: "env \<Rightarrow> bytes \<Rightarrow> bool" where
  "isExpired E v \<longleftrightarrow> x_exptime v \<noteq> 0 \<and> x_exptime v \<le> time_now E"

text \<open>\<open>setItemExptime\<close>: relative times are made absolute in 32-bit arithmetic.\<close>

definition setItemExptime :: "env \<Rightarrow> u32 \<Rightarrow> bytes \<Rightarrow> bytes" where
  "setItemExptime E exptime v =
     (let exptime = (if exptime \<noteq> 0 \<and> uint exptime \<le> LSMC_MAXDELTATIME
                     then exptime + of_int (time_now E) else exptime)
      in wr v 0 (enc_time (uint exptime)))"

section \<open>State\<close>

record LsMcStats =
  set_cmds :: u64
  flush_cmds :: u64
  get_hits :: u64
  get_misses :: u64
  touch_hits :: u64
  touch_misses :: u64
  delete_hits :: u64
  delete_misses :: u64
  incr_hits :: u64
  incr_misses :: u64
  decr_hits :: u64
  decr_misses :: u64
  cas_hits :: u64
  cas_misses :: u64
  cas_badval :: u64
  auth_cmds :: u64
  auth_errors :: u64

text \<open>
  A slice: its hash, its header (\<open>LsMcHdr\<close>, at offset \<open>hdrOff\<close>, 0 when there is none), the
  size recorded for the header, and the state of the connection to the slice's master with what was
  forwarded on it.
\<close>

record LsMcHashSlice =
  sl_hash :: LsShmHash
  hdrOff :: off
  helper_size :: nat
  x_verbose :: u8
  x_stats :: LsMcStats
  hdr_cas :: u64
  x_withcas :: bool
  x_withsasl :: bool
  sl_connected :: bool
  sl_rembusy :: bool
  sl_fwd :: bytes

record MemcacheConn =
  c_out :: bytes
  cs_internal :: bool
  cs_cmdwait :: bool
  cs_respwait :: bool

record LsMcParms =
  m_usecas :: bool
  m_usesasl :: bool
  m_anonymous :: bool
  m_nomemfail :: bool
  m_iValMaxSz :: nat
  m_iMemMaxSz :: u32
  cfg_replication :: bool

datatype updret =
    UPDRET_DONE | UPDRET_NOTFOUND | UPDRET_NONNUMERIC | UPDRET_EEXISTS | UPDRET_APPEND
  | UPDRET_PREPEND | UPDRET_NONE | UPDRET_INTERNAL_ERROR

text \<open>\<open>UPDRET_CASFAIL\<close> is the same code as \<open>UPDRET_EEXISTS\<close>.\<close>

abbreviation UPDRET_CASFAIL :: updret where
  "UPDRET_CASFAIL \<equiv> UPDRET_EEXISTS"

record LsMemcache =
  m_slices :: "LsMcHashSlice list"
  m_cur :: nat
  m_conn :: MemcacheConn
  m_hkey :: u32
  mp_key :: bytes
  mp_vallen :: nat
  m_item :: LsMcDataItem
  m_iterOff :: off
  m_rescas :: u64
  m_needed :: nat
  m_retcode :: updret
  m_noreply :: bool
  m_mcparms :: LsMcParms
  m_notes :: nat

abbreviation cur_slice :: "LsMemcache \<Rightarrow> LsMcHashSlice" where
  "cur_slice m \<equiv> m_slices m ! m_cur m"

abbreviation getHash :: "LsMemcache \<Rightarrow> LsShmHash" where
  "getHash m \<equiv> sl_hash (cur_slice m)"

definition on_cur :: "(LsMcHashSlice \<Rightarrow> LsMcHashSlice) \<Rightarrow> LsMemcache \<Rightarrow> LsMemcache" where
  "on_cur f m = m\<lparr>m_slices := (m_slices m)[m_cur m := f (cur_slice m)]\<rparr>"

definition set_hash :: "LsShmHash \<Rightarrow> LsMemcache \<Rightarrow> LsMemcache" where
  "set_hash h m = on_cur (\<lambda>s. s\<lparr>sl_hash := h\<rparr>) m"

definition stat_upd :: "(LsMcStats \<Rightarrow> LsMcStats) \<Rightarrow> LsMemcache \<Rightarrow> LsMemcache" where
  "stat_upd f m = (if hdrOff (cur_slice m) \<noteq> 0 then on_cur (\<lambda>s. s\<lparr>LsMcHashSlice.x_stats := f (LsMcHashSlice.x_stats s)\<rparr>) m else m)"

definition getCas :: "LsMemcache \<Rightarrow> u64 \<times> LsMemcache" where
  "getCas m =
     (if hdrOff (cur_slice m) \<noteq> 0
      then (hdr_cas (cur_slice m) + 1, on_cur (\<lambda>s. s\<lparr>hdr_cas := hdr_cas s + 1\<rparr>) m) else (0, m))"

definition parmAdjLen :: "LsMemcache \<Rightarrow> nat \<Rightarrow> nat" where
  "parmAdjLen m valLen = valLen + data_off (m_usecas (m_mcparms m))"

definition chkItemSize :: "LsMemcache \<Rightarrow> nat \<Rightarrow> bool" where
  "chkItemSize m sz \<longleftrightarrow> m_iValMaxSz (m_mcparms m) = 0 \<or> sz mod 2 ^ 32 \<le> m_iValMaxSz (m_mcparms m)"

definition isTidMaster :: "LsMcHashSlice \<Rightarrow> bool" where
  "isTidMaster s \<longleftrightarrow> \<not> flag_tid_slave (sl_hash s)"

section \<open>Slices\<close>

definition key2hashNum :: "u32 \<Rightarrow> LsMemcache \<Rightarrow> nat" where
  "key2hashNum hkey m = (if length (m_slices m) \<le> 1 then 0 else unat hkey mod length (m_slices m))"

definition setSlice :: "env \<Rightarrow> bytes \<Rightarrow> LsMemcache \<Rightarrow> LsMemcache" where
  "setSlice E key m = m\<lparr>m_hkey := m_hf E key, m_cur := key2hashNum (m_hf E key) m\<rparr>"

definition putWaitQ :: "LsMemcache \<Rightarrow> LsMemcache" where
  "putWaitQ m = m\<lparr>m_conn := (m_conn m)\<lparr>cs_cmdwait := True\<rparr>\<rparr>"

definition canProcessNow :: "env \<Rightarrow> bytes \<Rightarrow> LsMemcache \<Rightarrow> bool \<times> LsMemcache" where
  "canProcessNow E key m =
     (let m = setSlice E key m in
      if \<not> cfg_replication (m_mcparms m) then (True, m)
      else if \<not> isTidMaster (cur_slice m) \<and> sl_rembusy (cur_slice m) then (False, putWaitQ m)
      else (True, m))"

section \<open>Responses\<close>

definition htons :: "nat \<Rightarrow> bytes" where
  "htons n = rev (le_enc 2 n)"

definition emit :: "bytes \<Rightarrow> LsMemcache \<Rightarrow> LsMemcache" where
  "emit s m = m\<lparr>m_conn := (m_conn m)\<lparr>c_out := c_out (m_conn m) @ s\<rparr>\<rparr>"

definition CRLF :: bytes where "CRLF = [CHR 0x0D, CHR 0x0A]"

text \<open>\<open>buf2lenNbuf\<close>: an internal connection gets every response with its length in front.\<close>

definition buf2lenNbuf :: "bytes \<Rightarrow> bytes" where
  "buf2lenNbuf s = htons (length s + 2) @ s"

definition ackNoreply :: "LsMemcache \<Rightarrow> LsMemcache" where
  "ackNoreply m = emit (htons 2) m"

definition respond :: "bytes \<Rightarrow> LsMemcache \<Rightarrow> LsMemcache" where
  "respond str m =
     (if m_noreply m then
        let m = (if cs_internal (m_conn m) then ackNoreply m else m)
        in m\<lparr>m_noreply := False\<rparr>
      else if cs_internal (m_conn m) then
        let str = (if length str > 1024 then ''SERVER_ERROR Response too large'' @ CRLF else str)
        in emit (buf2lenNbuf str) m
      else emit str m)"

definition sendResult :: "bytes \<Rightarrow> LsMemcache \<Rightarrow> LsMemcache" where
  "sendResult str m = (if cs_internal (m_conn m) then m else emit str m)"

definition binRespond :: "bytes \<Rightarrow> LsMemcache \<Rightarrow> LsMemcache" where
  "binRespond buf m =
     (if m_noreply m then
        let m = (if cs_internal (m_conn m) then ackNoreply m else m)
        in m\<lparr>m_noreply := False\<rparr>
      else
        let m = (if cs_internal (m_conn m) then emit (htons (length buf + 2)) m else m)
        in emit buf m)"

definition notifyChange :: "LsMemcache \<Rightarrow> LsMemcache" where
  "notifyChange m =
     (if cfg_replication (m_mcparms m) \<and> isTidMaster (cur_slice m) then m\<lparr>m_notes := m_notes m + 1\<rparr> else m)"

definition fwdCommand :: "bytes \<Rightarrow> LsMemcache \<Rightarrow> LsMemcache" where
  "fwdCommand buf m =
     (if \<not> cfg_replication (m_mcparms m) then m
      else (on_cur (\<lambda>s. s\<lparr>sl_fwd := sl_fwd s @ buf, sl_rembusy := True\<rparr>) m)
             \<lparr>m_conn := (m_conn m)\<lparr>cs_respwait := True\<rparr>\<rparr>)"

text \<open>\<open>fwdToRemote\<close>: the command line up to \<open>pNxt\<close> with its newline restored.\<close>

definition fwdToRemote :: "bytes \<Rightarrow> nat \<Rightarrow> LsMemcache \<Rightarrow> bool \<times> LsMemcache" where
  "fwdToRemote buf pNxt m =
     (if cfg_replication (m_mcparms m) \<and> \<not> isTidMaster (cur_slice m) then
        if sl_connected (cur_slice m) then
          (True, fwdCommand (rd (wr buf (pNxt - 1) [CHR 0x0A]) 0 pNxt) m)
        else (True, respond (''SERVER_ERROR unable to forward'' @ CRLF) m)
      else (False, m))"

end
