(* ===== verification/McCmd.thy ===== *)
theory McCmd
  imports McItem
begin

text \<open>
  The text protocol of \<^verbatim>\<open>memcache/lsmemcache.cpp\<close>: the storage primitives \<open>doHashInsert\<close>,
  \<open>doHashUpdate\<close>, \<open>chkMemSz\<close> and \<open>dataItemUpdate\<close> that both protocols use, one definition per
  command handler, and the command loop step \<open>processCmd\<close>. Locking is not modelled: an operation
  runs from \<open>lock\<close> to \<open>unlock\<close> without interference.

  A handler gets the command buffer, the argument region \<open>[kp, ke)\<close>, the position \<open>pNxt\<close> behind
  the command line and the number \<open>iLen\<close> of bytes that follow it; it returns the code's integer.
\<close>

section \<open>Update options\<close>

record LsMcUpdOpt =
  o_cmd :: nat
  o_withcas :: bool
  o_usecas :: bool
  o_retcode :: updret
  o_value :: u64
  o_cas :: u64

definition MC_BINCMD_GET :: nat where "MC_BINCMD_GET = 0x00"
definition MC_BINCMD_SET :: nat where "MC_BINCMD_SET = 0x01"
definition MC_BINCMD_ADD :: nat where "MC_BINCMD_ADD = 0x02"
definition MC_BINCMD_REPLACE :: nat where "MC_BINCMD_REPLACE = 0x03"
definition MC_BINCMD_DELETE :: nat where "MC_BINCMD_DELETE = 0x04"
definition MC_BINCMD_INCREMENT :: nat where "MC_BINCMD_INCREMENT = 0x05"
definition MC_BINCMD_DECREMENT :: nat where "MC_BINCMD_DECREMENT = 0x06"
definition MC_BINCMD_FLUSH :: nat where "MC_BINCMD_FLUSH = 0x08"
definition MC_BINCMD_APPEND :: nat where "MC_BINCMD_APPEND = 0x0e"
definition MC_BINCMD_PREPEND :: nat where "MC_BINCMD_PREPEND = 0x0f"

lemmas cmd_codes = MC_BINCMD_GET_def MC_BINCMD_SET_def MC_BINCMD_ADD_def MC_BINCMD_REPLACE_def
  MC_BINCMD_DELETE_def MC_BINCMD_INCREMENT_def MC_BINCMD_DECREMENT_def MC_BINCMD_FLUSH_def
  MC_BINCMD_APPEND_def MC_BINCMD_PREPEND_def

section \<open>Storage primitives\<close>

definition valarg_of :: "LsMemcache \<Rightarrow> valarg" where
  "valarg_of m = (None, mp_vallen m)"

definition doHashInsert :: "env \<Rightarrow> LsMcUpdOpt \<Rightarrow> LsMemcache \<Rightarrow> off \<times> LsMcUpdOpt \<times> LsMemcache" where
  "doHashInsert E opt m =
     (let h = getHash m; iterOff = find2 (m_hkey m) (mp_key m) h in
      if iterOff \<noteq> 0 then
        case offset2iteratorData iterOff h of
          (None, h) \<Rightarrow>
            (iterOff, opt\<lparr>o_retcode := UPDRET_INTERNAL_ERROR\<rparr>,
             (set_hash h m)\<lparr>m_retcode := UPDRET_INTERNAL_ERROR\<rparr>)
        | (Some item, h) \<Rightarrow>
            if isExpired E item then
              let (iterOff, h) = doSet E iterOff (m_hkey m) (mp_key m) (valarg_of m) h
              in (iterOff, opt\<lparr>o_retcode := UPDRET_DONE\<rparr>, set_hash h m)
            else (0, opt\<lparr>o_retcode := UPDRET_EEXISTS\<rparr>, set_hash h m)
      else
        let (iterOff, h) = doInsert E iterOff (m_hkey m) (mp_key m) (valarg_of m) h
        in (iterOff, opt, set_hash h m))"

text \<open>
  \<open>doHashUpdate\<close>; beside the offset it returns the options with their return code and the number
  buffer \<open>m_pMisc\<close>, which only the arithmetic commands fill. For these the item header also goes
  to \<open>m_item\<close> (\<open>m_pRet\<close>).
\<close>

definition arith :: "nat \<Rightarrow> u64 \<Rightarrow> u64 \<Rightarrow> u64" where
  "arith cmd delta num =
     (if cmd = MC_BINCMD_INCREMENT then num + delta
      else if delta > num then 0 else num - delta)"

definition doHashUpdate :: "env \<Rightarrow> LsMcUpdOpt \<Rightarrow> LsMemcache \<Rightarrow> off \<times> LsMcUpdOpt \<times> bytes \<times> LsMemcache" where
  "doHashUpdate E opt m =
     (let iterOff = find2 (m_hkey m) (mp_key m) (getHash m) in
      if iterOff = 0 then (0, opt\<lparr>o_retcode := UPDRET_NOTFOUND\<rparr>, [], m)
      else case offset2iterator iterOff (getHash m) of
        (None, h) \<Rightarrow> (0, opt, [], (set_hash h m)\<lparr>m_retcode := UPDRET_INTERNAL_ERROR\<rparr>)
      | (Some iter, h) \<Rightarrow>
          if isExpired E (e_val iter) then
            (0, opt\<lparr>o_retcode := UPDRET_NOTFOUND\<rparr>, [], set_hash (eraseIteratorHelper E iterOff h) m)
          else if (o_withcas opt \<or> o_cas opt \<noteq> 0) \<and> x_cas (e_val iter) \<noteq> o_cas opt then
            (0, opt\<lparr>o_retcode := UPDRET_CASFAIL\<rparr>, [], set_hash h m)
          else if o_cmd opt = MC_BINCMD_INCREMENT \<or> o_cmd opt = MC_BINCMD_DECREMENT then
            (case mcIter2num iter (o_usecas opt) of
               None \<Rightarrow> (0, opt\<lparr>o_retcode := UPDRET_NONNUMERIC\<rparr>, [], set_hash h m)
             | Some num \<Rightarrow>
                 let numBuf = dec_str (unat (arith (o_cmd opt) (o_value opt) num));
                     m = m\<lparr>mp_vallen := mp_vallen m + length numBuf, m_item := item_of (e_val iter)\<rparr>;
                     (iterOff, h) = doUpdate E iterOff (m_hkey m) (mp_key m) (valarg_of m) h
                 in (iterOff, opt, numBuf, set_hash h m))
          else if o_cmd opt = MC_BINCMD_APPEND \<or> o_cmd opt = MC_BINCMD_PREPEND then
            let lenExp = mp_vallen m; (iterOff, h) = iterGrowValue E iterOff lenExp False h in
            if iterOff = 0 \<or> o_cmd opt = MC_BINCMD_APPEND then (iterOff, opt, [], set_hash h m)
            else (case offset2iterator iterOff h of
              (None, h) \<Rightarrow> (0, opt\<lparr>o_retcode := UPDRET_INTERNAL_ERROR\<rparr>, [], set_hash h m)
            | (Some iter, h) \<Rightarrow>
                let (valPtr, valLen) = mcIter2data iter (o_usecas opt);
                    h = upd_elem iterOff (\<lambda>e. e\<lparr>e_val := wr (e_val e) (valPtr + lenExp)
                                                    (rd (e_val e) valPtr (valLen - lenExp))\<rparr>) h
                in (iterOff, opt, [], set_hash h m))
          else
            let opt = (if o_cmd opt = MC_BINCMD_REPLACE then opt\<lparr>o_retcode := UPDRET_DONE\<rparr> else opt);
                (iterOff, h) = doUpdate E iterOff (m_hkey m) (mp_key m) (valarg_of m) h
            in (iterOff, opt, [], set_hash h m))"

datatype McBinStat =
    MC_BINSTAT_SUCCESS | MC_BINSTAT_KEYENOENT | MC_BINSTAT_KEYEEXISTS | MC_BINSTAT_E2BIG
  | MC_BINSTAT_EINVAL | MC_BINSTAT_NOTSTORED | MC_BINSTAT_DELTABADVAL | MC_BINSTAT_AUTHERROR
  | MC_BINSTAT_REMOTEERROR | MC_BINSTAT_UNKNOWNCMD | MC_BINSTAT_ENOMEM | MC_BINSTAT_INTERNAL_ERROR

text \<open>
  \<open>chkMemSz\<close>: refuse values above the limit (dropping the old value of a \<open>set\<close>), and trim the
  least recently used elements when the accounted memory would exceed the maximum. The sums are 32-bit.
\<close>

definition chkMemSz :: "env \<Rightarrow> nat \<Rightarrow> LsMemcache \<Rightarrow> McBinStat \<times> LsMemcache" where
  "chkMemSz E arg m =
     (if arg = MC_BINCMD_FLUSH then (MC_BINSTAT_SUCCESS, m)
      else if \<not> chkItemSize m (mp_vallen m) then
        let m = (if arg = MC_BINCMD_SET then
                   let iterOff = find2 (m_hkey m) (mp_key m) (getHash m) in
                   if iterOff \<noteq> 0 then set_hash (eraseIteratorHelper E iterOff (getHash m)) m else m
                 else m)
        in (MC_BINSTAT_E2BIG, m)
      else
        let more = (if arg = MC_BINCMD_ADD \<or> arg = MC_BINCMD_SET then
                      size2roundSize (round4 (length (mp_key m)) + sizeof_vardata + round4 (mp_vallen m)
                        + sizeof_vardata + sizeof_HElem + iterExtraSpace (getHash m))
                    else size2roundSize (mp_vallen m));
            total_sz = m_iHashInUse (getHash m) + of_nat more - of_nat (helper_size (cur_slice m));
            memMax = m_iMemMaxSz (m_mcparms m)
        in
        if total_sz > memMax then
          if m_nomemfail (m_mcparms m) then (MC_BINSTAT_ENOMEM, m)
          else
            let need = sint ((total_sz - memMax) * 8 :: u32);
                (rc, h) = trimsize E need None (getHash m);
                m = set_hash h m
            in
            if m_iHashInUse h > memMax then (MC_BINSTAT_ENOMEM, set_hash (rebuild h) m)
            else (MC_BINSTAT_SUCCESS, m)
        else (MC_BINSTAT_SUCCESS, m))"

text \<open>\<open>dataItemUpdate\<close>: header, cas and data go into the element at \<open>m_iterOff\<close>.\<close>

definition dataItemUpdate :: "bytes \<Rightarrow> LsMemcache \<Rightarrow> LsMemcache" where
  "dataItemUpdate pBuf m =
     (case offset2iterator (m_iterOff m) (getHash m) of
        (None, h) \<Rightarrow> (set_hash h m)\<lparr>m_retcode := UPDRET_INTERNAL_ERROR\<rparr>
      | (Some iter, h) \<Rightarrow>
          let usecas = m_usecas (m_mcparms m);
              (valPtr, valLen) = mcIter2data iter usecas;
              (valPtr, valLen) =
                (if m_retcode m = UPDRET_APPEND then (e_valLen iter - mp_vallen m, mp_vallen m)
                 else if m_retcode m = UPDRET_PREPEND then (valPtr, mp_vallen m)
                 else (valPtr, valLen));
              lasttime = (if getLruLinkPtr h (m_iterOff m) iter then x_lasttime iter else 0);
              fresh = (m_retcode m \<noteq> UPDRET_APPEND \<and> m_retcode m \<noteq> UPDRET_PREPEND);
              m = (if fresh \<and> it_exptime (m_item m) \<noteq> 0 \<and> it_exptime (m_item m) \<le> LSMC_MAXDELTATIME
                   then m\<lparr>m_item := (m_item m)\<lparr>it_exptime := it_exptime (m_item m) + lasttime\<rparr>\<rparr> else m);
              val = (if fresh then wr (e_val iter) 0 (enc_item (m_item m)) else e_val iter);
              (val, m) = (if usecas then
                            let (cas, m) = getCas m
                            in (wr val sizeof_item (le_enc 8 (unat cas)), m\<lparr>m_rescas := cas\<rparr>)
                          else (val, m));
              val = (if valLen > 0 then wr val valPtr (take valLen pBuf) else val)
          in (set_hash (upd_elem (m_iterOff m) (\<lambda>e. e\<lparr>e_val := val\<rparr>) h) m)\<lparr>m_needed := 0\<rparr>)"

definition doDataUpdate :: "bytes \<Rightarrow> LsMemcache \<Rightarrow> LsMemcache" where
  "doDataUpdate pBuf m =
     (if mp_key m = [] then respond (''CLIENT_ERROR invalid data update'' @ CRLF) m
      else
        let m = m\<lparr>mp_key := []\<rparr> in
        if m_iterOff m \<noteq> 0 then
          let m = notifyChange (dataItemUpdate pBuf m);
              m = (if m_retcode m \<noteq> UPDRET_NONE then respond (''STORED'' @ CRLF) m else m)
          in m\<lparr>m_iterOff := 0\<rparr>
        else if m_retcode m = UPDRET_NOTFOUND then respond (''NOT_FOUND'' @ CRLF) m
        else if m_retcode m = UPDRET_CASFAIL then respond (''EXISTS'' @ CRLF) m
        else respond (''NOT_STORED'' @ CRLF) m)"

section \<open>Storage commands\<close>

definition badCmdLineFmt :: bytes where
  "badCmdLineFmt = ''CLIENT_ERROR bad command line format'' @ CRLF"

definition errorStr :: bytes where
  "errorStr = ''ERROR'' @ CRLF"

text \<open>The \<open>switch\<close> of \<open>doCmdUpdate\<close> over the command code; false for the unhandled codes.\<close>

definition update_switch :: "env \<Rightarrow> nat \<Rightarrow> LsMcUpdOpt \<Rightarrow> LsMemcache \<Rightarrow> bool \<times> LsMemcache" where
  "update_switch E arg opt m =
     (if arg = MC_BINCMD_ADD then
        let (iterOff, opt, m) = doHashInsert E opt m
        in (True, m\<lparr>m_iterOff := iterOff, m_retcode := UPDRET_DONE\<rparr>)
      else if arg = MC_BINCMD_SET then
        let h = getHash m;
            (iterOff, h) = doSet E (find2 (m_hkey m) (mp_key m) h) (m_hkey m) (mp_key m) (valarg_of m) h
        in (True, (set_hash h m)\<lparr>m_iterOff := iterOff, m_retcode := UPDRET_DONE\<rparr>)
      else if arg = MC_BINCMD_REPLACE then
        let (iterOff, opt, _, m) = doHashUpdate E opt m
        in (True, m\<lparr>m_iterOff := iterOff, m_retcode := UPDRET_DONE\<rparr>)
      else if arg = MC_BINCMD_APPEND then
        let (iterOff, opt, _, m) = doHashUpdate E opt m
        in (True, m\<lparr>m_iterOff := iterOff, m_retcode := UPDRET_APPEND\<rparr>)
      else if arg = MC_BINCMD_PREPEND then
        let (iterOff, opt, _, m) = doHashUpdate E opt m
        in (True, m\<lparr>m_iterOff := iterOff, m_retcode := UPDRET_PREPEND\<rparr>)
      else if arg = MC_BINCMD_REPLACE + LSMC_WITHCAS then
        let (iterOff, opt, _, m) = doHashUpdate E opt m;
            m = m\<lparr>m_iterOff := iterOff, m_retcode := o_retcode opt\<rparr>;
            m = (if m_retcode m = UPDRET_NOTFOUND then stat_upd (\<lambda>s. s\<lparr>cas_misses := cas_misses s + 1\<rparr>) m
                 else if m_retcode m = UPDRET_CASFAIL then stat_upd (\<lambda>s. s\<lparr>cas_badval := cas_badval s + 1\<rparr>) m
                 else stat_upd (\<lambda>s. s\<lparr>cas_hits := cas_hits s + 1\<rparr>) m)
        in (True, m)
      else (False, m))"

text \<open>The second half of \<open>doCmdUpdate\<close>, from the memory check to the response.\<close>

definition update_store :: "env \<Rightarrow> nat \<Rightarrow> LsMcUpdOpt \<Rightarrow> nat \<Rightarrow> bytes \<Rightarrow> LsMemcache \<Rightarrow> int \<times> LsMemcache" where
  "update_store E arg opt len1 pBuf m =
     (let ret_len = (if len1 \<noteq> 0 then int len1 + 2 else 0); (st, m) = chkMemSz E arg m in
      if st \<noteq> MC_BINSTAT_SUCCESS then
        (ret_len,
         respond (if st = MC_BINSTAT_E2BIG then ''SERVER_ERROR object too large for cache'' @ CRLF
                  else ''SERVER_ERROR out of memory storing object'' @ CRLF) m)
      else
        let m = stat_upd (\<lambda>s. s\<lparr>set_cmds := set_cmds s + 1\<rparr>) m;
            (handled, m) = update_switch E arg opt m
        in
        if \<not> handled then (0, respond (''SERVER_ERROR unhandled type'' @ CRLF) m)
        else (ret_len, doDataUpdate pBuf (m\<lparr>m_needed := len1\<rparr>)))"

definition doCmdUpdate :: "env \<Rightarrow> bytes \<Rightarrow> nat \<Rightarrow> nat \<Rightarrow> nat \<Rightarrow> nat \<Rightarrow> nat \<Rightarrow> LsMemcache \<Rightarrow> int \<times> LsMemcache" where
  "doCmdUpdate E buf kp ke pNxt iLen arg m =
     (let withcas = (arg div LSMC_WITHCAS mod 2 = 1);
          (pStr, keyPtr, keyLen) = advToken buf kp ke;
          key = rd buf keyPtr keyLen;
          (now, m) = canProcessNow E key (m\<lparr>mp_key := key\<rparr>)
      in
      if \<not> now then (-1, m)
      else
        let (pStr, pFlags, _) = advToken buf pStr ke;
            (pStr, pExptime, _) = advToken buf pStr ke;
            (pStr, pLength, tokLen) = advToken buf pStr ke;
            flags = myStrtoul buf pFlags;
            exptime = myStrtoul buf pExptime;
            len1 = myStrtol buf pLength;
            bad = (tokLen = 0 \<or> flags = None \<or> exptime = None \<or> len1 = None \<or> keyLen > KEY_MAXLEN);
            (pStr, bad, cas) =
              (if withcas then
                 let (pStr, pCas, tokLen) = advToken buf pStr ke; cas = myStrtoull buf pCas
                 in (pStr, bad \<or> tokLen = 0 \<or> cas = None, case cas of None \<Rightarrow> 0 | Some c \<Rightarrow> c)
               else (pStr, bad, 0));
            (pStr, tokPtr, tokLen) = advToken buf pStr ke;
            m = m\<lparr>m_noreply := chkNoreply buf tokPtr tokLen\<rparr>
        in
        if bad \<or> sint (the len1) < 0 \<or> sint (the len1) > 2147483647 - 2 then (0, respond badCmdLineFmt m)
        else
          let len1 = unat (the len1) in
          if len1 \<noteq> 0 \<and> iLen < len1 + 2 then (-1, m)
          else if len1 \<noteq> 0 \<and> \<not> (byte_at buf (pNxt + len1) = CHR 0x0D \<and> byte_at buf (pNxt + len1 + 1) = CHR 0x0A)
          then (0, m)
          else if \<not> isTidMaster (cur_slice m) then
            let total_len = (if len1 \<noteq> 0 then len1 + 2 else 0);
                m = (if sl_connected (cur_slice m)
                     then fwdCommand (rd (wr buf (pNxt - 1) [CHR 0x0A]) 0 (pNxt + total_len)) m
                     else respond (''SERVER_ERROR unable to forward'' @ CRLF) m)
            in (int total_len, m)
          else
            let appends = (arg = MC_BINCMD_APPEND \<or> arg = MC_BINCMD_PREPEND);
                m = m\<lparr>m_item := (m_item m)\<lparr>it_flags := the flags, it_exptime := uint (the exptime)\<rparr>,
                      mp_vallen := (if appends then len1 else parmAdjLen m len1)\<rparr>;
                opt = \<lparr>o_cmd = arg mod LSMC_WITHCAS, o_withcas = withcas,
                       o_usecas = (appends \<and> m_usecas (m_mcparms m)),
                       o_retcode = UPDRET_DONE, o_value = 0, o_cas = cas\<rparr>
            in update_store E arg opt len1 (drop pNxt buf) m)"

end
