(* ===== verification/McText.thy ===== *)
theory McText
  imports McCmd
begin

text \<open>
  The retrieval, arithmetic and administrative commands of the text protocol, and the dispatching
  step \<open>processCmd\<close> (\<^verbatim>\<open>memcache/lsmemcache.cpp\<close>).
\<close>

section \<open>get, bget, gets\<close>

text \<open>
  The first loop of \<open>doCmdGet\<close> collects the keys; it stops at the end of the line or at a key that
  is too long, which the result reports. Every token consumes at least one character, so the length
  of the line bounds the loop.
\<close>

fun get_keys :: "nat \<Rightarrow> bytes \<Rightarrow> nat \<Rightarrow> nat \<Rightarrow> bytes list \<Rightarrow> bytes list \<times> bool" where
  "get_keys 0 buf pStr pStrEnd acc = (acc, False)"
| "get_keys (Suc k) buf pStr pStrEnd acc =
     (case advToken buf pStr pStrEnd of
        (pStr, tokPtr, tokLen) \<Rightarrow>
          if tokLen = 0 then (acc, False)
          else if tokLen > KEY_MAXLEN then (acc, True)
          else get_keys k buf pStr pStrEnd (acc @ [rd buf tokPtr tokLen]))"

text \<open>\<open>%d\<close> of the 32-bit flags, and \<open>%.*s\<close> of the key.\<close>

definition fmt_d :: "u32 \<Rightarrow> bytes" where
  "fmt_d w = (if sint w < 0 then CHR ''-'' # dec_str (nat (- sint w)) else dec_str (nat (sint w)))"

definition fmt_s :: "bytes \<Rightarrow> bytes" where
  "fmt_s key = takeWhile (\<lambda>c. c \<noteq> CHR 0x00) key"

definition value_line :: "bool \<Rightarrow> bool \<Rightarrow> LsShmHElem \<Rightarrow> nat \<Rightarrow> bytes" where
  "value_line withcas usecas iter valLen =
     ''VALUE '' @ fmt_s (e_key iter) @ '' '' @ fmt_d (x_flags (e_val iter)) @ '' '' @ dec_str valLen @
     (if withcas then '' '' @ dec_str (if usecas then unat (x_cas (e_val iter)) else 0) else []) @ CRLF"

definition get_one :: "env \<Rightarrow> nat \<Rightarrow> bytes \<Rightarrow> LsMemcache \<Rightarrow> LsMemcache" where
  "get_one E arg key m =
     (let m = setSlice E key (m\<lparr>mp_key := key\<rparr>);
          miss = stat_upd (\<lambda>s. s\<lparr>get_misses := get_misses s + 1\<rparr>);
          iterOff = find2 (m_hkey m) key (getHash m)
      in
      if iterOff = 0 then miss m
      else case offset2iterator iterOff (getHash m) of
        (None, h) \<Rightarrow> miss (set_hash h m)
      | (Some iter, h) \<Rightarrow>
          if isExpired E (e_val iter) then
            miss (set_hash (snd (offset2iterator iterOff (eraseIteratorHelper E iterOff h))) m)
          else
            let usecas = m_usecas (m_mcparms m);
                (valPtr, valLen) = mcIter2data iter usecas;
                m = stat_upd (\<lambda>s. s\<lparr>get_hits := get_hits s + 1\<rparr>) (set_hash h m);
                m = sendResult (value_line (arg div LSMC_WITHCAS mod 2 = 1) usecas iter valLen) m
            in binRespond CRLF (binRespond (rd (e_val iter) valPtr valLen) m))"

definition doCmdGet :: "env \<Rightarrow> bytes \<Rightarrow> nat \<Rightarrow> nat \<Rightarrow> nat \<Rightarrow> LsMemcache \<Rightarrow> int \<times> LsMemcache" where
  "doCmdGet E buf kp ke arg m =
     (let m = m\<lparr>m_noreply := False\<rparr>; (keys, toolong) = get_keys (Suc (ke - kp)) buf kp ke [] in
      if toolong then (0, respond badCmdLineFmt m)
      else if keys = [] then (0, respond errorStr m)
      else (0, sendResult (''END'' @ CRLF) (fold (get_one E arg) keys m)))"

section \<open>incr, decr\<close>

definition doCmdArithmetic :: "env \<Rightarrow> bytes \<Rightarrow> nat \<Rightarrow> nat \<Rightarrow> nat \<Rightarrow> nat \<Rightarrow> LsMemcache \<Rightarrow> int \<times> LsMemcache" where
  "doCmdArithmetic E buf kp ke pNxt arg m =
     (let (pStr, keyPtr, keyLen) = advToken buf kp ke;
          key = rd buf keyPtr keyLen;
          (now, m) = canProcessNow E key (m\<lparr>mp_key := key\<rparr>)
      in
      if \<not> now then (-1, m)
      else
        let (pStr, pDelta, tokLen) = advToken buf pStr ke in
        if tokLen = 0 \<or> keyLen > KEY_MAXLEN then (0, respond badCmdLineFmt m)
        else case myStrtoull buf pDelta of
          None \<Rightarrow> (0, respond (''CLIENT_ERROR invalid numeric delta argument'' @ CRLF) m)
        | Some delta \<Rightarrow>
            let (fwd, m) = fwdToRemote buf pNxt m in
            if fwd then (0, m)
            else
              let (pStr, tokPtr, tokLen) = advToken buf pStr ke;
                  m = m\<lparr>m_noreply := chkNoreply buf tokPtr tokLen, mp_vallen := parmAdjLen m 0\<rparr>;
                  opt = \<lparr>o_cmd = arg, o_withcas = False, o_usecas = m_usecas (m_mcparms m),
                         o_retcode = UPDRET_DONE, o_value = delta, o_cas = 0\<rparr>;
                  (iterOff, opt, numBuf, m) = doHashUpdate E opt m;
                  m = m\<lparr>m_iterOff := iterOff\<rparr>
              in
              if iterOff \<noteq> 0 then
                let m = (if arg = MC_BINCMD_INCREMENT then stat_upd (\<lambda>s. s\<lparr>incr_hits := incr_hits s + 1\<rparr>) m
                         else stat_upd (\<lambda>s. s\<lparr>decr_hits := decr_hits s + 1\<rparr>) m);
                    m = doDataUpdate numBuf (m\<lparr>m_retcode := UPDRET_NONE\<rparr>)
                in (0, respond (numBuf @ CRLF) m)
              else if o_retcode opt = UPDRET_NOTFOUND then
                (0, respond (''NOT_FOUND'' @ CRLF)
                      (if arg = MC_BINCMD_INCREMENT then stat_upd (\<lambda>s. s\<lparr>incr_misses := incr_misses s + 1\<rparr>) m
                       else stat_upd (\<lambda>s. s\<lparr>decr_misses := decr_misses s + 1\<rparr>) m))
              else if o_retcode opt = UPDRET_NONNUMERIC then
                (0, respond (''CLIENT_ERROR cannot increment or decrement non-numeric value'' @ CRLF) m)
              else (0, respond (''SERVER_ERROR unable to update'' @ CRLF) m))"

section \<open>delete\<close>

text \<open>
  The optional tokens of \<open>delete\<close>: the new value of \<open>m_noreply\<close>, \<open>None\<close> when the code leaves
  it alone, and whether the format is bad.
\<close>

definition delete_opts :: "bytes \<Rightarrow> nat \<Rightarrow> nat \<Rightarrow> bool option \<times> bool" where
  "delete_opts buf pStr ke =
     (let (pStr, tokPtr, tokLen) = advToken buf pStr ke;
          (pStr, tokPtr, tokLen) =
            (if tokLen = 1 \<and> byte_at buf tokPtr = CHR ''0'' then advToken buf pStr ke
             else (pStr, tokPtr, tokLen))
      in
      if tokLen = 0 then (None, False)
      else
        let noreply = chkNoreply buf tokPtr tokLen;
            (pStr, tokPtr, tokLen) = advToken buf pStr ke;
            err = \<not> noreply;
            (noreply, tokLen) =
              (if \<not> noreply then
                 let nr = chkNoreply buf tokPtr tokLen
                 in (nr, if nr then snd (snd (advToken buf pStr ke)) else tokLen)
               else (noreply, tokLen))
        in if tokLen > 0 then (Some False, True) else (Some noreply, err))"

definition doCmdDelete :: "env \<Rightarrow> bytes \<Rightarrow> nat \<Rightarrow> nat \<Rightarrow> nat \<Rightarrow> LsMemcache \<Rightarrow> int \<times> LsMemcache" where
  "doCmdDelete E buf kp ke pNxt m =
     (let (pStr, keyPtr, keyLen) = advToken buf kp ke;
          key = rd buf keyPtr keyLen;
          m = m\<lparr>mp_key := key\<rparr>
      in
      if keyLen = 0 \<or> keyLen > KEY_MAXLEN then (0, respond badCmdLineFmt m)
      else
        let (now, m) = canProcessNow E key m in
        if \<not> now then (-1, m)
        else
          let (noreply, err) = delete_opts buf pStr ke;
              m = (case noreply of None \<Rightarrow> m | Some b \<Rightarrow> m\<lparr>m_noreply := b\<rparr>)
          in
          if err then (0, respond (''CLIENT_ERROR bad delete format'' @ CRLF) m)
          else
            let (fwd, m) = fwdToRemote buf pNxt m in
            if fwd then (0, m)
            else
              let iterOff = find2 (m_hkey m) key (getHash m);
                  missed = (0, respond (''NOT_FOUND'' @ CRLF)
                                 (stat_upd (\<lambda>s. s\<lparr>delete_misses := delete_misses s + 1\<rparr>) m))
              in
              if iterOff = 0 then missed
              else case offset2iteratorData iterOff (getHash m) of
                (None, h) \<Rightarrow>
                  (0, respond (''NOT_FOUND'' @ CRLF)
                        (stat_upd (\<lambda>s. s\<lparr>delete_misses := delete_misses s + 1\<rparr>) (set_hash h m)))
              | (Some item, h) \<Rightarrow>
                  let m = set_hash (eraseIteratorHelper E iterOff h) m in
                  if \<not> isExpired E item then
                    (0, respond (''DELETED'' @ CRLF)
                          (notifyChange (stat_upd (\<lambda>s. s\<lparr>delete_hits := delete_hits s + 1\<rparr>) m)))
                  else
                    (0, respond (''NOT_FOUND'' @ CRLF)
                          (stat_upd (\<lambda>s. s\<lparr>delete_misses := delete_misses s + 1\<rparr>) m)))"

section \<open>touch\<close>

definition doCmdTouch :: "env \<Rightarrow> bytes \<Rightarrow> nat \<Rightarrow> nat \<Rightarrow> nat \<Rightarrow> LsMemcache \<Rightarrow> int \<times> LsMemcache" where
  "doCmdTouch E buf kp ke pNxt m =
     (let (pStr, keyPtr, keyLen) = advToken buf kp ke;
          key = rd buf keyPtr keyLen;
          m = m\<lparr>mp_key := key\<rparr>;
          (pStr, pExptime, tokLen) = advToken buf pStr ke
      in
      if tokLen = 0 \<or> keyLen > KEY_MAXLEN then (0, respond badCmdLineFmt m)
      else
        let (now, m) = canProcessNow E key m in
        if \<not> now then (-1, m)
        else case myStrtoul buf pExptime of
          None \<Rightarrow> (0, respond (''CLIENT_ERROR invalid exptime argument'' @ CRLF) m)
        | Some exptime \<Rightarrow>
            let (pStr, tokPtr, tokLen) = advToken buf pStr ke;
                m = m\<lparr>m_noreply := chkNoreply buf tokPtr tokLen\<rparr>;
                (fwd, m) = fwdToRemote buf pNxt m
            in
            if fwd then (0, m)
            else
              let missed = (\<lambda>m. (0, respond (''NOT_FOUND'' @ CRLF)
                                      (stat_upd (\<lambda>s. s\<lparr>touch_misses := touch_misses s + 1\<rparr>) m)));
                  iterOff = find2 (m_hkey m) key (getHash m)
              in
              if iterOff = 0 then missed m
              else case offset2iterator iterOff (getHash m) of
                (None, h) \<Rightarrow> missed (set_hash h m)
              | (Some iter, h) \<Rightarrow>
                  if isExpired E (e_val iter) then missed (set_hash (eraseIteratorHelper E iterOff h) m)
                  else
                    let h = upd_elem iterOff (\<lambda>e. e\<lparr>e_val := setItemExptime E exptime (e_val e)\<rparr>) h;
                        m = set_hash (tidReplaceTid E iterOff 0 h) m
                    in (0, respond (''TOUCHED'' @ CRLF)
                             (notifyChange (stat_upd (\<lambda>s. s\<lparr>touch_hits := touch_hits s + 1\<rparr>) m))))"

section \<open>stats\<close>

definition zero_stats :: LsMcStats where
  "zero_stats =
     \<lparr>set_cmds = 0, flush_cmds = 0, get_hits = 0, get_misses = 0, touch_hits = 0, touch_misses = 0,
      delete_hits = 0, delete_misses = 0, incr_hits = 0, incr_misses = 0, decr_hits = 0, decr_misses = 0,
      cas_hits = 0, cas_misses = 0, cas_badval = 0, auth_cmds = 0, auth_errors = 0\<rparr>"

text \<open>\<open>multiStatFunc\<close>: add a slice's counters to the total; \<open>flush_cmds\<close> is overwritten.\<close>

definition multiStatFunc :: "LsMcStats \<Rightarrow> LsMcStats \<Rightarrow> LsMcStats" where
  "multiStatFunc s t =
     \<lparr>set_cmds = set_cmds t + set_cmds s, flush_cmds = flush_cmds s, get_hits = get_hits t + get_hits s,
      get_misses = get_misses t + get_misses s, touch_hits = touch_hits t + touch_hits s,
      touch_misses = touch_misses t + touch_misses s, delete_hits = delete_hits t + delete_hits s,
      delete_misses = delete_misses t + delete_misses s, incr_hits = incr_hits t + incr_hits s,
      incr_misses = incr_misses t + incr_misses s, decr_hits = decr_hits t + decr_hits s,
      decr_misses = decr_misses t + decr_misses s, cas_hits = cas_hits t + cas_hits s,
      cas_misses = cas_misses t + cas_misses s, cas_badval = cas_badval t + cas_badval s,
      auth_cmds = auth_cmds t + auth_cmds s, auth_errors = auth_errors t + auth_errors s\<rparr>"

text \<open>\<open>foreach\<close> over the slices stops at the first slice without a header.\<close>

fun multi_stat :: "LsMcHashSlice list \<Rightarrow> LsMcStats \<Rightarrow> LsMcStats" where
  "multi_stat [] t = t"
| "multi_stat (s # ss) t = (if hdrOff s = 0 then t else multi_stat ss (multiStatFunc (LsMcHashSlice.x_stats s) t))"

fun multi_reset :: "LsMcHashSlice list \<Rightarrow> LsMcHashSlice list" where
  "multi_reset [] = []"
| "multi_reset (s # ss) = (if hdrOff s = 0 then s # ss else s\<lparr>LsMcHashSlice.x_stats := zero_stats\<rparr> # multi_reset ss)"

definition useMulti :: "LsMemcache \<Rightarrow> bool" where
  "useMulti m \<longleftrightarrow> length (m_slices m) > 1"

definition stat_line :: "bytes \<Rightarrow> u64 \<Rightarrow> bytes" where
  "stat_line name v = ''STAT '' @ name @ '' '' @ dec_str (unat v) @ CRLF"

definition stats_text :: "LsMcStats \<Rightarrow> bytes" where
  "stats_text s =
     concat [stat_line ''cmd_get'' (get_hits s + get_misses s), stat_line ''cmd_set'' (set_cmds s),
       stat_line ''cmd_flush'' (flush_cmds s), stat_line ''cmd_touch'' (touch_hits s + touch_misses s),
       stat_line ''get_hits'' (get_hits s), stat_line ''get_misses'' (get_misses s),
       stat_line ''delete_misses'' (delete_misses s), stat_line ''delete_hits'' (delete_hits s),
       stat_line ''incr_misses'' (incr_misses s), stat_line ''incr_hits'' (incr_hits s),
       stat_line ''decr_misses'' (decr_misses s), stat_line ''decr_hits'' (decr_hits s),
       stat_line ''cas_misses'' (cas_misses s), stat_line ''cas_hits'' (cas_hits s),
       stat_line ''cas_badval'' (cas_badval s), stat_line ''touch_hits'' (touch_hits s),
       stat_line ''touch_misses'' (touch_misses s), stat_line ''auth_cmds'' (auth_cmds s),
       stat_line ''auth_errors'' (auth_errors s)]"

text \<open>\<open>strcmp\<close> of the token compares up to the end of the line, which is a NUL byte.\<close>

definition c_string :: "bytes \<Rightarrow> nat \<Rightarrow> bytes" where
  "c_string buf p = takeWhile (\<lambda>c. c \<noteq> CHR 0x00) (drop p buf)"

definition doCmdStats :: "env \<Rightarrow> bytes \<Rightarrow> nat \<Rightarrow> nat \<Rightarrow> LsMemcache \<Rightarrow> int \<times> LsMemcache" where
  "doCmdStats E buf kp ke m =
     (if hdrOff (cur_slice m) = 0 then (0, respond (''SERVER_ERROR no statistics'' @ CRLF) m)
      else
        let (pStr, tokPtr, tokLen) = advToken buf kp ke; tok = c_string buf tokPtr in
        if tokLen > 0 \<and> tok \<notin> {''detail'', ''settings'', ''cachedump'', ''conns''} then
          if tok = ''reset'' then
            let m = (if useMulti m then m\<lparr>m_slices := multi_reset (m_slices m)\<rparr>
                     else on_cur (\<lambda>s. s\<lparr>LsMcHashSlice.x_stats := zero_stats\<rparr>) m)
            in (0, respond (''RESET'' @ CRLF) m)
          else (0, respond badCmdLineFmt m)
        else
          let stats = (if useMulti m then multi_stat (m_slices m) zero_stats
                       else LsMcHashSlice.x_stats (cur_slice m))
          in (0, sendResult (''END'' @ CRLF) (sendResult (stats_text stats) (sendResult (sys_stats E) m))))"

section \<open>flush_all, clear\<close>

text \<open>
  \<open>multiFlushFunc\<close> on one slice: a master clears its hash, a slave forwards a \<open>clear\<close> command.
  The result is false for \<open>LS_FAIL\<close>.
\<close>

definition multiFlushFunc :: "env \<Rightarrow> nat \<Rightarrow> LsMemcache \<Rightarrow> bool \<times> LsMemcache" where
  "multiFlushFunc E i m =
     (let s = m_slices m ! i in
      if isTidMaster s then
        let s = s\<lparr>sl_hash := hash_clear E (sl_hash s)\<rparr>;
            s = (if hdrOff s \<noteq> 0
                 then s\<lparr>LsMcHashSlice.x_stats := (LsMcHashSlice.x_stats s)\<lparr>flush_cmds := flush_cmds (LsMcHashSlice.x_stats s) + 1\<rparr>\<rparr>
                 else s);
            m = m\<lparr>m_slices := (m_slices m)[i := s]\<rparr>
        in (True, if cfg_replication (m_mcparms m) then m\<lparr>m_notes := m_notes m + 1\<rparr> else m)
      else if sl_connected s then
        (True, m\<lparr>m_slices := (m_slices m)[i := s\<lparr>sl_fwd := sl_fwd s @ ''clear '' @ dec_str i @ CRLF\<rparr>]\<rparr>)
      else (False, m))"

fun multi_flush :: "env \<Rightarrow> nat list \<Rightarrow> LsMemcache \<Rightarrow> bool \<times> LsMemcache" where
  "multi_flush E [] m = (True, m)"
| "multi_flush E (i # is) m =
     (case multiFlushFunc E i m of (ok, m) \<Rightarrow> if ok then multi_flush E is m else (False, m))"

definition doCmdFlush :: "env \<Rightarrow> bytes \<Rightarrow> nat \<Rightarrow> nat \<Rightarrow> nat \<Rightarrow> LsMemcache \<Rightarrow> int \<times> LsMemcache" where
  "doCmdFlush E buf kp ke pNxt m =
     (let (pStr, tokPtr, tokLen) = advToken buf kp ke;
          (bad, pStr, m) =
            (if tokLen > 0 then
               if chkNoreply buf tokPtr tokLen then (False, pStr, m\<lparr>m_noreply := True\<rparr>)
               else if tokLen \<noteq> 1 \<or> byte_at buf tokPtr \<noteq> CHR ''0'' then (True, pStr, m\<lparr>m_noreply := False\<rparr>)
               else
                 let (pStr, tokPtr, tokLen) = advToken buf pStr ke
                 in (False, pStr, m\<lparr>m_noreply := chkNoreply buf tokPtr tokLen\<rparr>)
             else (False, pStr, m))
      in
      if bad \<or> \<not> chkEndToken buf pStr ke then (0, respond badCmdLineFmt m)
      else if useMulti m then
        let (ok, m) = multi_flush E [0..<length (m_slices m)] m in
        if \<not> ok then (0, respond (''SERVER_ERROR unable to forward'' @ CRLF) m)
        else (0, respond (''OK'' @ CRLF) m)
      else if \<not> isTidMaster (m_slices m ! 0) \<and> sl_rembusy (m_slices m ! 0) then (-1, putWaitQ m)
      else
        let (fwd, m) = fwdToRemote buf pNxt m in
        if fwd then (0, m)
        else
          let m = set_hash (hash_clear E (getHash m)) m;
              m = notifyChange (stat_upd (\<lambda>s. s\<lparr>flush_cmds := flush_cmds s + 1\<rparr>) m)
          in (0, respond (''OK'' @ CRLF) m))"

definition doCmdClear :: "env \<Rightarrow> bytes \<Rightarrow> nat \<Rightarrow> nat \<Rightarrow> LsMemcache \<Rightarrow> int \<times> LsMemcache" where
  "doCmdClear E buf kp ke m =
     (let (pStr, pWhich, tokLen) = advToken buf kp ke in
      if tokLen = 0 then (0, m)
      else case myStrtoul buf pWhich of
        None \<Rightarrow> (0, m)
      | Some which \<Rightarrow>
          if sint which \<ge> int (length (m_slices m)) \<or> sint which < 0 then (0, m)
          else (0, snd (multiFlushFunc E (unat which) m)))"

section \<open>version, quit, verbosity, not implemented\<close>

definition MC_VERSION :: bytes where "MC_VERSION = ''1.0.0''"

definition doCmdVersion :: "bytes \<Rightarrow> nat \<Rightarrow> nat \<Rightarrow> LsMemcache \<Rightarrow> int \<times> LsMemcache" where
  "doCmdVersion buf kp ke m =
     (0, respond (if \<not> chkEndToken buf kp ke then badCmdLineFmt else ''VERSION '' @ MC_VERSION @ CRLF) m)"

definition doCmdQuit :: "bytes \<Rightarrow> nat \<Rightarrow> nat \<Rightarrow> LsMemcache \<Rightarrow> int \<times> LsMemcache" where
  "doCmdQuit buf kp ke m =
     (if \<not> chkEndToken buf kp ke then (0, respond badCmdLineFmt m) else (-2, m))"

text \<open>\<open>setVerbose\<close> reaches the slice of the connection only (\<open>multiVerboseFunc\<close> skips the others).\<close>

definition setVerbose :: "u8 \<Rightarrow> LsMemcache \<Rightarrow> LsMemcache" where
  "setVerbose level m = (if hdrOff (cur_slice m) \<noteq> 0 then on_cur (\<lambda>s. s\<lparr>x_verbose := level\<rparr>) m else m)"

definition doCmdVerbosity :: "bytes \<Rightarrow> nat \<Rightarrow> nat \<Rightarrow> LsMemcache \<Rightarrow> int \<times> LsMemcache" where
  "doCmdVerbosity buf kp ke m =
     (let (pStr, pVerbose, tokLen) = advToken buf kp ke in
      if tokLen = 0 then (0, respond badCmdLineFmt m)
      else case myStrtoul buf pVerbose of
        None \<Rightarrow> (0, respond (''CLIENT_ERROR invalid verbosity argument'' @ CRLF) m)
      | Some verbose \<Rightarrow>
          let (pStr, tokPtr, tokLen) = advToken buf pStr ke;
              m = m\<lparr>m_noreply := chkNoreply buf tokPtr tokLen\<rparr>
          in
          if \<not> chkEndToken buf pStr ke then (0, respond badCmdLineFmt m)
          else (0, respond (''OK'' @ CRLF) (setVerbose (ucast verbose) m)))"

definition notImplemented :: "LsMemcache \<Rightarrow> int \<times> LsMemcache" where
  "notImplemented m = (0, respond (''NOT_IMPLEMENTED'' @ CRLF) m)"

section \<open>The command step\<close>

text \<open>
  \<open>run_func\<close> calls the table's function. The debugging commands \<open>test1\<close>, \<open>test2\<close> and
  \<open>printtids\<close> are not modelled: what they do is the parameter \<open>oth\<close>.
\<close>

type_synonym other_cmd = "mc_func \<Rightarrow> bytes \<Rightarrow> nat \<Rightarrow> nat \<Rightarrow> LsMemcache \<Rightarrow> int \<times> LsMemcache"

definition run_func :: "env \<Rightarrow> other_cmd \<Rightarrow> mc_func \<Rightarrow> bytes \<Rightarrow> nat \<Rightarrow> nat \<Rightarrow> nat \<Rightarrow> nat \<Rightarrow> nat \<Rightarrow> LsMemcache \<Rightarrow> int \<times> LsMemcache" where
  "run_func E oth fn buf kp ke pNxt iLen arg m =
     (case fn of
        fn_doCmdGet \<Rightarrow> doCmdGet E buf kp ke arg m
      | fn_doCmdUpdate \<Rightarrow> doCmdUpdate E buf kp ke pNxt iLen arg m
      | fn_doCmdArithmetic \<Rightarrow> doCmdArithmetic E buf kp ke pNxt arg m
      | fn_doCmdDelete \<Rightarrow> doCmdDelete E buf kp ke pNxt m
      | fn_doCmdTouch \<Rightarrow> doCmdTouch E buf kp ke pNxt m
      | fn_doCmdStats \<Rightarrow> doCmdStats E buf kp ke m
      | fn_doCmdFlush \<Rightarrow> doCmdFlush E buf kp ke pNxt m
      | fn_doCmdVersion \<Rightarrow> doCmdVersion buf kp ke m
      | fn_doCmdQuit \<Rightarrow> doCmdQuit buf kp ke m
      | fn_doCmdVerbosity \<Rightarrow> doCmdVerbosity buf kp ke m
      | fn_doCmdClear \<Rightarrow> doCmdClear E buf kp ke m
      | fn_notImplemented \<Rightarrow> notImplemented m
      | _ \<Rightarrow> oth fn buf kp ke m)"

text \<open>
  \<open>processCmd\<close>: the number of consumed bytes, 0 to close the connection, \<open>-1\<close> when the buffer
  does not yet hold the whole command.
\<close>

definition processCmd :: "env \<Rightarrow> other_cmd \<Rightarrow> bytes \<Rightarrow> LsMemcache \<Rightarrow> int \<times> LsMemcache" where
  "processCmd E oth buf m =
     (if m_usesasl (m_mcparms m) \<and> \<not> m_anonymous (m_mcparms m) then
        (0, respond (''ASCII messages will not be processed with SASL enabled'' @ [CHR 0x0A]) m)
      else case memchr buf CHR 0x0A 0 (length buf) of
        None \<Rightarrow> (-1, m)
      | Some endp \<Rightarrow>
          let consumed = endp + 1;
              line = buf[endp := CHR 0x00];
              line = (if consumed > 1 \<and> line ! (endp - 1) = CHR 0x0D then line[endp - 1 := CHR 0x00] else line);
              (pStr, pCmd, len1) = advToken line 0 (endp - 1)
          in
          if len1 = 0 then (int consumed, m)
          else case getCmdFunction (rd line pCmd len1) of
            None \<Rightarrow> (int consumed, respond errorStr m)
          | Some i \<Rightarrow>
              let (_, arg, fn) = s_LsMcCmdFuncs ! i;
                  ke = endp - 1;
                  m = setSlice E (rd line pStr (ke - pStr)) m;
                  (datasz, m) = run_func E oth fn line pStr ke (endp + 1) (length buf - consumed) arg m
              in
              if datasz \<ge> 0 then (int consumed + datasz, m)
              else if datasz = -1 then (-1, m)
              else (0, m))"

end
