(* ===== verification/McStore.thy ===== *)
theory McStore
  imports LsShmHashMap McText
begin

text \<open>
  The storage commands of the engine on the map a slice stores: the layout of a stored item, the steps
  that change the current slice only, the filling of an element by \<open>dataItemUpdate\<close>, and what
  \<open>update_store\<close> answers and stores for \<open>set\<close>, \<open>add\<close>, \<open>replace\<close> and \<open>cas\<close>.
\<close>

section \<open>The stored item\<close>

definition mk_value :: "bool \<Rightarrow> LsMcDataItem \<Rightarrow> u64 \<Rightarrow> bytes \<Rightarrow> bytes" where
  "mk_value usecas it cas data = enc_item it @ (if usecas then le_enc 8 (unat cas) else []) @ data"

definition item_data :: "bool \<Rightarrow> bytes \<Rightarrow> bytes" where
  "item_data usecas v = drop (data_off usecas) v"

lemma length_enc [simp]: "length (enc_time t) = 8" "length (enc_item it) = 16"
  by (simp_all add: enc_time_def enc_item_def)

lemma length_mk_value: "length (mk_value usecas it cas data) = data_off usecas + length data"
  by (simp add: mk_value_def data_off_def lay_simps)

lemma dec_enc_time: "- (2 ^ 63) \<le> t \<Longrightarrow> t < 2 ^ 63 \<Longrightarrow> dec_time (enc_time t) = t"
proof -
  assume t: "- (2 ^ 63) \<le> t" "t < 2 ^ 63"
  have m: "le_dec (enc_time t) = nat (t mod 2 ^ 64)"
    unfolding enc_time_def le_dec_enc by (rule mod_less) (simp add: nat_less_iff)
  show ?thesis
  proof (cases "0 \<le> t")
    case True
    then have "t mod 2 ^ 64 = t" using t by simp
    then show ?thesis using True t by (simp add: dec_time_def m Let_def)
  next
    case False
    then have "(t + 2 ^ 64) mod 2 ^ 64 = t + 2 ^ 64" using t by (intro mod_pos_pos_trivial) auto
    then have "t mod 2 ^ 64 = t + 2 ^ 64" by simp
    then show ?thesis using False t by (simp add: dec_time_def m Let_def)
  qed
qed

text \<open>What was stored is read back: expiration time, flags, cas and data.\<close>

lemma mk_value_fields:
  assumes "- (2 ^ 63) \<le> it_exptime it" "it_exptime it < 2 ^ 63"
  shows "x_exptime (mk_value usecas it cas data) = it_exptime it" "x_flags (mk_value usecas it cas data) = it_flags it"
    "usecas \<Longrightarrow> x_cas (mk_value usecas it cas data) = cas" "item_data usecas (mk_value usecas it cas data) = data"
proof -
  have r: "rd (mk_value usecas it cas data) 0 8 = enc_time (it_exptime it)"
    "rd (mk_value usecas it cas data) 8 4 = le_enc 4 (unat (it_flags it))"
    "usecas \<Longrightarrow> rd (mk_value usecas it cas data) 16 8 = le_enc 8 (unat cas)"
    by (simp_all add: rd_def mk_value_def enc_item_def)
  show "x_exptime (mk_value usecas it cas data) = it_exptime it" using assms by (simp add: x_exptime_def r dec_enc_time)
  show "x_flags (mk_value usecas it cas data) = it_flags it" by (simp add: x_flags_def r)
  show "usecas \<Longrightarrow> x_cas (mk_value usecas it cas data) = cas" using r(3) by (simp add: x_cas_def lay_simps)
  show "item_data usecas (mk_value usecas it cas data) = data" by (simp add: item_data_def mk_value_def data_off_def lay_simps)
qed

section \<open>The current slice\<close>

definition good :: "LsMemcache \<Rightarrow> bool" where
  "good m \<longleftrightarrow> m_cur m < length (m_slices m)"

text \<open>A step that changes the current slice only, and of it not the header's place.\<close>

definition cur_step :: "LsMemcache \<Rightarrow> LsMemcache \<Rightarrow> bool" where
  "cur_step m m' \<longleftrightarrow> m_mcparms m' = m_mcparms m \<and> m_cur m' = m_cur m \<and> m_hkey m' = m_hkey m \<and>
     length (m_slices m') = length (m_slices m) \<and>
     (\<forall>i. i \<noteq> m_cur m \<longrightarrow> m_slices m' ! i = m_slices m ! i) \<and> hdrOff (m_slices m' ! m_cur m) = hdrOff (cur_slice m)"

lemma cur_step_refl [simp]: "cur_step m m"
  by (simp add: cur_step_def)

lemma cur_step_trans: "cur_step m m1 \<Longrightarrow> cur_step m1 m2 \<Longrightarrow> cur_step m m2"
  by (simp add: cur_step_def)

lemma cur_step_good: "cur_step m m' \<Longrightarrow> good m' = good m"
  by (simp add: cur_step_def good_def)

lemma on_cur_simps [simp]:
  "m_cur (on_cur f m) = m_cur m" "m_mcparms (on_cur f m) = m_mcparms m" "m_conn (on_cur f m) = m_conn m"
  "m_hkey (on_cur f m) = m_hkey m" "mp_key (on_cur f m) = mp_key m" "mp_vallen (on_cur f m) = mp_vallen m"
  "m_item (on_cur f m) = m_item m" "m_iterOff (on_cur f m) = m_iterOff m" "m_rescas (on_cur f m) = m_rescas m"
  "m_retcode (on_cur f m) = m_retcode m" "m_noreply (on_cur f m) = m_noreply m" "m_needed (on_cur f m) = m_needed m"
  "good (on_cur f m) = good m" "good m \<Longrightarrow> m_slices (on_cur f m) ! m_cur m = f (cur_slice m)"
  by (simp_all add: on_cur_def good_def)

lemma good_simps [simp]:
  "good (m\<lparr>m_conn := c\<rparr>) = good m" "good (m\<lparr>m_noreply := b\<rparr>) = good m" "good (m\<lparr>mp_key := k\<rparr>) = good m"
  "good (m\<lparr>mp_vallen := n\<rparr>) = good m" "good (m\<lparr>m_item := it\<rparr>) = good m" "good (m\<lparr>m_iterOff := x\<rparr>) = good m"
  "good (m\<lparr>m_rescas := c'\<rparr>) = good m" "good (m\<lparr>m_retcode := r\<rparr>) = good m" "good (m\<lparr>m_needed := n'\<rparr>) = good m"
  "good (m\<lparr>m_notes := n''\<rparr>) = good m"
  by (simp_all add: good_def)

lemma set_hash_simps [simp]:
  "m_cur (set_hash h m) = m_cur m" "m_mcparms (set_hash h m) = m_mcparms m" "m_conn (set_hash h m) = m_conn m"
  "m_hkey (set_hash h m) = m_hkey m" "mp_key (set_hash h m) = mp_key m" "mp_vallen (set_hash h m) = mp_vallen m"
  "m_item (set_hash h m) = m_item m" "m_iterOff (set_hash h m) = m_iterOff m" "m_rescas (set_hash h m) = m_rescas m"
  "m_retcode (set_hash h m) = m_retcode m" "m_noreply (set_hash h m) = m_noreply m" "m_needed (set_hash h m) = m_needed m"
  "good (set_hash h m) = good m" "good m \<Longrightarrow> m_slices (set_hash h m) ! m_cur m = (cur_slice m)\<lparr>sl_hash := h\<rparr>"
  by (simp_all add: set_hash_def)

lemma cur_step_on_cur: "good m \<Longrightarrow> (\<And>s. hdrOff (f s) = hdrOff s) \<Longrightarrow> cur_step m (on_cur f m)"
  unfolding cur_step_def by (auto simp: on_cur_def good_def)

lemma cur_step_set_hash: "good m \<Longrightarrow> cur_step m (set_hash h m)"
  unfolding set_hash_def by (rule cur_step_on_cur) simp_all

lemma cur_step_fields [simp]:
  "cur_step m (m'\<lparr>m_conn := c\<rparr>) = cur_step m m'" "cur_step m (m'\<lparr>m_noreply := b\<rparr>) = cur_step m m'"
  "cur_step m (m'\<lparr>mp_key := k\<rparr>) = cur_step m m'" "cur_step m (m'\<lparr>mp_vallen := n\<rparr>) = cur_step m m'"
  "cur_step m (m'\<lparr>m_item := it\<rparr>) = cur_step m m'" "cur_step m (m'\<lparr>m_iterOff := x\<rparr>) = cur_step m m'"
  "cur_step m (m'\<lparr>m_rescas := c'\<rparr>) = cur_step m m'" "cur_step m (m'\<lparr>m_retcode := r\<rparr>) = cur_step m m'"
  "cur_step m (m'\<lparr>m_needed := n'\<rparr>) = cur_step m m'" "cur_step m (m'\<lparr>m_notes := n''\<rparr>) = cur_step m m'"
  by (simp_all add: cur_step_def)

text \<open>The response functions change the connection only.\<close>

lemma emit_simps [simp]: "emit s m = m\<lparr>m_conn := (m_conn m)\<lparr>c_out := c_out (m_conn m) @ s\<rparr>\<rparr>"
  by (simp add: emit_def)

lemma respond_slices [simp]:
  "m_slices (respond s m) = m_slices m" "m_cur (respond s m) = m_cur m" "m_mcparms (respond s m) = m_mcparms m"
  "m_iterOff (respond s m) = m_iterOff m" "m_retcode (respond s m) = m_retcode m" "m_hkey (respond s m) = m_hkey m"
  by (simp_all add: respond_def Let_def ackNoreply_def)

lemma binRespond_slices [simp]:
  "m_slices (binRespond s m) = m_slices m" "m_cur (binRespond s m) = m_cur m" "m_mcparms (binRespond s m) = m_mcparms m"
  "m_iterOff (binRespond s m) = m_iterOff m" "m_retcode (binRespond s m) = m_retcode m" "m_hkey (binRespond s m) = m_hkey m"
  by (simp_all add: binRespond_def Let_def ackNoreply_def)

lemma sendResult_slices [simp]:
  "m_slices (sendResult s m) = m_slices m" "m_cur (sendResult s m) = m_cur m" "m_mcparms (sendResult s m) = m_mcparms m"
  "m_iterOff (sendResult s m) = m_iterOff m" "m_retcode (sendResult s m) = m_retcode m" "m_hkey (sendResult s m) = m_hkey m"
  "m_noreply (sendResult s m) = m_noreply m"
  by (simp_all add: sendResult_def)

lemma cur_step_resp [simp]:
  "cur_step m (respond s m') = cur_step m m'" "cur_step m (binRespond s m') = cur_step m m'" "cur_step m (sendResult s m') = cur_step m m'"
  "good (respond s m) = good m" "good (binRespond s m) = good m" "good (sendResult s m) = good m"
  by (simp_all add: cur_step_def good_def)

text \<open>A plain client: not an internal connection, and it waits for the answer.\<close>

definition client :: "LsMemcache \<Rightarrow> bool" where
  "client m \<longleftrightarrow> \<not> m_noreply m \<and> \<not> cs_internal (m_conn m)"

definition out :: "LsMemcache \<Rightarrow> bytes" where
  "out m = c_out (m_conn m)"

lemma client_out:
  "client m \<Longrightarrow> out (respond s m) = out m @ s \<and> client (respond s m)"
  "client m \<Longrightarrow> out (binRespond s m) = out m @ s \<and> client (binRespond s m)"
  "client m \<Longrightarrow> out (sendResult s m) = out m @ s \<and> client (sendResult s m)"
  by (simp_all add: client_def out_def respond_def binRespond_def sendResult_def)

lemma client_simps [simp]:
  "client (on_cur f m) = client m" "client (set_hash h m) = client m" "client (m\<lparr>mp_key := k\<rparr>) = client m"
  "client (m\<lparr>mp_vallen := n\<rparr>) = client m" "client (m\<lparr>m_item := it\<rparr>) = client m" "client (m\<lparr>m_iterOff := x\<rparr>) = client m"
  "client (m\<lparr>m_rescas := c'\<rparr>) = client m" "client (m\<lparr>m_retcode := r\<rparr>) = client m" "client (m\<lparr>m_needed := n'\<rparr>) = client m"
  "client (m\<lparr>m_notes := n''\<rparr>) = client m"
  "out (on_cur f m) = out m" "out (set_hash h m) = out m" "out (m\<lparr>mp_key := k\<rparr>) = out m"
  "out (m\<lparr>mp_vallen := n\<rparr>) = out m" "out (m\<lparr>m_item := it\<rparr>) = out m" "out (m\<lparr>m_iterOff := x\<rparr>) = out m"
  "out (m\<lparr>m_rescas := c'\<rparr>) = out m" "out (m\<lparr>m_retcode := r\<rparr>) = out m" "out (m\<lparr>m_needed := n'\<rparr>) = out m"
  "out (m\<lparr>m_notes := n''\<rparr>) = out m" "out (m\<lparr>m_noreply := b\<rparr>) = out m"
  by (simp_all add: client_def out_def)

lemma stat_upd_simps [simp]:
  "m_cur (stat_upd f m) = m_cur m" "m_mcparms (stat_upd f m) = m_mcparms m" "m_hkey (stat_upd f m) = m_hkey m"
  "mp_key (stat_upd f m) = mp_key m" "mp_vallen (stat_upd f m) = mp_vallen m" "m_item (stat_upd f m) = m_item m"
  "m_iterOff (stat_upd f m) = m_iterOff m" "m_retcode (stat_upd f m) = m_retcode m" "m_noreply (stat_upd f m) = m_noreply m"
  "good (stat_upd f m) = good m" "client (stat_upd f m) = client m" "out (stat_upd f m) = out m" "m_conn (stat_upd f m) = m_conn m"
  "good m \<Longrightarrow> sl_hash (m_slices (stat_upd f m) ! m_cur m) = getHash m"
  "good m \<Longrightarrow> hdrOff (m_slices (stat_upd f m) ! m_cur m) = hdrOff (cur_slice m)"
  "good m \<Longrightarrow> hdr_cas (m_slices (stat_upd f m) ! m_cur m) = hdr_cas (cur_slice m)"
  by (simp_all add: stat_upd_def)

lemma slice_at [simp]:
  "good m \<Longrightarrow> m_cur m = i \<Longrightarrow> sl_hash (m_slices (stat_upd f m) ! i) = sl_hash (m_slices m ! i)"
  "good m \<Longrightarrow> m_cur m = i \<Longrightarrow> m_slices (set_hash h m) ! i = (m_slices m ! i)\<lparr>sl_hash := h\<rparr>"
  by auto

lemma cur_step_stat: "good m \<Longrightarrow> cur_step m (stat_upd f m)"
  by (simp add: stat_upd_def cur_step_on_cur)

lemma notifyChange_simps [simp]:
  "m_slices (notifyChange m) = m_slices m" "m_cur (notifyChange m) = m_cur m" "m_mcparms (notifyChange m) = m_mcparms m"
  "m_hkey (notifyChange m) = m_hkey m" "m_iterOff (notifyChange m) = m_iterOff m" "m_retcode (notifyChange m) = m_retcode m"
  "good (notifyChange m) = good m" "client (notifyChange m) = client m" "out (notifyChange m) = out m"
  "cur_step m0 (notifyChange m) = cur_step m0 m" "m_conn (notifyChange m) = m_conn m"
  by (simp_all add: notifyChange_def)

section \<open>Filling an element\<close>

lemma wr_append: "length a = p \<Longrightarrow> length b \<le> length r \<Longrightarrow> wr (a @ r) p b = a @ b @ drop (length b) r"
  by (simp add: wr_in)

lemma wr_start: "length b \<le> length r \<Longrightarrow> wr r 0 b = b @ drop (length b) r"
  by (simp add: wr_in)

definition next_cas :: "LsMemcache \<Rightarrow> u64" where
  "next_cas m = (if hdrOff (cur_slice m) \<noteq> 0 then hdr_cas (cur_slice m) + 1 else 0)"

definition adj_time :: "int \<Rightarrow> LsMcDataItem \<Rightarrow> LsMcDataItem" where
  "adj_time t it = (if it_exptime it \<noteq> 0 \<and> it_exptime it \<le> LSMC_MAXDELTATIME then it\<lparr>it_exptime := it_exptime it + t\<rparr> else it)"

definition lru_time :: "LsShmHash \<Rightarrow> off \<Rightarrow> int" where
  "lru_time h x = (case h_elems h x of None \<Rightarrow> 0 | Some e \<Rightarrow> if getLruLinkPtr h x e then x_lasttime e else 0)"

text \<open>The value area after header, cas and data were written into it.\<close>

definition filled :: "bool \<Rightarrow> LsMcDataItem \<Rightarrow> u64 \<Rightarrow> bytes \<Rightarrow> bytes \<Rightarrow> bytes" where
  "filled usecas it cas data val =
     (let val = wr val 0 (enc_item it);
          val = (if usecas then wr val sizeof_item (le_enc 8 (unat cas)) else val)
      in if length data > 0 then wr val (data_off usecas) data else val)"

lemma filled_ok:
  assumes "data_off usecas + length data \<le> length val"
  shows "length (filled usecas it cas data val) = length val"
    "take (data_off usecas + length data) (filled usecas it cas data val) = mk_value usecas it cas data"
proof -
  have l: "16 \<le> length val" "usecas \<Longrightarrow> 24 \<le> length val" using assms by (auto simp: data_off_def lay_simps split: if_splits)
  define h where "h = enc_item it @ (if usecas then le_enc 8 (unat cas) else [])"
  have lh: "length h = data_off usecas" by (simp add: h_def data_off_def lay_simps)
  have v1: "wr val 0 (enc_item it) = enc_item it @ drop 16 val" using l by (simp add: wr_start)
  have v2: "(if usecas then wr (wr val 0 (enc_item it)) sizeof_item (le_enc 8 (unat cas)) else wr val 0 (enc_item it)) = h @ drop (data_off usecas) val"
    using l by (auto simp: v1 h_def wr_append lay_simps data_off_def)
  have f: "filled usecas it cas data val = h @ data @ drop (data_off usecas + length data) val"
  proof (cases "data = []")
    case True
    then show ?thesis by (simp add: filled_def Let_def v2)
  next
    case False
    then show ?thesis using assms by (simp add: filled_def Let_def v2 wr_append lh add.commute)
  qed
  show "length (filled usecas it cas data val) = length val" using assms lh by (simp add: f)
  show "take (data_off usecas + length data) (filled usecas it cas data val) = mk_value usecas it cas data"
    using lh by (simp add: f mk_value_def) (simp add: h_def)
qed

lemma getCas_simps:
  "fst (getCas m) = next_cas m" "good m \<Longrightarrow> cur_step m (snd (getCas m))" "client (snd (getCas m)) = client m" "out (snd (getCas m)) = out m"
  "good m \<Longrightarrow> getHash (snd (getCas m)) = getHash m" "m_iterOff (snd (getCas m)) = m_iterOff m" "m_retcode (snd (getCas m)) = m_retcode m"
  "m_cur (snd (getCas m)) = m_cur m" "good (snd (getCas m)) = good m" "m_mcparms (snd (getCas m)) = m_mcparms m"
  "m_conn (snd (getCas m)) = m_conn m" "m_noreply (snd (getCas m)) = m_noreply m"
  by (auto simp: getCas_def next_cas_def cur_step_on_cur)

lemma dataItemUpdate_fresh:
  assumes g: "good m" and at: "hash_at E (getHash m) mp R (m_iterOff m) k"
    and rc: "m_retcode m \<noteq> UPDRET_APPEND" "m_retcode m \<noteq> UPDRET_PREPEND"
    and v: "mp k = Some v0" "length v0 = data_off (m_usecas (m_mcparms m)) + n" and b: "n \<le> length pBuf"
  defines "m' \<equiv> dataItemUpdate pBuf m" and "it \<equiv> adj_time (lru_time (getHash m) (m_iterOff m)) (m_item m)"
  shows "hash_at E (getHash m') (mp(k \<mapsto> mk_value (m_usecas (m_mcparms m)) it (next_cas m) (take n pBuf))) R (m_iterOff m) k"
    "cur_step m m'" "client m' = client m" "out m' = out m" "m_retcode m' = m_retcode m" "m_iterOff m' = m_iterOff m"
    "m_noreply m' = m_noreply m" "m_conn m' = m_conn m" "m_rescas m' = (if m_usecas (m_mcparms m) then next_cas m else m_rescas m)"
proof -
  let ?x = "m_iterOff m" and ?u = "m_usecas (m_mcparms m)"
  obtain e where e: "elem_live E (getHash m) ?x e" "e_key e = k" "mp k = Some (take (e_valLen e) (e_val e))"
    using hash_atD(3) [OF at] by auto
  have el: "h_elems (getHash m) ?x = Some e" "e_valLen e \<le> length (e_val e)" using e(1) by (auto simp: elem_live_def elem_ok_def)
  have n: "e_valLen e = data_off ?u + n" using e(3) v el(2) by simp
  have lt: "(if getLruLinkPtr (getHash m) ?x e then x_lasttime e else 0) = lru_time (getHash m) ?x" by (simp add: lru_time_def el)
  define m1 where "m1 = m\<lparr>m_item := it\<rparr>"
  define m2 where "m2 = (if ?u then (snd (getCas m1))\<lparr>m_rescas := next_cas m1\<rparr> else m1)"
  have nc: "next_cas m1 = next_cas m" by (simp add: next_cas_def m1_def)
  have g1: "good m1" using g by (simp add: m1_def)
  define f where "f = (\<lambda>e' :: LsShmHElem. e'\<lparr>e_val := filled ?u it (next_cas m) (take n pBuf) (e_val e)\<rparr>)"
  have m2: "good m2" "m_iterOff m2 = ?x" "cur_step m m2" "client m2 = client m" "out m2 = out m" "m_retcode m2 = m_retcode m"
    "m_cur m2 = m_cur m" "m_conn m2 = m_conn m" "m_noreply m2 = m_noreply m" "m_rescas m2 = (if ?u then next_cas m else m_rescas m)"
    using g1 getCas_simps [of m1] cur_step_trans [of m m1 "snd (getCas m1)"] nc by (auto simp: m2_def m1_def)
  have eq: "m' = (set_hash (upd_elem ?x f (getHash m)) m2)\<lparr>m_needed := 0\<rparr>"
  proof -
    have i1: "(if it_exptime (m_item m) \<noteq> 0 \<and> it_exptime (m_item m) \<le> LSMC_MAXDELTATIME
       then m\<lparr>m_item := (m_item m)\<lparr>it_exptime := it_exptime (m_item m) + lru_time (getHash m) ?x\<rparr>\<rparr> else m) = m1"
      by (simp add: m1_def it_def adj_time_def)
    have ln: "min (e_valLen e - data_off ?u) (length pBuf) = n" using n b by simp
    have val: "filled ?u it (next_cas m) (take n pBuf) (e_val e) =
      (let v1 = (if ?u then wr (wr (e_val e) 0 (enc_item it)) sizeof_item (le_enc 8 (unat (next_cas m))) else wr (e_val e) 0 (enc_item it))
       in if e_valLen e - data_off ?u > 0 then wr v1 (data_off ?u) (take n pBuf) else v1)"
      using n b by (auto simp: filled_def Let_def)
    have rcF: "(m_retcode m = UPDRET_APPEND) = False" "(m_retcode m = UPDRET_PREPEND) = False" using rc by auto
    have mi: "m_item m1 = it" "m_mcparms m1 = m_mcparms m" "m_iterOff m1 = ?x" by (simp_all add: m1_def)
    show ?thesis
      unfolding m'_def dataItemUpdate_def elem_live_simps(4) [OF e(1)] prod.case option.case mcIter2data_def Let_def lt rcF
        if_False not_False_eq_True simp_thms if_True i1
      using ln n by (simp add: mi getCas_simps nc val f_def m2_def split_beta)
  qed
  have len: "data_off ?u + length (take n pBuf) \<le> length (e_val e)" "length (take n pBuf) = n" using el(2) n b by auto
  note fl = filled_ok [OF len(1), of it "next_cas m", unfolded len(2)]
  have sh: "same_shape e (f e)" using fl(1) el(2) by (simp add: same_shape_def f_def)
  have "take (e_valLen (f e)) (e_val (f e)) = mk_value ?u it (next_cas m) (take n pBuf)" using fl(2) n by (simp add: f_def)
  moreover have "getHash m' = upd_elem ?x f (getHash m)" using m2(1) by (simp add: eq)
  ultimately show "hash_at E (getHash m') (mp(k \<mapsto> mk_value ?u it (next_cas m) (take n pBuf))) R ?x k"
    using hash_at_write(1) [where f = f, OF at el(1) sh] by simp
  show "cur_step m m'" "client m' = client m" "out m' = out m" "m_retcode m' = m_retcode m" "m_iterOff m' = ?x"
    "m_noreply m' = m_noreply m" "m_conn m' = m_conn m" "m_rescas m' = (if ?u then next_cas m else m_rescas m)"
    using m2 cur_step_trans [OF m2(3) cur_step_set_hash [OF m2(1)]] by (auto simp: eq)
qed

section \<open>The end of a storage command\<close>

text \<open>Every stored value has room for the item header.\<close>

definition items_ok :: "bool \<Rightarrow> (bytes \<Rightarrow> bytes option) \<Rightarrow> bool" where
  "items_ok usecas mp \<longleftrightarrow> (\<forall>k v. mp k = Some v \<longrightarrow> data_off usecas \<le> length v)"

definition slice_ok :: "env \<Rightarrow> LsMemcache \<Rightarrow> (bytes \<Rightarrow> bytes option) \<Rightarrow> block multiset \<Rightarrow> bool" where
  "slice_ok E m mp R \<longleftrightarrow> good m \<and> hash_inv E (getHash m) mp R \<and> items_ok (m_usecas (m_mcparms m)) mp"

lemma items_ok_upd [simp]: "items_ok u mp \<Longrightarrow> items_ok u (mp(k \<mapsto> mk_value u it cas data))"
  "items_ok u mp \<Longrightarrow> items_ok u (mp(k := None))"
  by (auto simp: items_ok_def length_mk_value)

text \<open>The header word is inside the value, so the whole area may be read for it.\<close>

lemma take_header:
  assumes "16 \<le> n"
  shows "x_exptime (take n v) = x_exptime v" "x_flags (take n v) = x_flags v" "isExpired E (take n v) = isExpired E v"
    "24 \<le> n \<Longrightarrow> x_cas (take n v) = x_cas v"
  using assms by (auto simp: x_exptime_def x_flags_def x_cas_def isExpired_def rd_def take_drop min_def lay_simps)

lemma doDataUpdate_stored:
  assumes g: "good m" and c: "client m" and k: "mp_key m = key" "key \<noteq> []"
    and x: "m_iterOff m \<noteq> 0" and at: "hash_at E (getHash m) mp R (m_iterOff m) key"
    and rc: "m_retcode m \<noteq> UPDRET_APPEND" "m_retcode m \<noteq> UPDRET_PREPEND" "m_retcode m \<noteq> UPDRET_NONE"
    and v: "mp key = Some v0" "length v0 = data_off (m_usecas (m_mcparms m)) + n" and b: "n \<le> length pBuf"
  defines "m' \<equiv> doDataUpdate pBuf m"
  shows "hash_inv E (getHash m') (mp(key \<mapsto> mk_value (m_usecas (m_mcparms m))
      (adj_time (lru_time (getHash m) (m_iterOff m)) (m_item m)) (next_cas m) (take n pBuf))) R"
    "cur_step m m'" "client m'" "out m' = out m @ ''STORED'' @ CRLF"
proof -
  define m1 where "m1 = m\<lparr>mp_key := []\<rparr>"
  have e1: "good m1" "hash_at E (getHash m1) mp R (m_iterOff m1) key" "m_retcode m1 \<noteq> UPDRET_APPEND" "m_retcode m1 \<noteq> UPDRET_PREPEND"
    "length v0 = data_off (m_usecas (m_mcparms m1)) + n" "next_cas m1 = next_cas m" "client m1" "out m1 = out m" "cur_step m m1"
    using g at rc v c by (simp_all add: m1_def next_cas_def)
  note d = dataItemUpdate_fresh [OF e1(1,2,3,4) v(1) e1(5) b]
  have m': "m' = (respond (''STORED'' @ CRLF) (notifyChange (dataItemUpdate pBuf m1)))\<lparr>m_iterOff := 0\<rparr>"
    using k x rc(3) d(5) by (simp add: m'_def doDataUpdate_def Let_def m1_def)
  have "getHash m' = getHash (dataItemUpdate pBuf m1)" by (simp add: m')
  then show "hash_inv E (getHash m') (mp(key \<mapsto> mk_value (m_usecas (m_mcparms m))
      (adj_time (lru_time (getHash m) (m_iterOff m)) (m_item m)) (next_cas m) (take n pBuf))) R"
    using hash_atD(1) [OF d(1)] e1(6) by (simp add: m1_def)
  show "cur_step m m'" using cur_step_trans [OF e1(9) d(2)] by (simp add: m')
  show "client m'" "out m' = out m @ ''STORED'' @ CRLF" using d(3,4) e1(7,8) client_out(1) [of "notifyChange (dataItemUpdate pBuf m1)"] by (auto simp: m')
qed

lemma doDataUpdate_failed:
  assumes "client m" "mp_key m \<noteq> []" "m_iterOff m = 0"
  shows "getHash (doDataUpdate pBuf m) = getHash m" "cur_step m (doDataUpdate pBuf m)" "client (doDataUpdate pBuf m)"
    "out (doDataUpdate pBuf m) = out m @ (if m_retcode m = UPDRET_NOTFOUND then ''NOT_FOUND''
       else if m_retcode m = UPDRET_CASFAIL then ''EXISTS'' else ''NOT_STORED'') @ CRLF"
  using assms client_out(1) [of "m\<lparr>mp_key := []\<rparr>"] by (simp_all add: doDataUpdate_def Let_def)

section \<open>The storage primitives on the map\<close>

text \<open>The outcome of storing \<open>n\<close> bytes under a key: the offset, or 0 for failure.\<close>

definition outcome :: "env \<Rightarrow> LsShmHash \<Rightarrow> (bytes \<Rightarrow> bytes option) \<Rightarrow> block multiset \<Rightarrow> off \<Rightarrow> bytes \<Rightarrow> nat \<Rightarrow> bool" where
  "outcome E h mp R x key n \<longleftrightarrow>
     (if x = 0 then hash_inv E h mp R \<or> hash_inv E h (mp(key := None)) R
      else \<exists>v. length v = n \<and> hash_at E h (mp(key \<mapsto> v)) R x key)"

lemma put_outcome: "put_result E h h' mp R x key (None, n) \<Longrightarrow> outcome E h' mp R x key n"
  by (auto simp: put_result_def outcome_def val_is_def)

definition live :: "env \<Rightarrow> (bytes \<Rightarrow> bytes option) \<Rightarrow> bytes \<Rightarrow> bytes option" where
  "live E mp key = (case mp key of None \<Rightarrow> None | Some v \<Rightarrow> if isExpired E v then None else Some v)"

lemma slice_elem:
  assumes ok: "slice_ok E m mp R" and k: "m_hkey m = m_hf E key" and s: "mp key = Some v"
  defines "x \<equiv> find2 (m_hkey m) key (getHash m)"
  obtains e where "x \<noteq> 0" "hash_at E (getHash m) mp R x key" "elem_live E (getHash m) x e" "v = take (e_valLen e) (e_val e)"
    "isExpired E (e_val e) = isExpired E v" "m_usecas (m_mcparms m) \<longrightarrow> x_cas (e_val e) = x_cas v" "data_off (m_usecas (m_mcparms m)) \<le> e_valLen e"
    "x_flags (e_val e) = x_flags v" "e_valLen e \<le> length (e_val e)" "e_key e = key" "x_exptime (e_val e) = x_exptime v"
proof -
  have inv: "hash_inv E (getHash m) mp R" and it: "items_ok (m_usecas (m_mcparms m)) mp" using ok by (auto simp: slice_ok_def)
  have at: "hash_at E (getHash m) mp R x key" using find2_hash [OF inv, of key] s by (simp add: x_def k)
  obtain e where e: "elem_live E (getHash m) x e" "mp key = Some (take (e_valLen e) (e_val e))" "e_key e = key" using hash_atD(3) [OF at] by auto
  have l: "e_valLen e \<le> length (e_val e)" using e(1) by (simp add: elem_live_def elem_ok_def)
  have d: "data_off (m_usecas (m_mcparms m)) \<le> e_valLen e" using it [unfolded items_ok_def, rule_format, OF s] e(2) s l by simp
  then have "16 \<le> e_valLen e" "m_usecas (m_mcparms m) \<Longrightarrow> 24 \<le> e_valLen e" by (auto simp: data_off_def lay_simps split: if_splits)
  with that [of e] at hash_atD(2) [OF at] e s d l take_header [where n = "e_valLen e" and v = "e_val e"] show ?thesis by auto
qed

lemma slice_absent: "slice_ok E m mp R \<Longrightarrow> m_hkey m = m_hf E key \<Longrightarrow> mp key = None \<Longrightarrow> find2 (m_hkey m) key (getHash m) = 0"
  using find2_zero by (auto simp: slice_ok_def)

lemma doHashInsert_ok:
  assumes ok: "slice_ok E m mp R" and k: "mp_key m = key" "m_hkey m = m_hf E key" and p: "put_ok (getHash m) key (valarg_of m)"
    and r: "doHashInsert E opt m = (x, opt', m1)"
  shows "\<exists>h1. m1 = set_hash h1 m \<and> (if live E mp key = None then outcome E h1 mp R x key (mp_vallen m) else x = 0 \<and> h1 = getHash m)"
proof (cases "mp key")
  case None
  have "insertPtr E key (valarg_of m) (getHash m) = doInsert E 0 (m_hkey m) key (valarg_of m) (getHash m)"
    using slice_absent [OF ok k(2) None] by (simp add: insertPtr_def k)
  then obtain y h1 where i: "insertPtr E key (valarg_of m) (getHash m) = (y, h1)" "doInsert E 0 (m_hkey m) key (valarg_of m) (getHash m) = (y, h1)"
    by fastforce
  have "put_result E (getHash m) h1 mp R y key (valarg_of m)"
    using doInsert_ok [OF _ p i(1)] ok None by (auto simp: slice_ok_def)
  moreover have "x = y" "m1 = set_hash h1 m" using r i(2) slice_absent [OF ok k(2) None] k(1) by (auto simp: doHashInsert_def Let_def)
  ultimately show ?thesis using None put_outcome [of E _ h1 mp R y key] by (auto simp: live_def valarg_of_def)
next
  case (Some v)
  obtain e where e: "find2 (m_hkey m) key (getHash m) \<noteq> 0" "elem_live E (getHash m) (find2 (m_hkey m) key (getHash m)) e"
    "isExpired E (e_val e) = isExpired E v" by (rule slice_elem [OF ok k(2) Some])
  obtain y h1 where s: "doSet E (find2 (m_hkey m) key (getHash m)) (m_hkey m) key (valarg_of m) (getHash m) = (y, h1)" by fastforce
  have "put_result E (getHash m) h1 mp R y key (valarg_of m)"
    by (rule doSet_ok [OF _ p s [unfolded k(2)]]) (use ok in \<open>auto simp: slice_ok_def\<close>)
  then have o: "outcome E h1 mp R y key (mp_vallen m)" using put_outcome by (simp add: valarg_of_def)
  show ?thesis
  proof (cases "isExpired E v")
    case True
    then have "x = y" "m1 = set_hash h1 m" using r s e k(1) by (auto simp: doHashInsert_def Let_def elem_live_simps(8) [OF e(2)])
    then show ?thesis using o True Some by (auto simp: live_def)
  next
    case False
    then have "x = 0" "m1 = set_hash (getHash m) m" using r e k(1) by (auto simp: doHashInsert_def Let_def elem_live_simps(8) [OF e(2)])
    then show ?thesis using False Some by (auto simp: live_def)
  qed
qed

text \<open>\<open>doHashUpdate\<close> for the commands that replace a value.\<close>

lemma doHashUpdate_replace:
  assumes ok: "slice_ok E m mp R" and k: "mp_key m = key" "m_hkey m = m_hf E key" and p: "put_ok (getHash m) key (valarg_of m)"
    and c: "o_cmd opt = MC_BINCMD_REPLACE" "o_withcas opt \<or> o_cas opt \<noteq> 0 \<longrightarrow> m_usecas (m_mcparms m)"
    and r: "doHashUpdate E opt m = (x, opt', nb, m1)"
  shows "\<exists>h1. m1 = set_hash h1 m \<and>
    (case live E mp key of
       None \<Rightarrow> x = 0 \<and> o_retcode opt' = UPDRET_NOTFOUND \<and> hash_inv E h1 (mp(key := None)) R
     | Some v \<Rightarrow> if (o_withcas opt \<or> o_cas opt \<noteq> 0) \<and> x_cas v \<noteq> o_cas opt
         then x = 0 \<and> o_retcode opt' = UPDRET_CASFAIL \<and> h1 = getHash m
         else o_retcode opt' = UPDRET_DONE \<and> outcome E h1 mp R x key (mp_vallen m))"
proof (cases "mp key")
  case None
  have "m = set_hash (getHash m) m" using ok by (simp add: set_hash_def on_cur_def)
  moreover have "mp(key := None) = mp" using None by auto
  ultimately show ?thesis using r slice_absent [OF ok k(2) None] k(1) None ok
    by (intro exI [of _ "getHash m"]) (auto simp: doHashUpdate_def Let_def live_def slice_ok_def)
next
  case (Some v)
  let ?y = "find2 (m_hkey m) key (getHash m)"
  obtain e where e: "?y \<noteq> 0" "hash_at E (getHash m) mp R ?y key" "elem_live E (getHash m) ?y e"
    "isExpired E (e_val e) = isExpired E v" "m_usecas (m_mcparms m) \<longrightarrow> x_cas (e_val e) = x_cas v" by (rule slice_elem [OF ok k(2) Some])
  have codes: "MC_BINCMD_REPLACE \<noteq> MC_BINCMD_INCREMENT" "MC_BINCMD_REPLACE \<noteq> MC_BINCMD_DECREMENT"
    "MC_BINCMD_REPLACE \<noteq> MC_BINCMD_APPEND" "MC_BINCMD_REPLACE \<noteq> MC_BINCMD_PREPEND" by (simp_all add: cmd_codes)
  obtain z h1 where s: "doUpdate E ?y (m_hkey m) key (valarg_of m) (getHash m) = (z, h1)" by fastforce
  then have s': "updatePtr E key (valarg_of m) (getHash m) = (z, h1)" by (simp add: updatePtr_def k)
  have "put_result E (getHash m) h1 mp R z key (valarg_of m)" using doUpdate_ok [OF _ p s'] ok Some by (auto simp: slice_ok_def)
  then have o: "outcome E h1 mp R z key (mp_vallen m)" using put_outcome by (simp add: valarg_of_def)
  have cc: "((o_withcas opt \<or> o_cas opt \<noteq> 0) \<and> x_cas (e_val e) \<noteq> o_cas opt) = ((o_withcas opt \<or> o_cas opt \<noteq> 0) \<and> x_cas v \<noteq> o_cas opt)"
    using c(2) e(5) by (cases "o_withcas opt \<or> o_cas opt \<noteq> 0") auto
  have eq: "doHashUpdate E opt m = (if isExpired E v then (0, opt\<lparr>o_retcode := UPDRET_NOTFOUND\<rparr>, [], set_hash (eraseIteratorHelper E ?y (getHash m)) m)
      else if (o_withcas opt \<or> o_cas opt \<noteq> 0) \<and> x_cas v \<noteq> o_cas opt then (0, opt\<lparr>o_retcode := UPDRET_CASFAIL\<rparr>, [], set_hash (getHash m) m)
      else (z, opt\<lparr>o_retcode := UPDRET_DONE\<rparr>, [], set_hash h1 m))"
    using e(1,4) c(1) s codes cc by (simp add: doHashUpdate_def k(1) elem_live_simps(4) [OF e(3)] Let_def)
  show ?thesis
    using r eraseIteratorHelper_hash(1) [OF e(2)] o Some unfolding eq by (auto simp: live_def split: if_splits)
qed

section \<open>The storage commands\<close>

text \<open>What memcached promises: the answer of a refused command, or \<open>None\<close> when the value is to be stored.\<close>

definition refused :: "env \<Rightarrow> nat \<Rightarrow> u64 \<Rightarrow> (bytes \<Rightarrow> bytes option) \<Rightarrow> bytes \<Rightarrow> bytes option" where
  "refused E arg cas mp key =
     (case live E mp key of
        None \<Rightarrow> if arg = MC_BINCMD_REPLACE then Some ''NOT_STORED''
                else if arg = MC_BINCMD_REPLACE + LSMC_WITHCAS then Some ''NOT_FOUND'' else None
      | Some v \<Rightarrow> if arg = MC_BINCMD_ADD then Some ''NOT_STORED''
                  else if arg = MC_BINCMD_REPLACE + LSMC_WITHCAS \<and> x_cas v \<noteq> cas then Some ''EXISTS'' else None)"

definition store_opt :: "nat \<Rightarrow> u64 \<Rightarrow> LsMcUpdOpt" where
  "store_opt arg cas = \<lparr>o_cmd = arg mod LSMC_WITHCAS, o_withcas = (arg div LSMC_WITHCAS mod 2 = 1), o_usecas = False,
     o_retcode = UPDRET_DONE, o_value = 0, o_cas = cas\<rparr>"

abbreviation store_cmds :: "nat set" where
  "store_cmds \<equiv> {MC_BINCMD_SET, MC_BINCMD_ADD, MC_BINCMD_REPLACE, MC_BINCMD_REPLACE + LSMC_WITHCAS}"

text \<open>The switch over the command code, on the map: what it answers is what the specification says.\<close>

lemma switch_state:
  assumes g: "good m"
    and m1: "m1 = (set_hash h1 m)\<lparr>m_iterOff := x, m_retcode := rc\<rparr> \<or> (\<exists>f. m1 = stat_upd f ((set_hash h1 m)\<lparr>m_iterOff := x, m_retcode := rc\<rparr>))"
  shows "cur_step m m1" "getHash m1 = h1" "mp_key m1 = mp_key m" "m_item m1 = m_item m" "client m1 = client m" "out m1 = out m"
    "next_cas m1 = next_cas m" "m_iterOff m1 = x" "m_retcode m1 = rc"
proof -
  let ?m = "(set_hash h1 m)\<lparr>m_iterOff := x, m_retcode := rc\<rparr>"
  have s: "cur_step m ?m" using cur_step_set_hash [OF g] by simp
  have h: "sl_hash (m_slices (stat_upd f ?m) ! m_cur m) = h1" "hdrOff (m_slices (stat_upd f ?m) ! m_cur m) = hdrOff (cur_slice m)"
    "hdr_cas (m_slices (stat_upd f ?m) ! m_cur m) = hdr_cas (cur_slice m)" for f
    using stat_upd_simps(14-16) [of ?m f] g by simp_all
  have s2: "cur_step m (stat_upd f ?m)" for f using cur_step_trans [OF s cur_step_stat [of ?m f]] g by simp
  from m1 show "cur_step m m1" "getHash m1 = h1" "mp_key m1 = mp_key m" "m_item m1 = m_item m" "client m1 = client m" "out m1 = out m"
    "next_cas m1 = next_cas m" "m_iterOff m1 = x" "m_retcode m1 = rc"
    using s s2 h g by (auto simp: next_cas_def)
qed

lemma update_switch_ok:
  assumes ok: "slice_ok E m mp R" and k: "mp_key m = key" "m_hkey m = m_hf E key" and p: "put_ok (getHash m) key (valarg_of m)"
    and a: "arg \<in> store_cmds" "arg = MC_BINCMD_REPLACE + LSMC_WITHCAS \<or> cas = 0" "arg = MC_BINCMD_REPLACE + LSMC_WITHCAS \<longrightarrow> m_usecas (m_mcparms m)"
    and r: "update_switch E arg (store_opt arg cas) m = (b, m1)"
  shows "b" "\<exists>h1 x rc. (m1 = (set_hash h1 m)\<lparr>m_iterOff := x, m_retcode := rc\<rparr> \<or> (\<exists>f. m1 = stat_upd f ((set_hash h1 m)\<lparr>m_iterOff := x, m_retcode := rc\<rparr>))) \<and>
    (case refused E arg cas mp key of
       None \<Rightarrow> rc = UPDRET_DONE \<and> outcome E h1 mp R x key (mp_vallen m)
     | Some msg \<Rightarrow> x = 0 \<and> (hash_inv E h1 mp R \<or> live E mp key = None \<and> hash_inv E h1 (mp(key := None)) R) \<and>
         msg = (if rc = UPDRET_NOTFOUND then ''NOT_FOUND'' else if rc = UPDRET_CASFAIL then ''EXISTS'' else ''NOT_STORED'') \<and>
         rc \<notin> {UPDRET_APPEND, UPDRET_PREPEND, UPDRET_NONE})"
proof -
  have inv: "hash_inv E (getHash m) mp R" using ok by (simp add: slice_ok_def)
  have codes: "MC_BINCMD_SET \<noteq> MC_BINCMD_ADD" "MC_BINCMD_REPLACE \<noteq> MC_BINCMD_ADD" "MC_BINCMD_REPLACE \<noteq> MC_BINCMD_SET"
    "MC_BINCMD_REPLACE + LSMC_WITHCAS \<notin> {MC_BINCMD_ADD, MC_BINCMD_SET, MC_BINCMD_REPLACE, MC_BINCMD_APPEND, MC_BINCMD_PREPEND}"
    "MC_BINCMD_REPLACE \<noteq> MC_BINCMD_REPLACE + LSMC_WITHCAS" "MC_BINCMD_SET \<noteq> MC_BINCMD_REPLACE + LSMC_WITHCAS"
    by (simp_all add: cmd_codes LSMC_WITHCAS_def)
  let ?P = "\<lambda>m1 h1 x rc. (m1 = (set_hash h1 m)\<lparr>m_iterOff := x, m_retcode := rc\<rparr> \<or> (\<exists>f. m1 = stat_upd f ((set_hash h1 m)\<lparr>m_iterOff := x, m_retcode := rc\<rparr>))) \<and>
    (case refused E arg cas mp key of
       None \<Rightarrow> rc = UPDRET_DONE \<and> outcome E h1 mp R x key (mp_vallen m)
     | Some msg \<Rightarrow> x = 0 \<and> (hash_inv E h1 mp R \<or> live E mp key = None \<and> hash_inv E h1 (mp(key := None)) R) \<and>
         msg = (if rc = UPDRET_NOTFOUND then ''NOT_FOUND'' else if rc = UPDRET_CASFAIL then ''EXISTS'' else ''NOT_STORED'') \<and>
         rc \<notin> {UPDRET_APPEND, UPDRET_PREPEND, UPDRET_NONE})"
  consider "arg = MC_BINCMD_ADD" | "arg = MC_BINCMD_SET" | "arg = MC_BINCMD_REPLACE" | "arg = MC_BINCMD_REPLACE + LSMC_WITHCAS" using a(1) by blast
  then have "b \<and> (\<exists>h1 x rc. ?P m1 h1 x rc)"
  proof cases
    case 1
    obtain x opt' m0 where i: "doHashInsert E (store_opt arg cas) m = (x, opt', m0)" by (metis prod_cases3)
    obtain h1 where h1: "m0 = set_hash h1 m" "if live E mp key = None then outcome E h1 mp R x key (mp_vallen m) else x = 0 \<and> h1 = getHash m"
      using doHashInsert_ok [OF ok k p i] by blast
    have "b" "m1 = (set_hash h1 m)\<lparr>m_iterOff := x, m_retcode := UPDRET_DONE\<rparr>" using r i h1(1) 1 by (auto simp: update_switch_def)
    then show ?thesis using h1(2) inv 1 codes
      by (intro conjI exI [of _ h1] exI [of _ x] exI [of _ UPDRET_DONE]) (auto simp: refused_def split: option.splits)
  next
    case 2
    obtain x h1 where s: "doSet E (find2 (m_hkey m) key (getHash m)) (m_hkey m) key (valarg_of m) (getHash m) = (x, h1)" by fastforce
    have "outcome E h1 mp R x key (mp_vallen m)"
      using put_outcome doSet_ok [OF inv p s [unfolded k(2)]] by (simp add: valarg_of_def)
    moreover have "b" "m1 = (set_hash h1 m)\<lparr>m_iterOff := x, m_retcode := UPDRET_DONE\<rparr>"
      using r s 2 codes k(1) by (auto simp: update_switch_def Let_def)
    ultimately show ?thesis using 2 codes
      by (intro conjI exI [of _ h1] exI [of _ x] exI [of _ UPDRET_DONE]) (auto simp: refused_def split: option.splits)
  next
    case 3
    have o: "o_cmd (store_opt arg cas) = MC_BINCMD_REPLACE" "\<not> o_withcas (store_opt arg cas)" "o_cas (store_opt arg cas) = 0"
      using 3 a(2) codes by (auto simp: store_opt_def cmd_codes LSMC_WITHCAS_def)
    obtain x opt' nb m0 where i: "doHashUpdate E (store_opt arg cas) m = (x, opt', nb, m0)" by (metis prod_cases4)
    obtain h1 where h1: "m0 = set_hash h1 m" "case live E mp key of None \<Rightarrow> x = 0 \<and> hash_inv E h1 (mp(key := None)) R
       | Some v \<Rightarrow> outcome E h1 mp R x key (mp_vallen m)"
      using doHashUpdate_replace [OF ok k p o(1) _ i] o by (auto split: option.splits)
    have "b" "m1 = (set_hash h1 m)\<lparr>m_iterOff := x, m_retcode := UPDRET_DONE\<rparr>" using r i h1(1) 3 codes by (auto simp: update_switch_def)
    then show ?thesis using h1(2) 3 codes
      by (intro conjI exI [of _ h1] exI [of _ x] exI [of _ UPDRET_DONE]) (auto simp: refused_def split: option.splits)
  next
    case 4
    have o: "o_cmd (store_opt arg cas) = MC_BINCMD_REPLACE" "o_withcas (store_opt arg cas)" "o_cas (store_opt arg cas) = cas"
      using 4 by (auto simp: store_opt_def cmd_codes LSMC_WITHCAS_def)
    obtain x opt' nb m0 where i: "doHashUpdate E (store_opt arg cas) m = (x, opt', nb, m0)" by (metis prod_cases4)
    obtain h1 where h1: "m0 = set_hash h1 m" "case live E mp key of None \<Rightarrow> x = 0 \<and> o_retcode opt' = UPDRET_NOTFOUND \<and> hash_inv E h1 (mp(key := None)) R
       | Some v \<Rightarrow> if x_cas v \<noteq> cas then x = 0 \<and> o_retcode opt' = UPDRET_CASFAIL \<and> h1 = getHash m
         else o_retcode opt' = UPDRET_DONE \<and> outcome E h1 mp R x key (mp_vallen m)"
    proof -
      have u: "o_withcas (store_opt arg cas) \<or> o_cas (store_opt arg cas) \<noteq> 0 \<longrightarrow> m_usecas (m_mcparms m)" using a(3) 4 by simp
      from doHashUpdate_replace [OF ok k p o(1) u i] obtain h1 where m0: "m0 = set_hash h1 m" and
        c: "case live E mp key of None \<Rightarrow> x = 0 \<and> o_retcode opt' = UPDRET_NOTFOUND \<and> hash_inv E h1 (mp(key := None)) R
         | Some v \<Rightarrow> if (o_withcas (store_opt arg cas) \<or> o_cas (store_opt arg cas) \<noteq> 0) \<and> x_cas v \<noteq> o_cas (store_opt arg cas)
           then x = 0 \<and> o_retcode opt' = UPDRET_CASFAIL \<and> h1 = getHash m
           else o_retcode opt' = UPDRET_DONE \<and> outcome E h1 mp R x key (mp_vallen m)" by (elim exE conjE)
      from c o(2,3) have "case live E mp key of None \<Rightarrow> x = 0 \<and> o_retcode opt' = UPDRET_NOTFOUND \<and> hash_inv E h1 (mp(key := None)) R
       | Some v \<Rightarrow> if x_cas v \<noteq> cas then x = 0 \<and> o_retcode opt' = UPDRET_CASFAIL \<and> h1 = getHash m
         else o_retcode opt' = UPDRET_DONE \<and> outcome E h1 mp R x key (mp_vallen m)" by (cases "live E mp key") auto
      with m0 show ?thesis by (rule that)
    qed
    have "b" "\<exists>f. m1 = stat_upd f ((set_hash h1 m)\<lparr>m_iterOff := x, m_retcode := o_retcode opt'\<rparr>)"
      using r i h1(1) 4 codes by (auto simp: update_switch_def Let_def)
    then show ?thesis using h1(2) 4 codes inv
      by (intro conjI exI [of _ h1] exI [of _ x] exI [of _ "o_retcode opt'"]) (auto simp: refused_def split: option.splits if_splits)
  qed
  then show "b" "\<exists>h1 x rc. ?P m1 h1 x rc" by auto
qed

text \<open>A storage command within the memory limit: refused as the specification says, or stored, or
  failed for lack of memory. The other keys keep their values.\<close>

lemma update_store_ok:
  assumes ok: "slice_ok E m mp R" and c: "client m" and k: "mp_key m = key" "m_hkey m = m_hf E key"
    and n: "mp_vallen m = parmAdjLen m n" "n \<le> length pBuf" and p: "put_ok (getHash m) key (None, mp_vallen m)"
    and mem: "chkMemSz E arg m = (MC_BINSTAT_SUCCESS, m)"
    and a: "arg \<in> store_cmds" "arg = MC_BINCMD_REPLACE + LSMC_WITHCAS \<or> cas = 0" "arg = MC_BINCMD_REPLACE + LSMC_WITHCAS \<longrightarrow> m_usecas (m_mcparms m)"
    and r: "update_store E arg (store_opt arg cas) n pBuf m = (len, m')"
  shows "len = (if n \<noteq> 0 then int n + 2 else 0)" "cur_step m m'" "client m'"
    "case refused E arg cas mp key of
       Some msg \<Rightarrow> out m' = out m @ msg @ CRLF \<and>
         (slice_ok E m' mp R \<or> live E mp key = None \<and> slice_ok E m' (mp(key := None)) R)
     | None \<Rightarrow> (\<exists>t. out m' = out m @ ''STORED'' @ CRLF \<and>
           slice_ok E m' (mp(key \<mapsto> mk_value (m_usecas (m_mcparms m)) (adj_time t (m_item m)) (next_cas m) (take n pBuf))) R) \<or>
         (out m' = out m @ ''NOT_STORED'' @ CRLF \<and> (slice_ok E m' mp R \<or> slice_ok E m' (mp(key := None)) R))"
proof -
  let ?u = "m_usecas (m_mcparms m)"
  define m0 where "m0 = stat_upd (\<lambda>s. s\<lparr>set_cmds := set_cmds s + 1\<rparr>) m"
  have g: "good m" and it: "items_ok ?u mp" using ok by (auto simp: slice_ok_def)
  have h0: "getHash m0 = getHash m" using g by (simp add: m0_def)
  have e0: "slice_ok E m0 mp R" "client m0" "mp_key m0 = key" "m_hkey m0 = m_hf E key" "put_ok (getHash m0) key (valarg_of m0)"
    "m_mcparms m0 = m_mcparms m" "m_item m0 = m_item m" "out m0 = out m" "mp_vallen m0 = mp_vallen m" "cur_step m m0" "next_cas m0 = next_cas m"
    using ok c k p g h0 cur_step_stat [OF g] by (auto simp: m0_def slice_ok_def valarg_of_def next_cas_def)
  obtain b m1 where sw: "update_switch E arg (store_opt arg cas) m0 = (b, m1)" by fastforce
  note us = update_switch_ok [OF e0(1,3-5) a(1,2) _ sw, unfolded e0(6), OF a(3)]
  obtain h1 x rc where s: "m1 = (set_hash h1 m0)\<lparr>m_iterOff := x, m_retcode := rc\<rparr> \<or> (\<exists>f. m1 = stat_upd f ((set_hash h1 m0)\<lparr>m_iterOff := x, m_retcode := rc\<rparr>))"
    and cs: "case refused E arg cas mp key of
       None \<Rightarrow> rc = UPDRET_DONE \<and> outcome E h1 mp R x key (mp_vallen m0)
     | Some msg \<Rightarrow> x = 0 \<and> (hash_inv E h1 mp R \<or> live E mp key = None \<and> hash_inv E h1 (mp(key := None)) R) \<and>
         msg = (if rc = UPDRET_NOTFOUND then ''NOT_FOUND'' else if rc = UPDRET_CASFAIL then ''EXISTS'' else ''NOT_STORED'') \<and>
         rc \<notin> {UPDRET_APPEND, UPDRET_PREPEND, UPDRET_NONE}"
    using us(2) by (elim exE conjE)
  have g0: "good m0" using e0(1) by (simp add: slice_ok_def)
  note st = switch_state [OF g0 s]
  define m2 where "m2 = m1\<lparr>m_needed := n\<rparr>"
  have r': "len = (if n \<noteq> 0 then int n + 2 else 0)" "m' = doDataUpdate pBuf m2"
    using r mem sw us(1) by (auto simp: update_store_def m0_def [symmetric] Let_def m2_def)
  then show "len = (if n \<noteq> 0 then int n + 2 else 0)" by simp
  have s2: "cur_step m m2" "good m2" "client m2" "out m2 = out m" "mp_key m2 = key" "m_iterOff m2 = x" "m_retcode m2 = rc" "getHash m2 = h1"
    "m_mcparms m2 = m_mcparms m" "m_item m2 = m_item m" "next_cas m2 = next_cas m"
    using st e0 cur_step_trans [OF e0(10) st(1)] cur_step_good [OF st(1)] g0 by (auto simp: m2_def next_cas_def cur_step_def)
  have key: "key \<noteq> []" using p by (simp add: put_ok_def)
  have slice: "slice_ok E m' mp' R" if "cur_step m2 m'" "hash_inv E (getHash m') mp' R" "items_ok ?u mp'" for mp'
    using that s2(2,9) cur_step_good [OF that(1)] by (auto simp: slice_ok_def cur_step_def)
  have fail: "getHash m' = h1" "cur_step m2 m'" "client m'" "out m' = out m @ (if rc = UPDRET_NOTFOUND then ''NOT_FOUND''
       else if rc = UPDRET_CASFAIL then ''EXISTS'' else ''NOT_STORED'') @ CRLF" if "x = 0"
    using doDataUpdate_failed [of m2 pBuf] that s2 key r'(2) by auto
  have "cur_step m2 m' \<and> client m' \<and> (case refused E arg cas mp key of
       Some msg \<Rightarrow> out m' = out m @ msg @ CRLF \<and>
         (slice_ok E m' mp R \<or> live E mp key = None \<and> slice_ok E m' (mp(key := None)) R)
     | None \<Rightarrow> (\<exists>t. out m' = out m @ ''STORED'' @ CRLF \<and>
           slice_ok E m' (mp(key \<mapsto> mk_value ?u (adj_time t (m_item m)) (next_cas m) (take n pBuf))) R) \<or>
         (out m' = out m @ ''NOT_STORED'' @ CRLF \<and> (slice_ok E m' mp R \<or> slice_ok E m' (mp(key := None)) R)))"
  proof (cases "refused E arg cas mp key")
    case (Some msg)
    then have f: "x = 0" "hash_inv E h1 mp R \<or> live E mp key = None \<and> hash_inv E h1 (mp(key := None)) R"
      "msg = (if rc = UPDRET_NOTFOUND then ''NOT_FOUND'' else if rc = UPDRET_CASFAIL then ''EXISTS'' else ''NOT_STORED'')" using cs by auto
    note ff = fail [OF f(1)]
    have "slice_ok E m' mp R \<or> live E mp key = None \<and> slice_ok E m' (mp(key := None)) R"
      using f(2) slice [OF ff(2)] ff(1) it by auto
    then show ?thesis using ff f(3) Some by simp
  next
    case None
    then have rc: "rc = UPDRET_DONE" and o: "outcome E h1 mp R x key (mp_vallen m)" using cs e0(9) by auto
    show ?thesis
    proof (cases "x = 0")
      case True
      note ff = fail [OF True]
      have "slice_ok E m' mp R \<or> slice_ok E m' (mp(key := None)) R" using o True slice [OF ff(2)] ff(1) it by (auto simp: outcome_def)
      then show ?thesis using ff rc None by simp
    next
      case False
      then obtain v where v: "length v = data_off ?u + n" "hash_at E h1 (mp(key \<mapsto> v)) R x key"
        using o n(1) by (auto simp: outcome_def parmAdjLen_def add.commute)
      have at: "hash_at E (getHash m2) (mp(key \<mapsto> v)) R (m_iterOff m2) key" using v s2 by simp
      have "length v = data_off (m_usecas (m_mcparms m2)) + n" using v s2 by simp
      note d = doDataUpdate_stored [OF s2(2,3,5) key _ at _ _ _ _ this n(2), folded r'(2), unfolded s2]
      show ?thesis using d False rc None slice [of "mp(key \<mapsto> mk_value ?u (adj_time (lru_time h1 x) (m_item m)) (next_cas m) (take n pBuf))"] it
        by auto
    qed
  qed
  then show "cur_step m m'" "client m'" "case refused E arg cas mp key of
       Some msg \<Rightarrow> out m' = out m @ msg @ CRLF \<and>
         (slice_ok E m' mp R \<or> live E mp key = None \<and> slice_ok E m' (mp(key := None)) R)
     | None \<Rightarrow> (\<exists>t. out m' = out m @ ''STORED'' @ CRLF \<and>
           slice_ok E m' (mp(key \<mapsto> mk_value ?u (adj_time t (m_item m)) (next_cas m) (take n pBuf))) R) \<or>
         (out m' = out m @ ''NOT_STORED'' @ CRLF \<and> (slice_ok E m' mp R \<or> slice_ok E m' (mp(key := None)) R))"
    using cur_step_trans [OF s2(1)] by auto
qed

section \<open>Layout of an item\<close>



end
