(* ===== verification/McServer.thy ===== *)
theory McServer
  imports McStore
begin

text \<open>
  The server: all slices together, and the retrieval commands on what they store.
\<close>

section \<open>The server\<close>

text \<open>All slices are consistent; \<open>f i\<close> is the map that slice \<open>i\<close> stores. A key belongs to the
  slice its hash selects.\<close>

definition mc_inv :: "env \<Rightarrow> LsMemcache \<Rightarrow> (nat \<Rightarrow> bytes \<Rightarrow> bytes option) \<Rightarrow> bool" where
  "mc_inv E m f \<longleftrightarrow> m_slices m \<noteq> [] \<and>
     (\<forall>i<length (m_slices m). (\<exists>R. hash_inv E (sl_hash (m_slices m ! i)) (f i) R) \<and> items_ok (m_usecas (m_mcparms m)) (f i))"

definition slice_of :: "env \<Rightarrow> LsMemcache \<Rightarrow> bytes \<Rightarrow> nat" where
  "slice_of E m key = key2hashNum (m_hf E key) m"

definition item_at :: "env \<Rightarrow> LsMemcache \<Rightarrow> (nat \<Rightarrow> bytes \<Rightarrow> bytes option) \<Rightarrow> bytes \<Rightarrow> bytes option" where
  "item_at E m f key = live E (f (slice_of E m key)) key"

lemma slice_of_less: "m_slices m \<noteq> [] \<Longrightarrow> slice_of E m key < length (m_slices m)"
  by (auto simp: slice_of_def key2hashNum_def)

lemma setSlice_simps [simp]:
  "m_slices (setSlice E key m) = m_slices m" "m_cur (setSlice E key m) = slice_of E m key" "m_hkey (setSlice E key m) = m_hf E key"
  "m_mcparms (setSlice E key m) = m_mcparms m" "mp_key (setSlice E key m) = mp_key m" "client (setSlice E key m) = client m"
  "out (setSlice E key m) = out m" "m_conn (setSlice E key m) = m_conn m" "m_noreply (setSlice E key m) = m_noreply m"
  by (simp_all add: setSlice_def slice_of_def client_def out_def)

lemma setSlice_ok:
  assumes "mc_inv E m f"
  obtains R where "slice_ok E (setSlice E key m) (f (slice_of E m key)) R"
  using assms slice_of_less [of m E key] by (auto simp: mc_inv_def slice_ok_def good_def)

lemma slice_of_cong: "length (m_slices m') = length (m_slices m) \<Longrightarrow> slice_of E m' = slice_of E m"
  by (simp add: slice_of_def key2hashNum_def fun_eq_iff)

lemma mc_inv_fields [simp]:
  "mc_inv E (m\<lparr>mp_key := k\<rparr>) f = mc_inv E m f" "mc_inv E (m\<lparr>m_noreply := b\<rparr>) f = mc_inv E m f" "mc_inv E (setSlice E key m) f = mc_inv E m f"
  "mc_inv E (sendResult s m) f = mc_inv E m f" "mc_inv E (respond s m) f = mc_inv E m f"
  by (simp_all add: mc_inv_def)

lemma slice_of_fields [simp]: "slice_of E (m\<lparr>mp_key := k\<rparr>) = slice_of E m" "slice_of E (m\<lparr>m_noreply := b\<rparr>) = slice_of E m"
  "slice_of E (setSlice E key m) = slice_of E m" "slice_of E (sendResult s m) = slice_of E m" "slice_of E (respond s m) = slice_of E m"
  by (auto intro: slice_of_cong)

text \<open>A step on the current slice, seen from the server.\<close>

lemma mc_inv_step:
  assumes i: "mc_inv E m f" and c: "cur_step m m'" and s: "slice_ok E m' mp R"
  shows "mc_inv E m' (f(m_cur m := mp))" "slice_of E m' = slice_of E m"
  using assms by (auto simp: mc_inv_def cur_step_def slice_ok_def intro: slice_of_cong)

definition get_reply :: "nat \<Rightarrow> bool \<Rightarrow> bytes \<Rightarrow> bytes option \<Rightarrow> bytes" where
  "get_reply arg usecas key it =
     (case it of None \<Rightarrow> []
      | Some v \<Rightarrow> ''VALUE '' @ fmt_s key @ '' '' @ fmt_d (x_flags v) @ '' '' @ dec_str (length (item_data usecas v)) @
          (if arg div LSMC_WITHCAS mod 2 = 1 then '' '' @ dec_str (if usecas then unat (x_cas v) else 0) else []) @ CRLF @
          item_data usecas v @ CRLF)"

lemma live_drop: "mp key = Some v \<Longrightarrow> isExpired E v \<Longrightarrow> live E (mp(key := None)) = live E mp"
  by (auto simp: live_def fun_eq_iff)

lemma get_one_ok:
  fixes arg :: nat and key :: bytes
  assumes i: "mc_inv E m f" and c: "client m"
  defines "m' \<equiv> get_one E arg key m"
  shows "\<exists>f'. mc_inv E m' f' \<and> (\<forall>j k. live E (f' j) k = live E (f j) k)" "client m'" "m_mcparms m' = m_mcparms m" "slice_of E m' = slice_of E m"
    "out m' = out m @ get_reply arg (m_usecas (m_mcparms m)) key (item_at E m f key)"
proof -
  let ?u = "m_usecas (m_mcparms m)"
  define m0 where "m0 = setSlice E key (m\<lparr>mp_key := key\<rparr>)"
  let ?i = "slice_of E m key" and ?miss = "stat_upd (\<lambda>s. s\<lparr>get_misses := get_misses s + 1\<rparr>)"
  have i0: "mc_inv E m0 f" using i by (simp add: m0_def)
  obtain R where ok: "slice_ok E m0 (f ?i) R" using setSlice_ok [of E "m\<lparr>mp_key := key\<rparr>" f] i by (auto simp: m0_def)
  have m0: "m_hkey m0 = m_hf E key" "m_mcparms m0 = m_mcparms m" "client m0" "out m0 = out m" "m_cur m0 = ?i" "slice_of E m0 = slice_of E m"
    using c by (simp_all add: m0_def client_def out_def)
  have g: "good m0" using ok by (simp add: slice_ok_def)
  have fin: "(\<exists>f'. mc_inv E m' f' \<and> (\<forall>j k. live E (f' j) k = live E (f j) k)) \<and> m_mcparms m' = m_mcparms m \<and> slice_of E m' = slice_of E m"
    if st: "cur_step m0 m'" "getHash m' = h1" "hash_inv E h1 mp R" "items_ok ?u mp" "live E mp = live E (f ?i)" for h1 mp
  proof -
    have s: "slice_ok E m' mp R" using st(2-4) cur_step_good [OF st(1)] g m0(2) st(1) by (simp add: slice_ok_def cur_step_def)
    note q = mc_inv_step [OF i0 st(1) s]
    show ?thesis using q st(1,5) m0 by (intro conjI exI [of _ "f(?i := mp)"]) (auto simp: cur_step_def)
  qed
  have fi: "hash_inv E (getHash m0) (f ?i) R" "items_ok ?u (f ?i)" using ok m0(2) by (auto simp: slice_ok_def)
  have "(\<exists>f'. mc_inv E m' f' \<and> (\<forall>j k. live E (f' j) k = live E (f j) k)) \<and> client m' \<and> m_mcparms m' = m_mcparms m \<and> slice_of E m' = slice_of E m \<and>
    out m' = out m @ get_reply arg ?u key (item_at E m f key)"
  proof (cases "f ?i key")
    case None
    have m': "m' = ?miss m0" using slice_absent [OF ok m0(1) None] by (simp add: m'_def get_one_def m0_def [symmetric] Let_def)
    have "item_at E m f key = None" using None by (simp add: item_at_def live_def)
    moreover have "cur_step m0 m'" "getHash m' = getHash m0" using g by (simp_all add: m' cur_step_stat)
    note fin [OF this fi refl]
    ultimately show ?thesis using m0(3,4) by (simp add: m' get_reply_def)
  next
    case (Some v)
    let ?x = "find2 (m_hkey m0) key (getHash m0)"
    obtain e where e: "?x \<noteq> 0" "hash_at E (getHash m0) (f ?i) R ?x key" "elem_live E (getHash m0) ?x e" "v = take (e_valLen e) (e_val e)"
      "isExpired E (e_val e) = isExpired E v" "m_usecas (m_mcparms m0) \<longrightarrow> x_cas (e_val e) = x_cas v" "data_off (m_usecas (m_mcparms m0)) \<le> e_valLen e"
      "x_flags (e_val e) = x_flags v" "e_valLen e \<le> length (e_val e)" "e_key e = key" by (rule slice_elem [OF ok m0(1) Some])
    show ?thesis
    proof (cases "isExpired E v")
      case True
      let ?h = "snd (offset2iterator ?x (eraseIteratorHelper E ?x (getHash m0)))"
      have m': "m' = ?miss (set_hash ?h m0)"
        using e(1,5) True by (simp add: m'_def get_one_def m0_def [symmetric] Let_def elem_live_simps(4) [OF e(3)])
      have "hash_frame (eraseIteratorHelper E ?x (getHash m0)) ?h" by (simp add: hash_frameI(1))
      then have h: "hash_inv E ?h ((f ?i)(key := None)) R" using eraseIteratorHelper_hash(1) [OF e(2)] hash_frame_ok(1) by blast
      have "cur_step m0 m'" unfolding m' using g by (intro cur_step_trans [OF cur_step_set_hash cur_step_stat]) simp_all
      moreover have "getHash m' = ?h" using g by (simp add: m')
      moreover have "item_at E m f key = None" using Some True by (simp add: item_at_def live_def)
      ultimately show ?thesis using fin [OF _ _ h] fi(2) live_drop [of "f ?i" key v E] Some True m0 by (simp add: m' get_reply_def)
    next
      case False
      let ?m1 = "stat_upd (\<lambda>s. s\<lparr>get_hits := get_hits s + 1\<rparr>) (set_hash (getHash m0) m0)"
      let ?l = "value_line (arg div LSMC_WITHCAS mod 2 = 1) ?u e (e_valLen e - data_off ?u)"
      have m': "m' = binRespond CRLF (binRespond (rd (e_val e) (data_off ?u) (e_valLen e - data_off ?u)) (sendResult ?l ?m1))"
        using e(1,5) False by (simp add: m'_def get_one_def m0_def [symmetric] Let_def elem_live_simps(4) [OF e(3)] mcIter2data_def m0(2))
      have d: "rd (e_val e) (data_off ?u) (e_valLen e - data_off ?u) = item_data ?u v" "e_valLen e - data_off ?u = length (item_data ?u v)"
        using e(4,7,9) m0(2) by (auto simp: rd_def item_data_def drop_take)
      have "?l @ item_data ?u v @ CRLF = get_reply arg ?u key (item_at E m f key)"
        using Some False e(6,8,10) m0(2) by (simp add: value_line_def get_reply_def item_at_def live_def d(2))
      moreover have "out m' = out m0 @ ?l @ item_data ?u v @ CRLF \<and> client m'"
        using client_out(3) [of ?m1 ?l] client_out(2) [of "sendResult ?l ?m1" "item_data ?u v"]
          client_out(2) [of "binRespond (item_data ?u v) (sendResult ?l ?m1)" CRLF] m0(3) by (simp add: m' d(1))
      moreover have "cur_step m0 m'" using cur_step_trans [OF cur_step_set_hash cur_step_stat, of m0 "getHash m0"] g by (simp add: m')
      moreover have "getHash m' = getHash m0" using g by (simp add: m')
      ultimately show ?thesis using fin [OF _ _ fi] m0(4) by simp
    qed
  qed
  then show "\<exists>f'. mc_inv E m' f' \<and> (\<forall>j k. live E (f' j) k = live E (f j) k)" "client m'" "m_mcparms m' = m_mcparms m" "slice_of E m' = slice_of E m"
    "out m' = out m @ get_reply arg ?u key (item_at E m f key)" by auto
qed

end
