(* ===== verification/McLine.thy ===== *)
theory McLine
  imports McServer
begin

text \<open>
  The text protocol, line by line: the words of a command line and the regions the handlers scan, what
  \<open>processCmd\<close> does with a line that CR LF ends, and the retrieval and storage commands end to end,
  from the bytes of the request to the bytes of the answer and the stored items.
\<close>

section \<open>The words of a command line\<close>

lemma words_Nil [simp]: "words [] = []"
  by (subst words.simps) simp

lemma advToken_pos:
  assumes p: "p \<le> e" and e: "e \<le> length buf" "byte_at buf e = CHR 0x00" and r: "advToken buf p e = (p', t, n)"
  shows "n = 0 \<Longrightarrow> p' = e \<and> t = e"
    "n \<noteq> 0 \<Longrightarrow> p \<le> t \<and> t + n \<le> p' \<and> t + n \<le> e \<and> p' \<le> e \<and> (t + n < e \<longrightarrow> buf ! (t + n) = CHR '' '')"
proof -
  define q where "q = advToken_skip buf p e"
  note sk = advToken_skip_dropWhile [OF p e(1), folded q_def]
  have "(n = 0 \<longrightarrow> p' = e \<and> t = e) \<and>
    (n \<noteq> 0 \<longrightarrow> p \<le> t \<and> t + n \<le> p' \<and> t + n \<le> e \<and> p' \<le> e \<and> (t + n < e \<longrightarrow> buf ! (t + n) = CHR '' ''))"
  proof (cases "e \<le> q")
    case True
    with r show ?thesis by (simp add: advToken_def q_def [symmetric])
  next
    case False
    then have qe: "q < e" by simp
    show ?thesis
    proof (cases "memchr buf CHR '' '' q (e - q)")
      case None
      with r qe e sk show ?thesis by (auto simp: advToken_def q_def [symmetric])
    next
      case (Some x)
      note m = memchr_Some_split [OF Some less_imp_le [OF qe] e(1)]
      have "buf ! q \<noteq> CHR '' ''" using qe e(1) hd_dropWhile [of "\<lambda>c. c = CHR '' ''" "rd buf p (e - p)"] sk
        by (metis list.distinct(1) list.sel(1) rd_step)
      then have "q < x" using m(1,3) by (metis le_neq_implies_less)
      with Some r qe e sk m show ?thesis by (auto simp: advToken_def q_def [symmetric])
    qed
  qed
  then show "n = 0 \<Longrightarrow> p' = e \<and> t = e"
    "n \<noteq> 0 \<Longrightarrow> p \<le> t \<and> t + n \<le> p' \<and> t + n \<le> e \<and> p' \<le> e \<and> (t + n < e \<longrightarrow> buf ! (t + n) = CHR '' '')" by auto
qed

text \<open>A region that a NUL byte ends, as \<open>processCmd\<close> prepares it: the next token is the next word,
  and the C library's conversions on it see a terminated word.\<close>

definition region :: "bytes \<Rightarrow> nat \<Rightarrow> nat \<Rightarrow> bytes list \<Rightarrow> bool" where
  "region buf p e ws \<longleftrightarrow> p \<le> e \<and> e \<le> length buf \<and> byte_at buf e = CHR 0x00 \<and> words (rd buf p (e - p)) = ws"

lemma region_Nil: "region buf p e [] \<Longrightarrow> advToken buf p e = (e, e, 0)"
proof -
  assume a: "region buf p e []"
  obtain p' t n where r: "advToken buf p e = (p', t, n)" by (metis prod_cases3)
  have "n = 0" using advToken_words_aux [OF _ _ r] a by (auto simp: region_def split: if_splits)
  with advToken_pos(1) [OF _ _ _ r] a r show ?thesis by (auto simp: region_def)
qed

lemma region_end: "region buf p e ws \<Longrightarrow> region buf e e []"
  by (auto simp: region_def rd_def)

lemma region_Cons:
  assumes a: "region buf p e (w # ws)"
  obtains p' t rest where "advToken buf p e = (p', t, length w)" "rd buf t (length w) = w" "drop t buf = w @ rest" "end_ok rest"
    "region buf p' e ws" "p < p'" "w \<noteq> []" "t = length (take t buf)" "buf = take t buf @ w @ rest"
proof -
  have p: "p \<le> e" "e \<le> length buf" "byte_at buf e = CHR 0x00" "words (rd buf p (e - p)) = w # ws" using a by (auto simp: region_def)
  obtain p' t n where r: "advToken buf p e = (p', t, n)" by (metis prod_cases3)
  have n: "n \<noteq> 0" "w = rd buf t n" "ws = words (rd buf p' (e - p'))"
    using advToken_words_aux [OF p(1,2) r] p(4) by (auto split: if_splits)
  note ps = advToken_pos(2) [OF p(1-3) r n(1)]
  have l: "length w = n" using n(2) ps p(2) by simp
  define rest where "rest = drop (t + n) buf"
  have d: "drop t buf = w @ rest" by (simp add: rest_def n(2) rd_def) (metis add.commute append_take_drop_id drop_drop)
  have "end_ok rest"
  proof (cases "t + n < e")
    case True
    then show ?thesis using ps p(2) by (simp add: rest_def end_ok_def isspace_def Cons_nth_drop_Suc [symmetric])
  next
    case False
    then have "t + n = e" using ps by simp
    then show ?thesis using p(2,3) by (cases "e < length buf") (auto simp: rest_def end_ok_def Cons_nth_drop_Suc [symmetric])
  qed
  moreover have "buf = take t buf @ w @ rest" by (metis d append_take_drop_id)
  moreover have "w \<noteq> []" "t = length (take t buf)" "p < p'" using l n(1) ps p(2) by auto
  moreover have "region buf p' e ws" using ps p n(3) by (simp add: region_def)
  moreover have "rd buf t (length w) = w" "advToken buf p e = (p', t, length w)" using r n(2) l by simp_all
  ultimately show ?thesis using that d by blast
qed

lemma token_numbers:
  assumes "buf = take t buf @ dec_str n @ rest" "t = length (take t buf)" "end_ok rest"
  shows "myStrtoul buf t = (if n < 2 ^ 64 then Some (of_nat (n mod 2 ^ 32)) else None)"
    "myStrtol buf t = (if n < 2 ^ 63 then Some (of_nat (n mod 2 ^ 32)) else None)"
    "myStrtoull buf t = (if n < 2 ^ 64 then Some (of_nat n) else None)"
proof -
  have s: "strto_scan (drop t buf) = Some (False, n, rest)" using assms strto_scan_dec_str [OF assms(3)]
    by (metis append_eq_conv_conj)
  show "myStrtoul buf t = (if n < 2 ^ 64 then Some (of_nat (n mod 2 ^ 32)) else None)"
    "myStrtol buf t = (if n < 2 ^ 63 then Some (of_nat (n mod 2 ^ 32)) else None)"
    "myStrtoull buf t = (if n < 2 ^ 64 then Some (of_nat n) else None)"
    using assms(3) s by (simp_all add: myStrtoul_def strtoull_def myStrtol_def strtoll_def myStrtoull_def ucast_of_nat_u64 of_nat_mod_u32
      del: of_nat_numeral)
qed

lemma get_keys_ok:
  "region buf p e ws \<Longrightarrow> e - p < k \<Longrightarrow>
    get_keys k buf p e acc = (acc @ takeWhile (\<lambda>w. length w \<le> KEY_MAXLEN) ws, \<exists>w\<in>set ws. KEY_MAXLEN < length w)"
proof (induction k arbitrary: p ws acc)
  case (Suc k)
  show ?case
  proof (cases ws)
    case Nil
    with Suc.prems region_Nil show ?thesis by simp
  next
    case (Cons w ws')
    obtain p' t rest where t: "advToken buf p e = (p', t, length w)" "rd buf t (length w) = w" "region buf p' e ws'" "p < p'" "w \<noteq> []"
      using region_Cons Suc.prems(1) Cons by metis
    have "e - p' < k" using t(3,4) Suc.prems(2) by (auto simp: region_def)
    note ih = Suc.IH [OF t(3) this, of "acc @ [w]"]
    show ?thesis using t ih Cons by auto
  qed
qed simp

section \<open>The line\<close>

text \<open>What \<open>processCmd\<close> makes of a line ended by CR LF: the words of the line are dispatched.\<close>

definition cut_line :: "bytes \<Rightarrow> bytes \<Rightarrow> bytes" where
  "cut_line line rest = line @ [CHR 0x00, CHR 0x00] @ rest"

lemma region_line:
  assumes "p \<le> length line"
  shows "region (cut_line line rest) p (length line) (words (drop p line))"
  using assms by (simp add: region_def cut_line_def rd_def byte_at_def nth_append)

lemma memchr_line: "CHR 0x0A \<notin> set line \<Longrightarrow> memchr (line @ CRLF @ rest) CHR 0x0A 0 (length (line @ CRLF @ rest)) = Some (length line + 1)"
  unfolding memchr_def find_upt_Some_iff
  by (auto simp: CRLF_def byte_at_def nth_append in_set_conv_nth less_Suc_eq intro: Suc_lessI)

definition text_ok :: "LsMemcache \<Rightarrow> bool" where
  "text_ok m \<longleftrightarrow> \<not> (m_usesasl (m_mcparms m) \<and> \<not> m_anonymous (m_mcparms m))"

lemma processCmd_empty:
  assumes "text_ok m" "CHR 0x0A \<notin> set line" "words line = []"
  shows "processCmd E oth (line @ CRLF @ rest) m = (int (length line) + 2, m)"
proof -
  have "(line @ CRLF @ rest)[Suc (length line) := CHR 0x00, length line := CHR 0x00] = cut_line line rest"
    by (simp add: CRLF_def cut_line_def list_update_append)
  moreover have "(line @ CRLF @ rest)[Suc (length line) := CHR 0x00] ! length line = CHR 0x0D" by (simp add: CRLF_def nth_append list_update_append)
  moreover have "advToken (cut_line line rest) 0 (length line) = (length line, length line, 0)"
    using region_Nil [of "cut_line line rest" 0 "length line"] region_line [of 0 line rest] assms(3) by simp
  ultimately show ?thesis
    using assms memchr_line [OF assms(2), of rest] by (simp add: processCmd_def text_ok_def)
qed

lemma processCmd_line:
  assumes t: "text_ok m" and l: "CHR 0x0A \<notin> set line" and w: "words line = cmd # args"
    and c: "(cmd, arg, fn) \<in> set s_LsMcCmdFuncs"
  obtains p where "region (cut_line line rest) p (length line) args"
    "processCmd E oth (line @ CRLF @ rest) m =
      (case run_func E oth fn (cut_line line rest) p (length line) (length line + 2) (length rest) arg
              (setSlice E (rd (cut_line line rest) p (length line - p)) m) of
         (d, m') \<Rightarrow> if 0 \<le> d then (int (length line) + 2 + d, m') else if d = -1 then (-1, m') else (0, m'))"
proof -
  have b: "(line @ CRLF @ rest)[Suc (length line) := CHR 0x00, length line := CHR 0x00] = cut_line line rest"
    "(line @ CRLF @ rest)[Suc (length line) := CHR 0x00] ! length line = CHR 0x0D"
    by (simp_all add: CRLF_def cut_line_def list_update_append nth_append)
  have "region (cut_line line rest) 0 (length line) (cmd # args)" using region_line [of 0 line rest] w by simp
  then obtain p t where p: "advToken (cut_line line rest) 0 (length line) = (p, t, length cmd)" "rd (cut_line line rest) t (length cmd) = cmd"
    "region (cut_line line rest) p (length line) args" "cmd \<noteq> []" using region_Cons by metis
  obtain i where c: "i < length s_LsMcCmdFuncs" "s_LsMcCmdFuncs ! i = (cmd, arg, fn)" using c by (auto simp: in_set_conv_nth)
  then have g: "getCmdFunction cmd = Some i" using getCmdFunction_table [of i] by simp
  show ?thesis
  proof (rule that [OF p(3)])
    show "processCmd E oth (line @ CRLF @ rest) m =
      (case run_func E oth fn (cut_line line rest) p (length line) (length line + 2) (length rest) arg
              (setSlice E (rd (cut_line line rest) p (length line - p)) m) of
         (d, m') \<Rightarrow> if 0 \<le> d then (int (length line) + 2 + d, m') else if d = -1 then (-1, m') else (0, m'))"
      using t memchr_line [OF l, of rest] b p g c by (simp add: processCmd_def text_ok_def split: prod.splits) (auto simp: CRLF_def)
  qed
qed

lemma processCmd_run:
  assumes "text_ok m" "CHR 0x0A \<notin> set line" "words line = cmd # args" "(cmd, arg, fn) \<in> set s_LsMcCmdFuncs"
    and q: "\<And>p k. region (cut_line line rest) p (length line) args \<Longrightarrow>
      \<exists>m' f'. run_func E oth fn (cut_line line rest) p (length line) (length line + 2) (length rest) arg (setSlice E k m) = (int d, m') \<and> Q m' f'"
  shows "\<exists>m' f'. processCmd E oth (line @ CRLF @ rest) m = (int (length line + 2 + d), m') \<and> Q m' f'"
proof -
  obtain p where p: "region (cut_line line rest) p (length line) args"
    "processCmd E oth (line @ CRLF @ rest) m =
      (case run_func E oth fn (cut_line line rest) p (length line) (length line + 2) (length rest) arg
              (setSlice E (rd (cut_line line rest) p (length line - p)) m) of
         (d, m') \<Rightarrow> if 0 \<le> d then (int (length line) + 2 + d, m') else if d = -1 then (-1, m') else (0, m'))"
    by (rule processCmd_line [OF assms(1-4)])
  obtain m' f' where r: "run_func E oth fn (cut_line line rest) p (length line) (length line + 2) (length rest) arg
     (setSlice E (rd (cut_line line rest) p (length line - p)) m) = (int d, m')" "Q m' f'" using q [OF p(1)] by blast
  show ?thesis using r(2) unfolding p(2) r(1) by auto
qed

lemma server_setSlice [simp]:
  "item_at E (setSlice E k m) f = item_at E m f" "text_ok (setSlice E k m) = text_ok m" "parmAdjLen (setSlice E k m) n = parmAdjLen m n"
  "chkItemSize (setSlice E k m) n = chkItemSize m n" "m_item (setSlice E k m) = m_item m"
  by (simp_all add: item_at_def text_ok_def parmAdjLen_def chkItemSize_def fun_eq_iff)
     (simp add: setSlice_def)

section \<open>get\<close>

lemma get_all_ok:
  fixes arg :: nat and keys :: "bytes list"
  assumes "mc_inv E m f" "client m"
  defines "m' \<equiv> fold (get_one E arg) keys m"
  shows "(\<exists>f'. mc_inv E m' f' \<and> (\<forall>j k. live E (f' j) k = live E (f j) k)) \<and> client m' \<and> m_mcparms m' = m_mcparms m \<and>
    slice_of E m' = slice_of E m \<and>
    out m' = out m @ concat (map (\<lambda>k. get_reply arg (m_usecas (m_mcparms m)) k (item_at E m f k)) keys)"
  using assms(1,2) unfolding m'_def
proof (induction keys arbitrary: m f)
  case Nil
  then show ?case by auto
next
  case (Cons k keys)
  note g = get_one_ok [OF Cons.prems, of arg k]
  obtain f1 where f1: "mc_inv E (get_one E arg k m) f1" "\<forall>j k. live E (f1 j) k = live E (f j) k" using g(1) by blast
  have it: "item_at E (get_one E arg k m) f1 = item_at E m f" using f1(2) g(4) by (simp add: item_at_def fun_eq_iff)
  from Cons.IH [OF f1(1) g(2)] show ?case using f1(2) g by (auto simp: it)
qed

lemma doCmdGet_ok:
  assumes i: "mc_inv E m f" and c: "client m" and p: "region buf p e keys" and k: "keys \<noteq> []" "\<forall>k\<in>set keys. length k \<le> KEY_MAXLEN"
  shows "\<exists>m' f'. doCmdGet E buf p e arg m = (0, m') \<and> mc_inv E m' f' \<and> client m' \<and> m_mcparms m' = m_mcparms m \<and> item_at E m' f' = item_at E m f \<and>
    out m' = out m @ concat (map (\<lambda>k. get_reply arg (m_usecas (m_mcparms m)) k (item_at E m f k)) keys) @ ''END'' @ CRLF"
proof -
  have ks: "get_keys (Suc (e - p)) buf p e [] = (keys, False)"
    using get_keys_ok [OF p, of "Suc (e - p)" "[]"] k(2) by (auto simp: takeWhile_eq_all_conv)
  let ?m1 = "m\<lparr>m_noreply := False\<rparr>"
  let ?m = "fold (get_one E arg) keys ?m1"
  have m1: "mc_inv E ?m1 f" "client ?m1" using i c by (simp_all add: client_def)
  note g = get_all_ok [OF m1, of arg keys]
  obtain f' where f': "mc_inv E ?m f'" "\<forall>j k. live E (f' j) k = live E (f j) k" using g by blast
  have "item_at E ?m1 f = item_at E m f" "item_at E (sendResult (''END'' @ CRLF) ?m) f' = item_at E m f"
    using f'(2) g by (simp_all add: item_at_def fun_eq_iff)
  then show ?thesis using ks k(1) f'(1) g client_out(3) [of ?m "''END'' @ CRLF"] by (auto simp: doCmdGet_def)
qed

section \<open>Storage commands\<close>

lemma chkNoreply_0 [simp]: "\<not> chkNoreply buf t 0"
  by (simp add: chkNoreply_def tokNoreply_def)

lemma region_one:
  assumes "region buf p e (w # ws)"
  obtains p' t where "advToken buf p e = (p', t, length w)" "rd buf t (length w) = w" "region buf p' e ws" "w \<noteq> []"
  using region_Cons [OF assms] by metis

lemma region_num:
  assumes "region buf p e (dec_str n # ws)"
  obtains p' t where "advToken buf p e = (p', t, length (dec_str n))" "region buf p' e ws"
    "myStrtoul buf t = (if n < 2 ^ 64 then Some (of_nat (n mod 2 ^ 32)) else None)"
    "myStrtol buf t = (if n < 2 ^ 63 then Some (of_nat (n mod 2 ^ 32)) else None)"
    "myStrtoull buf t = (if n < 2 ^ 64 then Some (of_nat n) else None)"
proof -
  obtain p' t rest where t: "advToken buf p e = (p', t, length (dec_str n))" "end_ok rest" "region buf p' e ws"
    "t = length (take t buf)" "buf = take t buf @ dec_str n @ rest" by (rule region_Cons [OF assms])
  note tn = token_numbers [OF t(5,4,2)]
  show ?thesis by (rule that [OF t(1,3) tn])
qed

text \<open>The state in which \<open>update_store\<close> runs.\<close>

definition store_state :: "env \<Rightarrow> bytes \<Rightarrow> nat \<Rightarrow> nat \<Rightarrow> nat \<Rightarrow> LsMemcache \<Rightarrow> LsMemcache" where
  "store_state E key flg ex n m =
     (setSlice E key m)\<lparr>mp_key := key, m_noreply := False,
        m_item := (m_item m)\<lparr>it_flags := of_nat flg, it_exptime := int ex\<rparr>, mp_vallen := parmAdjLen m n\<rparr>"

definition store_args :: "nat \<Rightarrow> bytes \<Rightarrow> nat \<Rightarrow> nat \<Rightarrow> nat \<Rightarrow> nat \<Rightarrow> bytes list" where
  "store_args arg key flg ex n cas =
     [key, dec_str flg, dec_str ex, dec_str n] @ (if arg div LSMC_WITHCAS mod 2 = 1 then [dec_str cas] else [])"

lemma setSlice_mp_key: "setSlice E key (m\<lparr>mp_key := k\<rparr>) = (setSlice E key m)\<lparr>mp_key := k\<rparr>"
  by (simp add: setSlice_def key2hashNum_def)

lemma canProcessNow_master:
  "isTidMaster (m_slices m ! slice_of E m key) \<Longrightarrow> canProcessNow E key m = (True, setSlice E key m)"
  by (simp add: canProcessNow_def Let_def)

lemma unat_of_nat_u32: "n < 2 ^ 32 \<Longrightarrow> unat (word_of_nat n :: u32) = n"
  by (simp add: unat_of_nat)

lemma uint_of_nat_u32: "n < 2 ^ 32 \<Longrightarrow> uint (word_of_nat n :: u32) = int n"
  by (metis uint_nat unat_of_nat_u32)

lemma sint_of_nat_u32: "n < 2 ^ 31 \<Longrightarrow> sint (word_of_nat n :: u32) = int n"
  by (simp add: sint_uint uint_of_nat_u32 signed_take_bit_eq_take_bit_shift take_bit_eq_mod)

text \<open>The state of a storage command once its arguments are parsed, and what follows.\<close>

definition parse_state :: "env \<Rightarrow> bytes \<Rightarrow> LsMemcache \<Rightarrow> LsMemcache" where
  "parse_state E key m = (setSlice E key m)\<lparr>mp_key := key, m_noreply := False\<rparr>"

lemma doCmdUpdate_args:
  assumes r: "region buf p e (store_args arg key flg ex n cas)" and k: "length key \<le> KEY_MAXLEN"
    and b: "flg < 2 ^ 32" "ex < 2 ^ 32" "n < 2 ^ 31 - 2" "cas < 2 ^ 64" and ms: "isTidMaster (m_slices m ! slice_of E m key)"
  defines "appends \<equiv> arg = MC_BINCMD_APPEND \<or> arg = MC_BINCMD_PREPEND" and "s \<equiv> parse_state E key m"
  shows "doCmdUpdate E buf p e pNxt iLen arg m =
    (if n \<noteq> 0 \<and> iLen < n + 2 then (-1, s)
     else if n \<noteq> 0 \<and> \<not> (byte_at buf (pNxt + n) = CHR 0x0D \<and> byte_at buf (pNxt + n + 1) = CHR 0x0A) then (0, s)
     else update_store E arg \<lparr>o_cmd = arg mod LSMC_WITHCAS, o_withcas = (arg div LSMC_WITHCAS mod 2 = 1),
            o_usecas = (appends \<and> m_usecas (m_mcparms m)), o_retcode = UPDRET_DONE, o_value = 0,
            o_cas = (if arg div LSMC_WITHCAS mod 2 = 1 then of_nat cas else 0)\<rparr> n (drop pNxt buf)
            (s\<lparr>m_item := (m_item m)\<lparr>it_flags := of_nat flg, it_exptime := int ex\<rparr>, mp_vallen := (if appends then n else parmAdjLen m n)\<rparr>))"
proof -
  let ?ws = "if arg div LSMC_WITHCAS mod 2 = 1 then [dec_str cas] else []"
  obtain p1 t1 where 1: "advToken buf p e = (p1, t1, length key)" "rd buf t1 (length key) = key" "region buf p1 e ([dec_str flg, dec_str ex, dec_str n] @ ?ws)"
    using r by (auto simp: store_args_def elim: region_one)
  obtain p2 t2 where 2: "advToken buf p1 e = (p2, t2, length (dec_str flg))" "region buf p2 e ([dec_str ex, dec_str n] @ ?ws)" "myStrtoul buf t2 = Some (of_nat flg)"
    by (rule region_num [OF 1(3) [simplified append_Cons]]) (use b in auto)
  obtain p3 t3 where 3: "advToken buf p2 e = (p3, t3, length (dec_str ex))" "region buf p3 e ([dec_str n] @ ?ws)" "myStrtoul buf t3 = Some (of_nat ex)"
    by (rule region_num [OF 2(2) [simplified append_Cons]]) (use b in auto)
  obtain p4 t4 where 4: "advToken buf p3 e = (p4, t4, length (dec_str n))" "region buf p4 e ?ws" "myStrtol buf t4 = Some (of_nat n)"
    by (rule region_num [OF 3(2) [simplified append_Cons append_Nil]]) (use b in auto)
  have num: "sint (word_of_nat n :: u32) = int n" "unat (word_of_nat n :: u32) = n" "uint (word_of_nat ex :: u32) = int ex"
    using b by (simp_all add: sint_of_nat_u32 unat_of_nat_u32 uint_of_nat_u32)
  define m1 where "m1 = (setSlice E key m)\<lparr>mp_key := key\<rparr>"
  have now: "canProcessNow E key (m\<lparr>mp_key := key\<rparr>) = (True, m1)"
    using canProcessNow_master [of "m\<lparr>mp_key := key\<rparr>" E key] ms by (simp add: m1_def setSlice_mp_key)
  have m1: "m1\<lparr>m_noreply := False\<rparr> = s" "isTidMaster (cur_slice m1)" "m_item m1 = m_item m" "m_mcparms m1 = m_mcparms m" "parmAdjLen m1 n = parmAdjLen m n"
    using ms by (simp_all add: m1_def s_def parse_state_def parmAdjLen_def)
  show ?thesis
  proof (cases "arg div LSMC_WITHCAS mod 2 = 1")
    case True
    then have "region buf p4 e (dec_str cas # [])" using 4(2) by simp
    then obtain p5 t5 where 5: "advToken buf p4 e = (p5, t5, length (dec_str cas))" "region buf p5 e []" "myStrtoull buf t5 = Some (of_nat cas)"
      by (rule region_num) (use b in auto)
    note 6 = region_Nil [OF 5(2)]
    show ?thesis
      unfolding doCmdUpdate_def 1(1,2) prod.case Let_def now 2(1) 3(1) 4(1) 5 6 2(3) 3(3) 4(3) appends_def
      using True num m1 k b by (auto simp: 6 parmAdjLen_def m1(1) [symmetric])
  next
    case False
    then have 5: "advToken buf p4 e = (e, e, 0)" using 4(2) region_Nil by simp
    show ?thesis
      unfolding doCmdUpdate_def 1(1,2) prod.case Let_def now 2(1) 3(1) 4(1) 5 2(3) 3(3) 4(3) appends_def
      using False num m1 k b by (auto simp: 5 parmAdjLen_def m1(1) [symmetric])
  qed
qed

lemma doCmdUpdate_parse:
  assumes r: "region buf p e (store_args arg key flg ex n cas)" and k: "length key \<le> KEY_MAXLEN"
    and b: "flg < 2 ^ 32" "ex < 2 ^ 32" "n < 2 ^ 31 - 2" "cas < 2 ^ 64"
    and d: "n \<noteq> 0 \<longrightarrow> n + 2 \<le> iLen \<and> byte_at buf (pNxt + n) = CHR 0x0D \<and> byte_at buf (pNxt + n + 1) = CHR 0x0A"
    and ms: "isTidMaster (m_slices m ! slice_of E m key)" and a: "arg \<in> store_cmds"
  shows "doCmdUpdate E buf p e pNxt iLen arg m =
    update_store E arg (store_opt arg (if arg div LSMC_WITHCAS mod 2 = 1 then of_nat cas else 0)) n (drop pNxt buf) (store_state E key flg ex n m)"
proof -
  have "arg \<noteq> MC_BINCMD_APPEND" "arg \<noteq> MC_BINCMD_PREPEND" using a by (auto simp: cmd_codes LSMC_WITHCAS_def)
  then show ?thesis using doCmdUpdate_args [OF r k b ms, of pNxt iLen] d by (auto simp: store_opt_def store_state_def parse_state_def)
qed

text \<open>The value is within the size limit and the accounted memory stays within the maximum, so that
  nothing has to be evicted.\<close>

definition room_for :: "env \<Rightarrow> nat \<Rightarrow> bytes \<Rightarrow> nat \<Rightarrow> LsMemcache \<Rightarrow> bool" where
  "room_for E arg key n m \<longleftrightarrow>
     (let s = m_slices m ! slice_of E m key; h = sl_hash s; len = parmAdjLen m n;
          more = (if arg = MC_BINCMD_ADD \<or> arg = MC_BINCMD_SET
                  then size2roundSize (round4 (length key) + sizeof_vardata + round4 len + sizeof_vardata + sizeof_HElem + iterExtraSpace h)
                  else size2roundSize len)
      in put_ok h key (None, len) \<and> chkItemSize m len \<and>
         m_iHashInUse h + of_nat more - of_nat (helper_size s) \<le> m_iMemMaxSz (m_mcparms m))"

lemma store_state_simps [simp]:
  "m_slices (store_state E key flg ex n m) = m_slices m" "m_cur (store_state E key flg ex n m) = slice_of E m key"
  "m_mcparms (store_state E key flg ex n m) = m_mcparms m" "mp_key (store_state E key flg ex n m) = key"
  "m_hkey (store_state E key flg ex n m) = m_hf E key" "mp_vallen (store_state E key flg ex n m) = parmAdjLen m n"
  "m_item (store_state E key flg ex n m) = (m_item m)\<lparr>it_flags := of_nat flg, it_exptime := int ex\<rparr>"
  "out (store_state E key flg ex n m) = out m" "parmAdjLen (store_state E key flg ex n m) n' = parmAdjLen m n'"
  "slice_of E (store_state E key flg ex n m) = slice_of E m"
  by (simp_all add: store_state_def out_def parmAdjLen_def) (rule slice_of_cong, simp)

lemma room_for_chkMemSz:
  assumes "room_for E arg key n m" "arg \<in> store_cmds"
  shows "chkMemSz E arg (store_state E key flg ex n m) = (MC_BINSTAT_SUCCESS, store_state E key flg ex n m)"
    "put_ok (sl_hash (m_slices m ! slice_of E m key)) key (None, parmAdjLen m n)"
proof -
  have f: "arg \<noteq> MC_BINCMD_FLUSH" using assms(2) by (auto simp: cmd_codes LSMC_WITHCAS_def)
  note rm = assms(1) [unfolded room_for_def Let_def]
  have c: "chkItemSize (store_state E key flg ex n m) (parmAdjLen m n)"
    "\<not> m_iMemMaxSz (m_mcparms m) < m_iHashInUse (sl_hash (m_slices m ! slice_of E m key)) +
       of_nat (if arg = MC_BINCMD_ADD \<or> arg = MC_BINCMD_SET
               then size2roundSize (round4 (length key) + sizeof_vardata + round4 (parmAdjLen m n) + sizeof_vardata + sizeof_HElem +
                      iterExtraSpace (sl_hash (m_slices m ! slice_of E m key)))
               else size2roundSize (parmAdjLen m n)) - of_nat (helper_size (m_slices m ! slice_of E m key))"
    using rm by (simp_all only: chkItemSize_def store_state_simps not_less simp_thms)
  show "chkMemSz E arg (store_state E key flg ex n m) = (MC_BINSTAT_SUCCESS, store_state E key flg ex n m)"
    unfolding chkMemSz_def Let_def store_state_simps by (simp only: f c if_False if_True not_True_eq_False)
  show "put_ok (sl_hash (m_slices m ! slice_of E m key)) key (None, parmAdjLen m n)"
    using assms(1) by (simp add: room_for_def Let_def)
qed

definition cas_arg :: "nat \<Rightarrow> nat \<Rightarrow> u64" where
  "cas_arg arg cas = (if arg = MC_BINCMD_REPLACE + LSMC_WITHCAS then of_nat cas else 0)"

text \<open>The answer and the stored items after a storage command.\<close>

definition store_result :: "env \<Rightarrow> nat \<Rightarrow> bytes \<Rightarrow> nat \<Rightarrow> nat \<Rightarrow> u64 \<Rightarrow> bytes \<Rightarrow> LsMemcache \<Rightarrow> (nat \<Rightarrow> bytes \<Rightarrow> bytes option) \<Rightarrow> LsMemcache \<Rightarrow> (nat \<Rightarrow> bytes \<Rightarrow> bytes option) \<Rightarrow> bool" where
  "store_result E arg key flg ex cas data m f m' f' \<longleftrightarrow>
     (\<forall>k. k \<noteq> key \<longrightarrow> item_at E m' f' k = item_at E m f k) \<and>
     (case refused E arg cas (f (slice_of E m key)) key of
        Some msg \<Rightarrow> out m' = out m @ msg @ CRLF \<and> item_at E m' f' key = item_at E m f key
      | None \<Rightarrow> (\<exists>t c. out m' = out m @ ''STORED'' @ CRLF \<and>
            f' (slice_of E m key) key = Some (mk_value (m_usecas (m_mcparms m)) (adj_time t ((m_item m)\<lparr>it_flags := of_nat flg, it_exptime := int ex\<rparr>)) c data)) \<or>
          (out m' = out m @ ''NOT_STORED'' @ CRLF \<and> item_at E m' f' key \<in> {None, item_at E m f key}))"

lemma live_other: "k \<noteq> key \<Longrightarrow> live E (mp(key := x)) k = live E mp k"
  by (simp add: live_def)

lemma live_removed: "live E (mp(key := None)) key = None"
  by (simp add: live_def)

lemma doCmdUpdate_ok:
  assumes i: "mc_inv E m f" and c: "client m" and cmd: "arg \<in> store_cmds"
    and p: "region buf p e (store_args arg key flg ex (length data) cas)"
    and d: "drop pNxt buf = blk @ rest" "blk = (if data = [] then [] else data @ CRLF)" "iLen = length (blk @ rest)"
    and k: "length key \<le> KEY_MAXLEN" and b: "flg < 2 ^ 32" "ex < 2 ^ 32" "length data < 2 ^ 31 - 2" "cas < 2 ^ 64"
    and ms: "isTidMaster (m_slices m ! slice_of E m key)" and rm: "room_for E arg key (length data) m"
    and u: "arg = MC_BINCMD_REPLACE + LSMC_WITHCAS \<longrightarrow> m_usecas (m_mcparms m)"
  shows "\<exists>m' f'. doCmdUpdate E buf p e pNxt iLen arg m = (int (length blk), m') \<and> mc_inv E m' f' \<and> client m' \<and>
    m_mcparms m' = m_mcparms m \<and> slice_of E m' = slice_of E m \<and> store_result E arg key flg ex (cas_arg arg cas) data m f m' f'"
proof -
  let ?n = "length data" and ?i = "slice_of E m key"
  have da: "byte_at buf (pNxt + j) = byte_at (blk @ rest) j" for j
    by (metis byte_at_def d(1) drop_drop add.commute length_drop less_diff_conv nth_drop linorder_not_less drop_all nat_le_linear)
  have dn: "?n \<noteq> 0 \<longrightarrow> ?n + 2 \<le> iLen \<and> byte_at buf (pNxt + ?n) = CHR 0x0D \<and> byte_at buf (pNxt + ?n + 1) = CHR 0x0A"
    using da [of ?n] da [of "?n + 1"] d(2,3) by (simp add: byte_at_def nth_append CRLF_def)
  have pb: "take ?n (blk @ rest) = data" by (simp add: d(2))
  have wc: "arg div LSMC_WITHCAS mod 2 = 1 \<longleftrightarrow> arg = MC_BINCMD_REPLACE + LSMC_WITHCAS"
    using cmd by (auto simp: cmd_codes LSMC_WITHCAS_def)
  define m2 where "m2 = store_state E key flg ex ?n m"
  obtain len m' where us: "update_store E arg (store_opt arg (cas_arg arg cas)) ?n (blk @ rest) m2 = (len, m')" by fastforce
  have dc: "doCmdUpdate E buf p e pNxt iLen arg m = (len, m')"
    using doCmdUpdate_parse [OF p k b dn ms cmd] unfolding d(1) wc cas_arg_def [symmetric] m2_def [symmetric] us .
  note rf = room_for_chkMemSz [OF rm cmd]
  have i2: "mc_inv E m2 f" using i by (simp add: mc_inv_def m2_def)
  have il: "?i < length (m_slices m)" using i slice_of_less by (auto simp: mc_inv_def)
  then obtain R where ok: "slice_ok E m2 (f ?i) R" using i by (auto simp: slice_ok_def mc_inv_def good_def m2_def)
  have c2: "client m2" using c by (simp add: m2_def store_state_def client_def setSlice_def)
  have "put_ok (getHash m2) key (None, mp_vallen m2)" "chkMemSz E arg m2 = (MC_BINSTAT_SUCCESS, m2)" "mp_vallen m2 = parmAdjLen m2 ?n"
    "m_mcparms m2 = m_mcparms m" "mp_key m2 = key" "m_hkey m2 = m_hf E key" "m_cur m2 = ?i" "out m2 = out m"
    "m_item m2 = (m_item m)\<lparr>it_flags := of_nat flg, it_exptime := int ex\<rparr>"
    using rf(1) [of flg ex] rf(2) by (simp_all add: m2_def)
  note m2 = this
  have nb: "?n \<le> length (blk @ rest)" by (simp add: d(2))
  note r = update_store_ok [OF ok c2 m2(5,6,3) nb m2(1,2) cmd _ _ us, unfolded m2(4) pb]
  have a: "arg = MC_BINCMD_REPLACE + LSMC_WITHCAS \<or> cas_arg arg cas = 0" by (simp add: cas_arg_def)
  note r = r [OF a u]
  have len: "len = int (length blk)" using r(1) by (auto simp: d(2) CRLF_def)
  have step: "mc_inv E m' (f(?i := mp)) \<and> slice_of E m' = slice_of E m" if "slice_ok E m' mp R" for mp
    using mc_inv_step [OF i2 r(2) that] m2(7) by (simp add: m2_def)
  have same: "live E mp key = None \<Longrightarrow> live E (mp(key := None)) = live E mp" for mp by (auto simp: live_def fun_eq_iff)
  have fin: "?thesis" if "slice_ok E m' mp R" "store_result E arg key flg ex (cas_arg arg cas) data m f m' (f(?i := mp))" for mp
    using step [OF that(1)] dc len r(2,3) that(2) m2(4) by (auto simp: cur_step_def)
  have ia: "item_at E m' (f(?i := mp)) k = (if slice_of E m k = ?i then live E mp k else item_at E m f k)" if "slice_ok E m' mp R" for mp k
    using step [OF that] by (simp add: item_at_def)
  have ir: "slice_of E m k = ?i \<Longrightarrow> live E (f ?i) k = item_at E m f k" for k by (metis item_at_def)
  show ?thesis
  proof (cases "refused E arg (cas_arg arg cas) (f ?i) key")
    case (Some msg)
    with r(4) m2(8) have o: "out m' = out m @ msg @ CRLF" and s: "slice_ok E m' (f ?i) R \<or> live E (f ?i) key = None \<and> slice_ok E m' ((f ?i)(key := None)) R" by auto
    then obtain mp where mp: "slice_ok E m' mp R" "live E mp = live E (f ?i)" using same by metis
    show ?thesis by (rule fin [OF mp(1)]) (use Some o mp in \<open>auto simp: store_result_def ia [OF mp(1)] ir\<close>)
  next
    case None
    with r(4) m2(8) consider (1) t c where "out m' = out m @ ''STORED'' @ CRLF"
        "slice_ok E m' ((f ?i)(key \<mapsto> mk_value (m_usecas (m_mcparms m)) (adj_time t ((m_item m)\<lparr>it_flags := of_nat flg, it_exptime := int ex\<rparr>)) c data)) R"
      | (2) mp where "out m' = out m @ ''NOT_STORED'' @ CRLF" "mp \<in> {f ?i, (f ?i)(key := None)}" "slice_ok E m' mp R" by (auto simp: m2(9))
    then show ?thesis
    proof cases
      case 1
      show ?thesis by (rule fin [OF 1(2)]) (use None 1(1) in \<open>auto simp: store_result_def ia [OF 1(2)] live_other ir\<close>)
    next
      case 2
      show ?thesis by (rule fin [OF 2(3)]) (use None 2(1,2) in \<open>auto simp: store_result_def ia [OF 2(3)] live_other ir live_removed\<close>)
    qed
  qed
qed

lemma room_for_setSlice [simp]: "room_for E arg key n (setSlice E k m) = room_for E arg key n m"
  by (simp add: room_for_def Let_def)

lemma store_result_setSlice [simp]: "store_result E arg key flg ex cas data (setSlice E k m) f m' f' = store_result E arg key flg ex cas data m f m' f'"
  by (simp add: store_result_def cong: option.case_cong)

section \<open>A server\<close>

definition w_slice :: LsMcHashSlice where
  "w_slice = \<lparr>sl_hash = w_hash, hdrOff = 64, helper_size = 0, x_verbose = 0, x_stats = zero_stats, hdr_cas = 0,
     x_withcas = True, x_withsasl = False, sl_connected = False, sl_rembusy = False, sl_fwd = []\<rparr>"

definition w_mc :: LsMemcache where
  "w_mc = \<lparr>m_slices = [w_slice, w_slice], m_cur = 0,
     m_conn = \<lparr>c_out = [], cs_internal = False, cs_cmdwait = False, cs_respwait = False\<rparr>,
     m_hkey = 0, mp_key = [], mp_vallen = 0, m_item = \<lparr>it_exptime = 0, it_flags = 0, it_pad = []\<rparr>, m_iterOff = 0, m_rescas = 0,
     m_needed = 0, m_retcode = UPDRET_DONE, m_noreply = False,
     m_mcparms = \<lparr>m_usecas = True, m_usesasl = False, m_anonymous = False, m_nomemfail = False, m_iValMaxSz = 1048576,
       m_iMemMaxSz = - 1, cfg_replication = False\<rparr>, m_notes = 0\<rparr>"

definition w_oth :: other_cmd where
  "w_oth fn buf kp ke m = (0, m)"

lemma w_mc_ok: "mc_inv w_env w_mc (\<lambda>_. Map.empty)" "client w_mc" "text_ok w_mc" "out w_mc = []"
  "isTidMaster (m_slices w_mc ! slice_of w_env w_mc k)" "slice_of w_env w_mc k < 2"
proof -
  show sl: "slice_of w_env w_mc k < 2" using slice_of_less [of w_mc w_env k] by (simp add: w_mc_def)
  then have "slice_of w_env w_mc k \<in> {0, 1}" by auto
  then show "isTidMaster (m_slices w_mc ! slice_of w_env w_mc k)" by (auto simp: w_mc_def w_slice_def isTidMaster_def w_hash_flags)
  show "mc_inv w_env w_mc (\<lambda>_. Map.empty)" using w_hash_inv by (auto simp: mc_inv_def w_mc_def w_slice_def items_ok_def less_Suc_eq nth_Cons')
qed (simp_all add: client_def text_ok_def out_def w_mc_def)

lemma w_slices: "sl_hash (m_slices w_mc ! slice_of w_env w_mc k) = w_hash" "m_iMemMaxSz (m_mcparms w_mc) = - 1" "m_usecas (m_mcparms w_mc)"
  "parmAdjLen w_mc n = n + 24" "m_iValMaxSz (m_mcparms w_mc) = 1048576"
proof -
  have "slice_of w_env w_mc k \<in> {0, 1}" using w_mc_ok(6) [of k] by auto
  then show "sl_hash (m_slices w_mc ! slice_of w_env w_mc k) = w_hash" by (auto simp: w_mc_def w_slice_def)
qed (simp_all add: w_mc_def parmAdjLen_def data_off_def lay_simps)

lemma w_room: "key \<noteq> [] \<Longrightarrow> length key \<le> 250 \<Longrightarrow> n \<le> 1000000 \<Longrightarrow> room_for w_env arg key n w_mc"
proof -
  assume a: "key \<noteq> []" "length key \<le> 250" "n \<le> 1000000"
  have "elem_size w_hash (length key) (n + 24) \<le> 100000000" using a by (simp add: w_fits round4_def)
  moreover have "w \<le> (- 1 :: u32)" for w by (rule word_n1_ge)
  ultimately show ?thesis using a by (simp add: room_for_def Let_def put_ok_def val_ok_def w_slices chkItemSize_def)
qed

lemma dig_chars:
  "dig 0 = CHR ''0''" "dig 1 = CHR ''1''" "dig 2 = CHR ''2''" "dig 3 = CHR ''3''" "dig 4 = CHR ''4''"
  "dig 5 = CHR ''5''" "dig 6 = CHR ''6''" "dig 7 = CHR ''7''" "dig 8 = CHR ''8''" "dig 9 = CHR ''9''"
  "dig (Suc 0) = CHR ''1''" "dig (Suc (Suc 0)) = CHR ''2''"
  by code_simp+

section \<open>Commands as lines\<close>

lemma get_line:
  assumes "mc_inv E m f" "client m" "text_ok m" "CHR 0x0A \<notin> set line" "words line = cmd # keys"
    and "(cmd, arg, fn_doCmdGet) \<in> set s_LsMcCmdFuncs" "keys \<noteq> []" "\<forall>k\<in>set keys. length k \<le> KEY_MAXLEN"
  shows "\<exists>m' f'. processCmd E oth (line @ CRLF @ rest) m = (int (length line + 2 + 0), m') \<and> mc_inv E m' f' \<and> client m' \<and>
    item_at E m' f' = item_at E m f \<and>
    out m' = out m @ concat (map (\<lambda>k. get_reply arg (m_usecas (m_mcparms m)) k (item_at E m f k)) keys) @ ''END'' @ CRLF"
proof (rule processCmd_run [OF assms(3-6)])
  fix p k
  assume "region (cut_line line rest) p (length line) keys"
  with doCmdGet_ok [of E "setSlice E k m" f, OF _ _ this assms(7,8), of arg] assms(1,2)
  show "\<exists>m' f'. run_func E oth fn_doCmdGet (cut_line line rest) p (length line) (length line + 2) (length rest) arg (setSlice E k m) = (int 0, m') \<and>
    mc_inv E m' f' \<and> client m' \<and> item_at E m' f' = item_at E m f \<and>
    out m' = out m @ concat (map (\<lambda>k. get_reply arg (m_usecas (m_mcparms m)) k (item_at E m f k)) keys) @ ''END'' @ CRLF"
    by (auto simp: run_func_def)
qed

lemma store_line:
  fixes data :: bytes and cas :: nat and arg :: nat
  assumes "mc_inv E m f" "client m" "text_ok m" "CHR 0x0A \<notin> set line"
    and "words line = cmd # store_args arg key flg ex (length data) cas" "(cmd, arg, fn_doCmdUpdate) \<in> set s_LsMcCmdFuncs" "arg \<in> store_cmds"
    and "length key \<le> KEY_MAXLEN" "flg < 2 ^ 32" "ex < 2 ^ 32" "length data < 2 ^ 31 - 2" "cas < 2 ^ 64"
    and "isTidMaster (m_slices m ! slice_of E m key)" "room_for E arg key (length data) m"
    and "arg = MC_BINCMD_REPLACE + LSMC_WITHCAS \<longrightarrow> m_usecas (m_mcparms m)"
  defines "blk \<equiv> if data = [] then [] else data @ CRLF"
  shows "\<exists>m' f'. processCmd E oth (line @ CRLF @ blk @ rest) m = (int (length line + 2 + length blk), m') \<and> mc_inv E m' f' \<and> client m' \<and>
    m_mcparms m' = m_mcparms m \<and> slice_of E m' = slice_of E m \<and> store_result E arg key flg ex (cas_arg arg cas) data m f m' f'"
proof (rule processCmd_run [OF assms(3-6)])
  fix p k
  assume "region (cut_line line (blk @ rest)) p (length line) (store_args arg key flg ex (length data) cas)"
  note r = doCmdUpdate_ok [where m = "setSlice E k m" and E = E and f = f and pNxt = "length line + 2" and blk = blk and rest = rest, OF _ _ assms(7) this]
  have "drop (length line + 2) (cut_line line (blk @ rest)) = blk @ rest" by (simp add: cut_line_def)
  from r [OF _ _ this _ refl assms(8-12)] assms(1,2,13-15)
  show "\<exists>m' f'. run_func E oth fn_doCmdUpdate (cut_line line (blk @ rest)) p (length line) (length line + 2) (length (blk @ rest)) arg (setSlice E k m) =
      (int (length blk), m') \<and> mc_inv E m' f' \<and> client m' \<and> m_mcparms m' = m_mcparms m \<and> slice_of E m' = slice_of E m \<and> store_result E arg key flg ex (cas_arg arg cas) data m f m' f'"
    by (auto simp: run_func_def blk_def)
qed

lemma store_result_set:
  assumes "store_result E MC_BINCMD_SET key flg 0 cas data m f m' f'" "slice_of E m' = slice_of E m"
  shows "out m' = out m @ ''NOT_STORED'' @ CRLF \<or> out m' = out m @ ''STORED'' @ CRLF \<and>
    (\<exists>v. item_at E m' f' key = Some v \<and> x_flags v = of_nat flg \<and> item_data (m_usecas (m_mcparms m)) v = data)"
proof -
  have "refused E MC_BINCMD_SET cas (f (slice_of E m key)) key = None"
    by (auto simp: refused_def cmd_codes LSMC_WITHCAS_def split: option.splits)
  then consider "out m' = out m @ ''NOT_STORED'' @ CRLF" | t c where "out m' = out m @ ''STORED'' @ CRLF"
      "f' (slice_of E m key) key = Some (mk_value (m_usecas (m_mcparms m)) (adj_time t ((m_item m)\<lparr>it_flags := of_nat flg, it_exptime := 0\<rparr>)) c data)"
    using assms(1) by (auto simp: store_result_def)
  then show ?thesis
  proof cases
    case 2
    let ?it = "(m_item m)\<lparr>it_flags := of_nat flg, it_exptime := 0\<rparr>"
    note v = mk_value_fields [of ?it "m_usecas (m_mcparms m)" c data, simplified]
    have "f' (slice_of E m' key) key = Some (mk_value (m_usecas (m_mcparms m)) ?it c data)" using 2 assms(2) by (simp add: adj_time_def)
    then have "item_at E m' f' key = Some (mk_value (m_usecas (m_mcparms m)) ?it c data)" using v(1) by (simp add: item_at_def live_def isExpired_def)
    then show ?thesis using 2(1) v(2,4) by simp
  qed simp
qed

text \<open>
  C5: \<open>get\<close>, \<open>bget\<close> and \<open>gets\<close>. For a line of the client that consists of the command and keys of
  at most 250 bytes, \<open>processCmd\<close> consumes the line and answers, in the order of the keys, a
  \<open>VALUE\<close> block with flags, length, (for \<open>gets\<close>) cas and the data for each key with an unexpired
  item and nothing for the others, then \<open>END\<close>; no item of the server changes.
\<close>

theorem get_command_ok:
  assumes "mc_inv E m f" "client m" "text_ok m" "CHR 0x0A \<notin> set line" "words line = cmd # keys"
    and "(cmd, arg, fn_doCmdGet) \<in> set s_LsMcCmdFuncs" "keys \<noteq> []" "\<forall>k\<in>set keys. length k \<le> KEY_MAXLEN"
  shows "\<exists>m' f'. processCmd E oth (line @ CRLF @ rest) m = (int (length line + 2 + 0), m') \<and> mc_inv E m' f' \<and> client m' \<and>
    item_at E m' f' = item_at E m f \<and>
    out m' = out m @ concat (map (\<lambda>k. get_reply arg (m_usecas (m_mcparms m)) k (item_at E m f k)) keys) @ ''END'' @ CRLF"
  using get_line [OF assms] by (simp del: of_nat_add)

theorem get_command_ok_witness:
  "\<exists>m' f'. processCmd w_env w_oth (''gets  a bb'' @ CRLF @ []) w_mc = (int (length ''gets  a bb'' + 2 + 0), m') \<and> mc_inv w_env m' f' \<and> client m' \<and>
    item_at w_env m' f' = item_at w_env w_mc (\<lambda>_. Map.empty) \<and>
    out m' = out w_mc @ concat (map (\<lambda>k. get_reply 0x100 (m_usecas (m_mcparms w_mc)) k (item_at w_env w_mc (\<lambda>_. Map.empty) k)) [''a'', ''bb'']) @ ''END'' @ CRLF"
  by (rule get_command_ok [OF w_mc_ok(1-3)]) (simp_all add: words.simps s_LsMcCmdFuncs_def lay_simps)

text \<open>
  C3: \<open>set\<close>, \<open>add\<close>, \<open>replace\<close> and \<open>cas\<close>. For a well-formed line followed by its data block, with the
  key's slice held by this master and memory left, \<open>processCmd\<close> consumes line and block. It
  refuses the command exactly when memcached's specification says so (\<open>refused\<close>: \<open>add\<close> of a live
  key, \<open>replace\<close> and \<open>cas\<close> of an absent one, \<open>cas\<close> with another cas value), with the right
  message and no change; otherwise it answers \<open>STORED\<close> and holds the new item, or answers
  \<open>NOT_STORED\<close> because the pool could not provide the memory. No other key changes.
\<close>

theorem store_command_ok:
  fixes data :: bytes and cas :: nat and arg :: nat
  assumes "mc_inv E m f" "client m" "text_ok m" "CHR 0x0A \<notin> set line"
    and "words line = cmd # store_args arg key flg ex (length data) cas" "(cmd, arg, fn_doCmdUpdate) \<in> set s_LsMcCmdFuncs" "arg \<in> store_cmds"
    and "length key \<le> KEY_MAXLEN" "flg < 2 ^ 32" "ex < 2 ^ 32" "length data < 2 ^ 31 - 2" "cas < 2 ^ 64"
    and "isTidMaster (m_slices m ! slice_of E m key)" "room_for E arg key (length data) m"
    and "arg = MC_BINCMD_REPLACE + LSMC_WITHCAS \<longrightarrow> m_usecas (m_mcparms m)"
  defines "blk \<equiv> if data = [] then [] else data @ CRLF"
  shows "\<exists>m' f'. processCmd E oth (line @ CRLF @ blk @ rest) m = (int (length line + 2 + length blk), m') \<and> mc_inv E m' f' \<and> client m' \<and>
    store_result E arg key flg ex (cas_arg arg cas) data m f m' f'"
  using store_line [OF assms(1-15)] unfolding blk_def by blast

theorem store_command_ok_witness:
  "\<exists>m' f'. processCmd w_env w_oth (''cas k 7 0 2 9'' @ CRLF @ (if ''xy'' = [] then [] else ''xy'' @ CRLF) @ ''get k'') w_mc =
     (int (length ''cas k 7 0 2 9'' + 2 + length (if ''xy'' = [] then [] else ''xy'' @ CRLF)), m') \<and> mc_inv w_env m' f' \<and> client m' \<and>
    store_result w_env 0x103 ''k'' 7 0 (cas_arg 0x103 9) ''xy'' w_mc (\<lambda>_. Map.empty) m' f'"
  by (rule store_command_ok [OF w_mc_ok(1-3)])
    (simp_all add: words.simps s_LsMcCmdFuncs_def lay_simps store_args_def dec_str.simps dig_chars cmd_codes LSMC_WITHCAS_def w_mc_ok w_room w_slices)



end
