(* ===== verification/McKeys.thy ===== *)
theory McKeys
  imports McLine
begin

text \<open>
  The commands that work on a stored item or on the whole cache: \<open>delete\<close>, \<open>touch\<close>, \<open>incr\<close>,
  \<open>decr\<close> and \<open>flush_all\<close>. For each, the handler on its region of the command buffer, then the
  command as a line of a client.
\<close>

section \<open>A step on one key\<close>

text \<open>The state in which a handler works on the slice of its key.\<close>

lemma server_step:
  assumes i: "mc_inv E m f" and m1: "m_slices m1 = m_slices m" "m_mcparms m1 = m_mcparms m" "m_cur m1 = slice_of E m key"
    and c: "cur_step m1 m'" and s: "slice_ok E m' mp R" and o: "\<And>k. k \<noteq> key \<Longrightarrow> live E mp k = live E (f (slice_of E m key)) k"
  defines "f' \<equiv> f(slice_of E m key := mp)"
  shows "mc_inv E m' f'" "slice_of E m' = slice_of E m" "m_mcparms m' = m_mcparms m" "item_at E m' f' key = live E mp key"
    "k \<noteq> key \<Longrightarrow> item_at E m' f' k = item_at E m f k"
proof -
  have "mc_inv E m1 f" using i m1 by (simp add: mc_inv_def)
  note q = mc_inv_step [OF this c s]
  show sl: "slice_of E m' = slice_of E m" using q(2) slice_of_cong [of m1 m E] m1(1) by simp
  show "mc_inv E m' f'" using q(1) m1(3) by (simp add: f'_def)
  show "m_mcparms m' = m_mcparms m" using c m1 by (simp add: cur_step_def)
  show "item_at E m' f' key = live E mp key" by (simp add: item_at_def f'_def sl)
  show "k \<noteq> key \<Longrightarrow> item_at E m' f' k = item_at E m f k" using o by (auto simp: item_at_def f'_def sl)
qed

lemma server_slice:
  assumes i: "mc_inv E m f" and m1: "m_slices m1 = m_slices m" "m_mcparms m1 = m_mcparms m" "m_cur m1 = slice_of E m key"
  obtains R where "slice_ok E m1 (f (slice_of E m key)) R"
  using assms slice_of_less [of m E key] by (auto simp: mc_inv_def slice_ok_def good_def)

lemma server_step_map:
  assumes "mc_inv E m f" "m_slices m1 = m_slices m" "m_mcparms m1 = m_mcparms m" "m_cur m1 = slice_of E m key"
    and "cur_step m1 m'" "getHash m' = h1" "hash_inv E h1 mp R" "items_ok (m_usecas (m_mcparms m)) mp"
    and "\<And>k. k \<noteq> key \<Longrightarrow> live E mp k = live E (f (slice_of E m key)) k"
  shows "\<exists>f'. mc_inv E m' f' \<and> item_at E m' f' = (item_at E m f)(key := live E mp key) \<and> f' (slice_of E m key) = mp"
    "slice_of E m' = slice_of E m" "m_mcparms m' = m_mcparms m"
proof -
  have "good m1" using assms(1,2,4) slice_of_less by (auto simp: mc_inv_def good_def)
  then have s: "slice_ok E m' mp R" using assms(3,5-8) cur_step_good [OF assms(5)] by (auto simp: slice_ok_def cur_step_def)
  note q = server_step [OF assms(1-5) s assms(9)]
  show "\<exists>f'. mc_inv E m' f' \<and> item_at E m' f' = (item_at E m f)(key := live E mp key) \<and> f' (slice_of E m key) = mp"
    using q(1,4,5) by (intro exI [of _ "f(slice_of E m key := mp)"] conjI) (auto simp: fun_eq_iff)
  show "slice_of E m' = slice_of E m" "m_mcparms m' = m_mcparms m" using q(2,3) by simp_all
qed


section \<open>delete\<close>

lemma fwdToRemote_master: "isTidMaster (cur_slice m) \<Longrightarrow> fwdToRemote buf pNxt m = (False, m)"
  by (simp add: fwdToRemote_def)

lemma delete_opts_none: "region buf p e [] \<Longrightarrow> delete_opts buf p e = (None, False)"
  by (simp add: delete_opts_def region_Nil)

lemma doCmdDelete_ok:
  assumes i: "mc_inv E m f" and c: "client m" and p: "region buf p e [key]" and k: "length key \<le> KEY_MAXLEN"
    and ms: "isTidMaster (m_slices m ! slice_of E m key)"
  shows "\<exists>m' f'. doCmdDelete E buf p e pNxt m = (0, m') \<and> mc_inv E m' f' \<and> client m' \<and> m_mcparms m' = m_mcparms m \<and> slice_of E m' = slice_of E m \<and>
    item_at E m' f' = (item_at E m f)(key := None) \<and>
    out m' = out m @ (if item_at E m f key = None then ''NOT_FOUND'' else ''DELETED'') @ CRLF"
proof -
  let ?i = "slice_of E m key"
  obtain p1 t where 1: "advToken buf p e = (p1, t, length key)" "rd buf t (length key) = key" "region buf p1 e []" "key \<noteq> []"
    by (rule region_one [OF p])
  define m1 where "m1 = (setSlice E key m)\<lparr>mp_key := key\<rparr>"
  have m1: "m_slices m1 = m_slices m" "m_mcparms m1 = m_mcparms m" "m_cur m1 = ?i" "m_hkey m1 = m_hf E key" "client m1" "out m1 = out m"
    using c by (simp_all add: m1_def)
  have now: "canProcessNow E key (m\<lparr>mp_key := key\<rparr>) = (True, m1)"
    using canProcessNow_master [of "m\<lparr>mp_key := key\<rparr>" E key] ms by (simp add: m1_def setSlice_mp_key)
  have fwd: "fwdToRemote buf pNxt m1 = (False, m1)" using fwdToRemote_master [of m1 buf pNxt] ms m1(1,3) by simp
  obtain R where ok: "slice_ok E m1 (f ?i) R" by (rule server_slice [OF i m1(1-3)])
  then have g: "good m1" and hi: "hash_inv E (getHash m1) (f ?i) R" and it: "items_ok (m_usecas (m_mcparms m)) (f ?i)" using m1 by (auto simp: slice_ok_def)
  define miss where "miss = stat_upd (\<lambda>s. s\<lparr>delete_misses := delete_misses s + 1\<rparr>)"
  define hit where "hit = stat_upd (\<lambda>s. s\<lparr>delete_hits := delete_hits s + 1\<rparr>)"
  let ?x = "find2 (m_hkey m1) key (getHash m1)"
  have eq: "doCmdDelete E buf p e pNxt m =
    (if ?x = 0 then (0, respond (''NOT_FOUND'' @ CRLF) (miss m1))
     else case offset2iteratorData ?x (getHash m1) of
       (None, h) \<Rightarrow> (0, respond (''NOT_FOUND'' @ CRLF) (miss (set_hash h m1)))
     | (Some item, h) \<Rightarrow>
         let m = set_hash (eraseIteratorHelper E ?x h) m1
         in if \<not> isExpired E item then (0, respond (''DELETED'' @ CRLF) (notifyChange (hit m)))
            else (0, respond (''NOT_FOUND'' @ CRLF) (miss m)))"
    unfolding doCmdDelete_def 1(1,2) prod.case Let_def now delete_opts_none [OF 1(3)] option.case fwd miss_def hit_def using k 1(4) by simp
  have live0: "live E ((f ?i)(key := None)) k = live E (f ?i) k" if "k \<noteq> key" for k using that by (simp add: live_def)
  have fin: ?thesis if r: "doCmdDelete E buf p e pNxt m = (0, respond (s @ CRLF) m')" "cur_step m1 m'" "getHash m' = h1" "client m'" "out m' = out m"
      "hash_inv E h1 mp R" "items_ok (m_usecas (m_mcparms m)) mp" "mp = (f ?i)(key := None)"
      "s = (if item_at E m f key = None then ''NOT_FOUND'' else ''DELETED'')" for s m' h1 mp
  proof -
    have "cur_step m1 (respond (s @ CRLF) m')" "getHash (respond (s @ CRLF) m') = h1" using r(2,3) by simp_all
    note q = server_step_map [OF i m1(1-3) this r(6,7), unfolded r(8), OF live0]
    then show ?thesis using r(1,4,5,9) client_out(1) [OF r(4), of "s @ CRLF"] by (auto simp: live_removed)
  qed
  show ?thesis
  proof (cases "f ?i key")
    case None
    have "item_at E m f key = None" using None by (simp add: item_at_def live_def)
    moreover have "f ?i = (f ?i)(key := None)" using None by auto
    ultimately show ?thesis
      using fin [of "''NOT_FOUND''" "miss m1" "getHash m1" "f ?i"] eq slice_absent [OF ok m1(4) None] g cur_step_stat [OF g] m1(5,6) hi it
      by (auto simp: miss_def)
  next
    case (Some v)
    obtain e where e: "?x \<noteq> 0" "hash_at E (getHash m1) (f ?i) R ?x key" "elem_live E (getHash m1) ?x e" "isExpired E (e_val e) = isExpired E v"
      by (rule slice_elem [OF ok m1(4) Some])
    let ?h = "eraseIteratorHelper E ?x (getHash m1)"
    have h: "hash_inv E ?h ((f ?i)(key := None)) R" by (rule eraseIteratorHelper_hash(1) [OF e(2)])
    have st: "cur_step m1 (stat_upd u (set_hash ?h m1))" for u using cur_step_trans [OF cur_step_set_hash [OF g] cur_step_stat] g by simp
    have gh: "getHash (stat_upd u (set_hash ?h m1)) = ?h" for u using g by simp
    have lv: "item_at E m f key = (if isExpired E v then None else Some v)" using Some by (simp add: item_at_def live_def)
    note eq' = eq [unfolded elem_live_simps(8) [OF e(3)], simplified e(1) Let_def, simplified]
    show ?thesis
    proof (cases "isExpired E v")
      case True
      show ?thesis
        by (rule fin [of "''NOT_FOUND''" "miss (set_hash ?h m1)" ?h "(f ?i)(key := None)"]) (use eq' e True st gh h it m1(5,6) lv in \<open>auto simp: miss_def\<close>)
    next
      case False
      show ?thesis
        by (rule fin [of "''DELETED''" "notifyChange (hit (set_hash ?h m1))" ?h "(f ?i)(key := None)"]) (use eq' e False st gh h it m1(5,6) lv in \<open>auto simp: hit_def\<close>)
    qed
  qed
qed


section \<open>touch\<close>

lemma tidReplaceTid_frame: "hash_frame h (tidReplaceTid E x t h)"
  unfolding tidReplaceTid_def by (auto split: option.split intro: hash_frame_trans [OF hash_frameI(6) hash_frameI(5)])

lemma take_setItemExptime: "8 \<le> n \<Longrightarrow> n \<le> length v \<Longrightarrow> take n (setItemExptime E ex v) = setItemExptime E ex (take n v)"
  by (simp add: setItemExptime_def Let_def wr_in enc_time_def take_drop)

lemma length_setItemExptime [simp]: "8 \<le> length v \<Longrightarrow> length (setItemExptime E ex v) = length v"
  by (simp add: setItemExptime_def Let_def wr_in enc_time_def)

definition unexpired :: "env \<Rightarrow> bytes \<Rightarrow> bytes option" where
  "unexpired E v = (if isExpired E v then None else Some v)"

lemma doCmdTouch_ok:
  assumes i: "mc_inv E m f" and c: "client m" and p: "region buf p e [key, dec_str ex]" and k: "length key \<le> KEY_MAXLEN" "ex < 2 ^ 32"
    and ms: "isTidMaster (m_slices m ! slice_of E m key)"
  shows "\<exists>m' f'. doCmdTouch E buf p e pNxt m = (0, m') \<and> mc_inv E m' f' \<and> client m' \<and> m_mcparms m' = m_mcparms m \<and> slice_of E m' = slice_of E m \<and>
    item_at E m' f' = (item_at E m f)(key := Option.bind (item_at E m f key) (\<lambda>v. unexpired E (setItemExptime E (of_nat ex) v))) \<and>
    out m' = out m @ (if item_at E m f key = None then ''NOT_FOUND'' else ''TOUCHED'') @ CRLF"
proof -
  let ?i = "slice_of E m key" and ?ex = "word_of_nat ex :: u32"
  obtain p1 t where 1: "advToken buf p e = (p1, t, length key)" "rd buf t (length key) = key" "region buf p1 e [dec_str ex]" "key \<noteq> []"
    by (rule region_one [OF p])
  obtain p2 t2 where 2: "advToken buf p1 e = (p2, t2, length (dec_str ex))" "region buf p2 e []" "myStrtoul buf t2 = Some ?ex"
    by (rule region_num [OF 1(3)]) (use k in auto)
  note 3 = region_Nil [OF 2(2)]
  define m0 where "m0 = (setSlice E key m)\<lparr>mp_key := key\<rparr>"
  define m1 where "m1 = m0\<lparr>m_noreply := False\<rparr>"
  have m1: "m_slices m1 = m_slices m" "m_mcparms m1 = m_mcparms m" "m_cur m1 = ?i" "m_hkey m1 = m_hf E key" "client m1" "out m1 = out m"
    using c by (simp_all add: m1_def m0_def client_def)
  have now: "canProcessNow E key (m\<lparr>mp_key := key\<rparr>) = (True, m0)"
    using canProcessNow_master [of "m\<lparr>mp_key := key\<rparr>" E key] ms by (simp add: m0_def setSlice_mp_key)
  have fwd: "fwdToRemote buf pNxt m1 = (False, m1)" using fwdToRemote_master [of m1 buf pNxt] ms m1(1,3) by simp
  obtain R where ok: "slice_ok E m1 (f ?i) R" by (rule server_slice [OF i m1(1-3)])
  then have g: "good m1" and hi: "hash_inv E (getHash m1) (f ?i) R" and it: "items_ok (m_usecas (m_mcparms m)) (f ?i)" using m1 by (auto simp: slice_ok_def)
  define miss where "miss = stat_upd (\<lambda>s. s\<lparr>touch_misses := touch_misses s + 1\<rparr>)"
  define hit where "hit = stat_upd (\<lambda>s. s\<lparr>touch_hits := touch_hits s + 1\<rparr>)"
  let ?x = "find2 (m_hkey m1) key (getHash m1)"
  have eq: "doCmdTouch E buf p e pNxt m =
    (if ?x = 0 then (0, respond (''NOT_FOUND'' @ CRLF) (miss m1))
     else case offset2iterator ?x (getHash m1) of
       (None, h) \<Rightarrow> (0, respond (''NOT_FOUND'' @ CRLF) (miss (set_hash h m1)))
     | (Some iter, h) \<Rightarrow>
         if isExpired E (e_val iter) then (0, respond (''NOT_FOUND'' @ CRLF) (miss (set_hash (eraseIteratorHelper E ?x h) m1)))
         else (0, respond (''TOUCHED'' @ CRLF) (notifyChange (hit
                (set_hash (tidReplaceTid E ?x 0 (upd_elem ?x (\<lambda>e. e\<lparr>e_val := setItemExptime E ?ex (e_val e)\<rparr>) h)) m1)))))"
    unfolding doCmdTouch_def 1(1,2) 2(1,3) 3 prod.case Let_def now option.case chkNoreply_0 m1_def [symmetric] fwd miss_def hit_def using k by (simp add: 3 m1_def [symmetric] fwd)
  have fin: ?thesis if r: "doCmdTouch E buf p e pNxt m = (0, respond (s @ CRLF) m')" "cur_step m1 m'" "getHash m' = h1" "client m'" "out m' = out m"
      "hash_inv E h1 mp R" "items_ok (m_usecas (m_mcparms m)) mp" "\<And>k. k \<noteq> key \<Longrightarrow> live E mp k = live E (f ?i) k"
      "live E mp key = Option.bind (item_at E m f key) (\<lambda>v. unexpired E (setItemExptime E ?ex v))"
      "s = (if item_at E m f key = None then ''NOT_FOUND'' else ''TOUCHED'')" for s m' h1 mp
  proof -
    have "cur_step m1 (respond (s @ CRLF) m')" "getHash (respond (s @ CRLF) m') = h1" using r(2,3) by simp_all
    note q = server_step_map [OF i m1(1-3) this r(6,7), OF r(8)]
    then show ?thesis using r(1,4,5,9,10) client_out(1) [OF r(4), of "s @ CRLF"] by auto
  qed
  show ?thesis
  proof (cases "f ?i key")
    case None
    have "item_at E m f key = None" "live E (f ?i) key = None" using None by (simp_all add: item_at_def live_def)
    then show ?thesis
      using fin [of "''NOT_FOUND''" "miss m1" "getHash m1" "f ?i"] eq slice_absent [OF ok m1(4) None] g cur_step_stat [OF g] m1(5,6) hi it
      by (auto simp: miss_def)
  next
    case (Some v)
    obtain e where e: "?x \<noteq> 0" "hash_at E (getHash m1) (f ?i) R ?x key" "elem_live E (getHash m1) ?x e" "v = take (e_valLen e) (e_val e)"
      "isExpired E (e_val e) = isExpired E v" "data_off (m_usecas (m_mcparms m1)) \<le> e_valLen e" "e_valLen e \<le> length (e_val e)"
      by (rule slice_elem [OF ok m1(4) Some])
    have lv: "item_at E m f key = unexpired E v" using Some by (simp add: item_at_def live_def unexpired_def)
    have st: "cur_step m1 (stat_upd u (set_hash h m1))" for u h using cur_step_trans [OF cur_step_set_hash [OF g] cur_step_stat] g by simp
    have gh: "getHash (stat_upd u (set_hash h m1)) = h" for u h using g by simp
    note eq' = eq [unfolded elem_live_simps(4) [OF e(3)], simplified e(1) Let_def, simplified]
    show ?thesis
    proof (cases "isExpired E v")
      case True
      let ?h = "eraseIteratorHelper E ?x (getHash m1)"
      have h: "hash_inv E ?h ((f ?i)(key := None)) R" by (rule eraseIteratorHelper_hash(1) [OF e(2)])
      show ?thesis
        by (rule fin [of "''NOT_FOUND''" "miss (set_hash ?h m1)" ?h "(f ?i)(key := None)"])
          (use eq' e True st gh h it m1(5,6) lv in \<open>auto simp: miss_def unexpired_def live_removed live_other\<close>)
    next
      case False
      let ?f = "\<lambda>e. e\<lparr>e_val := setItemExptime E ?ex (e_val e)\<rparr>"
      let ?h1 = "upd_elem ?x ?f (getHash m1)"
      let ?h = "tidReplaceTid E ?x 0 ?h1" and ?mp = "(f ?i)(key \<mapsto> setItemExptime E ?ex v)"
      have l: "16 \<le> e_valLen e" using e(6) by (auto simp: data_off_def lay_simps split: if_splits)
      have "same_shape e (?f e)" using e(7) l by (simp add: same_shape_def)
      moreover have "take (e_valLen (?f e)) (e_val (?f e)) = setItemExptime E ?ex v" using l e(4,7) by (simp add: take_setItemExptime)
      ultimately have "hash_at E ?h1 ?mp R ?x key" using hash_at_write(1) [where f = ?f, OF e(2) elem_live_simps(1) [OF e(3)]] by simp
      then have h: "hash_inv E ?h ?mp R" using hash_frame_ok(1) [OF tidReplaceTid_frame] hash_atD(1) by blast
      have "8 \<le> length v" using l e(4,7) by simp
      then have it': "items_ok (m_usecas (m_mcparms m)) ?mp" using it Some by (auto simp: items_ok_def)
      have "live E ?mp key = unexpired E (setItemExptime E ?ex v)" by (simp add: live_def unexpired_def)
      then show ?thesis
        by (intro fin [of "''TOUCHED''" "notifyChange (hit (set_hash ?h m1))" ?h ?mp])
          (use eq' e False st gh h it' m1(5,6) lv in \<open>auto simp: hit_def unexpired_def live_other\<close>)
    qed
  qed
qed

section \<open>incr and decr\<close>

text \<open>The number a stored value holds.\<close>

definition item_num :: "bool \<Rightarrow> bytes \<Rightarrow> u64 option" where
  "item_num usecas v = (let d = item_data usecas v in if d = [] \<or> length d > ULL_MAXLEN then None else myStrtoull d 0)"

lemma item_of_take: "16 \<le> n \<Longrightarrow> item_of (take n v) = item_of v"
  by (auto simp: item_of_def take_header x_pad_def rd_def take_drop min_def)

lemma mcIter2num_ok:
  assumes "v = take (e_valLen e) (e_val e)" "data_off u \<le> e_valLen e" "e_valLen e \<le> length (e_val e)"
  shows "mcIter2num e u = item_num u v"
proof -
  have "rd (e_val e) (data_off u) (e_valLen e - data_off u) = item_data u v" "length (item_data u v) = e_valLen e - data_off u"
    using assms by (auto simp: rd_def item_data_def drop_take)
  then show ?thesis by (auto simp: mcIter2num_def mcIter2data_def item_num_def Let_def)
qed

lemma put_ok_mono: "put_ok h key (None, n) \<Longrightarrow> k \<le> n \<Longrightarrow> put_ok h key (None, k)"
  unfolding put_ok_def elem_size_def round4_def val_ok_def using div_le_mono [of "k + 3" "n + 3" 4] by auto

lemma length_dec_u64: "length (dec_str (unat (w :: u64))) \<le> 20"
  by (rule length_dec_str) (use unsigned_less [of w, where ?'a = nat] in simp_all)

lemma doHashUpdate_arith:
  assumes ok: "slice_ok E m mp R" and k: "mp_key m = key" "m_hkey m = m_hf E key" and p: "put_ok (getHash m) key (None, mp_vallen m + 20)"
    and c: "o_cmd opt = MC_BINCMD_INCREMENT \<or> o_cmd opt = MC_BINCMD_DECREMENT" "\<not> o_withcas opt" "o_cas opt = 0" "o_usecas opt = m_usecas (m_mcparms m)"
    and r: "doHashUpdate E opt m = (x, opt', nb, m1)"
  shows "case live E mp key of
       None \<Rightarrow> x = 0 \<and> o_retcode opt' = UPDRET_NOTFOUND \<and> (\<exists>h1. m1 = set_hash h1 m \<and> hash_inv E h1 (mp(key := None)) R)
     | Some v \<Rightarrow> (case item_num (m_usecas (m_mcparms m)) v of
         None \<Rightarrow> x = 0 \<and> o_retcode opt' = UPDRET_NONNUMERIC \<and> m1 = set_hash (getHash m) m
       | Some num \<Rightarrow> nb = dec_str (unat (arith (o_cmd opt) (o_value opt) num)) \<and> o_retcode opt' = o_retcode opt \<and>
           (\<exists>h1. m1 = set_hash h1 (m\<lparr>mp_vallen := mp_vallen m + length nb, m_item := item_of v\<rparr>) \<and>
             outcome E h1 mp R x key (mp_vallen m + length nb)))"
proof (cases "mp key")
  case None
  have "m = set_hash (getHash m) m" using ok by (simp add: set_hash_def on_cur_def)
  moreover have "mp(key := None) = mp" using None by auto
  ultimately show ?thesis using r slice_absent [OF ok k(2) None] k(1) None ok
    by (auto simp: doHashUpdate_def Let_def live_def slice_ok_def)
next
  case (Some v)
  let ?y = "find2 (m_hkey m) key (getHash m)" and ?u = "m_usecas (m_mcparms m)"
  obtain e where e: "?y \<noteq> 0" "hash_at E (getHash m) mp R ?y key" "elem_live E (getHash m) ?y e" "v = take (e_valLen e) (e_val e)"
    "isExpired E (e_val e) = isExpired E v" "data_off ?u \<le> e_valLen e" "e_valLen e \<le> length (e_val e)"
    by (rule slice_elem [OF ok k(2) Some])
  have io: "item_of (e_val e) = item_of v" using e(4,6) item_of_take [of "e_valLen e" "e_val e"] by (auto simp: data_off_def lay_simps split: if_splits)
  note num = mcIter2num_ok [OF e(4,6,7)]
  show ?thesis
  proof (cases "isExpired E v \<or> item_num ?u v = None")
    case True
    then show ?thesis
      using r e(1,5) c num Some eraseIteratorHelper_hash(1) [OF e(2)]
      by (auto simp: doHashUpdate_def k(1) elem_live_simps(4) [OF e(3)] Let_def live_def)
  next
    case False
    then obtain n where n: "item_num ?u v = Some n" "\<not> isExpired E v" by auto
    define nb' where "nb' = dec_str (unat (arith (o_cmd opt) (o_value opt) n))"
    define m2 where "m2 = m\<lparr>mp_vallen := mp_vallen m + length nb', m_item := item_of v\<rparr>"
    obtain z h1 where s: "doUpdate E ?y (m_hkey m) key (valarg_of m2) (getHash m) = (z, h1)" by fastforce
    then have s': "updatePtr E key (valarg_of m2) (getHash m) = (z, h1)" by (simp add: updatePtr_def k)
    have "put_ok (getHash m) key (valarg_of m2)" unfolding valarg_of_def m2_def
      by (rule put_ok_mono [OF p]) (use length_dec_u64 in \<open>auto simp: nb'_def\<close>)
    then have "put_result E (getHash m) h1 mp R z key (valarg_of m2)" using doUpdate_ok [OF _ _ s'] ok Some by (auto simp: slice_ok_def)
    then have o: "outcome E h1 mp R z key (mp_vallen m + length nb')" using put_outcome by (simp add: valarg_of_def m2_def)
    have "doHashUpdate E opt m = (z, opt, nb', set_hash h1 m2)"
      using e(1,5) n c num s by (simp add: doHashUpdate_def k(1) elem_live_simps(4) [OF e(3)] Let_def io nb'_def [symmetric] m2_def)
    then show ?thesis using r o n Some by (auto simp: live_def m2_def nb'_def)
  qed
qed

lemma doDataUpdate_none:
  assumes g: "good m" and k: "mp_key m = key" "key \<noteq> []"
    and x: "m_iterOff m \<noteq> 0" and at: "hash_at E (getHash m) mp R (m_iterOff m) key" and rc: "m_retcode m = UPDRET_NONE"
    and v: "mp key = Some v0" "length v0 = data_off (m_usecas (m_mcparms m)) + length pBuf"
  defines "m' \<equiv> doDataUpdate pBuf m"
  shows "hash_inv E (getHash m') (mp(key \<mapsto> mk_value (m_usecas (m_mcparms m))
      (adj_time (lru_time (getHash m) (m_iterOff m)) (m_item m)) (next_cas m) pBuf)) R"
    "cur_step m m'" "client m' = client m" "out m' = out m"
proof -
  define m1 where "m1 = m\<lparr>mp_key := []\<rparr>"
  have e1: "good m1" "hash_at E (getHash m1) mp R (m_iterOff m1) key" "m_retcode m1 \<noteq> UPDRET_APPEND" "m_retcode m1 \<noteq> UPDRET_PREPEND"
    "length v0 = data_off (m_usecas (m_mcparms m1)) + length pBuf" "next_cas m1 = next_cas m" "cur_step m m1"
    using g at rc v by (simp_all add: m1_def next_cas_def)
  note d = dataItemUpdate_fresh [OF e1(1,2,3,4) v(1) e1(5) order_refl]
  have m': "m' = (notifyChange (dataItemUpdate pBuf m1))\<lparr>m_iterOff := 0\<rparr>"
    using k x rc d(5) by (simp add: m'_def doDataUpdate_def Let_def m1_def)
  have "getHash m' = getHash (dataItemUpdate pBuf m1)" by (simp add: m')
  then show "hash_inv E (getHash m') (mp(key \<mapsto> mk_value (m_usecas (m_mcparms m))
      (adj_time (lru_time (getHash m) (m_iterOff m)) (m_item m)) (next_cas m) pBuf)) R"
    using hash_atD(1) [OF d(1)] e1(6) by (simp add: m1_def)
  show "cur_step m m'" using cur_step_trans [OF e1(7) d(2)] by (simp add: m')
  show "client m' = client m" "out m' = out m" using d(3,4) by (simp_all add: m' m1_def)
qed

text \<open>What \<open>incr\<close> and \<open>decr\<close> promise.\<close>

text \<open>The new number: the sum modulo \<open>2^64\<close>, or the difference, at least 0.\<close>

definition arith_spec :: "nat \<Rightarrow> u64 \<Rightarrow> u64 \<Rightarrow> nat" where
  "arith_spec arg delta num =
     (if arg = MC_BINCMD_INCREMENT then (unat num + unat delta) mod 2 ^ 64 else unat num - unat delta)"

lemma arith_spec: "arith_spec arg delta num = unat (arith arg delta num)"
  by (auto simp: arith_spec_def arith_def unat_word_ariths word_less_nat_alt word_le_nat_alt unat_sub not_less)

definition arith_result :: "env \<Rightarrow> nat \<Rightarrow> bytes \<Rightarrow> u64 \<Rightarrow> LsMemcache \<Rightarrow> (nat \<Rightarrow> bytes \<Rightarrow> bytes option) \<Rightarrow> LsMemcache \<Rightarrow> (nat \<Rightarrow> bytes \<Rightarrow> bytes option) \<Rightarrow> bool" where
  "arith_result E arg key delta m f m' f' \<longleftrightarrow>
     (\<forall>k. k \<noteq> key \<longrightarrow> item_at E m' f' k = item_at E m f k) \<and>
     (let u = m_usecas (m_mcparms m) in
      case item_at E m f key of
        None \<Rightarrow> out m' = out m @ ''NOT_FOUND'' @ CRLF \<and> item_at E m' f' key = None
      | Some v \<Rightarrow> (case item_num u v of
          None \<Rightarrow> out m' = out m @ ''CLIENT_ERROR cannot increment or decrement non-numeric value'' @ CRLF \<and> item_at E m' f' key = Some v
        | Some num \<Rightarrow> let s = dec_str (arith_spec arg delta num) in
            (\<exists>t c. out m' = out m @ s @ CRLF \<and> f' (slice_of E m key) key = Some (mk_value u (adj_time t (item_of v)) c s)) \<or>
            (out m' = out m @ ''SERVER_ERROR unable to update'' @ CRLF \<and> item_at E m' f' key \<in> {None, Some v})))"

lemma arith_result_alt:
  "arith_result E arg key delta m f m' f' \<longleftrightarrow>
     (\<forall>k. k \<noteq> key \<longrightarrow> item_at E m' f' k = item_at E m f k) \<and>
     (let u = m_usecas (m_mcparms m) in
      case item_at E m f key of
        None \<Rightarrow> out m' = out m @ ''NOT_FOUND'' @ CRLF \<and> item_at E m' f' key = None
      | Some v \<Rightarrow> (case item_num u v of
          None \<Rightarrow> out m' = out m @ ''CLIENT_ERROR cannot increment or decrement non-numeric value'' @ CRLF \<and> item_at E m' f' key = Some v
        | Some num \<Rightarrow> let s = dec_str (unat (arith arg delta num)) in
            (\<exists>t c. out m' = out m @ s @ CRLF \<and> f' (slice_of E m key) key = Some (mk_value u (adj_time t (item_of v)) c s)) \<or>
            (out m' = out m @ ''SERVER_ERROR unable to update'' @ CRLF \<and> item_at E m' f' key \<in> {None, Some v})))"
  unfolding arith_result_def arith_spec by (rule refl)

lemma doCmdArithmetic_ok:
  fixes delta :: nat
  assumes i: "mc_inv E m f" and c: "client m" and p: "region buf p e [key, dec_str delta]" and k: "length key \<le> KEY_MAXLEN" "delta < 2 ^ 64"
    and ms: "isTidMaster (m_slices m ! slice_of E m key)" and po: "put_ok (sl_hash (m_slices m ! slice_of E m key)) key (None, parmAdjLen m 20)"
    and a: "arg = MC_BINCMD_INCREMENT \<or> arg = MC_BINCMD_DECREMENT"
  shows "\<exists>m' f'. doCmdArithmetic E buf p e pNxt arg m = (0, m') \<and> mc_inv E m' f' \<and> client m' \<and> m_mcparms m' = m_mcparms m \<and> slice_of E m' = slice_of E m \<and>
    arith_result E arg key (of_nat delta) m f m' f'"
proof -
  let ?i = "slice_of E m key" and ?d = "word_of_nat delta :: u64" and ?u = "m_usecas (m_mcparms m)"
  obtain p1 t where 1: "advToken buf p e = (p1, t, length key)" "rd buf t (length key) = key" "region buf p1 e [dec_str delta]" "key \<noteq> []"
    by (rule region_one [OF p])
  obtain p2 t2 where 2: "advToken buf p1 e = (p2, t2, length (dec_str delta))" "region buf p2 e []" "myStrtoull buf t2 = Some ?d"
    by (rule region_num [OF 1(3)]) (use k in auto)
  note 3 = region_Nil [OF 2(2)]
  define m0 where "m0 = (setSlice E key m)\<lparr>mp_key := key\<rparr>"
  define m1 where "m1 = m0\<lparr>m_noreply := False, mp_vallen := parmAdjLen m0 0\<rparr>"
  define opt where "opt = \<lparr>o_cmd = arg, o_withcas = False, o_usecas = ?u, o_retcode = UPDRET_DONE, o_value = ?d, o_cas = 0\<rparr>"
  have m1: "m_slices m1 = m_slices m" "m_mcparms m1 = m_mcparms m" "m_cur m1 = ?i" "m_hkey m1 = m_hf E key" "client m1" "out m1 = out m"
    "mp_key m1 = key" "mp_vallen m1 = data_off ?u"
    using c by (simp_all add: m1_def m0_def client_def parmAdjLen_def)
  have now: "canProcessNow E key (m\<lparr>mp_key := key\<rparr>) = (True, m0)"
    using canProcessNow_master [of "m\<lparr>mp_key := key\<rparr>" E key] ms by (simp add: m0_def setSlice_mp_key)
  have fwd: "fwdToRemote buf pNxt m0 = (False, m0)" using fwdToRemote_master [of m0 buf pNxt] ms by (simp add: m0_def)
  obtain R where ok: "slice_ok E m1 (f ?i) R" by (rule server_slice [OF i m1(1-3)])
  then have g: "good m1" and hi: "hash_inv E (getHash m1) (f ?i) R" and it: "items_ok ?u (f ?i)" using m1 by (auto simp: slice_ok_def)
  obtain x opt' nb m3 where u: "doHashUpdate E opt m1 = (x, opt', nb, m3)" by (metis prod_cases4)
  define hit where "hit = (\<lambda>m. if arg = MC_BINCMD_INCREMENT then stat_upd (\<lambda>s. s\<lparr>incr_hits := incr_hits s + 1\<rparr>) m else stat_upd (\<lambda>s. s\<lparr>decr_hits := decr_hits s + 1\<rparr>) m)"
  define miss where "miss = (\<lambda>m. if arg = MC_BINCMD_INCREMENT then stat_upd (\<lambda>s. s\<lparr>incr_misses := incr_misses s + 1\<rparr>) m else stat_upd (\<lambda>s. s\<lparr>decr_misses := decr_misses s + 1\<rparr>) m)"
  let ?m3 = "m3\<lparr>m_iterOff := x\<rparr>"
  have eq: "doCmdArithmetic E buf p e pNxt arg m =
     (if x \<noteq> 0 then (0, respond (nb @ CRLF) (doDataUpdate nb ((hit ?m3)\<lparr>m_retcode := UPDRET_NONE\<rparr>)))
      else if o_retcode opt' = UPDRET_NOTFOUND then (0, respond (''NOT_FOUND'' @ CRLF) (miss ?m3))
      else if o_retcode opt' = UPDRET_NONNUMERIC then (0, respond (''CLIENT_ERROR cannot increment or decrement non-numeric value'' @ CRLF) ?m3)
      else (0, respond (''SERVER_ERROR unable to update'' @ CRLF) ?m3))"
  proof -
    have mm: "m0\<lparr>m_noreply := False, mp_vallen := parmAdjLen (m0\<lparr>m_noreply := False\<rparr>) 0\<rparr> = m1" "m0\<lparr>m_noreply := False, mp_vallen := parmAdjLen m0 0\<rparr> = m1"
      by (simp_all add: m1_def parmAdjLen_def)
    have oo: "\<lparr>o_cmd = arg, o_withcas = False, o_usecas = m_usecas (m_mcparms m0), o_retcode = UPDRET_DONE, o_value = ?d, o_cas = 0\<rparr> = opt"
      by (simp add: opt_def m0_def)
    show ?thesis
      unfolding doCmdArithmetic_def 1(1,2) 2(1,3) prod.case Let_def now option.case fwd if_False not_True_eq_False hit_def miss_def
      using k by (simp add: 3 mm oo u split del: if_split)
  qed
  have st: "cur_step m1 (s ((set_hash h m1')\<lparr>m_iterOff := x\<rparr>))" "getHash (s ((set_hash h m1')\<lparr>m_iterOff := x\<rparr>)) = h"
    "client (s ((set_hash h m1')\<lparr>m_iterOff := x\<rparr>))" "out (s ((set_hash h m1')\<lparr>m_iterOff := x\<rparr>)) = out m"
    if s: "s \<in> {hit, miss, \<lambda>m. m}" and m': "m1' = m1\<lparr>mp_vallen := n, m_item := im\<rparr> \<or> m1' = m1" for s h m1' n im
  proof -
    have q: "cur_step m1 m1'" "good m1'" "client m1'" "out m1' = out m" "m_cur m1' = m_cur m1" using m' g m1(5,6) by auto
    let ?m = "(set_hash h m1')\<lparr>m_iterOff := x\<rparr>"
    have c: "cur_step m1 ?m" "good ?m" using cur_step_trans [OF q(1) cur_step_set_hash [OF q(2)]] q(2) by simp_all
    have st: "cur_step m1 (stat_upd u ?m)" "getHash (stat_upd u ?m) = h" for u
      using cur_step_trans [OF c(1) cur_step_stat [OF c(2)]] stat_upd_simps(14) [OF c(2), of u] q(2,5) by simp_all
    show "cur_step m1 (s ?m)" "getHash (s ?m) = h" "client (s ?m)" "out (s ?m) = out m" using s q c st by (auto simp: hit_def miss_def)
  qed
  have fin: ?thesis if r: "doCmdArithmetic E buf p e pNxt arg m = (0, respond (s @ CRLF) m')" "cur_step m1 m'" "getHash m' = h1" "client m'" "out m' = out m"
      "hash_inv E h1 mp R" "items_ok ?u mp" "\<And>k. k \<noteq> key \<Longrightarrow> live E mp k = live E (f ?i) k"
      "\<And>m' f'. out m' = out m @ s @ CRLF \<Longrightarrow> item_at E m' f' = (item_at E m f)(key := live E mp key) \<Longrightarrow> f' ?i = mp \<Longrightarrow>
         arith_result E arg key ?d m f m' f'" for s m' h1 mp
  proof -
    have "cur_step m1 (respond (s @ CRLF) m')" "getHash (respond (s @ CRLF) m') = h1" using r(2,3) by simp_all
    note q = server_step_map [OF i m1(1-3) this r(6,7), OF r(8)]
    then show ?thesis using r(1,4,5) r(9) [of "respond (s @ CRLF) m'"] client_out(1) [OF r(4), of "s @ CRLF"] by auto
  qed
  have po1: "put_ok (getHash m1) key (None, mp_vallen m1 + 20)" using po m1 by (simp add: parmAdjLen_def add.commute)
  note d = doHashUpdate_arith [OF ok m1(7,4) po1 _ _ _ _ u, unfolded m1(2), simplified opt_def, simplified, OF a]
  have iv: "item_at E m f key = live E (f ?i) key" by (simp add: item_at_def)
  show ?thesis
  proof (cases "live E (f ?i) key")
    case None
    with d obtain h1 where h1: "x = 0" "o_retcode opt' = UPDRET_NOTFOUND" "m3 = set_hash h1 m1" "hash_inv E h1 ((f ?i)(key := None)) R" by auto
    show ?thesis
      by (rule fin [of "''NOT_FOUND''" "miss ?m3" h1 "(f ?i)(key := None)"])
        (use eq h1 st [of miss m1] it iv None in \<open>auto simp: live_other live_removed arith_result_alt\<close>)
  next
    case (Some v)
    show ?thesis
    proof (cases "item_num ?u v")
      case None
      with d Some have h1: "x = 0" "o_retcode opt' = UPDRET_NONNUMERIC" "m3 = set_hash (getHash m1) m1" by auto
      show ?thesis
        by (rule fin [of "''CLIENT_ERROR cannot increment or decrement non-numeric value''" ?m3 "getHash m1" "f ?i"])
          (use eq h1 st [of "\<lambda>m. m" m1] it iv hi Some None in \<open>auto simp: arith_result_alt\<close>)
    next
      case n: (Some num)
      with d Some obtain h1 where h1: "nb = dec_str (unat (arith arg ?d num))" "o_retcode opt' = UPDRET_DONE"
        "m3 = set_hash h1 (m1\<lparr>mp_vallen := data_off ?u + length nb, m_item := item_of v\<rparr>)" "outcome E h1 (f ?i) R x key (data_off ?u + length nb)"
        by (auto simp: m1(8))
      show ?thesis
      proof (cases "x = 0")
        case True
        with h1(4) obtain mp where mp: "mp \<in> {f ?i, (f ?i)(key := None)}" "hash_inv E h1 mp R" by (auto simp: outcome_def)
        show ?thesis
          by (rule fin [of "''SERVER_ERROR unable to update''" ?m3 h1 mp])
            (use eq h1(2,3) True st [of "\<lambda>m. m", OF _ disjI1, OF _ refl] it iv mp Some n in \<open>auto simp: arith_result_alt live_other live_removed Let_def\<close>)
      next
        case False
        then obtain v' where v': "length v' = data_off ?u + length nb" "hash_at E h1 ((f ?i)(key \<mapsto> v')) R x key" using h1(4) by (auto simp: outcome_def)
        define m4 where "m4 = (hit ?m3)\<lparr>m_retcode := UPDRET_NONE\<rparr>"
        have hs: "m_iterOff (hit m) = m_iterOff m" "mp_key (hit m) = mp_key m" "m_item (hit m) = m_item m" for m
          by (simp_all add: hit_def stat_upd_def on_cur_def)
        have m4: "cur_step m1 m4" "getHash m4 = h1" "client m4" "out m4 = out m" "mp_key m4 = key" "m_iterOff m4 = x" "m_item m4 = item_of v" "m_retcode m4 = UPDRET_NONE"
          using st [of hit, OF _ disjI1, OF _ refl] by (simp_all add: m4_def h1(3) hs m1(7))
        have g4: "good m4" "m_mcparms m4 = m_mcparms m" using cur_step_good [OF m4(1)] g m4(1) m1(2) by (simp_all add: cur_step_def)
        have at: "hash_at E (getHash m4) ((f ?i)(key \<mapsto> v')) R (m_iterOff m4) key" using v'(2) m4 by simp
        have "length v' = data_off (m_usecas (m_mcparms m4)) + length nb" "m_iterOff m4 \<noteq> 0" using v'(1) g4(2) m4(6) False by simp_all
        note dn = doDataUpdate_none [OF g4(1) m4(5) 1(4) this(2) at m4(8) _ this(1), simplified]
        show ?thesis
          by (rule fin [of nb "doDataUpdate nb m4" "getHash (doDataUpdate nb m4)"
                "(f ?i)(key \<mapsto> mk_value ?u (adj_time (lru_time (getHash m4) (m_iterOff m4)) (item_of v)) (next_cas m4) nb)", OF _ _ refl])
            (use eq False dn m4 g4 cur_step_trans [OF m4(1) dn(2)] it iv Some n h1(1) in \<open>auto simp: m4_def [symmetric] live_other arith_result_alt Let_def\<close>)
      qed
    qed
  qed
qed

section \<open>flush_all\<close>

lemma multiFlushFunc_ok:
  assumes i: "mc_inv E m f" and n: "j < length (m_slices m)" and ms: "isTidMaster (m_slices m ! j)"
  shows "\<exists>m'. multiFlushFunc E j m = (True, m') \<and> mc_inv E m' (f(j := Map.empty)) \<and> client m' = client m \<and> out m' = out m \<and> m_mcparms m' = m_mcparms m \<and>
    length (m_slices m') = length (m_slices m) \<and> (\<forall>k. k < length (m_slices m) \<longrightarrow> isTidMaster (m_slices m' ! k) = isTidMaster (m_slices m ! k))"
proof -
  obtain R where h: "hash_inv E (sl_hash (m_slices m ! j)) (f j) R" using i n by (auto simp: mc_inv_def)
  note c = hash_clear_ok [OF h]
  show ?thesis
    using i n ms c unfolding multiFlushFunc_def Let_def
    by (auto simp: mc_inv_def nth_list_update isTidMaster_def same_flags_def items_ok_def client_def out_def split: if_splits)
qed


lemma multi_flush_ok:
  assumes "mc_inv E m f" "\<forall>j\<in>set js. j < length (m_slices m)" "\<forall>j<length (m_slices m). isTidMaster (m_slices m ! j)"
  shows "\<exists>m'. multi_flush E js m = (True, m') \<and> mc_inv E m' (\<lambda>j. if j \<in> set js then Map.empty else f j) \<and> client m' = client m \<and> out m' = out m \<and>
    m_mcparms m' = m_mcparms m \<and> length (m_slices m') = length (m_slices m)"
  using assms
proof (induction js arbitrary: m f)
  case (Cons j js)
  obtain m1 where m1: "multiFlushFunc E j m = (True, m1)" "mc_inv E m1 (f(j := Map.empty))" "client m1 = client m" "out m1 = out m" "m_mcparms m1 = m_mcparms m"
    "length (m_slices m1) = length (m_slices m)" "\<forall>k. k < length (m_slices m) \<longrightarrow> isTidMaster (m_slices m1 ! k) = isTidMaster (m_slices m ! k)"
    using multiFlushFunc_ok [of E m f j] Cons.prems by auto
  have "\<forall>j\<in>set js. j < length (m_slices m1)" "\<forall>j<length (m_slices m1). isTidMaster (m_slices m1 ! j)" using Cons.prems m1(6,7) by auto
  note ih = Cons.IH [OF m1(2) this]
  have "(\<lambda>k. if k \<in> set js then Map.empty else (f(j := Map.empty)) k) = (\<lambda>k. if k \<in> set (j # js) then Map.empty else f k)" by auto
  then show ?case using ih m1 by auto
qed simp

lemma doCmdFlush_ok:
  assumes i: "mc_inv E m f" and c: "client m" and p: "region buf p e []" and ms: "\<forall>j<length (m_slices m). isTidMaster (m_slices m ! j)"
    and cur: "m_cur m < length (m_slices m)"
  shows "\<exists>m' f'. doCmdFlush E buf p e pNxt m = (0, m') \<and> mc_inv E m' f' \<and> client m' \<and> m_mcparms m' = m_mcparms m \<and>
    item_at E m' f' = Map.empty \<and> out m' = out m @ ''OK'' @ CRLF"
proof -
  have ce: "chkEndToken buf e e" using region_Nil [OF region_end [OF p]] by (simp add: chkEndToken_def)
  have empty: "item_at E m' (\<lambda>j. if j < length (m_slices m') then Map.empty else f j) = Map.empty" if "m_slices m' \<noteq> []" for m'
    using slice_of_less [OF that] by (simp add: item_at_def live_def fun_eq_iff)
  show ?thesis
  proof (cases "useMulti m")
    case True
    obtain m' where m': "multi_flush E [0..<length (m_slices m)] m = (True, m')" "mc_inv E m' (\<lambda>j. if j \<in> set [0..<length (m_slices m)] then Map.empty else f j)"
      "client m'" "out m' = out m" "m_mcparms m' = m_mcparms m" "length (m_slices m') = length (m_slices m)"
      using multi_flush_ok [OF i _ ms, of "[0..<length (m_slices m)]"] c by auto
    have "doCmdFlush E buf p e pNxt m = (0, respond (''OK'' @ CRLF) m')"
      using region_Nil [OF p] ce True m'(1) by (simp add: doCmdFlush_def)
    moreover have "item_at E (respond (''OK'' @ CRLF) m') (\<lambda>j. if j < length (m_slices m) then Map.empty else f j) = Map.empty"
      using empty [of "respond (''OK'' @ CRLF) m'"] m'(6) cur by fastforce
    ultimately show ?thesis using m' client_out(1) [OF m'(3), of "''OK'' @ CRLF"] by auto
  next
    case False
    then have len: "length (m_slices m) = 1" "m_cur m = 0" using cur by (auto simp: useMulti_def)
    obtain R where h: "hash_inv E (getHash m) (f 0) R" using i len by (auto simp: mc_inv_def)
    define m2 where "m2 = stat_upd (\<lambda>s. s\<lparr>flush_cmds := flush_cmds s + 1\<rparr>) (set_hash (hash_clear E (getHash m)) m)"
    have g: "good m" using cur by (simp add: good_def)
    have c2: "cur_step m m2" unfolding m2_def using cur_step_trans [OF cur_step_set_hash [OF g] cur_step_stat] g by simp
    have m2: "getHash m2 = hash_clear E (getHash m)" "client m2" "out m2 = out m" "m_mcparms m2 = m_mcparms m" using g c by (simp_all add: m2_def)
    have "slice_ok E m2 Map.empty R" using cur_step_good [OF c2] g hash_clear_ok(1) [OF h] m2(1) by (simp add: slice_ok_def items_ok_def)
    note s = mc_inv_step(1) [OF i c2 this]
    have "doCmdFlush E buf p e pNxt m = (0, respond (''OK'' @ CRLF) (notifyChange m2))"
      using region_Nil [OF p] ce False len ms fwdToRemote_master [of m buf pNxt] by (simp add: doCmdFlush_def m2_def)
    moreover have "mc_inv E (respond (''OK'' @ CRLF) (notifyChange m2)) (f(0 := Map.empty))" using s len(2) by (simp add: mc_inv_def)
    moreover have "length (m_slices m2) = 1" using c2 len(1) by (simp add: cur_step_def)
    then have "item_at E (respond (''OK'' @ CRLF) (notifyChange m2)) (f(0 := Map.empty)) = Map.empty"
      by (simp add: item_at_def live_def fun_eq_iff slice_of_def key2hashNum_def)
    ultimately show ?thesis using m2 client_out(1) [of "notifyChange m2" "''OK'' @ CRLF"] by auto
  qed
qed

section \<open>Commands as lines\<close>

text \<open>
  C18: \<open>delete\<close>. For a line \<open>delete <key>\<close> and a slice held by this master, the answer is \<open>DELETED\<close>
  exactly when the key had an unexpired item, otherwise \<open>NOT_FOUND\<close>; afterwards the key has no
  item, and every other key keeps its own.
\<close>

theorem delete_command_ok:
  assumes "mc_inv E m f" "client m" "text_ok m" "CHR 0x0A \<notin> set line" "words line = [''delete'', key]"
    and "length key \<le> KEY_MAXLEN" "isTidMaster (m_slices m ! slice_of E m key)"
  shows "\<exists>m' f'. processCmd E oth (line @ CRLF @ rest) m = (int (length line + 2 + 0), m') \<and> mc_inv E m' f' \<and> client m' \<and>
    item_at E m' f' = (item_at E m f)(key := None) \<and>
    out m' = out m @ (if item_at E m f key = None then ''NOT_FOUND'' else ''DELETED'') @ CRLF"
proof (rule processCmd_run [OF assms(3-5)])
  show "(''delete'', 0x04, fn_doCmdDelete) \<in> set s_LsMcCmdFuncs" by (simp add: s_LsMcCmdFuncs_def)
  fix p k
  assume "region (cut_line line rest) p (length line) [key]"
  from doCmdDelete_ok [where m = "setSlice E k m" and E = E and f = f and pNxt = "length line + 2", OF _ _ this assms(6)] assms(1,2,7)
  show "\<exists>m' f'. run_func E oth fn_doCmdDelete (cut_line line rest) p (length line) (length line + 2) (length rest) 4 (setSlice E k m) = (int 0, m') \<and>
    mc_inv E m' f' \<and> client m' \<and> item_at E m' f' = (item_at E m f)(key := None) \<and>
    out m' = out m @ (if item_at E m f key = None then ''NOT_FOUND'' else ''DELETED'') @ CRLF"
    by (auto simp: run_func_def)
qed

theorem delete_command_ok_witness:
  "\<exists>m' f'. processCmd w_env w_oth (''delete k'' @ CRLF @ []) w_mc = (int (length ''delete k'' + 2 + 0), m') \<and> mc_inv w_env m' f' \<and> client m' \<and>
    item_at w_env m' f' = (item_at w_env w_mc (\<lambda>_. Map.empty))(''k'' := None) \<and>
    out m' = out w_mc @ (if item_at w_env w_mc (\<lambda>_. Map.empty) ''k'' = None then ''NOT_FOUND'' else ''DELETED'') @ CRLF"
  by (rule delete_command_ok [OF w_mc_ok(1-3)]) (simp_all add: words.simps lay_simps w_mc_ok)

text \<open>The value with a new expiration time: relative times up to 30 days count from the server's clock.\<close>

definition touched :: "env \<Rightarrow> nat \<Rightarrow> bytes \<Rightarrow> bytes" where
  "touched E ex v = enc_time (if 0 < ex \<and> ex \<le> 2592000 then (int ex + time_now E) mod 2 ^ 32 else int ex) @ drop 8 v"

lemma setItemExptime_touched:
  assumes "8 \<le> length v" "ex < 2 ^ 32"
  shows "setItemExptime E (of_nat ex) v = touched E ex v"
proof -
  have u: "uint (of_nat ex :: u32) = int ex" by (rule uint_of_nat_u32 [OF assms(2)])
  have z: "(of_nat ex :: u32) \<noteq> 0 \<longleftrightarrow> 0 < ex" using u by (metis of_nat_0_less_iff uint_0_iff of_nat_0_eq_iff gr0I less_irrefl)
  have a: "uint (of_nat ex + of_int (time_now E) :: u32) = (int ex + time_now E) mod 2 ^ 32"
    by (simp add: uint_word_ariths u uint_word_of_int mod_simps)
  have w: "wr v 0 b = b @ drop 8 v" if "length b = 8" for b using wr_start [of b v] that assms(1) by simp
  show ?thesis by (simp add: setItemExptime_def Let_def u z a w touched_def LSMC_MAXDELTATIME_def)
qed

lemma item_at_len: "mc_inv E m f \<Longrightarrow> item_at E m f key = Some v \<Longrightarrow> 8 \<le> length v"
  using slice_of_less [of m E key]
  by (fastforce simp: mc_inv_def item_at_def live_def items_ok_def data_off_def lay_simps split: option.splits if_splits)

text \<open>
  C19: \<open>touch\<close>. For a line \<open>touch <key> <exptime>\<close>, the answer is \<open>TOUCHED\<close> exactly when the key has
  an unexpired item, otherwise \<open>NOT_FOUND\<close>. The item gets the new expiration time (a relative one is
  made absolute with the server's clock, in 32-bit arithmetic) and keeps flags, cas and data; when
  the new time has already passed it is gone. No other key changes.
\<close>

theorem touch_command_ok:
  assumes "mc_inv E m f" "client m" "text_ok m" "CHR 0x0A \<notin> set line" "words line = [''touch'', key, dec_str ex]"
    and "length key \<le> KEY_MAXLEN" "ex < 2 ^ 32" "isTidMaster (m_slices m ! slice_of E m key)"
  shows "\<exists>m' f'. processCmd E oth (line @ CRLF @ rest) m = (int (length line + 2 + 0), m') \<and> mc_inv E m' f' \<and> client m' \<and>
    item_at E m' f' = (item_at E m f)(key := Option.bind (item_at E m f key) (\<lambda>v. unexpired E (touched E ex v))) \<and>
    out m' = out m @ (if item_at E m f key = None then ''NOT_FOUND'' else ''TOUCHED'') @ CRLF"
proof -
  have eq: "Option.bind (item_at E m f key) (\<lambda>v. unexpired E (touched E ex v)) =
      Option.bind (item_at E m f key) (\<lambda>v. unexpired E (setItemExptime E (of_nat ex) v))"
    using setItemExptime_touched [OF item_at_len [OF assms(1)] assms(7)] by (cases "item_at E m f key") auto
  show ?thesis
    unfolding eq
  proof (rule processCmd_run [OF assms(3-5)])
    show "(''touch'', 0x1c, fn_doCmdTouch) \<in> set s_LsMcCmdFuncs" by (simp add: s_LsMcCmdFuncs_def)
    fix p k
    assume "region (cut_line line rest) p (length line) [key, dec_str ex]"
    from doCmdTouch_ok [where m = "setSlice E k m" and E = E and f = f and pNxt = "length line + 2", OF _ _ this assms(6,7)] assms(1,2,8)
    show "\<exists>m' f'. run_func E oth fn_doCmdTouch (cut_line line rest) p (length line) (length line + 2) (length rest) 0x1c (setSlice E k m) = (int 0, m') \<and>
      mc_inv E m' f' \<and> client m' \<and>
      item_at E m' f' = (item_at E m f)(key := Option.bind (item_at E m f key) (\<lambda>v. unexpired E (setItemExptime E (of_nat ex) v))) \<and>
      out m' = out m @ (if item_at E m f key = None then ''NOT_FOUND'' else ''TOUCHED'') @ CRLF"
      by (auto simp: run_func_def)
  qed
qed

theorem touch_command_ok_witness:
  "\<exists>m' f'. processCmd w_env w_oth (''touch k 5'' @ CRLF @ []) w_mc = (int (length ''touch k 5'' + 2 + 0), m') \<and> mc_inv w_env m' f' \<and> client m' \<and>
    item_at w_env m' f' = (item_at w_env w_mc (\<lambda>_. Map.empty))(''k'' :=
      Option.bind (item_at w_env w_mc (\<lambda>_. Map.empty) ''k'') (\<lambda>v. unexpired w_env (touched w_env 5 v))) \<and>
    out m' = out w_mc @ (if item_at w_env w_mc (\<lambda>_. Map.empty) ''k'' = None then ''NOT_FOUND'' else ''TOUCHED'') @ CRLF"
  by (rule touch_command_ok [OF w_mc_ok(1-3)]) (simp_all add: words.simps lay_simps w_mc_ok dec_str.simps dig_chars)



text \<open>
  C20: \<open>flush_all\<close> on a server that is the master of all its slices: the answer is \<open>OK\<close>, and no key
  has an item afterwards, in any slice.
\<close>

theorem flush_command_ok:
  assumes "mc_inv E m f" "client m" "text_ok m" "CHR 0x0A \<notin> set line" "words line = [''flush_all'']"
    and "\<forall>j<length (m_slices m). isTidMaster (m_slices m ! j)"
  shows "\<exists>m' f'. processCmd E oth (line @ CRLF @ rest) m = (int (length line + 2 + 0), m') \<and> mc_inv E m' f' \<and> client m' \<and>
    item_at E m' f' = Map.empty \<and> out m' = out m @ ''OK'' @ CRLF"
proof (rule processCmd_run [OF assms(3-5)])
  show "(''flush_all'', 0, fn_doCmdFlush) \<in> set s_LsMcCmdFuncs" by (simp add: s_LsMcCmdFuncs_def)
  fix p k
  assume "region (cut_line line rest) p (length line) []"
  from doCmdFlush_ok [where m = "setSlice E k m" and E = E and f = f and pNxt = "length line + 2", OF _ _ this] assms(1,2,6) slice_of_less [of m E k]
  show "\<exists>m' f'. run_func E oth fn_doCmdFlush (cut_line line rest) p (length line) (length line + 2) (length rest) 0 (setSlice E k m) = (int 0, m') \<and>
    mc_inv E m' f' \<and> client m' \<and> item_at E m' f' = Map.empty \<and> out m' = out m @ ''OK'' @ CRLF"
    by (auto simp: run_func_def mc_inv_def)
qed

theorem flush_command_ok_witness:
  "\<exists>m' f'. processCmd w_env w_oth (''flush_all'' @ CRLF @ []) w_mc = (int (length ''flush_all'' + 2 + 0), m') \<and> mc_inv w_env m' f' \<and> client m' \<and>
    item_at w_env m' f' = Map.empty \<and> out m' = out w_mc @ ''OK'' @ CRLF"
  by (rule flush_command_ok [OF w_mc_ok(1-3)])
    (auto simp: words.simps w_mc_def w_slice_def isTidMaster_def w_hash_flags less_Suc_eq nth_Cons')

end
