(* ===== verification/McGrow.thy ===== *)
theory McGrow
  imports McKeys
begin

text \<open>
  \<open>append\<close> and \<open>prepend\<close>, which grow a stored value in place or move it, and the requests that are
  refused or have not arrived completely.
\<close>

section \<open>Growing a value\<close>

text \<open>The value after \<open>append\<close> or \<open>prepend\<close>: the header of the old one, a new cas, and the data extended.\<close>

definition edited :: "bool \<Rightarrow> bool \<Rightarrow> bytes \<Rightarrow> bytes \<Rightarrow> u64 \<Rightarrow> bytes" where
  "edited usecas front v data cas =
     take 16 v @ (if usecas then le_enc 8 (unat cas) else []) @
     (if front then data @ item_data usecas v else item_data usecas v @ data)"

lemma take_wr: "p + length bs \<le> n \<Longrightarrow> n \<le> length v \<Longrightarrow> take n (wr v p bs) = wr (take n v) p bs"
proof -
  assume a: "p + length bs \<le> n" "n \<le> length v"
  then have "p \<le> n" "length bs \<le> n - p" "p \<le> length v" by auto
  then show ?thesis using a by (simp add: wr_in min_absorb1 min_absorb2 drop_take)
qed

definition grown_from :: "bool \<Rightarrow> bool \<Rightarrow> nat \<Rightarrow> bytes \<Rightarrow> bytes \<Rightarrow> bool" where
  "grown_from usecas front n v w \<longleftrightarrow> length w = length v + n \<and>
     (if front then take (data_off usecas) w = take (data_off usecas) v \<and> drop (data_off usecas + n) w = item_data usecas v
      else take (length v) w = v)"

definition put_data :: "bool \<Rightarrow> nat \<Rightarrow> bytes \<Rightarrow> u64 \<Rightarrow> bytes \<Rightarrow> bytes" where
  "put_data usecas pos data cas w =
     (let w = (if usecas then wr w sizeof_item (le_enc 8 (unat cas)) else w) in if data \<noteq> [] then wr w pos data else w)"

lemma put_data_edited:
  assumes g: "grown_from u front (length data) v w" and l: "data_off u \<le> length v"
  shows "put_data u (if front then data_off u else length w - length data) data cas w = edited u front v data cas"
proof -
  have o: "data_off u = 16 + (if u then 8 else 0)" by (simp add: data_off_def lay_simps)
  have lw: "length w = length v + length data" using g by (simp add: grown_from_def)
  define c where "c = (if u then le_enc 8 (unat cas) else [])"
  have "(if u then wr w sizeof_item (le_enc 8 (unat cas)) else w) = take 16 w @ c @ drop (data_off u) w"
    using l lw by (auto simp: wr_in o lay_simps c_def)
  moreover have "(if data \<noteq> [] then wr x p data else x) = wr x p data" for x p by (auto simp: wr_def min_def)
  ultimately have p: "put_data u pos data cas w = wr (take 16 w @ c @ drop (data_off u) w) pos data" for pos by (simp add: put_data_def Let_def)
  have lc: "length (take 16 w @ c) = data_off u" "length (take 16 w @ c @ drop (data_off u) w) = length w"
    using l lw by (auto simp: c_def o)
  show ?thesis
  proof (cases front)
    case True
    then have "take 16 w = take 16 v" using g o by (simp add: grown_from_def) (metis take_add append_eq_append_conv take_take min.absorb1 le_add1)
    moreover have "drop (data_off u + length data) w = item_data u v" using g True by (simp add: grown_from_def)
    moreover have "put_data u (data_off u) data cas w = (take 16 w @ c) @ data @ drop (data_off u + length data) w"
      unfolding p using lc lw l by (subst append_assoc [symmetric], subst wr_append) (simp_all add: drop_drop add.commute)
    ultimately show ?thesis using True by (simp add: edited_def c_def)
  next
    case False
    then have tk: "take (length v) w = v" using g by (simp add: grown_from_def)
    then have "take 16 w = take 16 v" using l o by (metis le_trans le_add1 take_take min.absorb1)
    moreover have "take (length v - data_off u) (drop (data_off u) w) = item_data u v" using tk l by (metis drop_take item_data_def)
    moreover have "put_data u (length w - length data) data cas w = take (length v) (take 16 w @ c @ drop (data_off u) w) @ data"
      unfolding p using lc lw by (simp add: wr_in)
    moreover have "16 \<le> length v" using l o by simp
    ultimately show ?thesis using False lc(1) l by (simp add: edited_def c_def [symmetric] take_append min_def)
  qed
qed

section \<open>append and prepend in the engine\<close>

lemma dataItemUpdate_grown:
  assumes g: "good m" and at: "hash_at E (getHash m) mp R (m_iterOff m) k"
    and rc: "m_retcode m = (if front then UPDRET_PREPEND else UPDRET_APPEND)"
    and v: "mp k = Some w" "grown_from (m_usecas (m_mcparms m)) front n v w" "data_off (m_usecas (m_mcparms m)) \<le> length v" and n: "mp_vallen m = n" "n \<le> length pBuf"
  defines "m' \<equiv> dataItemUpdate pBuf m"
  shows "\<exists>c. hash_at E (getHash m') (mp(k \<mapsto> edited (m_usecas (m_mcparms m)) front v (take n pBuf) c)) R (m_iterOff m) k"
    "cur_step m m'" "client m' = client m" "out m' = out m" "m_retcode m' = m_retcode m"
proof -
  let ?x = "m_iterOff m" and ?u = "m_usecas (m_mcparms m)" and ?d = "take n pBuf"
  obtain e where e: "elem_live E (getHash m) ?x e" "e_key e = k" "mp k = Some (take (e_valLen e) (e_val e))"
    using hash_atD(3) [OF at] by auto
  have el: "h_elems (getHash m) ?x = Some e" "e_valLen e \<le> length (e_val e)" using e(1) by (auto simp: elem_live_def elem_ok_def)
  have w: "w = take (e_valLen e) (e_val e)" "e_valLen e = length v + n" using e(3) v el(2) by (auto simp: grown_from_def)
  have ld: "length ?d = n" using n(2) by simp
  let ?pos = "if front then data_off ?u else e_valLen e - n"
  define m2 where "m2 = (if ?u then (snd (getCas m))\<lparr>m_rescas := next_cas m\<rparr> else m)"
  define f where "f = (\<lambda>e' :: LsShmHElem. e'\<lparr>e_val := put_data ?u ?pos ?d (next_cas m) (e_val e)\<rparr>)"
  have m2: "good m2" "m_iterOff m2 = ?x" "cur_step m m2" "client m2 = client m" "out m2 = out m" "m_retcode m2 = m_retcode m" "m_cur m2 = m_cur m"
    using g getCas_simps [of m] by (auto simp: m2_def)
  have eq: "m' = (set_hash (upd_elem ?x f (getHash m)) m2)\<lparr>m_needed := 0\<rparr>"
    unfolding m'_def dataItemUpdate_def elem_live_simps(4) [OF e(1)] prod.case option.case mcIter2data_def Let_def
    using rc n ld w(2) by (auto simp: getCas_simps m2_def f_def put_data_def Let_def split_beta split: if_splits)
  have pd: "put_data ?u ?pos ?d c w = edited ?u front v ?d c" for c
    using put_data_edited [of ?u front ?d v w c] v ld w by (auto simp: grown_from_def)
  have le: "?pos + n \<le> e_valLen e" "data_off ?u \<le> e_valLen e" using w(2) v(3) by auto
  have o: "data_off ?u = 16 + (if ?u then 8 else 0)" by (simp add: data_off_def lay_simps)
  have tk: "take (e_valLen e) (put_data ?u ?pos ?d c (e_val e)) = put_data ?u ?pos ?d c w" for c
    using le el(2) ld o by (auto simp: put_data_def Let_def take_wr w(1) lay_simps simp del: length_take)
  have ln: "length (put_data ?u ?pos ?d c (e_val e)) = length (e_val e)" for c
    using le el(2) ld o by (auto simp: put_data_def Let_def lay_simps)
  have sh: "same_shape e (f e)" using ln el(2) by (simp add: same_shape_def f_def)
  have "take (e_valLen (f e)) (e_val (f e)) = edited ?u front v ?d (next_cas m)" using tk pd by (simp add: f_def)
  moreover have "getHash m' = upd_elem ?x f (getHash m)" using m2(1) by (simp add: eq)
  ultimately have "hash_at E (getHash m') (mp(k \<mapsto> edited ?u front v ?d (next_cas m))) R ?x k"
    using hash_at_write(1) [where f = f, OF at el(1) sh] by simp
  then show "\<exists>c. hash_at E (getHash m') (mp(k \<mapsto> edited ?u front v ?d c)) R ?x k" by blast
  show "cur_step m m'" "client m' = client m" "out m' = out m" "m_retcode m' = m_retcode m"
    using m2 cur_step_trans [OF m2(3) cur_step_set_hash [OF m2(1)]] by (auto simp: eq)
qed


abbreviation grow_cmd :: "bool \<Rightarrow> nat" where
  "grow_cmd front \<equiv> if front then MC_BINCMD_PREPEND else MC_BINCMD_APPEND"

lemma doHashUpdate_grow:
  assumes ok: "slice_ok E m mp R" and k: "mp_key m = key" "m_hkey m = m_hf E key"
    and c: "o_cmd opt = grow_cmd front" "\<not> o_withcas opt" "o_cas opt = 0" "o_usecas opt = m_usecas (m_mcparms m)"
    and sz: "\<forall>e. h_elems (getHash m) (find2 (m_hf E key) key (getHash m)) = Some e \<longrightarrow> x_iLen e + round4 (mp_vallen m) \<le> 100000000"
    and r: "doHashUpdate E opt m = (x, opt', nb, m1)"
  shows "\<exists>h1. m1 = set_hash h1 m \<and>
    (case live E mp key of
       None \<Rightarrow> x = 0 \<and> hash_inv E h1 (mp(key := None)) R
     | Some v \<Rightarrow> if x = 0 then hash_inv E h1 mp R
         else \<exists>w. hash_at E h1 (mp(key \<mapsto> w)) R x key \<and> grown_from (m_usecas (m_mcparms m)) front (mp_vallen m) v w)"
proof (cases "mp key")
  case None
  have "m = set_hash (getHash m) m" using ok by (simp add: set_hash_def on_cur_def)
  moreover have "mp(key := None) = mp" using None by auto
  ultimately show ?thesis using r slice_absent [OF ok k(2) None] k(1) None ok
    by (intro exI [of _ "getHash m"]) (auto simp: doHashUpdate_def Let_def live_def slice_ok_def)
next
  case (Some v)
  let ?y = "find2 (m_hkey m) key (getHash m)" and ?u = "m_usecas (m_mcparms m)" and ?n = "mp_vallen m"
  obtain e where e: "?y \<noteq> 0" "hash_at E (getHash m) mp R ?y key" "elem_live E (getHash m) ?y e" "v = take (e_valLen e) (e_val e)"
    "isExpired E (e_val e) = isExpired E v" "data_off ?u \<le> e_valLen e" "e_valLen e \<le> length (e_val e)"
    by (rule slice_elem [OF ok k(2) Some])
  have lv: "e_valLen e = length v" using e(4,7) by simp
  have codes: "o_cmd opt \<noteq> MC_BINCMD_INCREMENT" "o_cmd opt \<noteq> MC_BINCMD_DECREMENT" "o_cmd opt = MC_BINCMD_APPEND \<or> o_cmd opt = MC_BINCMD_PREPEND"
    "(o_cmd opt = MC_BINCMD_APPEND) = (\<not> front)" using c(1) by (auto simp: cmd_codes)
  obtain z h1 where gw: "iterGrowValue E ?y ?n False (getHash m) = (z, h1)" by fastforce
  have "x_iLen e + round4 ?n \<le> 100000000" using sz elem_live_simps(1) [OF e(3)] k(2) by simp
  note g = iterGrowValue_ok [OF e(2,3) this gw]
  have eq: "doHashUpdate E opt m = (if isExpired E v then (0, opt\<lparr>o_retcode := UPDRET_NOTFOUND\<rparr>, [], set_hash (eraseIteratorHelper E ?y (getHash m)) m)
      else if z = 0 \<or> \<not> front then (z, opt, [], set_hash h1 m)
      else (case offset2iterator z h1 of
          (None, h) \<Rightarrow> (0, opt\<lparr>o_retcode := UPDRET_INTERNAL_ERROR\<rparr>, [], set_hash h m)
        | (Some iter, h) \<Rightarrow> (z, opt, [], set_hash (upd_elem z (\<lambda>e. e\<lparr>e_val := wr (e_val e) (data_off ?u + ?n)
              (rd (e_val e) (data_off ?u) (e_valLen iter - data_off ?u - ?n))\<rparr>) h) m)))"
    unfolding doHashUpdate_def k(1) elem_live_simps(4) [OF e(3)] Let_def prod.case option.case mcIter2data_def gw c(4)
    using e(1,5) c(2,3) codes by simp
  show ?thesis
  proof (cases "isExpired E v \<or> z = 0")
    case True
    then show ?thesis
      using r eq eraseIteratorHelper_hash(1) [OF e(2)] hash_atD(1) [OF g(2)] Some by (auto simp: live_def split: if_splits)
  next
    case False
    then have "z \<noteq> 0" by simp
    from g(3) [OF this] obtain w where w: "hash_at E h1 (mp(key \<mapsto> w)) R z key" "length w = e_valLen e + ?n"
      "rd w (if False then ?n else 0) (e_valLen e) = take (e_valLen e) (e_val e)" by (elim exE conjE)
    note w = w(1) w(2) [unfolded lv] w(3) [folded e(4), unfolded lv if_False rd_def drop_0]
    have lo: "data_off ?u \<le> length v" using e(6) lv by simp
    show ?thesis
    proof (cases front)
      case True
      obtain e' where e': "elem_live E h1 z e'" "w = take (e_valLen e') (e_val e')" using hash_atD(3) [OF w(1)] by auto
      have l': "e_valLen e' \<le> length (e_val e')" using e'(1) by (simp add: elem_live_def elem_ok_def)
      then have vl: "e_valLen e' = length v + ?n" using e'(2) w(2) by simp
      define bs where "bs = rd (e_val e') (data_off ?u) (e_valLen e' - data_off ?u - ?n)"
      define f where "f = (\<lambda>e :: LsShmHElem. e\<lparr>e_val := wr (e_val e) (data_off ?u + ?n) (rd (e_val e) (data_off ?u) (e_valLen e' - data_off ?u - ?n))\<rparr>)"
      have bs: "length bs = length v - data_off ?u" "bs = item_data ?u v"
      proof -
        show "length bs = length v - data_off ?u" using vl l' lo by (simp add: bs_def)
        have "bs = take (length v - data_off ?u) (drop (data_off ?u) w)" using vl lo by (simp add: bs_def rd_def e'(2) drop_take)
        then show "bs = item_data ?u v" using w(3) by (metis drop_take item_data_def)
      qed
      have ln: "length (wr (e_val e') (data_off ?u + ?n) bs) = length (e_val e')" using bs(1) vl l' lo by simp
      then have "same_shape e' (f e')" using l' by (simp add: same_shape_def f_def bs_def)
      note hw = hash_at_write(1) [where f = f, OF w(1) elem_live_simps(1) [OF e'(1)] this]
      define w' where "w' = wr w (data_off ?u + ?n) bs"
      have "take (e_valLen (f e')) (e_val (f e')) = w'"
        using vl l' lo by (simp add: f_def bs_def take_wr w'_def e'(2) del: length_take)
      then have at: "hash_at E (upd_elem z f h1) (mp(key \<mapsto> w')) R z key" using hw by simp
      have wi: "w' = take (data_off ?u + ?n) w @ bs" using w(2) bs(1) lo by (simp add: w'_def wr_in)
      have "take (data_off ?u) w = take (data_off ?u) v" using w(3) lo by (metis take_take min.absorb1)
      then have "grown_from ?u front ?n v w'" using True w(2) bs lo unfolding grown_from_def wi by simp
      moreover have "m1 = set_hash (upd_elem z f h1) m" "x = z" using r eq False True by (auto simp: elem_live_simps(4) [OF e'(1)] f_def)
      ultimately show ?thesis using at False Some by (auto simp: live_def)
    next
      case False': False
      then have "grown_from ?u front ?n v w" using w by (simp add: grown_from_def)
      then show ?thesis using r eq False False' w(1) Some by (auto simp: live_def)
    qed
  qed
qed


lemma doDataUpdate_grown:
  assumes g: "good m" and c: "client m" and k: "mp_key m = key" "key \<noteq> []" and x: "m_iterOff m \<noteq> 0"
    and at: "hash_at E (getHash m) (mp(key \<mapsto> w)) R (m_iterOff m) key" and rc: "m_retcode m = (if front then UPDRET_PREPEND else UPDRET_APPEND)"
    and v: "grown_from (m_usecas (m_mcparms m)) front n v w" "data_off (m_usecas (m_mcparms m)) \<le> length v" and n: "mp_vallen m = n" "n \<le> length pBuf"
  defines "m' \<equiv> doDataUpdate pBuf m"
  shows "\<exists>c. hash_inv E (getHash m') (mp(key \<mapsto> edited (m_usecas (m_mcparms m)) front v (take n pBuf) c)) R"
    "cur_step m m'" "client m'" "out m' = out m @ ''STORED'' @ CRLF"
proof -
  define m1 where "m1 = m\<lparr>mp_key := []\<rparr>"
  have e1: "good m1" "hash_at E (getHash m1) (mp(key \<mapsto> w)) R (m_iterOff m1) key" "m_retcode m1 = (if front then UPDRET_PREPEND else UPDRET_APPEND)"
    "(mp(key \<mapsto> w)) key = Some w" "grown_from (m_usecas (m_mcparms m1)) front n v w" "data_off (m_usecas (m_mcparms m1)) \<le> length v" "mp_vallen m1 = n"
    using g at rc v n by (simp_all add: m1_def)
  note d = dataItemUpdate_grown [OF e1 n(2)]
  have m': "m' = (respond (''STORED'' @ CRLF) (notifyChange (dataItemUpdate pBuf m1)))\<lparr>m_iterOff := 0\<rparr>"
    using k x rc d(5) by (simp add: m'_def doDataUpdate_def Let_def m1_def)
  have "getHash m' = getHash (dataItemUpdate pBuf m1)" by (simp add: m')
  moreover obtain c' where "hash_at E (getHash (dataItemUpdate pBuf m1)) (mp(key \<mapsto> w, key \<mapsto> edited (m_usecas (m_mcparms m1)) front v (take n pBuf) c')) R (m_iterOff m1) key"
    using d(1) by blast
  ultimately show "\<exists>c. hash_inv E (getHash m') (mp(key \<mapsto> edited (m_usecas (m_mcparms m)) front v (take n pBuf) c)) R"
    using hash_atD(1) by (intro exI [of _ c']) (simp add: m1_def)
  have "cur_step m m1" by (simp add: m1_def)
  then show "cur_step m m'" using cur_step_trans [OF _ d(2)] by (simp add: m')
  show "client m'" "out m' = out m @ ''STORED'' @ CRLF"
    using d(3,4) c client_out(1) [of "notifyChange (dataItemUpdate pBuf m1)"] by (auto simp: m' m1_def)
qed

definition grow_room :: "env \<Rightarrow> bytes \<Rightarrow> nat \<Rightarrow> LsMemcache \<Rightarrow> bool" where
  "grow_room E key n m \<longleftrightarrow>
     (let s = m_slices m ! slice_of E m key; h = sl_hash s
      in chkItemSize m n \<and> m_iHashInUse h + of_nat (size2roundSize n) - of_nat (helper_size s) \<le> m_iMemMaxSz (m_mcparms m) \<and>
         (case h_elems h (find2 (m_hf E key) key h) of None \<Rightarrow> True | Some e \<Rightarrow> x_iLen e + round4 n \<le> 100000000))"

lemma grow_room_setSlice [simp]: "grow_room E key n (setSlice E k m) = grow_room E key n m"
  by (simp add: grow_room_def Let_def)

definition grow_result :: "env \<Rightarrow> bool \<Rightarrow> bytes \<Rightarrow> bytes \<Rightarrow> LsMemcache \<Rightarrow> (nat \<Rightarrow> bytes \<Rightarrow> bytes option) \<Rightarrow> LsMemcache \<Rightarrow> (nat \<Rightarrow> bytes \<Rightarrow> bytes option) \<Rightarrow> bool" where
  "grow_result E front key data m f m' f' \<longleftrightarrow>
     (\<forall>k. k \<noteq> key \<longrightarrow> item_at E m' f' k = item_at E m f k) \<and>
     (out m' = out m @ ''NOT_STORED'' @ CRLF \<and> item_at E m' f' key = item_at E m f key \<or>
      (\<exists>v c. item_at E m f key = Some v \<and> out m' = out m @ ''STORED'' @ CRLF \<and>
         item_at E m' f' key = Some (edited (m_usecas (m_mcparms m)) front v data c)))"

lemma grow_result_setSlice [simp]: "grow_result E front key data (setSlice E k m) f m' f' = grow_result E front key data m f m' f'"
  by (simp add: grow_result_def)

lemma isExpired_edited: "16 \<le> length v \<Longrightarrow> isExpired E (edited u front v data c) = isExpired E v"
  by (simp add: isExpired_def x_exptime_def rd_def edited_def)

lemma doCmdUpdate_grow:
  fixes data :: bytes and front :: bool
  assumes i: "mc_inv E m f" and c: "client m" and p: "region buf p e (store_args (grow_cmd front) key flg ex (length data) cas)"
    and d: "drop pNxt buf = blk @ rest" "blk = (if data = [] then [] else data @ CRLF)" "iLen = length (blk @ rest)"
    and k: "length key \<le> KEY_MAXLEN" and b: "flg < 2 ^ 32" "ex < 2 ^ 32" "length data < 2 ^ 31 - 2" "cas < 2 ^ 64"
    and ms: "isTidMaster (m_slices m ! slice_of E m key)" and rm: "grow_room E key (length data) m"
  shows "\<exists>m' f'. doCmdUpdate E buf p e pNxt iLen (grow_cmd front) m = (int (length blk), m') \<and> mc_inv E m' f' \<and> client m' \<and>
    m_mcparms m' = m_mcparms m \<and> slice_of E m' = slice_of E m \<and> grow_result E front key data m f m' f'"
proof -
  let ?n = "length data" and ?i = "slice_of E m key" and ?u = "m_usecas (m_mcparms m)" and ?a = "grow_cmd front"
  have key: "key \<noteq> []" using p by (auto simp: store_args_def elim: region_one)
  have da: "byte_at buf (pNxt + j) = byte_at (blk @ rest) j" for j
    by (metis byte_at_def d(1) drop_drop add.commute length_drop less_diff_conv nth_drop linorder_not_less drop_all nat_le_linear)
  have dn: "?n \<noteq> 0 \<longrightarrow> ?n + 2 \<le> iLen \<and> byte_at buf (pNxt + ?n) = CHR 0x0D \<and> byte_at buf (pNxt + ?n + 1) = CHR 0x0A"
    using da [of ?n] da [of "?n + 1"] d(2,3) by (simp add: byte_at_def nth_append CRLF_def)
  have pb: "take ?n (blk @ rest) = data" "?n \<le> length (blk @ rest)" by (simp_all add: d(2))
  define m2 where "m2 = (parse_state E key m)\<lparr>m_item := (m_item m)\<lparr>it_flags := of_nat flg, it_exptime := int ex\<rparr>, mp_vallen := ?n\<rparr>"
  define opt where "opt = \<lparr>o_cmd = ?a mod LSMC_WITHCAS, o_withcas = False, o_usecas = ?u, o_retcode = UPDRET_DONE, o_value = 0, o_cas = 0\<rparr>"
  have wc: "(?a div LSMC_WITHCAS mod 2 = 1) = False" "?a mod LSMC_WITHCAS = ?a" by (simp_all add: cmd_codes LSMC_WITHCAS_def)
  have dc: "doCmdUpdate E buf p e pNxt iLen ?a m = update_store E ?a opt ?n (blk @ rest) m2"
    using doCmdUpdate_args [OF p k b ms, of pNxt iLen] dn wc d(1) by (auto simp: opt_def m2_def)
  have m2: "m_slices m2 = m_slices m" "m_mcparms m2 = m_mcparms m" "m_cur m2 = ?i" "m_hkey m2 = m_hf E key" "mp_key m2 = key" "client m2" "out m2 = out m" "mp_vallen m2 = ?n"
    using c by (simp_all add: m2_def parse_state_def client_def)
  have mem: "chkMemSz E ?a m2 = (MC_BINSTAT_SUCCESS, m2)"
  proof -
    have "chkItemSize m2 ?n" "\<not> m_iMemMaxSz (m_mcparms m) < m_iHashInUse (sl_hash (m_slices m ! ?i)) + of_nat (size2roundSize ?n) - of_nat (helper_size (m_slices m ! ?i))"
      using rm m2(2) by (simp_all add: grow_room_def Let_def chkItemSize_def not_less)
    moreover have "?a \<noteq> MC_BINCMD_FLUSH" "\<not> (?a = MC_BINCMD_ADD \<or> ?a = MC_BINCMD_SET)" by (simp_all add: cmd_codes)
    ultimately show ?thesis unfolding chkMemSz_def Let_def m2 by (simp only: if_False if_True not_True_eq_False)
  qed
  obtain R where ok: "slice_ok E m2 (f ?i) R" by (rule server_slice [OF i m2(1-3)])
  define m3 where "m3 = stat_upd (\<lambda>s. s\<lparr>set_cmds := set_cmds s + 1\<rparr>) m2"
  have g2: "good m2" and it: "items_ok ?u (f ?i)" using ok m2(2) by (auto simp: slice_ok_def)
  have m3: "slice_ok E m3 (f ?i) R" "m_mcparms m3 = m_mcparms m" "m_hkey m3 = m_hf E key" "mp_key m3 = key" "client m3" "out m3 = out m" "mp_vallen m3 = ?n" "cur_step m2 m3" "getHash m3 = getHash m2"
    using ok m2 g2 cur_step_stat [OF g2] by (auto simp: m3_def slice_ok_def)
  obtain x opt' nb m4 where u: "doHashUpdate E opt m3 = (x, opt', nb, m4)" by (metis prod_cases4)
  have sz: "\<forall>e. h_elems (getHash m3) (find2 (m_hf E key) key (getHash m3)) = Some e \<longrightarrow> x_iLen e + round4 (mp_vallen m3) \<le> 100000000"
    using rm m3(7,9) m2(1,3) by (auto simp: grow_room_def Let_def)
  have oo: "o_cmd opt = ?a" "\<not> o_withcas opt" "o_cas opt = 0" "o_usecas opt = m_usecas (m_mcparms m3)" using m3(2) wc(2) by (simp_all add: opt_def)
  note dg = doHashUpdate_grow [OF m3(1,4,3) oo sz u, unfolded m3(2,7)]
  obtain h1 where h1: "m4 = set_hash h1 m3" "case live E (f ?i) key of
       None \<Rightarrow> x = 0 \<and> hash_inv E h1 ((f ?i)(key := None)) R
     | Some v \<Rightarrow> if x = 0 then hash_inv E h1 (f ?i) R else \<exists>w. hash_at E h1 ((f ?i)(key \<mapsto> w)) R x key \<and> grown_from ?u front ?n v w"
    using dg by (elim exE conjE)
  define m5 where "m5 = m4\<lparr>m_iterOff := x, m_retcode := (if front then UPDRET_PREPEND else UPDRET_APPEND), m_needed := ?n\<rparr>"
  have us: "doCmdUpdate E buf p e pNxt iLen ?a m = (int (length blk), doDataUpdate (blk @ rest) m5)"
    unfolding dc update_store_def mem prod.case Let_def m3_def [symmetric]
    using u by (auto simp: update_switch_def cmd_codes m5_def d(2) CRLF_def)
  have g3: "good m3" using m3(1) by (simp add: slice_ok_def)
  have m5: "good m5" "client m5" "out m5 = out m" "mp_key m5 = key" "m_iterOff m5 = x" "getHash m5 = h1" "m_mcparms m5 = m_mcparms m" "mp_vallen m5 = ?n"
    "m_retcode m5 = (if front then UPDRET_PREPEND else UPDRET_APPEND)" "cur_step m2 m5"
    using m3 g3 cur_step_trans [OF m3(8) cur_step_set_hash [OF g3]] by (auto simp: m5_def h1(1))
  let ?m' = "doDataUpdate (blk @ rest) m5"
  have fin: ?thesis if r: "cur_step m2 ?m'" "getHash ?m' = h" "client ?m'" "hash_inv E h mp R" "items_ok ?u mp" "\<And>k. k \<noteq> key \<Longrightarrow> live E mp k = live E (f ?i) k"
      "\<And>f'. item_at E ?m' f' = (item_at E m f)(key := live E mp key) \<Longrightarrow> grow_result E front key data m f ?m' f'" for h mp
    using server_step_map [OF i m2(1-3) r(1,2,4,5), OF r(6)] us r(3,7) by auto
  have iv: "item_at E m f key = live E (f ?i) key" by (simp add: item_at_def)
  show ?thesis
  proof (cases "x = 0")
    case True
    note ff = doDataUpdate_failed [of m5 "blk @ rest"]
    have ff': "getHash ?m' = h1" "cur_step m2 ?m'" "client ?m'" "out ?m' = out m @ ''NOT_STORED'' @ CRLF"
      using ff m5 True key cur_step_trans [OF m5(10)] by (auto split: if_splits)
    obtain mp where mp: "mp \<in> {f ?i, (f ?i)(key := None)}" "hash_inv E h1 mp R" "live E mp key = live E (f ?i) key"
      using h1(2) True live_removed [of E "f ?i" key] by (cases "live E (f ?i) key") auto
    show ?thesis by (rule fin [OF ff'(2,1,3) mp(2)]) (use mp it ff'(4) iv in \<open>auto simp: grow_result_def live_other\<close>)
  next
    case False
    obtain v w where v: "live E (f ?i) key = Some v" "hash_at E h1 ((f ?i)(key \<mapsto> w)) R x key" "grown_from ?u front ?n v w"
      using h1(2) False by (cases "live E (f ?i) key") auto
    then have fv: "f ?i key = Some v" "\<not> isExpired E v" by (auto simp: live_def split: option.splits if_splits)
    have lo: "data_off ?u \<le> length v" using it fv(1) by (auto simp: items_ok_def)
    then have l16: "16 \<le> length v" by (auto simp: data_off_def lay_simps split: if_splits)
    have at: "hash_at E (getHash m5) ((f ?i)(key \<mapsto> w)) R (m_iterOff m5) key" "m_iterOff m5 \<noteq> 0" using v(2) m5 False by simp_all
    have vu: "grown_from (m_usecas (m_mcparms m5)) front ?n v w" "data_off (m_usecas (m_mcparms m5)) \<le> length v" using v(3) lo m5(7) by simp_all
    note dd = doDataUpdate_grown [OF m5(1,2,4) key at(2,1) m5(9) vu m5(8) pb(2), unfolded pb(1) m5(7)]
    obtain cc where cc: "hash_inv E (getHash ?m') ((f ?i)(key \<mapsto> edited ?u front v data cc)) R" using dd(1) by blast
    have "data_off ?u \<le> length (edited ?u front v data cc)" using lo l16 by (simp add: edited_def data_off_def lay_simps)
    then show ?thesis
      by (intro fin [OF cur_step_trans [OF m5(10) dd(2)] refl dd(3) cc])
        (use it dd(4) m5(3) iv v(1) fv l16 in \<open>auto simp: grow_result_def live_other items_ok_def live_def isExpired_edited\<close>)
  qed
qed


section \<open>Commands as lines\<close>


lemma w_grow_room: "n \<le> 1000000 \<Longrightarrow> h_elems w_hash (find2 (m_hf w_env key) key w_hash) = None \<Longrightarrow> grow_room w_env key n w_mc"
  by (simp add: grow_room_def Let_def w_slices chkItemSize_def word_n1_ge)


section \<open>Requests that are refused or not yet complete\<close>

text \<open>
  C24: a request that has not arrived completely leaves no trace. As long as no newline is in the
  buffer, or the data block of a storage command and its CR LF are not all there, \<open>processCmd\<close> returns
  \<open>-1\<close>: nothing is consumed, no slice is changed and nothing is answered, so that the request can be
  processed again from its first byte.
\<close>

theorem incomplete_request:
  assumes "text_ok m" "isTidMaster (m_slices m ! slice_of E m key)"
    and "CHR 0x0A \<notin> set buf \<or> (\<exists>line rest cmd. buf = line @ CRLF @ rest \<and> CHR 0x0A \<notin> set line \<and>
      words line = cmd # store_args arg key flg ex n cas \<and> (cmd, arg, fn_doCmdUpdate) \<in> set s_LsMcCmdFuncs \<and>
      length key \<le> KEY_MAXLEN \<and> flg < 2 ^ 32 \<and> ex < 2 ^ 32 \<and> n < 2 ^ 31 - 2 \<and> cas < 2 ^ 64 \<and> n \<noteq> 0 \<and> length rest < n + 2)"
  shows "\<exists>m'. processCmd E oth buf m = (-1, m') \<and> m_slices m' = m_slices m \<and> out m' = out m"
  using assms(3)
proof
  assume "CHR 0x0A \<notin> set buf"
  then have "memchr buf CHR 0x0A 0 (length buf) = None" by (auto simp: memchr_def find_upt_None_iff in_set_conv_nth)
  then show ?thesis using assms(1) by (auto simp: processCmd_def text_ok_def)
next
  assume "\<exists>line rest cmd. buf = line @ CRLF @ rest \<and> CHR 0x0A \<notin> set line \<and>
      words line = cmd # store_args arg key flg ex n cas \<and> (cmd, arg, fn_doCmdUpdate) \<in> set s_LsMcCmdFuncs \<and>
      length key \<le> KEY_MAXLEN \<and> flg < 2 ^ 32 \<and> ex < 2 ^ 32 \<and> n < 2 ^ 31 - 2 \<and> cas < 2 ^ 64 \<and> n \<noteq> 0 \<and> length rest < n + 2"
  then obtain line rest cmd where a: "buf = line @ CRLF @ rest" "CHR 0x0A \<notin> set line" "words line = cmd # store_args arg key flg ex n cas"
    "(cmd, arg, fn_doCmdUpdate) \<in> set s_LsMcCmdFuncs" and k: "length key \<le> KEY_MAXLEN" and b: "flg < 2 ^ 32" "ex < 2 ^ 32" "n < 2 ^ 31 - 2" "cas < 2 ^ 64"
    and n: "n \<noteq> 0" "length rest < n + 2" by (elim exE conjE)
  obtain p where p: "region (cut_line line rest) p (length line) (store_args arg key flg ex n cas)"
    "processCmd E oth (line @ CRLF @ rest) m =
      (case run_func E oth fn_doCmdUpdate (cut_line line rest) p (length line) (length line + 2) (length rest) arg
              (setSlice E (rd (cut_line line rest) p (length line - p)) m) of
         (d, m') \<Rightarrow> if 0 \<le> d then (int (length line) + 2 + d, m') else if d = -1 then (-1, m') else (0, m'))"
    by (rule processCmd_line [OF assms(1) a(2-4)])
  let ?m1 = "setSlice E (rd (cut_line line rest) p (length line - p)) m"
  have ms: "isTidMaster (m_slices ?m1 ! slice_of E ?m1 key)" using assms(2) by simp
  have "processCmd E oth buf m = (-1, parse_state E key ?m1)"
    unfolding a(1) p(2) run_func_def mc_func.case doCmdUpdate_args [OF p(1) k b ms] using n by simp
  then show ?thesis by (simp add: parse_state_def)
qed

theorem incomplete_request_witness:
  "\<exists>m'. processCmd w_env w_oth (''set k 0 0 5'' @ CRLF @ ''abc'') w_mc = (-1, m') \<and> m_slices m' = m_slices w_mc \<and> out m' = out w_mc"
  by (rule incomplete_request [where key = "''k''" and arg = 1 and flg = 0 and ex = 0 and n = 5 and cas = 0, OF w_mc_ok(3,5)],
      rule disjI2, rule exI [of _ "''set k 0 0 5''"], rule exI [of _ "''abc''"], rule exI [of _ "''set''"])
    (simp add: words.simps s_LsMcCmdFuncs_def lay_simps store_args_def dec_str.simps dig_chars LSMC_WITHCAS_def)

text \<open>
  C25: a line whose first word is not a command name is answered \<open>ERROR\<close>; the line is consumed and no
  slice is changed.
\<close>

theorem unknown_command:
  assumes "client m" "text_ok m" "CHR 0x0A \<notin> set line" "cmd \<notin> fst ` set s_LsMcCmdFuncs" "words line = cmd # args"
  shows "\<exists>m'. processCmd E oth (line @ CRLF @ rest) m = (int (length line + 2), m') \<and> m_slices m' = m_slices m \<and> out m' = out m @ ''ERROR'' @ CRLF"
proof -
  have b: "(line @ CRLF @ rest)[Suc (length line) := CHR 0x00, length line := CHR 0x00] = cut_line line rest"
    "(line @ CRLF @ rest)[Suc (length line) := CHR 0x00] ! length line = CHR 0x0D"
    by (simp_all add: CRLF_def cut_line_def list_update_append nth_append)
  have "region (cut_line line rest) 0 (length line) (cmd # args)" using region_line [of 0 line rest] assms(5) by simp
  then obtain p t where p: "advToken (cut_line line rest) 0 (length line) = (p, t, length cmd)" "rd (cut_line line rest) t (length cmd) = cmd" "cmd \<noteq> []"
    using region_Cons by metis
  have g: "getCmdFunction cmd = None"
    using getCmdFunction_sound [of cmd] assms(4) nth_mem [of _ s_LsMcCmdFuncs] by (cases "getCmdFunction cmd") auto
  have "processCmd E oth (line @ CRLF @ rest) m = (int (length line + 2), respond errorStr m)"
    using assms(2) memchr_line [OF assms(3), of rest] b p g by (simp add: processCmd_def text_ok_def)
  then show ?thesis using client_out(1) [OF assms(1), of errorStr] by (simp add: errorStr_def)
qed

theorem unknown_command_witness:
  "\<exists>m'. processCmd w_env w_oth (''getx k'' @ CRLF @ []) w_mc = (int (length ''getx k'' + 2), m') \<and> m_slices m' = m_slices w_mc \<and>
     out m' = out w_mc @ ''ERROR'' @ CRLF"
  by (rule unknown_command [where cmd = "''getx''" and args = "[''k'']", OF w_mc_ok(2,3)]) (simp_all add: words.simps s_LsMcCmdFuncs_def)



end
