(* ===== verification/McBin.thy ===== *)
theory McBin
  imports McText
begin

text \<open>
  The binary protocol of \<^verbatim>\<open>memcache/lsmemcache.cpp\<close>: byte order, the request header, the mapping of
  quiet commands, argument set-up with the routing decision, the handlers and the step
  \<open>processBinCmd\<close>. The buffer starts with the 24-byte request header; positions count from there.
  The statistics and SASL commands are the parameter \<open>oth\<close>.
\<close>

section \<open>Byte order and headers\<close>

text \<open>The loop of \<open>swap64\<close>, eight rounds.\<close>

fun swap64_loop :: "nat \<Rightarrow> u64 \<Rightarrow> u64 \<Rightarrow> u64" where
  "swap64_loop 0 ret val = ret"
| "swap64_loop (Suc i) ret val = swap64_loop i (or (push_bit 8 ret) (and val 0xff)) (drop_bit 8 val)"

definition swap64 :: "u64 \<Rightarrow> u64" where
  "swap64 val = swap64_loop 8 0 val"

definition be_dec :: "bytes \<Rightarrow> nat" where
  "be_dec bs = le_dec (rev bs)"

definition be_enc :: "nat \<Rightarrow> nat \<Rightarrow> bytes" where
  "be_enc k n = rev (le_enc k n)"

definition sizeof_BinHdr :: nat where [lay_simps]: "sizeof_BinHdr = 24"

record McBinCmdHdr =
  bh_opcode :: nat
  bh_keylen :: nat
  bh_extralen :: nat
  bh_totbody :: nat
  bh_opaque :: bytes
  bh_cas :: u64

text \<open>
  The header as the code reads it; \<open>cas\<close> is the little-endian load followed by \<open>ntohll\<close>.
\<close>

definition parse_hdr :: "bytes \<Rightarrow> McBinCmdHdr" where
  "parse_hdr buf =
     \<lparr>bh_opcode = of_char (byte_at buf 1), bh_keylen = be_dec (rd buf 2 2),
      bh_extralen = of_char (byte_at buf 4), bh_totbody = be_dec (rd buf 8 4),
      bh_opaque = rd buf 12 4, bh_cas = swap64 (of_nat (le_dec (rd buf 16 8)))\<rparr>"

fun stat_code :: "McBinStat \<Rightarrow> nat" where
  "stat_code MC_BINSTAT_SUCCESS = 0x00"
| "stat_code MC_BINSTAT_KEYENOENT = 0x01"
| "stat_code MC_BINSTAT_KEYEEXISTS = 0x02"
| "stat_code MC_BINSTAT_E2BIG = 0x03"
| "stat_code MC_BINSTAT_EINVAL = 0x04"
| "stat_code MC_BINSTAT_NOTSTORED = 0x05"
| "stat_code MC_BINSTAT_DELTABADVAL = 0x06"
| "stat_code MC_BINSTAT_AUTHERROR = 0x20"
| "stat_code MC_BINSTAT_REMOTEERROR = 0x30"
| "stat_code MC_BINSTAT_UNKNOWNCMD = 0x81"
| "stat_code MC_BINSTAT_ENOMEM = 0x82"
| "stat_code MC_BINSTAT_INTERNAL_ERROR = 0x84"

text \<open>
  \<open>setupBinResHdr\<close>: with \<open>m_noreply\<close> the buffer is left as it is, and \<open>binRespond\<close> does not
  send it.
\<close>

definition setupBinResHdr :: "McBinCmdHdr \<Rightarrow> nat \<Rightarrow> nat \<Rightarrow> nat \<Rightarrow> McBinStat \<Rightarrow> LsMemcache \<Rightarrow> bytes" where
  "setupBinResHdr hdr extralen keylen totbody st m =
     (if m_noreply m then replicate sizeof_BinHdr CHR 0x00
      else [CHR 0x81, char_of (bh_opcode hdr)] @ be_enc 2 keylen @ [char_of extralen, CHR 0x00] @
           be_enc 2 (stat_code st) @ be_enc 4 totbody @ bh_opaque hdr @
           le_enc 8 (unat (swap64 (m_rescas m))))"

definition binOkRespond :: "McBinCmdHdr \<Rightarrow> LsMemcache \<Rightarrow> LsMemcache" where
  "binOkRespond hdr m = binRespond (setupBinResHdr hdr 0 0 0 MC_BINSTAT_SUCCESS m) m"

fun err_text :: "McBinStat \<Rightarrow> bytes" where
  "err_text MC_BINSTAT_KEYENOENT = ''Not found''"
| "err_text MC_BINSTAT_KEYEEXISTS = ''Data exists for key.''"
| "err_text MC_BINSTAT_E2BIG = ''Too large.''"
| "err_text MC_BINSTAT_EINVAL = ''Invalid arguments''"
| "err_text MC_BINSTAT_NOTSTORED = ''Not stored.''"
| "err_text MC_BINSTAT_DELTABADVAL = ''Non-numeric server-side value for incr or decr''"
| "err_text MC_BINSTAT_AUTHERROR = ''Auth failure.''"
| "err_text MC_BINSTAT_REMOTEERROR = ''Remote error.''"
| "err_text MC_BINSTAT_UNKNOWNCMD = ''Unknown command''"
| "err_text MC_BINSTAT_ENOMEM = ''Out of memory allocating item''"
| "err_text MC_BINSTAT_INTERNAL_ERROR = ''Internal error''"
| "err_text MC_BINSTAT_SUCCESS = ''UNHANDLED ERROR''"

definition binErrRespond :: "McBinCmdHdr \<Rightarrow> McBinStat \<Rightarrow> LsMemcache \<Rightarrow> LsMemcache" where
  "binErrRespond hdr err m =
     (let text = err_text err; m = m\<lparr>m_iterOff := 0, m_rescas := 0, m_noreply := False\<rparr>
      in binRespond text (binRespond (setupBinResHdr hdr 0 0 (length text) err m) m))"

section \<open>Set-up\<close>

definition MC_BINCMD_QUIT :: nat where "MC_BINCMD_QUIT = 0x07"
definition MC_BINCMD_NOOP :: nat where "MC_BINCMD_NOOP = 0x0a"
definition MC_BINCMD_VERSION :: nat where "MC_BINCMD_VERSION = 0x0b"
definition MC_BINCMD_GETK :: nat where "MC_BINCMD_GETK = 0x0c"
definition MC_BINCMD_GETKQ :: nat where "MC_BINCMD_GETKQ = 0x0d"
definition MC_BINCMD_STAT :: nat where "MC_BINCMD_STAT = 0x10"
definition MC_BINCMD_VERBOSITY :: nat where "MC_BINCMD_VERBOSITY = 0x1b"
definition MC_BINCMD_TOUCH :: nat where "MC_BINCMD_TOUCH = 0x1c"
definition MC_BINCMD_GAT :: nat where "MC_BINCMD_GAT = 0x1d"
definition MC_BINCMD_GATK :: nat where "MC_BINCMD_GATK = 0x23"

text \<open>\<open>setupNoreplyCmd\<close>: the command a quiet opcode stands for and the new \<open>m_noreply\<close>.\<close>

definition setupNoreplyCmd :: "nat \<Rightarrow> nat \<times> bool" where
  "setupNoreplyCmd cmd =
     (if cmd = 0x11 then (MC_BINCMD_SET, True)
      else if cmd = 0x12 then (MC_BINCMD_ADD, True)
      else if cmd = 0x13 then (MC_BINCMD_REPLACE, True)
      else if cmd = 0x14 then (MC_BINCMD_DELETE, True)
      else if cmd = 0x15 then (MC_BINCMD_INCREMENT, True)
      else if cmd = 0x16 then (MC_BINCMD_DECREMENT, True)
      else if cmd = 0x17 then (MC_BINCMD_QUIT, True)
      else if cmd = 0x18 then (MC_BINCMD_FLUSH, True)
      else if cmd = 0x19 then (MC_BINCMD_APPEND, True)
      else if cmd = 0x1a then (MC_BINCMD_PREPEND, True)
      else if cmd = 0x09 then (MC_BINCMD_GET, False)
      else if cmd = 0x0d then (MC_BINCMD_GETK, False)
      else if cmd = 0x1e then (MC_BINCMD_GAT, True)
      else if cmd = 0x24 then (MC_BINCMD_GATK, True)
      else (cmd, False))"

definition isRemoteEligible :: "nat \<Rightarrow> bool" where
  "isRemoteEligible cmd \<longleftrightarrow>
     cmd \<in> {MC_BINCMD_TOUCH, MC_BINCMD_GAT, MC_BINCMD_GATK, MC_BINCMD_SET, MC_BINCMD_ADD,
            MC_BINCMD_REPLACE, MC_BINCMD_DELETE, MC_BINCMD_INCREMENT, MC_BINCMD_DECREMENT,
            MC_BINCMD_APPEND, MC_BINCMD_PREPEND}"

definition fwdBinToRemote :: "bytes \<Rightarrow> McBinCmdHdr \<Rightarrow> LsMemcache \<Rightarrow> bool \<times> LsMemcache" where
  "fwdBinToRemote buf hdr m =
     (if \<not> isTidMaster (cur_slice m) then
        if sl_connected (cur_slice m) then
          (True, fwdCommand (rd buf 0 (sizeof_BinHdr + bh_totbody hdr)) m)
        else (True, binErrRespond hdr MC_BINSTAT_REMOTEERROR m)
      else (False, m))"

datatype setup_res = Setup_Invalid | Setup_Queued | Setup_Sent | Setup_Stat McBinStat | Setup_Ok nat LsMcUpdOpt

definition no_opt :: LsMcUpdOpt where
  "no_opt = \<lparr>o_cmd = 0, o_withcas = False, o_usecas = False, o_retcode = UPDRET_DONE, o_value = 0, o_cas = 0\<rparr>"

text \<open>
  \<open>setupBinCmd\<close>. The result is the position of the value and the update options, or one of the
  special pointers. The routing of an eligible command comes first in both branches.
\<close>

definition route :: "env \<Rightarrow> bool \<Rightarrow> bytes \<Rightarrow> McBinCmdHdr \<Rightarrow> LsMemcache \<Rightarrow> setup_res option \<times> LsMemcache" where
  "route E eligible buf hdr m =
     (if eligible then
        let (now, m) = canProcessNow E (mp_key m) m in
        if \<not> now then (Some Setup_Queued, m)
        else
          let (fwd, m) = fwdBinToRemote buf hdr m
          in (if fwd then Some Setup_Sent else None, m)
      else (None, setSlice E (mp_key m) m))"

text \<open>The \<open>switch\<close> of \<open>setupBinCmd\<close> for a request with extras or a value.\<close>

definition setup_switch :: "env \<Rightarrow> nat \<Rightarrow> bytes \<Rightarrow> McBinCmdHdr \<Rightarrow> nat \<Rightarrow> LsMemcache \<Rightarrow> setup_res \<times> LsMemcache" where
  "setup_switch E cmd buf hdr pVal m =
     (let usecas = m_usecas (m_mcparms m); x = bh_extralen hdr; p = sizeof_BinHdr in
      if cmd = MC_BINCMD_REPLACE \<or> cmd = MC_BINCMD_ADD \<or> cmd = MC_BINCMD_SET then
        if x \<noteq> 8 then (Setup_Invalid, m)
        else
          let (st, m) = chkMemSz E cmd m in
          if st \<noteq> MC_BINSTAT_SUCCESS then (Setup_Stat st, m)
          else
            (Setup_Ok pVal (if cmd = MC_BINCMD_REPLACE then no_opt\<lparr>o_cmd := cmd, o_cas := bh_cas hdr\<rparr> else no_opt),
             m\<lparr>m_item := (m_item m)\<lparr>it_flags := of_nat (be_dec (rd buf p 4)),
                                    it_exptime := int (be_dec (rd buf (p + 4) 4))\<rparr>,
               mp_vallen := parmAdjLen m (mp_vallen m)\<rparr>)
      else if cmd = MC_BINCMD_TOUCH \<or> cmd = MC_BINCMD_GAT \<or> cmd = MC_BINCMD_GATK \<or> cmd = MC_BINCMD_FLUSH then
        if x \<noteq> 4 then (Setup_Invalid, m)
        else (Setup_Ok pVal no_opt, m\<lparr>m_item := (m_item m)\<lparr>it_exptime := int (be_dec (rd buf p 4))\<rparr>\<rparr>)
      else if cmd = MC_BINCMD_INCREMENT \<or> cmd = MC_BINCMD_DECREMENT then
        if x \<noteq> 20 then (Setup_Invalid, m)
        else
          (Setup_Ok pVal (no_opt\<lparr>o_cmd := cmd, o_usecas := usecas,
             o_value := swap64 (of_nat (le_dec (rd buf p 8))), o_cas := bh_cas hdr\<rparr>),
           m\<lparr>mp_vallen := parmAdjLen m 0\<rparr>)
      else if cmd = MC_BINCMD_APPEND \<or> cmd = MC_BINCMD_PREPEND then
        let (st, m) = chkMemSz E cmd m in
        if st \<noteq> MC_BINSTAT_SUCCESS then (Setup_Stat st, m)
        else
          (Setup_Ok pVal (no_opt\<lparr>o_cmd := cmd, o_usecas := usecas, o_cas := bh_cas hdr,
             o_retcode := (if cmd = MC_BINCMD_APPEND then UPDRET_APPEND else UPDRET_PREPEND)\<rparr>), m)
      else if cmd = MC_BINCMD_VERBOSITY then
        if x \<noteq> 4 then (Setup_Invalid, m) else (Setup_Ok pVal no_opt, m)
      else (Setup_Ok pVal no_opt, m))"

definition setupBinCmd :: "env \<Rightarrow> nat \<Rightarrow> bytes \<Rightarrow> McBinCmdHdr \<Rightarrow> LsMemcache \<Rightarrow> setup_res \<times> LsMemcache" where
  "setupBinCmd E cmd buf hdr m =
     (let keyLen = bh_keylen hdr; bodyLen = bh_totbody hdr in
      if keyLen > KEY_MAXLEN then (Setup_Invalid, m)
      else if bodyLen = keyLen then
        let m = m\<lparr>mp_key := rd buf sizeof_BinHdr keyLen\<rparr>;
            (res, m) = route E (cmd = MC_BINCMD_DELETE) buf hdr m
        in (case res of Some r \<Rightarrow> (r, m) | None \<Rightarrow> (Setup_Ok sizeof_BinHdr no_opt, m))
      else
        let pKey = sizeof_BinHdr + bh_extralen hdr;
            m = m\<lparr>mp_key := rd buf pKey keyLen\<rparr>;
            (res, m) = route E (isRemoteEligible cmd) buf hdr m
        in (case res of Some r \<Rightarrow> (r, m)
            | None \<Rightarrow>
                setup_switch E cmd buf hdr (pKey + keyLen)
                  (m\<lparr>mp_vallen := sub32 (sub32 bodyLen keyLen) (bh_extralen hdr)\<rparr>)))"

section \<open>Handlers\<close>

definition saveCas :: "bytes \<Rightarrow> LsMemcache \<Rightarrow> LsMemcache" where
  "saveCas v m = m\<lparr>m_rescas := (if m_usecas (m_mcparms m) then x_cas v else 0)\<rparr>"

definition bin_miss :: "McBinCmdHdr \<Rightarrow> nat \<Rightarrow> LsMemcache \<Rightarrow> LsMemcache" where
  "bin_miss hdr keyLen m =
     (if \<not> m_noreply m then
        if keyLen \<noteq> 0 then
          binRespond (mp_key m) (binRespond (setupBinResHdr hdr 0 keyLen keyLen MC_BINSTAT_KEYENOENT m) m)
        else binErrRespond hdr MC_BINSTAT_KEYENOENT m
      else m)"

definition doBinGet :: "env \<Rightarrow> McBinCmdHdr \<Rightarrow> nat \<Rightarrow> bool \<Rightarrow> LsMemcache \<Rightarrow> LsMemcache" where
  "doBinGet E hdr cmd doTouch m =
     (let keyLen = (if cmd = MC_BINCMD_GATK \<or> cmd = MC_BINCMD_GETK then length (mp_key m) else 0);
          usecas = m_usecas (m_mcparms m);
          missed = (if doTouch then stat_upd (\<lambda>s. s\<lparr>touch_misses := touch_misses s + 1\<rparr>)
                    else stat_upd (\<lambda>s. s\<lparr>get_misses := get_misses s + 1\<rparr>));
          iterOff = find2 (m_hkey m) (mp_key m) (getHash m);
          m = m\<lparr>m_iterOff := iterOff\<rparr>
      in
      if iterOff = 0 then bin_miss hdr keyLen (missed m)
      else case offset2iterator iterOff (getHash m) of
        (None, h) \<Rightarrow> binErrRespond hdr MC_BINSTAT_INTERNAL_ERROR (set_hash h m)
      | (Some iter, h) \<Rightarrow>
          if isExpired E (e_val iter) then
            bin_miss hdr keyLen (missed (notifyChange (set_hash (eraseIteratorHelper E iterOff h) m)))
          else
            let flags = be_enc 4 (unat (x_flags (e_val iter)));
                m = (if doTouch then
                       let h = upd_elem iterOff (\<lambda>e. e\<lparr>e_val := setItemExptime E (of_int (it_exptime (m_item m))) (e_val e)\<rparr>) h;
                           h = tidReplaceTid E iterOff 0 h
                       in stat_upd (\<lambda>s. s\<lparr>touch_hits := touch_hits s + 1\<rparr>) (notifyChange (set_hash h m))
                     else stat_upd (\<lambda>s. s\<lparr>get_hits := get_hits s + 1\<rparr>) (set_hash h m));
                (valPtr, valLen) = mcIter2data iter usecas;
                val = rd (e_val iter) valPtr valLen;
                m = saveCas (e_val iter) m;
                val = (if cmd = MC_BINCMD_TOUCH then [] else val);
                m = binRespond (setupBinResHdr hdr 4 keyLen (4 + keyLen + length val) MC_BINSTAT_SUCCESS m @ flags) m;
                m = (if keyLen \<noteq> 0 then binRespond (mp_key m) m else m)
            in if val \<noteq> [] then binRespond val m else m)"

definition doBinDataUpdate :: "bytes \<Rightarrow> McBinCmdHdr \<Rightarrow> LsMemcache \<Rightarrow> LsMemcache" where
  "doBinDataUpdate pBuf hdr m =
     (let m = m\<lparr>mp_key := []\<rparr> in
      if m_iterOff m \<noteq> 0 then
        (binOkRespond hdr (notifyChange (dataItemUpdate pBuf m)))\<lparr>m_iterOff := 0\<rparr>
      else
        binErrRespond hdr
          (if m_retcode m = UPDRET_INTERNAL_ERROR then MC_BINSTAT_INTERNAL_ERROR
           else if m_retcode m = UPDRET_NOTFOUND then MC_BINSTAT_KEYENOENT
           else if m_retcode m = UPDRET_EEXISTS then MC_BINSTAT_KEYEEXISTS
           else MC_BINSTAT_NOTSTORED) m)"

definition doBinDelete :: "env \<Rightarrow> McBinCmdHdr \<Rightarrow> LsMemcache \<Rightarrow> LsMemcache" where
  "doBinDelete E hdr m =
     (let iterOff = find2 (m_hkey m) (mp_key m) (getHash m);
          m = m\<lparr>m_iterOff := iterOff\<rparr>;
          missed = stat_upd (\<lambda>s. s\<lparr>delete_misses := delete_misses s + 1\<rparr>)
      in
      if iterOff = 0 then binErrRespond hdr MC_BINSTAT_KEYENOENT (missed m)
      else case offset2iteratorData iterOff (getHash m) of
        (None, h) \<Rightarrow> binErrRespond hdr MC_BINSTAT_INTERNAL_ERROR (missed (set_hash h m))
      | (Some item, h) \<Rightarrow>
          if isExpired E item then
            binErrRespond hdr MC_BINSTAT_KEYENOENT
              (notifyChange (missed (set_hash (eraseIteratorHelper E iterOff h) m)))
          else if m_usecas (m_mcparms m) \<and> bh_cas hdr \<noteq> 0 \<and> bh_cas hdr \<noteq> x_cas item then
            binErrRespond hdr MC_BINSTAT_KEYEEXISTS (set_hash h m)
          else
            binOkRespond hdr (notifyChange (stat_upd (\<lambda>s. s\<lparr>delete_hits := delete_hits s + 1\<rparr>)
              (set_hash (eraseIteratorHelper E iterOff h) m))))"

text \<open>
  \<open>doBinArithmetic\<close>: after \<open>doBinDataUpdate\<close>, which already answers, a second response with the
  new value is sent.
\<close>

definition doBinArithmetic :: "env \<Rightarrow> bytes \<Rightarrow> McBinCmdHdr \<Rightarrow> nat \<Rightarrow> LsMcUpdOpt \<Rightarrow> LsMemcache \<Rightarrow> LsMemcache" where
  "doBinArithmetic E buf hdr cmd opt m =
     (let (iterOff, opt, numBuf, m) = doHashUpdate E opt m;
          m = m\<lparr>m_iterOff := iterOff\<rparr>;
          initval = rd buf (sizeof_BinHdr + 8) 8;
          exptime = be_dec (rd buf (sizeof_BinHdr + 16) 4)
      in
      if iterOff \<noteq> 0 then
        let m = (if cmd = MC_BINCMD_INCREMENT then stat_upd (\<lambda>s. s\<lparr>incr_hits := incr_hits s + 1\<rparr>) m
                 else stat_upd (\<lambda>s. s\<lparr>decr_hits := decr_hits s + 1\<rparr>) m);
            m = doBinDataUpdate numBuf hdr (m\<lparr>m_retcode := UPDRET_NONE\<rparr>);
            newval = (case strtoull numBuf of None \<Rightarrow> 0 | Some (v, _) \<Rightarrow> v)
        in binRespond (setupBinResHdr hdr 0 0 8 MC_BINSTAT_SUCCESS m @ le_enc 8 (unat (swap64 newval))) m
      else if o_retcode opt = UPDRET_NOTFOUND then
        if exptime = 0xffffffff then
          binErrRespond hdr MC_BINSTAT_KEYENOENT
            (if cmd = MC_BINCMD_INCREMENT then stat_upd (\<lambda>s. s\<lparr>incr_misses := incr_misses s + 1\<rparr>) m
             else stat_upd (\<lambda>s. s\<lparr>decr_misses := decr_misses s + 1\<rparr>) m)
        else
          let numBuf = dec_str (unat (swap64 (of_nat (le_dec initval))));
              m = m\<lparr>m_item := (m_item m)\<lparr>it_flags := 0, it_exptime := int exptime\<rparr>,
                    mp_vallen := parmAdjLen m (length numBuf)\<rparr>;
              h = getHash m;
              (iterOff, h) = doInsert E (find2 (m_hkey m) (mp_key m) h) (m_hkey m) (mp_key m) (valarg_of m) h;
              m = (set_hash h m)\<lparr>m_iterOff := iterOff\<rparr>
          in
          if iterOff \<noteq> 0 then
            let m = doBinDataUpdate numBuf hdr (m\<lparr>m_retcode := UPDRET_NONE\<rparr>)
            in binRespond (setupBinResHdr hdr 0 0 8 MC_BINSTAT_SUCCESS m @ initval) m
          else binErrRespond hdr MC_BINSTAT_NOTSTORED m
      else
        binErrRespond hdr
          (if o_retcode opt = UPDRET_NONNUMERIC then MC_BINSTAT_DELTABADVAL
           else if o_retcode opt = UPDRET_CASFAIL then MC_BINSTAT_KEYEEXISTS
           else MC_BINSTAT_NOTSTORED) m)"

definition doBinFlush :: "env \<Rightarrow> bytes \<Rightarrow> McBinCmdHdr \<Rightarrow> LsMemcache \<Rightarrow> LsMemcache" where
  "doBinFlush E buf hdr m =
     (if bh_extralen hdr > 0 \<and> it_exptime (m_item m) \<noteq> 0 then binErrRespond hdr MC_BINSTAT_EINVAL m
      else if useMulti m then
        let (ok, m) = multi_flush E [0..<length (m_slices m)] m in
        if \<not> ok then binErrRespond hdr MC_BINSTAT_REMOTEERROR m else binOkRespond hdr m
      else if \<not> isTidMaster (cur_slice m) \<and> sl_rembusy (m_slices m ! 0) then putWaitQ m
      else
        let (fwd, m) = fwdBinToRemote buf hdr m in
        if fwd then m
        else
          let m = set_hash (hash_clear E (getHash m)) m
          in binOkRespond hdr (notifyChange (stat_upd (\<lambda>s. s\<lparr>flush_cmds := flush_cmds s + 1\<rparr>) m)))"

definition doBinVersion :: "McBinCmdHdr \<Rightarrow> LsMemcache \<Rightarrow> LsMemcache" where
  "doBinVersion hdr m =
     binRespond MC_VERSION (binRespond (setupBinResHdr hdr 0 0 (length MC_VERSION) MC_BINSTAT_SUCCESS m) m)"

section \<open>The command step\<close>

type_synonym other_bin = "nat \<Rightarrow> bytes \<Rightarrow> LsMemcache \<Rightarrow> LsMemcache"

text \<open>The \<open>switch\<close> of \<open>processBinCmd\<close>; \<open>None\<close> closes the connection.\<close>

definition bin_switch :: "env \<Rightarrow> other_bin \<Rightarrow> nat \<Rightarrow> bytes \<Rightarrow> McBinCmdHdr \<Rightarrow> bytes \<Rightarrow> LsMcUpdOpt \<Rightarrow> LsMemcache \<Rightarrow> bool \<times> LsMemcache" where
  "bin_switch E oth cmd buf hdr pVal opt m =
     (let set_stat = stat_upd (\<lambda>s. s\<lparr>set_cmds := set_cmds s + 1\<rparr>) in
      if cmd = MC_BINCMD_TOUCH \<or> cmd = MC_BINCMD_GAT \<or> cmd = MC_BINCMD_GATK then
        (True, doBinGet E hdr cmd True m)
      else if cmd = MC_BINCMD_GET \<or> cmd = MC_BINCMD_GETK \<or> cmd = MC_BINCMD_GETKQ then
        (True, doBinGet E hdr cmd False m)
      else if cmd = MC_BINCMD_SET then
        let m = set_stat m; h = getHash m;
            (iterOff, h) = doSet E (find2 (m_hkey m) (mp_key m) h) (m_hkey m) (mp_key m) (valarg_of m) h
        in (True, doBinDataUpdate pVal hdr ((set_hash h m)\<lparr>m_iterOff := iterOff\<rparr>))
      else if cmd = MC_BINCMD_ADD then
        let (iterOff, opt, m) = doHashInsert E opt (set_stat m)
        in (True, doBinDataUpdate pVal hdr (m\<lparr>m_iterOff := iterOff, m_retcode := o_retcode opt\<rparr>))
      else if cmd = MC_BINCMD_REPLACE then
        let (iterOff, opt, _, m) = doHashUpdate E opt (set_stat m);
            m = m\<lparr>m_iterOff := iterOff, m_retcode := o_retcode opt\<rparr>;
            m = (if bh_cas hdr \<noteq> 0 then
                   if m_retcode m = UPDRET_NOTFOUND then stat_upd (\<lambda>s. s\<lparr>cas_misses := cas_misses s + 1\<rparr>) m
                   else if m_retcode m = UPDRET_CASFAIL then stat_upd (\<lambda>s. s\<lparr>cas_badval := cas_badval s + 1\<rparr>) m
                   else stat_upd (\<lambda>s. s\<lparr>cas_hits := cas_hits s + 1\<rparr>) m
                 else m)
        in (True, doBinDataUpdate pVal hdr m)
      else if cmd = MC_BINCMD_DELETE then (True, doBinDelete E hdr m)
      else if cmd = MC_BINCMD_INCREMENT \<or> cmd = MC_BINCMD_DECREMENT then
        (True, doBinArithmetic E buf hdr cmd opt m)
      else if cmd = MC_BINCMD_QUIT then (False, binOkRespond hdr m)
      else if cmd = MC_BINCMD_FLUSH then (True, doBinFlush E buf hdr m)
      else if cmd = MC_BINCMD_NOOP then (True, binOkRespond hdr m)
      else if cmd = MC_BINCMD_VERSION then (True, doBinVersion hdr m)
      else if cmd = MC_BINCMD_APPEND \<or> cmd = MC_BINCMD_PREPEND then
        let (iterOff, opt, _, m) = doHashUpdate E opt (set_stat m);
            m = m\<lparr>m_iterOff := iterOff,
                  m_retcode := (if o_retcode opt = UPDRET_NOTFOUND then UPDRET_DONE else o_retcode opt)\<rparr>
        in (True, doBinDataUpdate pVal hdr m)
      else if cmd = MC_BINCMD_VERBOSITY then
        (True, binOkRespond hdr (setVerbose (of_nat (be_dec (rd buf sizeof_BinHdr 4))) m))
      else if cmd = MC_BINCMD_STAT \<or> cmd = 0x20 \<or> cmd = 0x21 \<or> cmd = 0x22 then (True, oth cmd buf m)
      else (True, binErrRespond hdr MC_BINSTAT_UNKNOWNCMD m))"

text \<open>
  \<open>processBinCmd\<close>, without the SASL gate: consumed bytes, 0 to close, \<open>-1\<close> for more data. The
  number of consumed bytes is the 32-bit signed value of the sum, as in the code.
\<close>

definition processBinCmd :: "env \<Rightarrow> other_bin \<Rightarrow> bytes \<Rightarrow> LsMemcache \<Rightarrow> int \<times> LsMemcache" where
  "processBinCmd E oth buf m =
     (if length buf < sizeof_BinHdr then (-1, m)
      else
        let hdr = parse_hdr buf;
            consumed = sint (of_nat (sizeof_BinHdr + bh_totbody hdr) :: u32)
        in
        if consumed > int (length buf) then (-1, m)
        else
          let (cmd, noreply) = setupNoreplyCmd (bh_opcode hdr);
              m = m\<lparr>m_noreply := noreply\<rparr>;
              cmd = (if cmd = MC_BINCMD_SET \<and> bh_cas hdr \<noteq> 0 then MC_BINCMD_REPLACE else cmd);
              (res, m) = setupBinCmd E cmd buf hdr m
          in
          case res of
            Setup_Invalid \<Rightarrow> (consumed, binErrRespond hdr MC_BINSTAT_EINVAL m)
          | Setup_Queued \<Rightarrow> (-1, m)
          | Setup_Sent \<Rightarrow> (consumed, m)
          | Setup_Stat st \<Rightarrow> (consumed, binErrRespond hdr st m)
          | Setup_Ok pVal opt \<Rightarrow>
              let (go, m) = bin_switch E oth cmd buf hdr (drop pVal buf) opt
                              (m\<lparr>m_retcode := UPDRET_DONE, m_rescas := 0\<rparr>)
              in if \<not> go then (0, m)
                 else (if cs_cmdwait (m_conn m) then -1 else consumed, m))"

end
