(* ===== verification/MemcacheConn.thy ===== *)
theory MemcacheConn
  imports LoopBuf McGrow McBin
begin

section \<open>Connections\<close>

text \<open>
  \<open>src/memcache/memcacheconn.cpp\<close>: a connection reads into its ring buffer (\<open>LoopBuf\<close>), selects the
  protocol by the first byte and hands request after request to the engine (\<open>processCmd\<close>,
  \<open>processBinCmd\<close>, \<open>processInternal\<close>). The theorems show that reading always ends and loses no
  input, that the ring is transparent, and that a request may arrive in fragments.
\<close>

datatype mc_proto = MC_UNKNOWN | MC_ASCII | MC_BINARY | MC_INTERNAL

text \<open>
  The flags of the connection and its output are in \<open>m_conn\<close> of the engine's state; here are its
  input buffer, the protocol it uses and whether it is open. A connection to the master of a slice has
  the number of the slice and the client connection that waits for the answer.
\<close>

record Conn =
  m_bufIncoming :: LoopBuf
  cn_Protocol :: mc_proto
  cn_open :: bool
  cn_slice :: nat
  cn_pLink :: "MemcacheConn option"

definition MC_BINARY_REQ :: char where "MC_BINARY_REQ = char_of (0x80 :: nat)"
definition MC_INTERNAL_REQ :: char where "MC_INTERNAL_REQ = char_of (0x8f :: nat)"

definition req_proto :: "bytes \<Rightarrow> mc_proto" where
  "req_proto buf = (if byte_at buf 0 = MC_BINARY_REQ then MC_BINARY else MC_ASCII)"

text \<open>The block from \<open>begin()\<close> on.\<close>

definition in_block :: "Conn \<Rightarrow> bytes" where
  "in_block c = rd (lb_area (m_bufIncoming c)) (lb_head (m_bufIncoming c)) (lb_size (m_bufIncoming c))"

definition validateDb :: "LsMemcache \<Rightarrow> bool \<times> LsMemcache" where
  "validateDb m =
     (if hdrOff (cur_slice m) = 0 then (True, m)
      else if x_withcas (cur_slice m) \<noteq> m_usecas (m_mcparms m) \<or> x_withsasl (cur_slice m) \<noteq> m_usesasl (m_mcparms m)
      then (False, set_hash (rebuild (getHash m)) m)
      else (True, m))"

text \<open>
  \<open>processInternal\<close>: an answer of a slice's master, with its length in front, goes to the client
  connection that waits for it.
\<close>

definition processInternal :: "bytes \<Rightarrow> Conn \<Rightarrow> LsMemcache \<Rightarrow> int \<times> Conn \<times> LsMemcache" where
  "processInternal buf c m =
     (if length buf < 2 then (-1, c, m)
      else
        let len = 256 * of_char (byte_at buf 0) + of_char (byte_at buf 1) :: nat in
        if length buf < len then (-1, c, m)
        else
          let link = map_option (\<lambda>l. l\<lparr>cs_respwait := False, c_out := c_out l @ rd buf 2 (len - 2)\<rparr>) (cn_pLink c);
              i = cn_slice c
          in (int len, c\<lparr>cn_pLink := link\<rparr>,
              m\<lparr>m_slices := (m_slices m)[i := (m_slices m ! i)\<lparr>sl_rembusy := False\<rparr>], m_noreply := False\<rparr>))"

definition CloseConnection :: "Conn \<Rightarrow> LsMemcache \<Rightarrow> Conn \<times> LsMemcache" where
  "CloseConnection c m =
     (if \<not> cn_open c then (c, m)
      else (c\<lparr>cn_open := False, m_bufIncoming := lb_clear (m_bufIncoming c)\<rparr>,
            m\<lparr>m_conn := (m_conn m)\<lparr>cs_internal := False, cs_cmdwait := False, cs_respwait := False\<rparr>\<rparr>))"

text \<open>
  \<open>processCmd\<close> works in the buffer. When it returns \<open>-1\<close> it restores the newline but not the carriage
  return in front of it.
\<close>

definition cut_cr :: "LoopBuf \<Rightarrow> bytes \<Rightarrow> LoopBuf" where
  "cut_cr b buf =
     (case memchr buf CHR 0x0A 0 (length buf) of
        Some endp \<Rightarrow> if endp > 0 \<and> buf ! (endp - 1) = CHR 0x0D then lb_update (endp - 1) [CHR 0x00] b else b
      | None \<Rightarrow> b)"

text \<open>
  The loop of \<open>processIncoming\<close>: one request per round, until the buffer is empty, more data is
  needed or the connection is closed. The result is false for the return value \<open>-1\<close>; \<open>None\<close>
  means that the fuel did not suffice.
\<close>

fun incoming_loop :: "nat \<Rightarrow> env \<Rightarrow> other_cmd \<Rightarrow> other_bin \<Rightarrow> malloc \<Rightarrow> Conn \<Rightarrow> LsMemcache \<Rightarrow> (bool \<times> Conn \<times> LsMemcache) option" where
  "incoming_loop 0 E oth ob mal c m = None"
| "incoming_loop (Suc k) E oth ob mal c m =
     (let c = c\<lparr>m_bufIncoming := lb_unwrap mal (m_bufIncoming c)\<rparr>; buf = in_block c in
      if cs_respwait (m_conn m) then Some (True, c, putWaitQ m)
      else
        let c = (if cs_internal (m_conn m) then c\<lparr>cn_Protocol := req_proto buf\<rparr> else c);
            (ok, m) = validateDb m
        in
        if \<not> ok then Some (False, c, m)
        else
          let (consumed, c, m) =
                (case cn_Protocol c of
                   MC_ASCII \<Rightarrow> (case processCmd E oth buf m of (n, m) \<Rightarrow> (n, c, m))
                 | MC_BINARY \<Rightarrow> (case processBinCmd E ob buf m of (n, m) \<Rightarrow> (n, c, m))
                 | MC_INTERNAL \<Rightarrow> processInternal buf c m
                 | MC_UNKNOWN \<Rightarrow> (0, c, m))
          in
          if consumed > 0 then
            let c = c\<lparr>m_bufIncoming := snd (lb_pop_front (nat consumed) (m_bufIncoming c))\<rparr> in
            if lb_size (m_bufIncoming c) > 0 then incoming_loop k E oth ob mal c m else Some (True, c, m)
          else if consumed = 0 then (case CloseConnection c m of (c, m) \<Rightarrow> Some (True, c, m))
          else Some (True, if cn_Protocol c = MC_ASCII then c\<lparr>m_bufIncoming := cut_cr (m_bufIncoming c) buf\<rparr> else c, m))"

text \<open>
  The head of \<open>processIncoming\<close>. The first byte decides about the protocol; a leading
  \<open>MC_INTERNAL_REQ\<close> marks the connection as one of another server and is dropped. The first component
  says that nothing is left to be read.
\<close>

definition detect_proto :: "Conn \<Rightarrow> LsMemcache \<Rightarrow> bool \<times> Conn \<times> LsMemcache" where
  "detect_proto c m =
     (let first = byte_at (lb_area (m_bufIncoming c)) (lb_head (m_bufIncoming c)) in
      if cn_Protocol c = MC_UNKNOWN \<or> first = MC_INTERNAL_REQ \<or> first = MC_BINARY_REQ \<and> cn_Protocol c \<noteq> MC_BINARY \<or>
         of_char first \<le> (of_char MC_BINARY_REQ :: nat) \<and> cn_Protocol c \<noteq> MC_ASCII
      then
        let internal = (first = MC_INTERNAL_REQ);
            c = (if internal then c\<lparr>m_bufIncoming := snd (lb_pop_front 1 (m_bufIncoming c))\<rparr> else c);
            m = (if internal then m\<lparr>m_conn := (m_conn m)\<lparr>cs_internal := True\<rparr>\<rparr> else m)
        in
        if internal \<and> lb_size (m_bufIncoming c) = 0 then (True, c, m)
        else (False, c\<lparr>cn_Protocol := req_proto (drop (lb_head (m_bufIncoming c)) (lb_area (m_bufIncoming c)))\<rparr>, m)
      else (False, c, m))"

text \<open>
  \<open>processIncoming\<close>. Every round of the loop but the last takes at least one byte from the buffer, so
  that its size is enough fuel (\<open>incoming_loop_ends\<close>). What follows the loop, flushing the output and
  serving the waiting connections, is left to the event loop.
\<close>

definition processIncoming :: "env \<Rightarrow> other_cmd \<Rightarrow> other_bin \<Rightarrow> malloc \<Rightarrow> Conn \<Rightarrow> LsMemcache \<Rightarrow> (bool \<times> Conn \<times> LsMemcache) option" where
  "processIncoming E oth ob mal c m =
     (case detect_proto c m of (stop, c, m) \<Rightarrow>
        if stop then Some (True, c, m)
        else incoming_loop (Suc (lb_size (m_bufIncoming c))) E oth ob mal c m)"

text \<open>
  \<open>onRead\<close> on an established connection: the bytes \<open>data\<close> that \<open>read\<close> delivers go behind the content, as far as one block has
  room; a full buffer is enlarged first.
\<close>

definition onRead :: "env \<Rightarrow> other_cmd \<Rightarrow> other_bin \<Rightarrow> malloc \<Rightarrow> bytes \<Rightarrow> Conn \<Rightarrow> LsMemcache \<Rightarrow> (Conn \<times> LsMemcache) option" where
  "onRead E oth ob mal data c m =
     (let b = m_bufIncoming c;
          b = (if lb_full b then snd (lb_guarantee mal (lb_size b + 4096) b) else b);
          data = take (lb_contiguous b) data
      in
      if data = [] then Some (c\<lparr>m_bufIncoming := b\<rparr>, m)
      else
        let b = lb_used (length data) (b\<lparr>lb_area := wr (lb_area b) (lb_end b) data\<rparr>)
        in map_option snd (processIncoming E oth ob mal (c\<lparr>m_bufIncoming := b\<rparr>) m))"


section \<open>The loop ends and never loses input\<close>

text \<open>The rest of the input: a suffix, in which a carriage return may have been cut.\<close>

definition cut_of :: "bytes \<Rightarrow> bytes \<Rightarrow> bool" where
  "cut_of xs ys \<longleftrightarrow> length xs = length ys \<and> (\<forall>i<length ys. xs ! i = ys ! i \<or> xs ! i = CHR 0x00 \<and> ys ! i = CHR 0x0D)"

definition rest_of :: "bytes \<Rightarrow> bytes \<Rightarrow> bool" where
  "rest_of xs ys \<longleftrightarrow> (\<exists>k. cut_of xs (drop k ys))"

lemma rest_of_refl [simp]: "rest_of ys ys"
  unfolding rest_of_def cut_of_def by (rule exI [of _ 0]) simp

lemma rest_of_nil [simp]: "rest_of [] ys"
  unfolding rest_of_def cut_of_def by (rule exI [of _ "length ys"]) simp

lemma rest_of_drop: "rest_of xs (drop n ys) \<Longrightarrow> rest_of xs ys"
  unfolding rest_of_def by (metis drop_drop)

lemma in_block_unwrap: "lb_inv (m_bufIncoming c) \<Longrightarrow> in_block (c\<lparr>m_bufIncoming := lb_unwrap mal (m_bufIncoming c)\<rparr>) = lb_abs (m_bufIncoming c)"
  by (simp add: in_block_def lb_unwrap_ok)

lemma cut_cr_ok:
  assumes "lb_inv b" "buf = lb_abs b"
  shows "lb_inv (cut_cr b buf)" "cut_of (lb_abs (cut_cr b buf)) (lb_abs b)"
proof -
  have "lb_inv (cut_cr b buf) \<and> cut_of (lb_abs (cut_cr b buf)) (lb_abs b)"
  proof (cases "\<exists>endp. memchr buf CHR 0x0A 0 (length buf) = Some endp \<and> endp > 0 \<and> buf ! (endp - 1) = CHR 0x0D")
    case True
    then obtain n where n: "memchr buf CHR 0x0A 0 (length buf) = Some n" "n > 0" "buf ! (n - 1) = CHR 0x0D" by blast
    then have l: "n - 1 + length [CHR 0x00] \<le> lb_size b" using assms(2) by (auto simp: memchr_def find_upt_Some_iff)
    note u = lb_update_ok [OF assms(1) l]
    have "cut_cr b buf = lb_update (n - 1) [CHR 0x00] b" using n by (simp add: cut_cr_def)
    moreover have "lb_abs b ! i = CHR 0x0D" if "n - Suc 0 \<le> i" "i < Suc (n - Suc 0)" for i
    proof -
      have "i = n - 1" using that by linarith
      then show ?thesis using n(3) assms(2) by simp
    qed
    ultimately show ?thesis using u n(3) l assms(2) by (auto simp: cut_of_def nth_wr)
  next
    case False
    then have "cut_cr b buf = b" by (auto simp: cut_cr_def split: option.splits)
    then show ?thesis using assms(1) by (simp add: cut_of_def)
  qed
  then show "lb_inv (cut_cr b buf)" "cut_of (lb_abs (cut_cr b buf)) (lb_abs b)" by auto
qed

lemma processInternal_bufs: "processInternal buf c m = (n, c', m') \<Longrightarrow> m_bufIncoming c' = m_bufIncoming c"
  by (auto simp: processInternal_def Let_def split: if_splits)

lemma incoming_loop_ends:
  assumes "lb_inv (m_bufIncoming c)" "lb_size (m_bufIncoming c) < k"
  shows "\<exists>ok c' m'. incoming_loop k E oth ob mal c m = Some (ok, c', m') \<and> lb_inv (m_bufIncoming c') \<and> rest_of (lb_abs (m_bufIncoming c')) (lb_abs (m_bufIncoming c))"
  using assms
proof (induction k arbitrary: c m)
  case (Suc k)
  let ?b = "lb_unwrap mal (m_bufIncoming c)"
  define c1 where "c1 = c\<lparr>m_bufIncoming := ?b\<rparr>"
  define buf where "buf = in_block c1"
  note u = lb_unwrap_ok [OF Suc.prems(1)]
  have buf: "buf = lb_abs (m_bufIncoming c)" using in_block_unwrap Suc.prems(1) by (simp add: buf_def c1_def)
  define c2 where "c2 = (if cs_internal (m_conn m) then c1\<lparr>cn_Protocol := req_proto buf\<rparr> else c1)"
  have b2: "m_bufIncoming c2 = ?b" by (simp add: c2_def c1_def)
  obtain ok m1 where v: "validateDb m = (ok, m1)" by fastforce
  obtain n c3 m3 where d: "(case cn_Protocol c2 of
                   MC_ASCII \<Rightarrow> (case processCmd E oth buf m1 of (n, m) \<Rightarrow> (n, c2, m))
                 | MC_BINARY \<Rightarrow> (case processBinCmd E ob buf m1 of (n, m) \<Rightarrow> (n, c2, m))
                 | MC_INTERNAL \<Rightarrow> processInternal buf c2 m1
                 | MC_UNKNOWN \<Rightarrow> (0, c2, m1)) = (n, c3, m3)" by (metis prod_cases3)
  have b3: "m_bufIncoming c3 = ?b" using d b2 processInternal_bufs by (auto split: mc_proto.splits prod.splits)
  let ?p = "snd (lb_pop_front (nat n) ?b)"
  let ?c4 = "c3\<lparr>m_bufIncoming := ?p\<rparr>"
  have eq: "incoming_loop (Suc k) E oth ob mal c m =
    (if cs_respwait (m_conn m) then Some (True, c1, putWaitQ m)
     else if \<not> ok then Some (False, c2, m1)
     else if n > 0 then if lb_size ?p > 0 then incoming_loop k E oth ob mal ?c4 m3 else Some (True, ?c4, m3)
     else if n = 0 then (case CloseConnection c3 m3 of (c, m) \<Rightarrow> Some (True, c, m))
     else Some (True, if cn_Protocol c3 = MC_ASCII then c3\<lparr>m_bufIncoming := cut_cr ?b buf\<rparr> else c3, m3))"
    unfolding incoming_loop.simps Let_def c1_def [symmetric] buf_def [symmetric] c2_def [symmetric] v prod.case d b3 by simp
  note p = lb_pop_front_ok [OF u(1), of "nat n"]
  have rec: ?case if "n > 0" "\<not> cs_respwait (m_conn m)" "ok" "lb_size ?p > 0"
  proof -
    have "lb_size ?p = lb_size (m_bufIncoming c) - nat n" using p(2) u(2) by (metis length_drop lb_size_abs)
    then have "lb_size (m_bufIncoming ?c4) < k" using that(1,4) Suc.prems(2) by simp
    with Suc.IH [of ?c4 m3] p(1) obtain ok' c' m' where r: "incoming_loop k E oth ob mal ?c4 m3 = Some (ok', c', m')" "lb_inv (m_bufIncoming c')"
      "rest_of (lb_abs (m_bufIncoming c')) (lb_abs ?p)" by auto
    then show ?thesis using eq that p(2) u(2) rest_of_drop by auto
  qed
  have cc: "cut_of (lb_abs (cut_cr ?b buf)) (lb_abs (m_bufIncoming c)) \<and> lb_inv (cut_cr ?b buf)" using cut_cr_ok [OF u(1), of buf] u(2) buf by simp
  have ro: "cut_of xs ys \<Longrightarrow> rest_of xs ys" for xs ys unfolding rest_of_def by (rule exI [of _ 0]) simp
  have "lb_head ?b < lb_capacity ?b" using u(1) [of mal] unfolding lb_inv_def by blast
  then have "0 < lb_capacity ?b" by linarith
  then have cl: "lb_inv (lb_clear ?b) \<and> lb_abs (lb_clear ?b) = []" using lb_clear_ok [of ?b] u(1) by blast
  show ?case
  proof (cases "n > 0 \<and> \<not> cs_respwait (m_conn m) \<and> ok \<and> lb_size ?p > 0")
    case True
    then show ?thesis using rec by blast
  next
    case False
    have "rest_of (lb_abs ?p) (lb_abs (m_bufIncoming c))" using p(2) u(2) rest_of_drop [of "drop (nat n) (lb_abs (m_bufIncoming c))" "nat n" "lb_abs (m_bufIncoming c)"] by simp
    then show ?thesis using False u p(1) cc ro cl b2 b3 unfolding eq by (auto simp: c1_def CloseConnection_def)
  qed
qed simp

lemma validateDb_cases: "validateDb m = (ok, m') \<Longrightarrow> ok \<and> m' = m \<or> \<not> ok"
  by (auto simp: validateDb_def split: if_splits)

lemma detect_proto_buf:
  assumes "detect_proto c m = (stop, c', m')" "lb_inv (m_bufIncoming c)"
  shows "lb_inv (m_bufIncoming c')" "rest_of (lb_abs (m_bufIncoming c')) (lb_abs (m_bufIncoming c))"
proof -
  note p = lb_pop_front_ok [OF assms(2), of 1]
  have "rest_of (drop 1 (lb_abs (m_bufIncoming c))) (lb_abs (m_bufIncoming c))" by (rule rest_of_drop [of _ 1]) simp
  moreover have "m_bufIncoming c' = m_bufIncoming c \<or> m_bufIncoming c' = snd (lb_pop_front 1 (m_bufIncoming c))"
    using assms(1) by (auto simp: detect_proto_def Let_def split: if_splits)
  ultimately show "lb_inv (m_bufIncoming c')" "rest_of (lb_abs (m_bufIncoming c')) (lb_abs (m_bufIncoming c))"
    using p assms(2) by (metis rest_of_refl)+
qed

lemma cut_of_trans: "cut_of xs ys \<Longrightarrow> cut_of ys zs \<Longrightarrow> cut_of xs zs"
  by (fastforce simp: cut_of_def)

lemma cut_of_drop: "cut_of xs ys \<Longrightarrow> cut_of (drop k xs) (drop k ys)"
  by (auto simp: cut_of_def)

lemma rest_of_trans: "rest_of xs ys \<Longrightarrow> rest_of ys zs \<Longrightarrow> rest_of xs zs"
  unfolding rest_of_def by (metis cut_of_drop cut_of_trans drop_drop)

lemma processIncoming_ends:
  assumes "lb_inv (m_bufIncoming c)"
  shows "\<exists>ok c' m'. processIncoming E oth ob mal c m = Some (ok, c', m') \<and> lb_inv (m_bufIncoming c') \<and> rest_of (lb_abs (m_bufIncoming c')) (lb_abs (m_bufIncoming c))"
proof -
  obtain stop c1 m1 where d: "detect_proto c m = (stop, c1, m1)" by (metis prod_cases3)
  note b = detect_proto_buf [OF d assms]
  from incoming_loop_ends [OF b(1) lessI, of E oth ob mal m1] rest_of_trans [OF _ b(2)] show ?thesis
    unfolding processIncoming_def d prod.case using b by (cases stop) (auto simp del: incoming_loop.simps)
qed

section \<open>Sessions: what the loop does, on the bytes of the client\<close>

text \<open>
  The reference definition works on the bytes received and not yet consumed, as one list; it has no
  buffer. The result: false for the return value \<open>-1\<close>, whether the connection stays open, the bytes
  left, the protocol and the state of the engine.
\<close>

definition cut_text :: "bytes \<Rightarrow> bytes" where
  "cut_text buf =
     (case memchr buf CHR 0x0A 0 (length buf) of
        Some endp \<Rightarrow> if endp > 0 \<and> buf ! (endp - 1) = CHR 0x0D then buf[endp - 1 := CHR 0x00] else buf
      | None \<Rightarrow> buf)"

definition serve_one :: "env \<Rightarrow> other_cmd \<Rightarrow> other_bin \<Rightarrow> mc_proto \<Rightarrow> bytes \<Rightarrow> LsMemcache \<Rightarrow> int \<times> LsMemcache" where
  "serve_one E oth ob p buf m =
     (case p of MC_ASCII \<Rightarrow> processCmd E oth buf m | MC_BINARY \<Rightarrow> processBinCmd E ob buf m | _ \<Rightarrow> (0, m))"

definition hang_up :: "LsMemcache \<Rightarrow> LsMemcache" where
  "hang_up m = m\<lparr>m_conn := (m_conn m)\<lparr>cs_internal := False, cs_cmdwait := False, cs_respwait := False\<rparr>\<rparr>"

function serve :: "env \<Rightarrow> other_cmd \<Rightarrow> other_bin \<Rightarrow> mc_proto \<Rightarrow> bytes \<Rightarrow> LsMemcache \<Rightarrow> bool \<times> bool \<times> bytes \<times> mc_proto \<times> LsMemcache" where
  "serve E oth ob p buf m =
     (if cs_respwait (m_conn m) then (True, True, buf, p, putWaitQ m)
      else
        let p = (if cs_internal (m_conn m) then req_proto buf else p); (ok, m) = validateDb m in
        if \<not> ok then (False, True, buf, p, m)
        else
          let (n, m) = serve_one E oth ob p buf m in
          if n > 0 then if nat n < length buf then serve E oth ob p (drop (nat n) buf) m else (True, True, [], p, m)
          else if n = 0 then (True, False, [], p, hang_up m)
          else (True, True, if p = MC_ASCII then cut_text buf else buf, p, m))"
  by pat_completeness auto

termination by (relation "measure (\<lambda>(E, oth, ob, p, buf, m). length buf)") auto

declare serve.simps [simp del]

lemma cut_cr_abs:
  assumes "lb_inv b"
  shows "lb_inv (cut_cr b (lb_abs b))" "lb_abs (cut_cr b (lb_abs b)) = cut_text (lb_abs b)"
proof -
  show "lb_inv (cut_cr b (lb_abs b))" using cut_cr_ok(1) [OF assms refl] .
  show "lb_abs (cut_cr b (lb_abs b)) = cut_text (lb_abs b)"
  proof (cases "\<exists>endp. memchr (lb_abs b) CHR 0x0A 0 (length (lb_abs b)) = Some endp \<and> endp > 0 \<and> lb_abs b ! (endp - 1) = CHR 0x0D")
    case True
    then obtain n where n: "memchr (lb_abs b) CHR 0x0A 0 (length (lb_abs b)) = Some n" "n > 0" "lb_abs b ! (n - 1) = CHR 0x0D" by blast
    then have l: "n - 1 + length [CHR 0x00] \<le> lb_size b" by (auto simp: memchr_def find_upt_Some_iff)
    have "wr (lb_abs b) (n - 1) [CHR 0x00] = (lb_abs b)[n - 1 := CHR 0x00]" using l by (simp add: wr_def upd_conv_take_nth_drop)
    then show ?thesis using n lb_update_ok(2) [OF assms l] by (simp add: cut_cr_def cut_text_def)
  next
    case False
    then show ?thesis by (auto simp: cut_cr_def cut_text_def split: option.splits)
  qed
qed

lemma incoming_loop_serve:
  assumes "lb_inv (m_bufIncoming c)" "lb_size (m_bufIncoming c) < k" "cn_open c" "cn_Protocol c \<noteq> MC_INTERNAL"
  shows "\<exists>ok c' m'. incoming_loop k E oth ob mal c m = Some (ok, c', m') \<and> lb_inv (m_bufIncoming c') \<and> cn_Protocol c' \<noteq> MC_INTERNAL \<and>
    serve E oth ob (cn_Protocol c) (lb_abs (m_bufIncoming c)) m = (ok, cn_open c', lb_abs (m_bufIncoming c'), cn_Protocol c', m')"
  using assms
proof (induction k arbitrary: c m)
  case (Suc k)
  let ?b = "lb_unwrap mal (m_bufIncoming c)"
  define c1 where "c1 = c\<lparr>m_bufIncoming := ?b\<rparr>"
  define buf where "buf = in_block c1"
  note u = lb_unwrap_ok [OF Suc.prems(1)]
  have buf: "buf = lb_abs (m_bufIncoming c)" using in_block_unwrap Suc.prems(1) by (simp add: buf_def c1_def)
  define c2 where "c2 = (if cs_internal (m_conn m) then c1\<lparr>cn_Protocol := req_proto buf\<rparr> else c1)"
  have c2: "m_bufIncoming c2 = ?b" "cn_open c2" "cn_Protocol c2 \<noteq> MC_INTERNAL"
    using Suc.prems(3,4) by (auto simp: c2_def c1_def req_proto_def)
  have p2: "(if cs_internal (m_conn m) then req_proto buf else cn_Protocol c) = cn_Protocol c2" by (simp add: c2_def c1_def)
  obtain ok m1 where v: "validateDb m = (ok, m1)" by fastforce
  obtain n m3 where d: "serve_one E oth ob (cn_Protocol c2) buf m1 = (n, m3)" by fastforce
  have d': "(case cn_Protocol c2 of
                   MC_ASCII \<Rightarrow> (case processCmd E oth buf m1 of (n, m) \<Rightarrow> (n, c2, m))
                 | MC_BINARY \<Rightarrow> (case processBinCmd E ob buf m1 of (n, m) \<Rightarrow> (n, c2, m))
                 | MC_INTERNAL \<Rightarrow> processInternal buf c2 m1
                 | MC_UNKNOWN \<Rightarrow> (0, c2, m1)) = (n, c2, m3)" using d c2(3) by (auto simp: serve_one_def split: mc_proto.splits)
  let ?p = "snd (lb_pop_front (nat n) ?b)"
  let ?c4 = "c2\<lparr>m_bufIncoming := ?p\<rparr>"
  have eq: "incoming_loop (Suc k) E oth ob mal c m =
    (if cs_respwait (m_conn m) then Some (True, c1, putWaitQ m)
     else if \<not> ok then Some (False, c2, m1)
     else if n > 0 then if lb_size ?p > 0 then incoming_loop k E oth ob mal ?c4 m3 else Some (True, ?c4, m3)
     else if n = 0 then (case CloseConnection c2 m3 of (c, m) \<Rightarrow> Some (True, c, m))
     else Some (True, if cn_Protocol c2 = MC_ASCII then c2\<lparr>m_bufIncoming := cut_cr ?b buf\<rparr> else c2, m3))"
    unfolding incoming_loop.simps Let_def c1_def [symmetric] buf_def [symmetric] c2_def [symmetric] v prod.case d' c2(1) by simp
  have es: "serve E oth ob (cn_Protocol c) (lb_abs (m_bufIncoming c)) m =
    (if cs_respwait (m_conn m) then (True, True, buf, cn_Protocol c, putWaitQ m)
     else if \<not> ok then (False, True, buf, cn_Protocol c2, m1)
     else if n > 0 then if nat n < length buf then serve E oth ob (cn_Protocol c2) (drop (nat n) buf) m3 else (True, True, [], cn_Protocol c2, m3)
     else if n = 0 then (True, False, [], cn_Protocol c2, hang_up m3)
     else (True, True, if cn_Protocol c2 = MC_ASCII then cut_text buf else buf, cn_Protocol c2, m3))"
    unfolding serve.simps [of E oth ob "cn_Protocol c"] buf [symmetric] p2 v Let_def prod.case d by simp
  note p = lb_pop_front_ok [OF u(1), of "nat n"]
  have sz: "lb_size ?p = length buf - nat n" using p(2) u(2) buf by (metis length_drop lb_size_abs)
  have "lb_head ?b < lb_capacity ?b" using u(1) [of mal] unfolding lb_inv_def by blast
  then have "0 < lb_capacity ?b" by linarith
  then have cl: "lb_inv (lb_clear ?b) \<and> lb_abs (lb_clear ?b) = []" using lb_clear_ok [of ?b] by blast
  have cc: "lb_inv (cut_cr ?b buf)" "lb_abs (cut_cr ?b buf) = cut_text buf" using cut_cr_abs [OF u(1)] u(2) buf by simp_all
  show ?case
  proof (cases "n > 0 \<and> \<not> cs_respwait (m_conn m) \<and> ok \<and> lb_size ?p > 0")
    case True
    then have "0 < nat n" "nat n < length buf" using sz by simp_all
    moreover have "length buf < Suc k" using Suc.prems(2) buf by simp
    ultimately have "length buf - nat n < k" by linarith
    then have "lb_size (m_bufIncoming ?c4) < k" using sz by simp
    moreover have "lb_abs ?p = drop (nat n) buf" using p(2) u(2) buf by simp
    ultimately show ?thesis using Suc.IH [of ?c4 m3] p(1) c2 True sz unfolding eq es by simp
  next
    case False
    have "n > 0 \<and> ok \<and> \<not> cs_respwait (m_conn m) \<longrightarrow> lb_abs ?p = []" using False lb_size_abs [of ?p] by (metis length_0_conv neq0_conv)
    then show ?thesis using False u p(1) cc cl c2 sz Suc.prems(3,4) buf unfolding eq es by (auto simp: c1_def CloseConnection_def hang_up_def)
  qed
qed simp

definition session :: "env \<Rightarrow> other_cmd \<Rightarrow> other_bin \<Rightarrow> mc_proto \<Rightarrow> bytes \<Rightarrow> LsMemcache \<Rightarrow> bool \<times> bool \<times> bytes \<times> mc_proto \<times> LsMemcache" where
  "session E oth ob p buf m =
     (if hd buf = MC_INTERNAL_REQ then
        let m = m\<lparr>m_conn := (m_conn m)\<lparr>cs_internal := True\<rparr>\<rparr> in
        if tl buf = [] then (True, True, [], p, m) else serve E oth ob (req_proto (tl buf)) (tl buf) m
      else if of_char (hd buf) \<le> (0x80 :: nat) \<or> p = MC_UNKNOWN then serve E oth ob (req_proto buf) buf m
      else serve E oth ob p buf m)"

lemma req_proto_head:
  assumes "lb_inv b" "lb_abs b \<noteq> []"
  shows "req_proto (drop (lb_head b) (lb_area b)) = req_proto (lb_abs b)" "byte_at (lb_area b) (lb_head b) = hd (lb_abs b)"
proof -
  have i: "lb_head b < length (lb_area b)" using assms(1) by (simp add: lb_inv_def lb_capacity_def)
  have "lb_abs b ! 0 = lb_area b ! lb_head b" using lb_abs_nth [of 0 b] assms(2) i by (simp flip: length_greater_0_conv add: lb_capacity_def)
  then show "req_proto (drop (lb_head b) (lb_area b)) = req_proto (lb_abs b)" "byte_at (lb_area b) (lb_head b) = hd (lb_abs b)"
    using i assms(2) by (simp_all add: req_proto_def byte_at_def hd_conv_nth flip: length_greater_0_conv)
qed

lemma req_codes: "of_char MC_BINARY_REQ = (0x80 :: nat)" "of_char MC_INTERNAL_REQ = (0x8f :: nat)" "MC_BINARY_REQ \<noteq> MC_INTERNAL_REQ"
  by code_simp+

lemma req_proto_hd: "buf \<noteq> [] \<Longrightarrow> req_proto buf = (if hd buf = MC_BINARY_REQ then MC_BINARY else MC_ASCII)"
  by (simp add: req_proto_def byte_at_def hd_conv_nth)

lemma processIncoming_session:
  assumes i: "lb_inv (m_bufIncoming c)" and o: "cn_open c" and p: "cn_Protocol c \<noteq> MC_INTERNAL" and ne: "lb_abs (m_bufIncoming c) \<noteq> []"
  shows "\<exists>ok c' m'. processIncoming E oth ob mal c m = Some (ok, c', m') \<and> lb_inv (m_bufIncoming c') \<and> cn_Protocol c' \<noteq> MC_INTERNAL \<and>
    session E oth ob (cn_Protocol c) (lb_abs (m_bufIncoming c)) m = (ok, cn_open c', lb_abs (m_bufIncoming c'), cn_Protocol c', m')"
proof -
  let ?b = "m_bufIncoming c" and ?buf = "lb_abs (m_bufIncoming c)"
  note h = req_proto_head [OF i ne]
  note L = incoming_loop_serve [OF _ lessI, of _ E oth ob mal]
  show ?thesis
  proof (cases "hd ?buf = MC_INTERNAL_REQ")
    case True
    let ?c = "c\<lparr>m_bufIncoming := snd (lb_pop_front 1 ?b)\<rparr>" and ?m = "m\<lparr>m_conn := (m_conn m)\<lparr>cs_internal := True\<rparr>\<rparr>"
    have q: "lb_inv (m_bufIncoming ?c)" "lb_abs (m_bufIncoming ?c) = tl ?buf" using lb_pop_front_ok [OF i, of 1] by (simp_all add: drop_Suc)
    have z: "lb_size (m_bufIncoming ?c) = 0 \<longleftrightarrow> tl ?buf = []" by (metis length_0_conv lb_size_abs q(2))
    show ?thesis
    proof (cases "tl ?buf = []")
      case True
      then have "processIncoming E oth ob mal c m = Some (True, ?c, ?m)"
        using \<open>hd ?buf = MC_INTERNAL_REQ\<close> h z by (simp add: processIncoming_def detect_proto_def)
      then show ?thesis using True q o p \<open>hd ?buf = MC_INTERNAL_REQ\<close> by (intro exI [of _ True] exI [of _ ?c] exI [of _ ?m]) (simp add: session_def)
    next
      case False
      let ?c2 = "?c\<lparr>cn_Protocol := req_proto (tl ?buf)\<rparr>"
      have "req_proto (drop (lb_head (m_bufIncoming ?c)) (lb_area (m_bufIncoming ?c))) = req_proto (tl ?buf)" using req_proto_head(1) [OF q(1)] q(2) False by simp
      then have "detect_proto c m = (False, ?c2, ?m)"
        using \<open>hd ?buf = MC_INTERNAL_REQ\<close> h z False by (simp add: detect_proto_def)
      then show ?thesis using L [of ?c2 ?m] False q o p \<open>hd ?buf = MC_INTERNAL_REQ\<close> by (simp add: session_def processIncoming_def req_proto_def del: incoming_loop.simps)
    qed
  next
    case False
    let ?c2 = "c\<lparr>cn_Protocol := req_proto ?buf\<rparr>"
    have np: "req_proto ?buf \<noteq> MC_INTERNAL" by (simp add: req_proto_def)
    have c: "c\<lparr>cn_Protocol := cn_Protocol c\<rparr> = c" by simp
    have k: "cn_Protocol c \<in> {MC_UNKNOWN, MC_ASCII, MC_BINARY}" using p by (cases "cn_Protocol c") auto
    have "detect_proto c m = (False, if of_char (hd ?buf) \<le> (0x80 :: nat) \<or> cn_Protocol c = MC_UNKNOWN then ?c2 else c, m)"
      using False h k c req_proto_hd [OF ne] by (auto simp: detect_proto_def req_codes)
    then show ?thesis using L [of ?c2 m] L [of c m] i o p np False
      by (auto simp: session_def processIncoming_def simp del: incoming_loop.simps)
  qed
qed

text \<open>The room that \<open>onRead\<close> finds for the data.\<close>

definition read_buf :: "malloc \<Rightarrow> LoopBuf \<Rightarrow> LoopBuf" where
  "read_buf mal b = (if lb_full b then snd (lb_guarantee mal (lb_size b + 4096) b) else b)"

definition read_room :: "malloc \<Rightarrow> LoopBuf \<Rightarrow> nat" where
  "read_room mal b = lb_contiguous (read_buf mal b)"

lemma read_buf_ok: "lb_inv b \<Longrightarrow> malloc_ok mal \<Longrightarrow> lb_inv (read_buf mal b) \<and> lb_abs (read_buf mal b) = lb_abs b"
  using lb_guarantee_ok [of b mal "lb_size b + 4096"] by (simp add: read_buf_def) (metis prod.collapse)

lemma onRead_put:
  assumes "lb_inv b" "length data \<le> lb_contiguous b"
  shows "lb_inv (lb_used (length data) (b\<lparr>lb_area := wr (lb_area b) (lb_end b) data\<rparr>))"
    "lb_abs (lb_used (length data) (b\<lparr>lb_area := wr (lb_area b) (lb_end b) data\<rparr>)) = lb_abs b @ data"
proof -
  have "lb_contiguous b \<le> lb_available b" using assms(1) by (auto simp: lb_contiguous_def lb_available_def lb_inv_def)
  then have "length data \<le> lb_available b" using assms(2) by simp
  moreover have "lb_used (length data) (b\<lparr>lb_area := wr (lb_area b) (lb_end b) data\<rparr>) = lb_put data b"
    using assms(2) by (simp add: lb_put_def min_def)
  ultimately show "lb_inv (lb_used (length data) (b\<lparr>lb_area := wr (lb_area b) (lb_end b) data\<rparr>))"
    "lb_abs (lb_used (length data) (b\<lparr>lb_area := wr (lb_area b) (lb_end b) data\<rparr>)) = lb_abs b @ data"
    using lb_put_ok [OF assms(1)] by simp_all
qed

lemma onRead_step:
  fixes data :: bytes
  assumes "lb_inv (m_bufIncoming c)" "malloc_ok mal"
  defines "data' \<equiv> take (read_room mal (m_bufIncoming c)) data"
  obtains b where "lb_inv b" "lb_abs b = lb_abs (m_bufIncoming c) @ data'"
    "onRead E oth ob mal data c m = (if data' = [] then Some (c\<lparr>m_bufIncoming := b\<rparr>, m) else map_option snd (processIncoming E oth ob mal (c\<lparr>m_bufIncoming := b\<rparr>) m))"
proof -
  let ?b = "read_buf mal (m_bufIncoming c)"
  note r = read_buf_ok [OF assms(1,2)]
  note q = onRead_put [of ?b data'] 
  have d: "onRead E oth ob mal data c m = (if data' = [] then Some (c\<lparr>m_bufIncoming := ?b\<rparr>, m)
    else map_option snd (processIncoming E oth ob mal (c\<lparr>m_bufIncoming := lb_used (length data') (?b\<lparr>lb_area := wr (lb_area ?b) (lb_end ?b) data'\<rparr>)\<rparr>) m))"
    unfolding onRead_def Let_def read_buf_def [symmetric] read_room_def [symmetric] data'_def [symmetric] by (rule refl)
  show ?thesis
  proof (cases "data' = []")
    case True
    then show ?thesis using r d by (intro that [of ?b]) simp_all
  next
    case False
    have l: "length data' \<le> lb_contiguous ?b" by (simp add: data'_def read_room_def)
    show ?thesis by (rule that [OF q [OF conjunct1 [OF r] l, unfolded conjunct2 [OF r]]]) (use d False in simp)
  qed
qed

lemma onRead_ends:
  assumes "lb_inv (m_bufIncoming c)" "malloc_ok mal"
  shows "\<exists>c' m'. onRead E oth ob mal data c m = Some (c', m') \<and> lb_inv (m_bufIncoming c') \<and>
    rest_of (lb_abs (m_bufIncoming c')) (lb_abs (m_bufIncoming c) @ take (read_room mal (m_bufIncoming c)) data)"
proof -
  obtain b where b: "lb_inv b" "lb_abs b = lb_abs (m_bufIncoming c) @ take (read_room mal (m_bufIncoming c)) data"
    "onRead E oth ob mal data c m = (if take (read_room mal (m_bufIncoming c)) data = [] then Some (c\<lparr>m_bufIncoming := b\<rparr>, m) else map_option snd (processIncoming E oth ob mal (c\<lparr>m_bufIncoming := b\<rparr>) m))"
    by (rule onRead_step [OF assms])
  show ?thesis using processIncoming_ends [of "c\<lparr>m_bufIncoming := b\<rparr>" E oth ob mal m] b by (auto simp del: take_eq_Nil)
qed

lemma onRead_session:
  assumes "lb_inv (m_bufIncoming c)" "malloc_ok mal" "cn_open c" "cn_Protocol c \<noteq> MC_INTERNAL"
    and "data \<noteq> []" "length data \<le> read_room mal (m_bufIncoming c)"
  shows "\<exists>ok c' m'. onRead E oth ob mal data c m = Some (c', m') \<and> lb_inv (m_bufIncoming c') \<and> cn_Protocol c' \<noteq> MC_INTERNAL \<and>
    session E oth ob (cn_Protocol c) (lb_abs (m_bufIncoming c) @ data) m = (ok, cn_open c', lb_abs (m_bufIncoming c'), cn_Protocol c', m')"
proof -
  have t: "take (read_room mal (m_bufIncoming c)) data = data" using assms(6) by simp
  obtain b where b: "lb_inv b" "lb_abs b = lb_abs (m_bufIncoming c) @ data"
    "onRead E oth ob mal data c m = map_option snd (processIncoming E oth ob mal (c\<lparr>m_bufIncoming := b\<rparr>) m)"
    using onRead_step [OF assms(1,2), of data E oth ob m] t assms(5) by metis
  from processIncoming_session [of "c\<lparr>m_bufIncoming := b\<rparr>" E oth ob mal m] b assms(3-5) show ?thesis by auto
qed

section \<open>Fragments\<close>

text \<open>A line whose carriage return was cut is the same line.\<close>

lemma processCmd_cut:
  assumes "CHR 0x0A \<notin> set line"
  shows "processCmd E oth (line @ [CHR 0x00, CHR 0x0A] @ rest) m = processCmd E oth (line @ CRLF @ rest) m"
proof -
  define a where "a = line @ [CHR 0x00, CHR 0x0A] @ rest"
  define b where "b = line @ CRLF @ rest"
  have ma: "memchr a CHR 0x0A 0 (length a) = Some (length line + 1)"
    unfolding memchr_def find_upt_Some_iff a_def using assms by (auto simp: byte_at_def nth_append in_set_conv_nth less_Suc_eq intro: Suc_lessI)
  have mb: "memchr b CHR 0x0A 0 (length b) = Some (length line + 1)" unfolding b_def by (rule memchr_line [OF assms])
  have b: "b[Suc (length line) := CHR 0x00, length line := CHR 0x00] = cut_line line rest"
    "b[Suc (length line) := CHR 0x00] ! length line = CHR 0x0D" "length b = length line + 2 + length rest"
    and a: "a[Suc (length line) := CHR 0x00] = cut_line line rest" "cut_line line rest ! length line = CHR 0x00" "length a = length line + 2 + length rest"
    by (simp_all add: a_def b_def CRLF_def cut_line_def list_update_append nth_append)
  have "(if length line + 1 + 1 > 1 \<and> a[length line + 1 := CHR 0x00] ! (length line + 1 - 1) = CHR 0x0D
      then a[length line + 1 := CHR 0x00, length line + 1 - 1 := CHR 0x00] else a[length line + 1 := CHR 0x00]) = cut_line line rest"
    "(if length line + 1 + 1 > 1 \<and> b[length line + 1 := CHR 0x00] ! (length line + 1 - 1) = CHR 0x0D
      then b[length line + 1 := CHR 0x00, length line + 1 - 1 := CHR 0x00] else b[length line + 1 := CHR 0x00]) = cut_line line rest"
    using a b by simp_all
  note l = this
  show ?thesis unfolding a_def [symmetric] b_def [symmetric] processCmd_def Let_def a(3) b(3) ma [unfolded a(3)] mb [unfolded b(3)] option.case l by (rule refl)
qed

definition db_ok :: "LsMemcache \<Rightarrow> bool" where
  "db_ok m \<longleftrightarrow> m_cur m < length (m_slices m) \<and>
     (\<forall>s\<in>set (m_slices m). hdrOff s = 0 \<or> x_withcas s = m_usecas (m_mcparms m) \<and> x_withsasl s = m_usesasl (m_mcparms m))"

lemma validateDb_ok: "db_ok m \<Longrightarrow> validateDb m = (True, m)"
  by (auto simp: db_ok_def validateDb_def dest!: bspec [OF _ nth_mem])

lemma db_ok_setSlice: "db_ok m \<Longrightarrow> db_ok (setSlice E key m)"
  by (cases "length (m_slices m) \<le> 1") (auto simp: db_ok_def setSlice_def key2hashNum_def intro!: mod_less_divisor)

lemma serve_wait:
  assumes "db_ok m" "client m" "\<not> cs_respwait (m_conn m)" "processCmd E oth buf m = (-1, m')"
  shows "serve E oth ob MC_ASCII buf m = (True, True, cut_text buf, MC_ASCII, m')"
  using assms by (simp add: serve.simps validateDb_ok client_def serve_one_def)

lemma serve_last:
  assumes "db_ok m" "client m" "\<not> cs_respwait (m_conn m)" "processCmd E oth buf m = (int n, m')" "0 < n" "length buf \<le> n"
  shows "serve E oth ob MC_ASCII buf m = (True, True, [], MC_ASCII, m')"
  using assms by (simp add: serve.simps validateDb_ok client_def serve_one_def)

lemma cut_text_line: "CHR 0x0A \<notin> set line \<Longrightarrow> cut_text (line @ CRLF @ rest) = line @ [CHR 0x00, CHR 0x0A] @ rest"
  unfolding cut_text_def memchr_line by (simp add: CRLF_def nth_append list_update_append)

lemma cut_text_none: "CHR 0x0A \<notin> set buf \<Longrightarrow> cut_text buf = buf"
  using cut_of_def by (auto simp: cut_text_def memchr_def find_upt_Some_iff byte_at_def split: option.splits dest: nth_mem)

lemma length_cut_text [simp]: "length (cut_text buf) = length buf"
  by (simp add: cut_text_def split: option.splits)

lemma cut_text_hd:
  assumes "buf \<noteq> []" "of_char (hd buf) < (0x80 :: nat)"
  shows "of_char (hd (cut_text buf)) < (0x80 :: nat)"
proof -
  obtain x xs where b: "buf = x # xs" using assms(1) by (cases buf) auto
  have "hd (buf[i := CHR 0x00]) \<in> {hd buf, CHR 0x00}" for i by (cases i) (simp_all add: b)
  then have "hd (cut_text buf) \<in> {hd buf, CHR 0x00}" unfolding cut_text_def by (simp split: option.splits)
  then show ?thesis using assms(2) by auto
qed

lemma parse_state_simps [simp]:
  "mc_inv E (parse_state E key m) f = mc_inv E m f" "client m \<Longrightarrow> client (parse_state E key m)" "text_ok (parse_state E key m) = text_ok m"
  "m_slices (parse_state E key m) = m_slices m" "m_conn (parse_state E key m) = m_conn m" "m_mcparms (parse_state E key m) = m_mcparms m"
  "slice_of E (parse_state E key m) = slice_of E m" "m_item (parse_state E key m) = m_item m" "out (parse_state E key m) = out m"
  "item_at E (parse_state E key m) = item_at E m" "parmAdjLen (parse_state E key m) = parmAdjLen m" "chkItemSize (parse_state E key m) = chkItemSize m"
  by (simp_all add: parse_state_def mc_inv_def client_def text_ok_def slice_of_def key2hashNum_def parmAdjLen_def chkItemSize_def item_at_def out_def fun_eq_iff setSlice_def)

lemma parse_state_results [simp]:
  "room_for E arg k n (parse_state E key m) = room_for E arg k n m"
  "store_result E arg k flg ex cas data (parse_state E key m) f m' f' = store_result E arg k flg ex cas data m f m' f'"
  by (simp_all only: room_for_def store_result_def parse_state_simps)

lemma db_ok_parse_state: "db_ok m \<Longrightarrow> db_ok (parse_state E key m)"
  using db_ok_setSlice [of m E key] by (simp add: db_ok_def parse_state_def)

text \<open>The first fragment of a storage command.\<close>

lemma first_fragment:
  assumes t: "text_ok m" and ms: "isTidMaster (m_slices m ! slice_of E m key)" and l: "CHR 0x0A \<notin> set line"
    and w: "words line = cmd # store_args arg key flg ex n cas" "(cmd, arg, fn_doCmdUpdate) \<in> set s_LsMcCmdFuncs"
    and b: "length key \<le> KEY_MAXLEN" "flg < 2 ^ 32" "ex < 2 ^ 32" "n < 2 ^ 31 - 2" "cas < 2 ^ 64"
    and d: "d1 @ d2 = line @ CRLF @ blk" "d2 \<noteq> []" "length blk = (if n = 0 then 0 else n + 2)"
  shows "\<exists>m1 k. processCmd E oth d1 m = (-1, m1) \<and> (m1 = m \<or> m1 = parse_state E key (setSlice E k m)) \<and>
    (\<forall>m. processCmd E oth (cut_text d1 @ d2) m = processCmd E oth (d1 @ d2) m)"
proof (cases "CHR 0x0A \<in> set d1")
  case False
  then have "memchr d1 CHR 0x0A 0 (length d1) = None" by (auto simp: memchr_def find_upt_None_iff in_set_conv_nth)
  then have "processCmd E oth d1 m = (-1, m)" using t by (auto simp: processCmd_def text_ok_def)
  then show ?thesis using cut_text_none [OF False] by auto
next
  case True
  have "length (line @ CRLF) \<le> length d1"
  proof (rule ccontr)
    assume "\<not> length (line @ CRLF) \<le> length d1"
    then have "length d1 \<le> length (line @ [CHR 0x0D])" by (simp add: CRLF_def)
    moreover have "d1 @ d2 = (line @ [CHR 0x0D]) @ (CHR 0x0A # blk)" using d(1) by (simp add: CRLF_def)
    ultimately have "d1 = take (length d1) (line @ [CHR 0x0D])" by (metis append_eq_append_conv_if append_take_drop_id take_all_iff)
    then have "set d1 \<subseteq> set (line @ [CHR 0x0D])" by (metis set_take_subset)
    then show False using True l by auto
  qed
  then obtain r where r: "d1 = line @ CRLF @ r" "blk = r @ d2" using d(1) by (metis append_assoc append_eq_append_conv_if append_take_drop_id)
  have n0: "0 < length d2" "n \<noteq> 0" using d(2,3) r(2) by (auto split: if_splits)
  moreover from n0(2) have "length r + length d2 = n + 2" using d(3) r(2) by simp
  ultimately have n: "n \<noteq> 0" "length r < n + 2" by linarith+
  obtain p where p: "region (cut_line line r) p (length line) (store_args arg key flg ex n cas)"
    "processCmd E oth (line @ CRLF @ r) m =
      (case run_func E oth fn_doCmdUpdate (cut_line line r) p (length line) (length line + 2) (length r) arg
              (setSlice E (rd (cut_line line r) p (length line - p)) m) of
         (d, m') \<Rightarrow> if 0 \<le> d then (int (length line) + 2 + d, m') else if d = -1 then (-1, m') else (0, m'))"
    by (rule processCmd_line [OF t l w])
  let ?m1 = "setSlice E (rd (cut_line line r) p (length line - p)) m"
  have ms1: "isTidMaster (m_slices ?m1 ! slice_of E ?m1 key)" using ms by simp
  have "processCmd E oth d1 m = (-1, parse_state E key ?m1)"
    unfolding r(1) p(2) run_func_def mc_func.case doCmdUpdate_args [OF p(1) b ms1] using n by simp
  then show ?thesis unfolding r(1) cut_text_line [OF l] using processCmd_cut [OF l, of E oth "r @ d2"] by auto
qed

text \<open>A connection that is open, has nothing to read and is not one of another server.\<close>

definition fresh_conn :: "Conn \<Rightarrow> bool" where
  "fresh_conn c \<longleftrightarrow> lb_inv (m_bufIncoming c) \<and> lb_abs (m_bufIncoming c) = [] \<and> cn_open c \<and> cn_Protocol c \<in> {MC_UNKNOWN, MC_ASCII}"

lemma session_text:
  assumes "buf \<noteq> []" "of_char (hd buf) < (0x80 :: nat)" "p \<noteq> MC_INTERNAL"
  shows "session E oth ob p buf m = serve E oth ob MC_ASCII buf m"
proof -
  have "hd buf \<noteq> MC_INTERNAL_REQ" "hd buf \<noteq> MC_BINARY_REQ" using assms(2) req_codes by auto
  then show ?thesis using assms by (auto simp: session_def req_proto_hd)
qed

lemma fragments_ok:
  fixes data :: bytes and cas :: nat and arg :: nat
  assumes inv: "mc_inv E m f" and cl: "client m" and tx: "text_ok m" and l: "CHR 0x0A \<notin> set line"
    and w: "words line = cmd # store_args arg key flg ex (length data) cas" "(cmd, arg, fn_doCmdUpdate) \<in> set s_LsMcCmdFuncs" "arg \<in> store_cmds"
    and b: "length key \<le> KEY_MAXLEN" "flg < 2 ^ 32" "ex < 2 ^ 32" "length data < 2 ^ 31 - 2" "cas < 2 ^ 64"
    and ms: "isTidMaster (m_slices m ! slice_of E m key)" and rm: "room_for E arg key (length data) m"
    and u: "arg = MC_BINCMD_REPLACE + LSMC_WITHCAS \<longrightarrow> m_usecas (m_mcparms m)"
    and db: "db_ok m" "\<not> cs_respwait (m_conn m)"
    and c: "fresh_conn c" "malloc_ok mal"
    and d: "d1 @ d2 = line @ CRLF @ (if data = [] then [] else data @ CRLF)" "d1 \<noteq> []" "d2 \<noteq> []" "of_char (hd line) < (0x80 :: nat)"
    and sz: "length d1 \<le> read_room mal (m_bufIncoming c)"
  shows "\<exists>c1 m1. onRead E oth ob mal d1 c m = Some (c1, m1) \<and> m_slices m1 = m_slices m \<and> out m1 = out m \<and> cn_open c1 \<and>
    (length d2 \<le> read_room mal (m_bufIncoming c1) \<longrightarrow>
      (\<exists>c2 m2 f2. onRead E oth ob mal d2 c1 m1 = Some (c2, m2) \<and> fresh_conn c2 \<and> mc_inv E m2 f2 \<and> client m2 \<and>
        store_result E arg key flg ex (cas_arg arg cas) data m f m2 f2))"
proof -
  let ?blk = "if data = [] then [] else data @ CRLF"
  note c' = c(1) [unfolded fresh_conn_def]
  have lb: "length ?blk = (if length data = 0 then 0 else length data + 2)" by (simp add: CRLF_def)
  obtain m1 k where m1: "processCmd E oth d1 m = (-1, m1)" "m1 = m \<or> m1 = parse_state E key (setSlice E k m)"
    "\<forall>m. processCmd E oth (cut_text d1 @ d2) m = processCmd E oth (d1 @ d2) m"
    using first_fragment [OF tx ms l w(1,2) b d(1,3) lb] by blast
  have "line \<noteq> []" using w(1) by (auto simp: words_Nil)
  then have h1: "hd d1 = hd line" using d(1,2) by (metis hd_append2)
  have s1: "session E oth ob (cn_Protocol c) d1 m = (True, True, cut_text d1, MC_ASCII, m1)"
    using session_text [OF d(2), of "cn_Protocol c"] h1 d(4) c' serve_wait [OF db(1) cl db(2) m1(1)] by auto
  obtain c1 where c1: "onRead E oth ob mal d1 c m = Some (c1, m1)" "lb_inv (m_bufIncoming c1)" "cn_open c1" "lb_abs (m_bufIncoming c1) = cut_text d1" "cn_Protocol c1 = MC_ASCII"
    using onRead_session [of c mal d1 E oth ob m] c' c(2) d(2) sz s1 by auto
  have m1': "m_slices m1 = m_slices m" "out m1 = out m" "mc_inv E m1 f" "client m1" "text_ok m1" "isTidMaster (m_slices m1 ! slice_of E m1 key)"
    "room_for E arg key (length data) m1" "arg = MC_BINCMD_REPLACE + LSMC_WITHCAS \<longrightarrow> m_usecas (m_mcparms m1)" "db_ok m1" "\<not> cs_respwait (m_conn m1)"
    "\<And>m' f'. store_result E arg key flg ex (cas_arg arg cas) data m1 f m' f' = store_result E arg key flg ex (cas_arg arg cas) data m f m' f'"
    using m1(2) inv cl tx ms rm u db db_ok_setSlice [of m E k] by (auto simp: db_ok_parse_state)
  obtain m2 f2 where m2: "processCmd E oth (line @ CRLF @ ?blk) m1 = (int (length line + 2 + length ?blk), m2)" "mc_inv E m2 f2" "client m2"
    "store_result E arg key flg ex (cas_arg arg cas) data m f m2 f2"
    using store_line [OF m1'(3-5) l w b m1'(6-8), of oth "[]"] m1'(11) by auto
  have pc: "processCmd E oth (cut_text d1 @ d2) m1 = (int (length line + 2 + length ?blk), m2)" using m1(3) d(1) m2(1) by simp
  have ct: "length (cut_text d1) = length d1" "of_char (hd (cut_text d1)) < (0x80 :: nat)" "cut_text d1 \<noteq> []"
    using cut_text_hd [OF d(2)] d(2,4) h1 by (simp_all flip: length_greater_0_conv)
  have ls: "length (cut_text d1 @ d2) \<le> length line + 2 + length ?blk" using ct(1) arg_cong [OF d(1), of length] by (simp add: CRLF_def)
  have s2: "session E oth ob MC_ASCII (cut_text d1 @ d2) m1 = (True, True, [], MC_ASCII, m2)"
    using session_text [of "cut_text d1 @ d2" MC_ASCII] ct serve_last [OF m1'(9,4,10) pc _ ls] by auto
  have "\<exists>c2. onRead E oth ob mal d2 c1 m1 = Some (c2, m2) \<and> fresh_conn c2" if "length d2 \<le> read_room mal (m_bufIncoming c1)"
    using onRead_session [of c1 mal d2 E oth ob m1] c1 c(2) d(3) that s2 by (auto simp: fresh_conn_def)
  then show ?thesis using c1(1,3) m1'(1,2) m2 by blast
qed

section \<open>Properties of a connection\<close>

definition w_conn :: Conn where
  "w_conn = \<lparr>m_bufIncoming = \<lparr>lb_area = replicate 64 CHR 0x00, lb_head = 60, lb_end = 60\<rparr>,
     cn_Protocol = MC_UNKNOWN, cn_open = True, cn_slice = 0, cn_pLink = None\<rparr>"

definition w_ob :: other_bin where
  "w_ob op buf m = m"

lemma w_conn_ok: "lb_inv (m_bufIncoming w_conn)" "malloc_ok w_malloc" "fresh_conn w_conn" "read_room w_malloc (m_bufIncoming w_conn) = 4"
  "db_ok w_mc" "\<not> cs_respwait (m_conn w_mc)"
  by (simp_all add: w_conn_def lb_inv_def lb_capacity_def w_malloc_def malloc_ok_def fresh_conn_def lb_abs_def lb_size_def read_room_def read_buf_def
      lb_full_def lb_contiguous_def db_ok_def w_mc_def w_slice_def)



text \<open>
  C6: the ring buffer is transparent. What \<open>onRead\<close> does on an open client connection is what the
  reference definition \<open>session\<close> does on the plain list of the bytes not yet consumed followed by the
  bytes read: the first byte selects the protocol, requests are served one after the other in
  their order until one is incomplete, the answer of a remote master is awaited or the connection
  is closed. Where the content wraps around, where the buffer is enlarged and how it is moved
  together makes no difference.
\<close>

theorem conn_refines_session:
  assumes "lb_inv (m_bufIncoming c)" "malloc_ok mal" "cn_open c" "cn_Protocol c \<noteq> MC_INTERNAL"
    and "data \<noteq> []" "length data \<le> read_room mal (m_bufIncoming c)"
  shows "\<exists>ok c' m'. onRead E oth ob mal data c m = Some (c', m') \<and> lb_inv (m_bufIncoming c') \<and> cn_Protocol c' \<noteq> MC_INTERNAL \<and>
    session E oth ob (cn_Protocol c) (lb_abs (m_bufIncoming c) @ data) m = (ok, cn_open c', lb_abs (m_bufIncoming c'), cn_Protocol c', m')"
  by (rule onRead_session [OF assms])

theorem conn_refines_session_witness:
  "\<exists>ok c' m'. onRead w_env w_oth w_ob w_malloc ''get '' w_conn w_mc = Some (c', m') \<and> lb_inv (m_bufIncoming c') \<and> cn_Protocol c' \<noteq> MC_INTERNAL \<and>
    session w_env w_oth w_ob (cn_Protocol w_conn) (lb_abs (m_bufIncoming w_conn) @ ''get '') w_mc = (ok, cn_open c', lb_abs (m_bufIncoming c'), cn_Protocol c', m')"
  by (rule conn_refines_session [OF w_conn_ok(1,2)]) (simp_all add: w_conn_ok(4), simp_all add: w_conn_def)

text \<open>
  C8: a storage command that arrives in two reads is served as if it had arrived in one, wherever it
  is cut, also between the carriage return and the newline or inside the data block. The first read changes no slice and
  answers nothing; with the second one the command is executed, with the result that
  \<open>store_result\<close> describes, and nothing is left in the buffer.
\<close>

theorem fragmented_store:
  fixes data :: bytes and cas :: nat and arg :: nat
  assumes "mc_inv E m f" "client m" "text_ok m" "CHR 0x0A \<notin> set line"
    and "words line = cmd # store_args arg key flg ex (length data) cas" "(cmd, arg, fn_doCmdUpdate) \<in> set s_LsMcCmdFuncs" "arg \<in> store_cmds"
    and "length key \<le> KEY_MAXLEN" "flg < 2 ^ 32" "ex < 2 ^ 32" "length data < 2 ^ 31 - 2" "cas < 2 ^ 64"
    and "isTidMaster (m_slices m ! slice_of E m key)" "room_for E arg key (length data) m"
    and "arg = MC_BINCMD_REPLACE + LSMC_WITHCAS \<longrightarrow> m_usecas (m_mcparms m)"
    and "db_ok m" "\<not> cs_respwait (m_conn m)" "fresh_conn c" "malloc_ok mal"
    and "d1 @ d2 = line @ CRLF @ (if data = [] then [] else data @ CRLF)" "d1 \<noteq> []" "d2 \<noteq> []" "of_char (hd line) < (0x80 :: nat)"
    and "length d1 \<le> read_room mal (m_bufIncoming c)"
  shows "\<exists>c1 m1. onRead E oth ob mal d1 c m = Some (c1, m1) \<and> m_slices m1 = m_slices m \<and> out m1 = out m \<and> cn_open c1 \<and>
    (length d2 \<le> read_room mal (m_bufIncoming c1) \<longrightarrow>
      (\<exists>c2 m2 f2. onRead E oth ob mal d2 c1 m1 = Some (c2, m2) \<and> fresh_conn c2 \<and> mc_inv E m2 f2 \<and> client m2 \<and>
        store_result E arg key flg ex (cas_arg arg cas) data m f m2 f2))"
  by (rule fragments_ok [OF assms])

theorem fragmented_store_witness:
  "\<exists>c1 m1. onRead w_env w_oth w_ob w_malloc ''set '' w_conn w_mc = Some (c1, m1) \<and> m_slices m1 = m_slices w_mc \<and> out m1 = out w_mc \<and> cn_open c1 \<and>
    (length (''k 7 0 2'' @ CRLF @ ''xy'' @ CRLF) \<le> read_room w_malloc (m_bufIncoming c1) \<longrightarrow>
      (\<exists>c2 m2 f2. onRead w_env w_oth w_ob w_malloc (''k 7 0 2'' @ CRLF @ ''xy'' @ CRLF) c1 m1 = Some (c2, m2) \<and> fresh_conn c2 \<and> mc_inv w_env m2 f2 \<and> client m2 \<and>
        store_result w_env 1 ''k'' 7 0 (cas_arg 1 0) ''xy'' w_mc (\<lambda>_. Map.empty) m2 f2))"
  by (rule fragmented_store [where line = "''set k 7 0 2''", OF w_mc_ok(1-3)])
    (simp_all add: words.simps s_LsMcCmdFuncs_def lay_simps store_args_def dec_str.simps dig_chars cmd_codes LSMC_WITHCAS_def w_mc_ok w_room w_slices w_conn_ok)



end
