(* ===== verification/McBinOk.thy ===== *)
theory McBinOk
  imports McGrow McBin
begin

text \<open>
  The binary protocol, from the bytes of a request to the bytes of the answer and the stored items:
  byte order and headers, the retrieval commands, the storage commands with their quiet variants,
  and the overflow of the length computation.
\<close>

section \<open>Byte order\<close>

lemma le_dec_append: "le_dec (xs @ [c]) = le_dec xs + 256 ^ length xs * of_char c"
  by (induction xs) (simp_all add: algebra_simps)

lemma or_add_low: "or (push_bit 8 ret) (and val 0xff) = ret * 256 + of_nat (unat val mod 256)" for ret val :: u64
proof -
  have m: "(0xff :: u64) = mask 8" by (simp add: mask_eq_exp_minus_1)
  have d: "and (push_bit 8 ret) (and val 0xff) = 0"
    unfolding m by (rule bit_eqI) (auto simp: bit_simps)
  have "and val 0xff = of_nat (unat val mod 256)"
  proof -
    have "unat (take_bit 8 val) = unat val mod 256" by (simp add: take_bit_eq_mod unat_mod)
    moreover have "and val 0xff = of_nat (unat (take_bit 8 val))" unfolding m take_bit_eq_mask [symmetric] by simp
    ultimately show ?thesis by simp
  qed
  then show ?thesis using disjunctive_add_eq_or [OF d] by (simp add: push_bit_eq_mult)
qed

text \<open>\<open>swap64\<close> reverses the bytes, so that the wire has the most significant byte first.\<close>

lemma swap64_loop_eq: "swap64_loop k ret val = ret * 256 ^ k + of_nat (le_dec (rev (le_enc k (unat val))))"
proof (induction k arbitrary: ret val)
  case (Suc k)
  have u: "unat (drop_bit 8 val) = unat val div 256"
    by (simp add: drop_bit_eq_div unat_div)
  have "swap64_loop (Suc k) ret val = (ret * 256 + of_nat (unat val mod 256)) * 256 ^ k + of_nat (le_dec (rev (le_enc k (unat val div 256))))"
    by (simp add: Suc.IH or_add_low u)
  also have "\<dots> = ret * 256 ^ Suc k + of_nat (le_dec (rev (le_enc (Suc k) (unat val))))"
    by (simp add: le_dec_append algebra_simps)
  finally show ?case .
qed simp

lemma le_enc_dec: "length cs = k \<Longrightarrow> le_enc k (le_dec cs) = cs"
  by (induction cs arbitrary: k) (auto simp: mod_mult_self2)

lemma unat_swap64: "unat (swap64 w) = le_dec (be_enc 8 (unat w))"
proof -
  have "le_dec (rev (le_enc 8 (unat w))) < 2 ^ 64" using le_dec_bound [of "rev (le_enc 8 (unat w))"] by simp
  then show ?thesis by (simp add: swap64_def swap64_loop_eq be_enc_def unat_of_nat)
qed

lemma swap64_wire: "le_enc 8 (unat (swap64 w)) = be_enc 8 (unat w)"
  unfolding unat_swap64 by (rule le_enc_dec) (simp add: be_enc_def)

lemma swap64_read: "swap64 (of_nat (le_dec (be_enc 8 (unat w)))) = w"
proof -
  have "unat (swap64 (swap64 w)) = unat w" unfolding unat_swap64 [of "swap64 w"] be_enc_def swap64_wire by (simp add: be_enc_def)
  then have "swap64 (swap64 w) = w" by (rule unsigned_word_eqI)
  moreover have "of_nat (le_dec (be_enc 8 (unat w))) = swap64 w" by (simp flip: unat_swap64)
  ultimately show ?thesis by simp
qed

lemma be_dec_enc: "be_dec (be_enc k n) = n mod 256 ^ k"
  by (simp add: be_dec_def be_enc_def le_dec_enc)

lemma length_be_enc [simp]: "length (be_enc k n) = k"
  by (simp add: be_enc_def)

section \<open>Requests\<close>

text \<open>The bytes of a request of the binary protocol.\<close>

definition bin_req :: "nat \<Rightarrow> bytes \<Rightarrow> bytes \<Rightarrow> bytes \<Rightarrow> bytes \<Rightarrow> u64 \<Rightarrow> bytes" where
  "bin_req op extras key val opaque cas =
     [CHR 0x80, char_of op] @ be_enc 2 (length key) @ [char_of (length extras), CHR 0x00] @ be_enc 2 0 @
     be_enc 4 (length extras + length key + length val) @ opaque @ be_enc 8 (unat cas) @ extras @ key @ val"

definition req_hdr :: "nat \<Rightarrow> bytes \<Rightarrow> bytes \<Rightarrow> bytes \<Rightarrow> bytes \<Rightarrow> u64 \<Rightarrow> McBinCmdHdr" where
  "req_hdr op extras key val opaque cas =
     \<lparr>bh_opcode = op, bh_keylen = length key, bh_extralen = length extras, bh_totbody = length extras + length key + length val,
      bh_opaque = opaque, bh_cas = cas\<rparr>"

lemma parse_hdr_req:
  assumes "op < 256" "length extras < 256" "length key < 2 ^ 16" "length extras + length key + length val < 2 ^ 32" "length opaque = 4"
  shows "parse_hdr (bin_req op extras key val opaque cas @ rest) = req_hdr op extras key val opaque cas"
proof -
  let ?b = "bin_req op extras key val opaque cas @ rest"
  have r: "rd ?b 2 2 = be_enc 2 (length key)" "rd ?b 8 4 = be_enc 4 (length extras + length key + length val)" "rd ?b 12 4 = opaque"
    "rd ?b 16 8 = be_enc 8 (unat cas)" "byte_at ?b 1 = char_of op" "byte_at ?b 4 = char_of (length extras)"
    using assms(5) by (simp_all add: bin_req_def rd_def byte_at_def nth_append)
  show ?thesis using assms by (simp add: parse_hdr_def r req_hdr_def be_dec_enc swap64_read flip: One_nat_def)
qed

lemma bin_req_body:
  assumes "length opaque = 4"
  shows "drop 24 (bin_req op extras key val opaque cas @ rest) = extras @ key @ val @ rest" "length (bin_req op extras key val opaque cas) = 24 + length extras + length key + length val"
  using assms by (simp_all add: bin_req_def)

section \<open>Responses\<close>

text \<open>The bytes of a response.\<close>

definition bin_res :: "nat \<Rightarrow> McBinStat \<Rightarrow> bytes \<Rightarrow> bytes \<Rightarrow> bytes \<Rightarrow> bytes \<Rightarrow> u64 \<Rightarrow> bytes" where
  "bin_res op st extras key val opaque cas =
     [CHR 0x81, char_of op] @ be_enc 2 (length key) @ [char_of (length extras), CHR 0x00] @ be_enc 2 (stat_code st) @
     be_enc 4 (length extras + length key + length val) @ opaque @ be_enc 8 (unat cas) @ extras @ key @ val"

lemma setupBinResHdr_client:
  "client m \<Longrightarrow> setupBinResHdr hdr xl kl n st m =
     [CHR 0x81, char_of (bh_opcode hdr)] @ be_enc 2 kl @ [char_of xl, CHR 0x00] @ be_enc 2 (stat_code st) @ be_enc 4 n @ bh_opaque hdr @ be_enc 8 (unat (m_rescas m))"
  by (simp add: setupBinResHdr_def client_def swap64_wire)

lemma bin_wait [simp]:
  "cs_cmdwait (m_conn (binRespond s m)) = cs_cmdwait (m_conn m)" "cs_respwait (m_conn (binRespond s m)) = cs_respwait (m_conn m)"
  "cs_cmdwait (m_conn (binErrRespond hdr st m)) = cs_cmdwait (m_conn m)" "cs_respwait (m_conn (binErrRespond hdr st m)) = cs_respwait (m_conn m)"
  "cs_cmdwait (m_conn (bin_miss hdr kl m)) = cs_cmdwait (m_conn m)" "cs_respwait (m_conn (bin_miss hdr kl m)) = cs_respwait (m_conn m)"
  "cs_cmdwait (m_conn (binOkRespond hdr m)) = cs_cmdwait (m_conn m)" "cs_respwait (m_conn (binOkRespond hdr m)) = cs_respwait (m_conn m)"
  by (simp_all add: binRespond_def ackNoreply_def binErrRespond_def bin_miss_def binOkRespond_def Let_def)

lemma mp_key_resp [simp]: "mp_key (binRespond s m) = mp_key m" "m_rescas (binRespond s m) = m_rescas m"
  by (simp_all add: binRespond_def ackNoreply_def Let_def)

lemma binErrRespond_ok:
  assumes "\<not> cs_internal (m_conn m)"
  shows "out (binErrRespond hdr st m) = out m @ bin_res (bh_opcode hdr) st [] [] (err_text st) (bh_opaque hdr) 0" "client (binErrRespond hdr st m)"
    "cur_step m0 (binErrRespond hdr st m) = cur_step m0 m" "m_slices (binErrRespond hdr st m) = m_slices m" "m_conn (binErrRespond hdr st m) = (m_conn m)\<lparr>c_out := out (binErrRespond hdr st m)\<rparr>"
proof -
  let ?m = "m\<lparr>m_iterOff := 0, m_rescas := 0, m_noreply := False\<rparr>"
  have c: "client ?m" using assms by (simp add: client_def)
  let ?h = "setupBinResHdr hdr 0 0 (length (err_text st)) st ?m"
  note o = client_out(2) [OF c, of ?h] client_out(2) [of "binRespond ?h ?m" "err_text st"]
  have e: "binErrRespond hdr st m = binRespond (err_text st) (binRespond ?h ?m)" by (simp add: binErrRespond_def Let_def)
  show ou: "out (binErrRespond hdr st m) = out m @ bin_res (bh_opcode hdr) st [] [] (err_text st) (bh_opaque hdr) 0" "client (binErrRespond hdr st m)"
    using o setupBinResHdr_client [OF c] by (simp_all add: e bin_res_def)
  show "cur_step m0 (binErrRespond hdr st m) = cur_step m0 m" "m_slices (binErrRespond hdr st m) = m_slices m" by (simp_all add: e)
  show "m_conn (binErrRespond hdr st m) = (m_conn m)\<lparr>c_out := out (binErrRespond hdr st m)\<rparr>"
    using c by (simp add: e binRespond_def client_def out_def)
qed

lemma binOkRespond_ok:
  assumes "client m"
  shows "out (binOkRespond hdr m) = out m @ bin_res (bh_opcode hdr) MC_BINSTAT_SUCCESS [] [] [] (bh_opaque hdr) (m_rescas m)" "client (binOkRespond hdr m)"
    "cur_step m0 (binOkRespond hdr m) = cur_step m0 m" "m_slices (binOkRespond hdr m) = m_slices m"
  using client_out(2) [OF assms] setupBinResHdr_client [OF assms] by (simp_all add: binOkRespond_def bin_res_def)

section \<open>get\<close>

text \<open>The commands \<open>GET\<close> and \<open>GETK\<close> and their quiet variants, which are answered like them.\<close>

definition bin_get_reply :: "nat \<Rightarrow> bool \<Rightarrow> bool \<Rightarrow> bytes \<Rightarrow> bytes \<Rightarrow> bytes option \<Rightarrow> bytes" where
  "bin_get_reply op withkey usecas key opaque item =
     (let k = if withkey then key else [] in
      case item of
        None \<Rightarrow> bin_res op MC_BINSTAT_KEYENOENT [] k (if withkey then [] else ''Not found'') opaque 0
      | Some v \<Rightarrow> bin_res op MC_BINSTAT_SUCCESS (be_enc 4 (unat (x_flags v))) k (item_data usecas v) opaque (if usecas then x_cas v else 0))"

lemma bin_miss_ok:
  fixes wk :: bool and m :: LsMemcache and hdr :: McBinCmdHdr
  assumes c: "client m" "m_rescas m = 0" and k: "mp_key m = key" "key \<noteq> []"
  defines "m' \<equiv> bin_miss hdr (if wk then length key else 0) m"
  shows "out m' = out m @ bin_get_reply (bh_opcode hdr) wk u key (bh_opaque hdr) None"
    "client m'" "cur_step m0 m' = cur_step m0 m" "getHash m' = getHash m"
proof -
  have nr: "\<not> m_noreply m" "\<not> cs_internal (m_conn m)" using c(1) by (simp_all add: client_def)
  let ?h = "setupBinResHdr hdr 0 (length key) (length key) MC_BINSTAT_KEYENOENT m"
  have m': "m' = (if wk then binRespond key (binRespond ?h m) else binErrRespond hdr MC_BINSTAT_KEYENOENT m)"
    using nr k by (simp add: m'_def bin_miss_def)
  have o: "out (binRespond key (binRespond ?h m)) = out m @ ?h @ key" "client (binRespond key (binRespond ?h m))"
    using client_out(2) [OF c(1), of ?h] client_out(2) [of "binRespond ?h m" key] by auto
  have h: "?h @ key = bin_res (bh_opcode hdr) MC_BINSTAT_KEYENOENT [] key [] (bh_opaque hdr) 0"
    using setupBinResHdr_client [OF c(1), of hdr] c(2) by (simp add: bin_res_def)
  note er = binErrRespond_ok [OF nr(2), where hdr = hdr and st = MC_BINSTAT_KEYENOENT]
  show "out m' = out m @ bin_get_reply (bh_opcode hdr) wk u key (bh_opaque hdr) None"
    unfolding m' using o(1) er(1) by (simp add: h bin_get_reply_def)
  show "client m'" "cur_step m0 m' = cur_step m0 m" unfolding m' using o er by auto
  have "m_cur (binErrRespond hdr MC_BINSTAT_KEYENOENT m) = m_cur m" by (simp add: binErrRespond_def Let_def)
  then show "getHash m' = getHash m" unfolding m' using er(4) by auto
qed

lemma doBinGet_ok:
  fixes hdr :: McBinCmdHdr
  assumes ok: "slice_ok E m mp R" and c: "client m" "m_rescas m = 0" and k: "mp_key m = key" "m_hkey m = m_hf E key" "key \<noteq> []"
    and cmd: "cmd = (if wk then MC_BINCMD_GETK else MC_BINCMD_GET)"
  defines "m' \<equiv> doBinGet E hdr cmd False m"
  shows "cur_step m m'" "client m'" "out m' = out m @ bin_get_reply (bh_opcode hdr) wk (m_usecas (m_mcparms m)) key (bh_opaque hdr) (live E mp key)"
    "\<exists>mp'. hash_inv E (getHash m') mp' R \<and> items_ok (m_usecas (m_mcparms m)) mp' \<and> live E mp' = live E mp"
    "cs_cmdwait (m_conn m') = cs_cmdwait (m_conn m)"
proof -
  show "cs_cmdwait (m_conn m') = cs_cmdwait (m_conn m)"
    by (simp add: m'_def doBinGet_def Let_def saveCas_def split: prod.splits option.splits)
  let ?u = "m_usecas (m_mcparms m)" and ?x = "find2 (m_hkey m) key (getHash m)" and ?kl = "if wk then length key else 0"
  have g: "good m" "hash_inv E (getHash m) mp R" "items_ok ?u mp" using ok by (auto simp: slice_ok_def)
  have kl: "(if cmd = MC_BINCMD_GATK \<or> cmd = MC_BINCMD_GETK then length (mp_key m) else 0) = ?kl"
    using cmd k(1) by (simp add: cmd_codes MC_BINCMD_GETK_def MC_BINCMD_GATK_def MC_BINCMD_GET_def)
  have nt: "cmd \<noteq> MC_BINCMD_TOUCH" using cmd by (simp add: MC_BINCMD_GETK_def MC_BINCMD_TOUCH_def MC_BINCMD_GET_def)
  let ?miss = "stat_upd (\<lambda>s. s\<lparr>get_misses := get_misses s + 1\<rparr>)"
  have "cur_step m m' \<and> client m' \<and> out m' = out m @ bin_get_reply (bh_opcode hdr) wk ?u key (bh_opaque hdr) (live E mp key) \<and>
    (\<exists>mp'. hash_inv E (getHash m') mp' R \<and> items_ok ?u mp' \<and> live E mp' = live E mp)"
  proof (cases "mp key")
    case None
    let ?m = "?miss (m\<lparr>m_iterOff := 0\<rparr>)"
    have x: "?x = 0" using slice_absent [OF ok k(2) None] .
    have m': "m' = bin_miss hdr ?kl ?m" using x k(1) kl by (simp add: m'_def doBinGet_def Let_def)
    have cl: "client ?m" "m_rescas ?m = 0" "mp_key ?m = key" using c k by (simp_all add: stat_upd_def)
    note b = bin_miss_ok [OF cl k(3), where hdr = hdr and wk = wk]
    have s: "cur_step m ?m" using cur_step_stat [of "m\<lparr>m_iterOff := 0\<rparr>"] cur_step_trans [of m "m\<lparr>m_iterOff := 0\<rparr>"] g(1) by simp
    have "live E mp key = None" using None by (simp add: live_def)
    moreover have "getHash m' = getHash m" unfolding m' b(4) using g(1) by simp
    ultimately show ?thesis using b(1-3) s g(2,3) unfolding m' [symmetric] by auto
  next
    case (Some v)
    obtain e where e: "?x \<noteq> 0" "hash_at E (getHash m) mp R ?x key" "elem_live E (getHash m) ?x e" "v = take (e_valLen e) (e_val e)"
      "isExpired E (e_val e) = isExpired E v" "?u \<longrightarrow> x_cas (e_val e) = x_cas v" "data_off ?u \<le> e_valLen e"
      "x_flags (e_val e) = x_flags v" "e_valLen e \<le> length (e_val e)" "e_key e = key" by (rule slice_elem [OF ok k(2) Some])
    let ?m1 = "m\<lparr>m_iterOff := ?x\<rparr>"
    show ?thesis
    proof (cases "isExpired E v")
      case True
      let ?h = "eraseIteratorHelper E ?x (getHash m)"
      let ?m = "?miss (notifyChange (set_hash ?h ?m1))"
      have m': "m' = bin_miss hdr ?kl ?m" using e(1,5) k(1) kl True by (simp add: m'_def doBinGet_def Let_def elem_live_simps(4) [OF e(3)])
      have cl: "client ?m" "m_rescas ?m = 0" "mp_key ?m = key" using c k by (simp_all add: stat_upd_def notifyChange_def)
      note b = bin_miss_ok [OF cl k(3), where hdr = hdr and wk = wk]
      have "cur_step m (notifyChange (set_hash ?h ?m1))" using cur_step_trans [of m ?m1, OF _ cur_step_set_hash] g(1) by simp
      then have s: "cur_step m ?m" using cur_step_trans [OF _ cur_step_stat] g(1) by simp
      have h: "hash_inv E ?h (mp(key := None)) R" using eraseIteratorHelper_hash(1) [OF e(2)] .
      have "live E mp key = None" "live E (mp(key := None)) = live E mp" using Some True live_drop by (simp_all add: live_def)
      moreover have "getHash m' = ?h" unfolding m' b(4) using g(1) by simp
      ultimately show ?thesis using b(1-3) s h g(3) unfolding m' [symmetric] by auto
    next
      case False
      let ?m = "saveCas (e_val e) (stat_upd (\<lambda>s. s\<lparr>get_hits := get_hits s + 1\<rparr>) (set_hash (getHash m) ?m1))"
      let ?d = "item_data ?u v" and ?f = "be_enc 4 (unat (x_flags v))" and ?k = "if wk then key else []"
      let ?r = "setupBinResHdr hdr 4 ?kl (4 + ?kl + length ?d) MC_BINSTAT_SUCCESS ?m @ ?f"
      have d: "rd (e_val e) (data_off ?u) (e_valLen e - data_off ?u) = ?d" using e(4,7,9) by (auto simp: rd_def item_data_def drop_take)
      have cl: "client ?m" "out ?m = out m" "mp_key ?m = key" "m_rescas ?m = (if ?u then x_cas v else 0)" using c k e(6) by (auto simp: saveCas_def)
      have s: "cur_step m ?m" "getHash ?m = getHash m"
        using cur_step_trans [OF cur_step_trans [of m ?m1, OF _ cur_step_set_hash] cur_step_stat] g(1) by (simp_all add: saveCas_def)
      have m': "m' = (let n = (if wk then binRespond key (binRespond ?r ?m) else binRespond ?r ?m) in if ?d \<noteq> [] then binRespond ?d n else n)"
        using e(1,5,8) k(1,3) kl False nt
        by (simp add: m'_def doBinGet_def Let_def elem_live_simps(4) [OF e(3)] mcIter2data_def d mp_key_resp saveCas_def)
      define n1 where "n1 = binRespond ?r ?m"
      define n2 where "n2 = (if wk then binRespond key n1 else n1)"
      have n1: "out n1 = out m @ ?r" "client n1" using client_out(2) [OF cl(1), of ?r] cl(2) by (simp_all add: n1_def)
      have n2: "out n2 = out n1 @ ?k" "client n2" using client_out(2) [OF n1(2), of key] n1(2) by (simp_all add: n2_def)
      have "m' = (if ?d \<noteq> [] then binRespond ?d n2 else n2)" unfolding m' Let_def n1_def [symmetric] n2_def [symmetric] by (rule refl)
      then have "out m' = out m @ ?r @ ?k @ ?d" "client m'" using client_out(2) [OF n2(2), of ?d] n2 n1(1) by (cases "?d = []"; simp)+
      moreover have "?r @ ?k @ ?d = bin_get_reply (bh_opcode hdr) wk ?u key (bh_opaque hdr) (live E mp key)"
        using Some False cl(4) setupBinResHdr_client [OF cl(1), of hdr] by (simp add: bin_get_reply_def bin_res_def live_def)
      moreover have "cur_step m m'" "getHash m' = getHash m" using s by (auto simp: m' Let_def)
      ultimately show ?thesis using g(2,3) by auto
    qed
  qed
  then show "cur_step m m'" "client m'" "out m' = out m @ bin_get_reply (bh_opcode hdr) wk (m_usecas (m_mcparms m)) key (bh_opaque hdr) (live E mp key)"
    "\<exists>mp'. hash_inv E (getHash m') mp' R \<and> items_ok (m_usecas (m_mcparms m)) mp' \<and> live E mp' = live E mp" by auto
qed

text \<open>The request reaches its handler.\<close>

definition bin_client :: "LsMemcache \<Rightarrow> bool" where
  "bin_client m \<longleftrightarrow> \<not> cs_internal (m_conn m) \<and> \<not> cs_cmdwait (m_conn m)"

lemma processBinCmd_req:
  fixes extras key val opaque rest :: bytes and op :: nat and cas :: u64 and m :: LsMemcache
  assumes op: "op < 256" "length opaque = 4" "length extras < 256" "length key \<le> KEY_MAXLEN" "24 + length extras + length key + length val < 2 ^ 31"
  defines "hdr \<equiv> req_hdr op extras key val opaque cas" and "buf \<equiv> bin_req op extras key val opaque cas @ rest"
    and "cmd \<equiv> (let c = fst (setupNoreplyCmd op) in if c = MC_BINCMD_SET \<and> cas \<noteq> 0 then MC_BINCMD_REPLACE else c)"
    and "m0 \<equiv> m\<lparr>m_noreply := snd (setupNoreplyCmd op)\<rparr>" and "n \<equiv> int (length (bin_req op extras key val opaque cas))"
  assumes s: "setupBinCmd E cmd buf hdr m0 = (Setup_Ok pVal opt, m1)"
    and b: "bin_switch E oth cmd buf hdr (drop pVal buf) opt (m1\<lparr>m_retcode := UPDRET_DONE, m_rescas := 0\<rparr>) = (True, m2)" "\<not> cs_cmdwait (m_conn m2)"
  shows "processBinCmd E oth buf m = (n, m2)"
proof -
  have h: "parse_hdr buf = hdr" unfolding buf_def hdr_def using op by (intro parse_hdr_req) (auto simp: lay_simps)
  have n: "n = int (24 + length extras + length key + length val)" unfolding n_def using bin_req_body(2) [OF op(2)] by simp
  have t: "sizeof_BinHdr + bh_totbody hdr = 24 + length extras + length key + length val" by (simp add: hdr_def req_hdr_def lay_simps)
  have c: "sint (of_nat (sizeof_BinHdr + bh_totbody hdr) :: u32) = n" unfolding t n by (rule sint_of_nat_u32) (use op(5) in simp)
  have l: "\<not> length buf < sizeof_BinHdr" "\<not> int (length buf) < n" using bin_req_body(2) [OF op(2)] by (simp_all add: buf_def lay_simps n)
  obtain c1 nr where sn: "setupNoreplyCmd op = (c1, nr)" by fastforce
  have o: "bh_opcode hdr = op" "bh_cas hdr = cas" by (simp_all add: hdr_def req_hdr_def)
  have cm: "(if c1 = MC_BINCMD_SET \<and> cas \<noteq> 0 then MC_BINCMD_REPLACE else c1) = cmd" "m\<lparr>m_noreply := nr\<rparr> = m0" by (simp_all add: cmd_def m0_def sn Let_def)
  show ?thesis unfolding processBinCmd_def Let_def h c o sn prod.case cm s setup_res.case b(1) using l b(2) by simp
qed

lemma setupBinCmd_key:
  fixes key opaque rest :: bytes
  assumes "length key \<le> KEY_MAXLEN" "length opaque = 4" "cmd \<noteq> MC_BINCMD_DELETE"
  shows "setupBinCmd E cmd (bin_req op [] key [] opaque cas @ rest) (req_hdr op [] key [] opaque cas) m = (Setup_Ok sizeof_BinHdr no_opt, setSlice E key (m\<lparr>mp_key := key\<rparr>))"
proof -
  have "rd (bin_req op [] key [] opaque cas @ rest) sizeof_BinHdr (length key) = key"
    using bin_req_body(1) [OF assms(2), of op "[]" key "[]" cas rest] by (simp add: rd_def lay_simps)
  then show ?thesis using assms(1,3) by (simp add: setupBinCmd_def req_hdr_def route_def Let_def)
qed

lemma bin_get_request:
  fixes key opaque rest :: bytes
  assumes i: "mc_inv E m f" and c: "bin_client m" and op: "(op, wk) \<in> {(0x00, False), (0x09, False), (0x0c, True), (0x0d, True)}"
    and k: "key \<noteq> []" "length key \<le> KEY_MAXLEN" "length opaque = 4"
  shows "\<exists>m' f'. processBinCmd E oth (bin_req op [] key [] opaque cas @ rest) m = (int (length (bin_req op [] key [] opaque cas)), m') \<and>
    mc_inv E m' f' \<and> bin_client m' \<and> m_mcparms m' = m_mcparms m \<and> item_at E m' f' = item_at E m f \<and>
    out m' = out m @ bin_get_reply op wk (m_usecas (m_mcparms m)) key opaque (item_at E m f key)"
proof -
  define cmd where "cmd = (if wk then MC_BINCMD_GETK else MC_BINCMD_GET)"
  have cm: "fst (setupNoreplyCmd op) = cmd" "snd (setupNoreplyCmd op) = False" "op < 256" "cmd \<noteq> MC_BINCMD_SET" "cmd \<noteq> MC_BINCMD_DELETE"
    using op by (auto simp: setupNoreplyCmd_def cmd_def cmd_codes MC_BINCMD_GETK_def MC_BINCMD_GET_def)
  let ?hdr = "req_hdr op [] key [] opaque cas" and ?buf = "bin_req op [] key [] opaque cas @ rest"
  define m1 where "m1 = setSlice E key (m\<lparr>m_noreply := False, mp_key := key\<rparr>)"
  define m2 where "m2 = m1\<lparr>m_retcode := UPDRET_DONE, m_rescas := 0\<rparr>"
  have st: "setupBinCmd E cmd ?buf ?hdr (m\<lparr>m_noreply := False\<rparr>) = (Setup_Ok sizeof_BinHdr no_opt, m1)"
    using setupBinCmd_key [OF k(2,3) cm(5)] by (simp add: m1_def)
  let ?m3 = "doBinGet E ?hdr cmd False m2"
  have sw: "bin_switch E oth cmd ?buf ?hdr (drop sizeof_BinHdr ?buf) no_opt m2 = (True, ?m3)"
    by (simp add: bin_switch_def cmd_def Let_def MC_BINCMD_GETK_def MC_BINCMD_GET_def MC_BINCMD_TOUCH_def MC_BINCMD_GAT_def MC_BINCMD_GATK_def)
  have e2: "m_slices m2 = m_slices m" "m_mcparms m2 = m_mcparms m" "m_cur m2 = slice_of E m key" "client m2" "m_rescas m2 = 0" "mp_key m2 = key" "m_hkey m2 = m_hf E key" "out m2 = out m"
    "cs_cmdwait (m_conn m2) = cs_cmdwait (m_conn m)"
    using c by (simp_all add: m2_def m1_def bin_client_def client_def out_def)
  obtain R where ok: "slice_ok E m2 (f (slice_of E m key)) R" by (rule server_slice [OF i e2(1-3)])
  note g = doBinGet_ok [OF ok e2(4-7) k(1) cmd_def, where hdr = ?hdr]
  have "\<not> cs_cmdwait (m_conn ?m3)" using g(5) e2(9) c by (simp add: bin_client_def)
  then have p: "processBinCmd E oth ?buf m = (int (length (bin_req op [] key [] opaque cas)), ?m3)"
    using processBinCmd_req [where E = E and m = m and op = op and extras = "[]" and val = "[]" and key = key and opaque = opaque and cas = cas and rest = rest and oth = oth
      and pVal = sizeof_BinHdr and opt = no_opt and ?m1.0 = m1 and ?m2.0 = ?m3] k cm st sw by (simp add: m2_def Let_def lay_simps)
  obtain mp' where mp': "hash_inv E (getHash ?m3) mp' R" "items_ok (m_usecas (m_mcparms m)) mp'" "live E mp' = live E (f (slice_of E m key))"
    using g(4) e2(2) by auto
  note q = server_step_map [OF i e2(1-3) g(1) refl mp'(1,2)]
  have "bin_client ?m3" using g(2,5) e2(9) c by (simp add: bin_client_def client_def)
  moreover have it: "item_at E m f key = live E (f (slice_of E m key)) key" by (simp add: item_at_def)
  moreover have "(item_at E m f)(key := live E mp' key) = item_at E m f" using mp'(3) it by (simp add: fun_upd_idem)
  ultimately show ?thesis using p q mp'(3) g(3) e2(2,8) by (auto simp: req_hdr_def)
qed

section \<open>set, add and replace\<close>

lemma binOkRespond_quiet:
  assumes "\<not> cs_internal (m_conn m)"
  shows "out (binOkRespond hdr m) = out m @ (if m_noreply m then [] else bin_res (bh_opcode hdr) MC_BINSTAT_SUCCESS [] [] [] (bh_opaque hdr) (m_rescas m))"
    "client (binOkRespond hdr m)" "cur_step m0 (binOkRespond hdr m) = cur_step m0 m" "m_slices (binOkRespond hdr m) = m_slices m" "m_cur (binOkRespond hdr m) = m_cur m"
proof -
  have "out (binOkRespond hdr m) = out m @ (if m_noreply m then [] else bin_res (bh_opcode hdr) MC_BINSTAT_SUCCESS [] [] [] (bh_opaque hdr) (m_rescas m)) \<and> client (binOkRespond hdr m)"
  proof (cases "m_noreply m")
    case True
    then show ?thesis using assms by (simp add: binOkRespond_def binRespond_def client_def out_def)
  next
    case False
    then show ?thesis using assms binOkRespond_ok(1,2) [of m hdr] by (simp add: client_def)
  qed
  then show "out (binOkRespond hdr m) = out m @ (if m_noreply m then [] else bin_res (bh_opcode hdr) MC_BINSTAT_SUCCESS [] [] [] (bh_opaque hdr) (m_rescas m))"
    "client (binOkRespond hdr m)" by auto
  show "cur_step m0 (binOkRespond hdr m) = cur_step m0 m" "m_slices (binOkRespond hdr m) = m_slices m" "m_cur (binOkRespond hdr m) = m_cur m" by (simp_all add: binOkRespond_def)
qed

text \<open>When the code refuses, and with which status.\<close>

definition bin_refused :: "env \<Rightarrow> nat \<Rightarrow> u64 \<Rightarrow> (bytes \<Rightarrow> bytes option) \<Rightarrow> bytes \<Rightarrow> McBinStat option" where
  "bin_refused E cmd cas mp key =
     (case live E mp key of
        None \<Rightarrow> if cmd = MC_BINCMD_REPLACE then Some MC_BINSTAT_KEYENOENT else None
      | Some v \<Rightarrow> if cmd = MC_BINCMD_ADD \<or> cmd = MC_BINCMD_REPLACE \<and> cas \<noteq> 0 \<and> x_cas v \<noteq> cas then Some MC_BINSTAT_KEYEEXISTS else None)"

definition bin_ret :: "updret \<Rightarrow> McBinStat" where
  "bin_ret rc = (if rc = UPDRET_INTERNAL_ERROR then MC_BINSTAT_INTERNAL_ERROR else if rc = UPDRET_NOTFOUND then MC_BINSTAT_KEYENOENT
     else if rc = UPDRET_EEXISTS then MC_BINSTAT_KEYEEXISTS else MC_BINSTAT_NOTSTORED)"

lemma stat_upd_rescas [simp]: "m_rescas (stat_upd f m) = m_rescas m"
  by (simp add: stat_upd_def)

lemma doHashInsert_ret:
  assumes ok: "slice_ok E m mp R" and k: "mp_key m = key" "m_hkey m = m_hf E key" and r: "doHashInsert E opt m = (x, opt', m1)" "o_retcode opt = UPDRET_DONE"
  shows "o_retcode opt' = (if live E mp key = None then UPDRET_DONE else UPDRET_EEXISTS)"
proof (cases "mp key")
  case None
  then show ?thesis using r slice_absent [OF ok k(2) None] k(1) by (auto simp: doHashInsert_def Let_def live_def split: prod.splits)
next
  case (Some v)
  obtain e where e: "find2 (m_hkey m) key (getHash m) \<noteq> 0" "elem_live E (getHash m) (find2 (m_hkey m) key (getHash m)) e"
    "isExpired E (e_val e) = isExpired E v" by (rule slice_elem [OF ok k(2) Some])
  show ?thesis using r(1) e k(1) Some by (auto simp: doHashInsert_def Let_def elem_live_simps(8) [OF e(2)] live_def split: prod.splits if_splits)
qed

text \<open>The storage step of the three commands, before the answer.\<close>

lemma bin_switch_store:
  assumes ok: "slice_ok E m mp R" and k: "mp_key m = key" "m_hkey m = m_hf E key" and p: "put_ok (getHash m) key (None, mp_vallen m)"
    and cmd: "cmd \<in> {MC_BINCMD_SET, MC_BINCMD_ADD, MC_BINCMD_REPLACE}" and u: "bh_cas hdr \<noteq> 0 \<longrightarrow> cmd = MC_BINCMD_REPLACE \<and> m_usecas (m_mcparms m)"
    and opt: "opt = (if cmd = MC_BINCMD_REPLACE then no_opt\<lparr>o_cmd := cmd, o_cas := bh_cas hdr\<rparr> else no_opt)" and rc: "m_retcode m = UPDRET_DONE"
  shows "\<exists>h1 x rc m1. bin_switch E oth cmd buf hdr pVal opt m = (True, doBinDataUpdate pVal hdr m1) \<and>
    cur_step m m1 \<and> getHash m1 = h1 \<and> m_item m1 = m_item m \<and> m_conn m1 = m_conn m \<and> m_noreply m1 = m_noreply m \<and> m_rescas m1 = m_rescas m \<and> next_cas m1 = next_cas m \<and> m_iterOff m1 = x \<and> m_retcode m1 = rc \<and>
    (case bin_refused E cmd (bh_cas hdr) mp key of
       None \<Rightarrow> rc = UPDRET_DONE \<and> outcome E h1 mp R x key (mp_vallen m)
     | Some st \<Rightarrow> x = 0 \<and> (hash_inv E h1 mp R \<or> live E mp key = None \<and> hash_inv E h1 (mp(key := None)) R) \<and> st = bin_ret rc)"
proof -
  let ?S = "\<lambda>s. s\<lparr>set_cmds := set_cmds s + 1\<rparr>"
  define m0 where "m0 = stat_upd ?S m"
  have g: "good m" "good m0" and h0: "getHash m0 = getHash m" using ok by (auto simp: slice_ok_def m0_def)
  have e0: "slice_ok E m0 mp R" "mp_key m0 = key" "m_hkey m0 = m_hf E key" "put_ok (getHash m0) key (valarg_of m0)" "mp_vallen m0 = mp_vallen m" "m_mcparms m0 = m_mcparms m"
    "next_cas m0 = next_cas m" "cur_step m m0" "m_item m0 = m_item m" "m_conn m0 = m_conn m" "m_noreply m0 = m_noreply m" "m_rescas m0 = m_rescas m" "m_retcode m0 = UPDRET_DONE"
    using ok k p g h0 cur_step_stat [OF g(1)] rc by (auto simp: m0_def slice_ok_def valarg_of_def next_cas_def)
  have inv: "hash_inv E (getHash m0) mp R" using e0(1) by (simp add: slice_ok_def)
  have codes: "MC_BINCMD_SET \<noteq> MC_BINCMD_ADD" "MC_BINCMD_REPLACE \<noteq> MC_BINCMD_ADD" "MC_BINCMD_REPLACE \<noteq> MC_BINCMD_SET"
    "cmd \<notin> {MC_BINCMD_TOUCH, MC_BINCMD_GAT, MC_BINCMD_GATK, MC_BINCMD_GET, MC_BINCMD_GETK, MC_BINCMD_GETKQ}"
    using cmd by (auto simp: cmd_codes MC_BINCMD_GET_def MC_BINCMD_GETK_def MC_BINCMD_GETKQ_def MC_BINCMD_TOUCH_def MC_BINCMD_GAT_def MC_BINCMD_GATK_def)
  let ?P = "\<lambda>h1 x rc m1. bin_switch E oth cmd buf hdr pVal opt m = (True, doBinDataUpdate pVal hdr m1) \<and>
    cur_step m m1 \<and> getHash m1 = h1 \<and> m_item m1 = m_item m \<and> m_conn m1 = m_conn m \<and> m_noreply m1 = m_noreply m \<and> m_rescas m1 = m_rescas m \<and> next_cas m1 = next_cas m \<and> m_iterOff m1 = x \<and> m_retcode m1 = rc \<and>
    (case bin_refused E cmd (bh_cas hdr) mp key of
       None \<Rightarrow> rc = UPDRET_DONE \<and> outcome E h1 mp R x key (mp_vallen m)
     | Some st \<Rightarrow> x = 0 \<and> (hash_inv E h1 mp R \<or> live E mp key = None \<and> hash_inv E h1 (mp(key := None)) R) \<and> st = bin_ret rc)"
  have fin: "\<exists>h1 x rc m1. ?P h1 x rc m1"
    if "bin_switch E oth cmd buf hdr pVal opt m = (True, doBinDataUpdate pVal hdr m1)"
      "m1 = (set_hash h1 m0)\<lparr>m_iterOff := x, m_retcode := rc\<rparr> \<or> (\<exists>f. m1 = stat_upd f ((set_hash h1 m0)\<lparr>m_iterOff := x, m_retcode := rc\<rparr>))"
      "case bin_refused E cmd (bh_cas hdr) mp key of
       None \<Rightarrow> rc = UPDRET_DONE \<and> outcome E h1 mp R x key (mp_vallen m)
     | Some st \<Rightarrow> x = 0 \<and> (hash_inv E h1 mp R \<or> live E mp key = None \<and> hash_inv E h1 (mp(key := None)) R) \<and> st = bin_ret rc" for h1 x rc m1
  proof -
    note s = switch_state [OF g(2) that(2)]
    have "m_conn m1 = m_conn m" "m_noreply m1 = m_noreply m" "m_rescas m1 = m_rescas m" using that(2) e0 by auto
    then show ?thesis using that(1,3) s e0 cur_step_trans [OF e0(8) s(1)] by (intro exI [of _ h1] exI [of _ x] exI [of _ rc] exI [of _ m1]) (auto simp: cur_step_def)
  qed
  consider "cmd = MC_BINCMD_SET" | "cmd = MC_BINCMD_ADD" | "cmd = MC_BINCMD_REPLACE" using cmd by blast
  then show ?thesis
  proof cases
    case 1
    obtain x h1 where s: "doSet E (find2 (m_hkey m0) key (getHash m0)) (m_hkey m0) key (valarg_of m0) (getHash m0) = (x, h1)" by fastforce
    have "outcome E h1 mp R x key (mp_vallen m)" using put_outcome doSet_ok [OF inv e0(4) s [unfolded e0(3)]] e0(5) by (simp add: valarg_of_def)
    moreover have "bin_switch E oth cmd buf hdr pVal opt m = (True, doBinDataUpdate pVal hdr ((set_hash h1 m0)\<lparr>m_iterOff := x\<rparr>))"
      unfolding bin_switch_def Let_def m0_def [symmetric] e0(2) s prod.case using 1 codes by simp
    moreover have "(set_hash h1 m0)\<lparr>m_iterOff := x\<rparr> = (set_hash h1 m0)\<lparr>m_iterOff := x, m_retcode := UPDRET_DONE\<rparr>" using e0(13) by (simp add: set_hash_simps(10) [symmetric])
    ultimately show ?thesis using 1 codes by (intro fin [of "(set_hash h1 m0)\<lparr>m_iterOff := x\<rparr>" UPDRET_DONE x h1]) (auto simp: bin_refused_def split: option.splits)
  next
    case 2
    obtain x opt' m2 where i: "doHashInsert E opt m0 = (x, opt', m2)" by (metis prod_cases3)
    have or: "o_retcode opt = UPDRET_DONE" using 2 codes by (simp add: opt no_opt_def)
    obtain h1 where h1: "m2 = set_hash h1 m0" "if live E mp key = None then outcome E h1 mp R x key (mp_vallen m0) else x = 0 \<and> h1 = getHash m0"
      using doHashInsert_ok [OF e0(1-4) i] by blast
    note rt = doHashInsert_ret [OF e0(1-3) i or]
    have "bin_switch E oth cmd buf hdr pVal opt m = (True, doBinDataUpdate pVal hdr ((set_hash h1 m0)\<lparr>m_iterOff := x, m_retcode := o_retcode opt'\<rparr>))"
      unfolding bin_switch_def Let_def m0_def [symmetric] i prod.case h1(1) using 2 codes by simp
    then show ?thesis using 2 codes h1(2) rt inv e0(5)
      by (intro fin [of "(set_hash h1 m0)\<lparr>m_iterOff := x, m_retcode := o_retcode opt'\<rparr>" "o_retcode opt'" x h1]) (auto simp: bin_refused_def bin_ret_def split: option.splits)
  next
    case 3
    obtain x opt' nb m2 where i: "doHashUpdate E opt m0 = (x, opt', nb, m2)" by (metis prod_cases4)
    have o: "o_cmd opt = MC_BINCMD_REPLACE" "\<not> o_withcas opt" "o_cas opt = bh_cas hdr" using 3 by (simp_all add: opt no_opt_def)
    have u': "o_withcas opt \<or> o_cas opt \<noteq> 0 \<longrightarrow> m_usecas (m_mcparms m0)" using u o e0(6) by simp
    obtain h1 where h1: "m2 = set_hash h1 m0" "case live E mp key of
       None \<Rightarrow> x = 0 \<and> o_retcode opt' = UPDRET_NOTFOUND \<and> hash_inv E h1 (mp(key := None)) R
     | Some v \<Rightarrow> if (o_withcas opt \<or> o_cas opt \<noteq> 0) \<and> x_cas v \<noteq> o_cas opt
         then x = 0 \<and> o_retcode opt' = UPDRET_CASFAIL \<and> h1 = getHash m0
         else o_retcode opt' = UPDRET_DONE \<and> outcome E h1 mp R x key (mp_vallen m0)"
      using doHashUpdate_replace [OF e0(1-4) o(1) u' i] by blast
    let ?m3 = "(set_hash h1 m0)\<lparr>m_iterOff := x, m_retcode := o_retcode opt'\<rparr>"
    define m4 where "m4 = (if bh_cas hdr \<noteq> 0 then
                   if m_retcode ?m3 = UPDRET_NOTFOUND then stat_upd (\<lambda>s. s\<lparr>cas_misses := cas_misses s + 1\<rparr>) ?m3
                   else if m_retcode ?m3 = UPDRET_CASFAIL then stat_upd (\<lambda>s. s\<lparr>cas_badval := cas_badval s + 1\<rparr>) ?m3
                   else stat_upd (\<lambda>s. s\<lparr>cas_hits := cas_hits s + 1\<rparr>) ?m3
                 else ?m3)"
    have "m4 = ?m3 \<or> (\<exists>f. m4 = stat_upd f ?m3)" unfolding m4_def by (simp only: split: if_split) blast
    moreover have "bin_switch E oth cmd buf hdr pVal opt m = (True, doBinDataUpdate pVal hdr m4)"
      unfolding bin_switch_def Let_def m0_def [symmetric] i prod.case h1(1) m4_def using 3 codes by simp
    ultimately show ?thesis using 3 codes h1(2) o inv e0(5)
      by (intro fin [of m4 "o_retcode opt'" x h1]) (auto simp: bin_refused_def bin_ret_def split: option.splits if_splits)
  qed
qed

lemma doBinDataUpdate_ok:
  fixes hdr :: McBinCmdHdr
  assumes g: "good m" and c: "\<not> cs_internal (m_conn m)" and o: "outcome E (getHash m) mp R (m_iterOff m) key (data_off (m_usecas (m_mcparms m)) + n)"
    and it: "items_ok (m_usecas (m_mcparms m)) mp" and rc: "m_retcode m = UPDRET_DONE" and rs: "m_rescas m = 0" and b: "n \<le> length pVal"
  defines "m' \<equiv> doBinDataUpdate pVal hdr m" and "u \<equiv> m_usecas (m_mcparms m)"
  shows "cur_step m m'" "client m'" "cs_cmdwait (m_conn m') = cs_cmdwait (m_conn m)"
    "(\<exists>t. out m' = out m @ (if m_noreply m then [] else bin_res (bh_opcode hdr) MC_BINSTAT_SUCCESS [] [] [] (bh_opaque hdr) (if u then next_cas m else 0)) \<and>
        hash_inv E (getHash m') (mp(key \<mapsto> mk_value u (adj_time t (m_item m)) (next_cas m) (take n pVal))) R) \<or>
     out m' = out m @ bin_res (bh_opcode hdr) MC_BINSTAT_NOTSTORED [] [] (err_text MC_BINSTAT_NOTSTORED) (bh_opaque hdr) 0 \<and>
        (hash_inv E (getHash m') mp R \<or> hash_inv E (getHash m') (mp(key := None)) R)"
proof -
  define m1 where "m1 = m\<lparr>mp_key := []\<rparr>"
  have "cur_step m m' \<and> client m' \<and> cs_cmdwait (m_conn m') = cs_cmdwait (m_conn m) \<and>
    ((\<exists>t. out m' = out m @ (if m_noreply m then [] else bin_res (bh_opcode hdr) MC_BINSTAT_SUCCESS [] [] [] (bh_opaque hdr) (if u then next_cas m else 0)) \<and>
        hash_inv E (getHash m') (mp(key \<mapsto> mk_value u (adj_time t (m_item m)) (next_cas m) (take n pVal))) R) \<or>
     out m' = out m @ bin_res (bh_opcode hdr) MC_BINSTAT_NOTSTORED [] [] (err_text MC_BINSTAT_NOTSTORED) (bh_opaque hdr) 0 \<and>
        (hash_inv E (getHash m') mp R \<or> hash_inv E (getHash m') (mp(key := None)) R))"
  proof (cases "m_iterOff m = 0")
    case True
    have m': "m' = binErrRespond hdr MC_BINSTAT_NOTSTORED m1" using True rc by (simp add: m'_def doBinDataUpdate_def Let_def m1_def)
    have c1: "\<not> cs_internal (m_conn m1)" using c by (simp add: m1_def)
    note e = binErrRespond_ok [OF c1, where hdr = hdr and st = MC_BINSTAT_NOTSTORED]
    have "m_cur m' = m_cur m" by (simp add: m' binErrRespond_def Let_def m1_def)
    then have "getHash m' = getHash m" using e(4) by (simp add: m' m1_def)
    then show ?thesis using e(1-3) o True by (auto simp: m' m1_def outcome_def)
  next
    case False
    then obtain v where v: "length v = data_off u + n" "hash_at E (getHash m) (mp(key \<mapsto> v)) R (m_iterOff m) key" using o by (auto simp: outcome_def u_def)
    have e1: "good m1" "hash_at E (getHash m1) (mp(key \<mapsto> v)) R (m_iterOff m1) key" "m_retcode m1 \<noteq> UPDRET_APPEND" "m_retcode m1 \<noteq> UPDRET_PREPEND"
      "length v = data_off (m_usecas (m_mcparms m1)) + n" "next_cas m1 = next_cas m" "cur_step m m1" "m_item m1 = m_item m" "(mp(key \<mapsto> v)) key = Some v" "m_mcparms m1 = m_mcparms m"
      "m_rescas m1 = 0" "m_noreply m1 = m_noreply m" "m_conn m1 = m_conn m" "m_iterOff m1 = m_iterOff m"
      using g v rc rs by (simp_all add: m1_def next_cas_def u_def)
    let ?d = "dataItemUpdate pVal m1"
    note d = dataItemUpdate_fresh [where mp = "mp(key \<mapsto> v)" and k = key and ?v0.0 = v, OF e1(1-4,9,5) b]
    have m': "m' = (binOkRespond hdr (notifyChange ?d))\<lparr>m_iterOff := 0\<rparr>" using False by (simp add: m'_def doBinDataUpdate_def Let_def m1_def)
    have nd: "m_noreply (notifyChange ?d) = m_noreply m" "m_conn (notifyChange ?d) = m_conn m" "m_rescas (notifyChange ?d) = (if u then next_cas m else 0)" "out (notifyChange ?d) = out m"
      using d(7-9) e1 by (simp_all add: notifyChange_def u_def out_def)
    have ci: "\<not> cs_internal (m_conn (notifyChange ?d))" using c nd(2) by simp
    note r = binOkRespond_quiet [OF ci, where hdr = hdr]
    have hh: "getHash m' = getHash ?d" using r(4,5) by (simp add: m')
    let ?t = "lru_time (getHash m) (m_iterOff m)"
    have "hash_inv E (getHash m') (mp(key \<mapsto> mk_value u (adj_time ?t (m_item m)) (next_cas m) (take n pVal))) R"
      unfolding hh using hash_atD(1) [OF d(1)] e1(6,8,10,14) by (simp add: u_def m1_def)
    moreover have "cur_step m m'" using cur_step_trans [OF e1(7) d(2)] r(3) by (simp add: m')
    moreover have "client m'" "cs_cmdwait (m_conn m') = cs_cmdwait (m_conn m)" using r(2) nd(2) by (simp_all add: m')
    moreover have "out m' = out m @ (if m_noreply m then [] else bin_res (bh_opcode hdr) MC_BINSTAT_SUCCESS [] [] [] (bh_opaque hdr) (if u then next_cas m else 0))"
      using r(1) nd by (simp add: m')
    ultimately show ?thesis by blast
  qed
  then show "cur_step m m'" "client m'" "cs_cmdwait (m_conn m') = cs_cmdwait (m_conn m)"
    "(\<exists>t. out m' = out m @ (if m_noreply m then [] else bin_res (bh_opcode hdr) MC_BINSTAT_SUCCESS [] [] [] (bh_opaque hdr) (if u then next_cas m else 0)) \<and>
        hash_inv E (getHash m') (mp(key \<mapsto> mk_value u (adj_time t (m_item m)) (next_cas m) (take n pVal))) R) \<or>
     out m' = out m @ bin_res (bh_opcode hdr) MC_BINSTAT_NOTSTORED [] [] (err_text MC_BINSTAT_NOTSTORED) (bh_opaque hdr) 0 \<and>
        (hash_inv E (getHash m') mp R \<or> hash_inv E (getHash m') (mp(key := None)) R)" by blast+
qed

lemma doBinDataUpdate_refused:
  fixes hdr :: McBinCmdHdr and pVal :: bytes
  assumes "m_iterOff m = 0" "\<not> cs_internal (m_conn m)"
  defines "m' \<equiv> doBinDataUpdate pVal hdr m"
  shows "cur_step m m'" "client m'" "cs_cmdwait (m_conn m') = cs_cmdwait (m_conn m)" "getHash m' = getHash m"
    "out m' = out m @ bin_res (bh_opcode hdr) (bin_ret (m_retcode m)) [] [] (err_text (bin_ret (m_retcode m))) (bh_opaque hdr) 0"
proof -
  let ?m1 = "m\<lparr>mp_key := []\<rparr>"
  have m': "m' = binErrRespond hdr (bin_ret (m_retcode m)) ?m1" using assms(1) by (simp add: m'_def doBinDataUpdate_def bin_ret_def)
  have c: "\<not> cs_internal (m_conn ?m1)" using assms(2) by simp
  note e = binErrRespond_ok [OF c, where hdr = hdr and st = "bin_ret (m_retcode m)"]
  have "m_cur m' = m_cur m" by (simp add: m' binErrRespond_def Let_def)
  then show "getHash m' = getHash m" using e(4) by (simp add: m')
  show "cur_step m m'" "client m'" "cs_cmdwait (m_conn m') = cs_cmdwait (m_conn m)"
    "out m' = out m @ bin_res (bh_opcode hdr) (bin_ret (m_retcode m)) [] [] (err_text (bin_ret (m_retcode m))) (bh_opaque hdr) 0" using e(1-3) by (simp_all add: m')
qed

lemma sub32_le: "b \<le> a \<Longrightarrow> a < 2 ^ 32 \<Longrightarrow> sub32 a b = a - b"
proof -
  assume a: "b \<le> a" "a < 2 ^ 32"
  then have "a + (2 ^ 32 - b mod 2 ^ 32) = (a - b) + 2 ^ 32" by simp
  then show ?thesis unfolding sub32_def using a(2) by (simp del: numeral_plus_numeral)
qed

text \<open>The value is within the size limit and the accounted memory within the maximum. The binary
  protocol measures the value without its item header.\<close>

definition bin_room :: "env \<Rightarrow> nat \<Rightarrow> bytes \<Rightarrow> nat \<Rightarrow> LsMemcache \<Rightarrow> bool" where
  "bin_room E cmd key n m \<longleftrightarrow>
     (let s = m_slices m ! slice_of E m key; h = sl_hash s;
          more = (if cmd = MC_BINCMD_ADD \<or> cmd = MC_BINCMD_SET
                  then size2roundSize (round4 (length key) + sizeof_vardata + round4 n + sizeof_vardata + sizeof_HElem + iterExtraSpace h)
                  else size2roundSize n)
      in put_ok h key (None, parmAdjLen m n) \<and> chkItemSize m n \<and>
         m_iHashInUse h + of_nat more - of_nat (helper_size s) \<le> m_iMemMaxSz (m_mcparms m))"

definition bin_state :: "env \<Rightarrow> bytes \<Rightarrow> nat \<Rightarrow> nat \<Rightarrow> nat \<Rightarrow> LsMemcache \<Rightarrow> LsMemcache" where
  "bin_state E key flg ex n m =
     (setSlice E key (m\<lparr>mp_key := key\<rparr>))\<lparr>m_item := (m_item m)\<lparr>it_flags := of_nat flg, it_exptime := int ex\<rparr>, mp_vallen := parmAdjLen m n\<rparr>"

abbreviation bin_stores :: "nat set" where
  "bin_stores \<equiv> {MC_BINCMD_SET, MC_BINCMD_ADD, MC_BINCMD_REPLACE}"

lemma bin_room_chkMemSz:
  assumes r: "bin_room E cmd key n m" and c: "cmd \<in> bin_stores"
    and m1: "m_slices m1 = m_slices m" "m_mcparms m1 = m_mcparms m" "m_cur m1 = slice_of E m key" "mp_key m1 = key" "mp_vallen m1 = n"
  shows "chkMemSz E cmd m1 = (MC_BINSTAT_SUCCESS, m1)"
proof -
  have f: "cmd \<noteq> MC_BINCMD_FLUSH" using c by (auto simp: cmd_codes)
  note rm = r [unfolded bin_room_def Let_def]
  have "chkItemSize m1 n" using rm m1(2) by (simp add: chkItemSize_def)
  moreover have "\<not> m_iMemMaxSz (m_mcparms m) < m_iHashInUse (sl_hash (m_slices m ! slice_of E m key)) +
       of_nat (if cmd = MC_BINCMD_ADD \<or> cmd = MC_BINCMD_SET
               then size2roundSize (round4 (length key) + sizeof_vardata + round4 n + sizeof_vardata + sizeof_HElem +
                      iterExtraSpace (sl_hash (m_slices m ! slice_of E m key)))
               else size2roundSize n) - of_nat (helper_size (m_slices m ! slice_of E m key))"
    using rm by (simp only: not_less simp_thms)
  ultimately show ?thesis unfolding chkMemSz_def Let_def m1 by (simp only: f if_False if_True not_True_eq_False)
qed

lemma setupBinCmd_store:
  fixes key opaque rest val :: bytes
  assumes k: "length key \<le> KEY_MAXLEN" "length opaque = 4" "flg < 2 ^ 32" "ex < 2 ^ 32" "24 + 8 + length key + length val < 2 ^ 31"
    and c: "cmd \<in> bin_stores" and r: "bin_room E cmd key (length val) m" and ms: "isTidMaster (m_slices m ! slice_of E m key)"
  defines "extras \<equiv> be_enc 4 flg @ be_enc 4 ex"
  shows "setupBinCmd E cmd (bin_req op extras key val opaque cas @ rest) (req_hdr op extras key val opaque cas) m =
    (Setup_Ok (32 + length key) (if cmd = MC_BINCMD_REPLACE then no_opt\<lparr>o_cmd := cmd, o_cas := cas\<rparr> else no_opt), bin_state E key flg ex (length val) m)"
proof -
  let ?buf = "bin_req op extras key val opaque cas @ rest" and ?hdr = "req_hdr op extras key val opaque cas"
  have lx: "length extras = 8" by (simp add: extras_def)
  have b: "drop 24 ?buf = extras @ key @ val @ rest" by (rule bin_req_body(1) [OF k(2)])
  have "drop 28 ?buf = drop 4 (drop 24 ?buf)" "drop 32 ?buf = drop 8 (drop 24 ?buf)" by (simp_all only: drop_drop) simp_all
  then have d: "drop 28 ?buf = be_enc 4 ex @ key @ val @ rest" "drop 32 ?buf = key @ val @ rest" unfolding b by (simp_all add: extras_def)
  have rk: "rd ?buf 32 (length key) = key" "rd ?buf 24 4 = be_enc 4 flg" "rd ?buf 28 4 = be_enc 4 ex"
    unfolding rd_def b d by (simp_all add: extras_def)
  have el: "isRemoteEligible cmd" using c by (auto simp: isRemoteEligible_def)
  define m1 where "m1 = setSlice E key (m\<lparr>mp_key := key\<rparr>)"
  have ms1: "isTidMaster (m_slices (m\<lparr>mp_key := key\<rparr>) ! slice_of E (m\<lparr>mp_key := key\<rparr>) key)" using ms by simp
  have ro: "route E True ?buf ?hdr (m\<lparr>mp_key := key\<rparr>) = (None, m1)"
    using canProcessNow_master [OF ms1] ms by (simp add: route_def fwdBinToRemote_def m1_def)
  let ?m2 = "m1\<lparr>mp_vallen := length val\<rparr>"
  have ck: "chkMemSz E cmd ?m2 = (MC_BINSTAT_SUCCESS, ?m2)" by (rule bin_room_chkMemSz [OF r c]) (simp_all add: m1_def)
  have h: "bh_keylen ?hdr = length key" "bh_totbody ?hdr = 8 + length key + length val" "bh_extralen ?hdr = 8" "bh_cas ?hdr = cas" by (simp_all add: req_hdr_def lx)
  have sz: "sub32 (sub32 (8 + length key + length val) (length key)) 8 = length val"
    using k(5) by (simp add: sub32_le)
  have sw: "setup_switch E cmd ?buf ?hdr (32 + length key) ?m2 = (Setup_Ok (32 + length key) (if cmd = MC_BINCMD_REPLACE then no_opt\<lparr>o_cmd := cmd, o_cas := cas\<rparr> else no_opt), bin_state E key flg ex (length val) m)"
  proof -
    have cc: "(cmd = MC_BINCMD_REPLACE \<or> cmd = MC_BINCMD_ADD \<or> cmd = MC_BINCMD_SET) = True" using c by auto
    have s: "sizeof_BinHdr = 24" "24 + 4 = (28 :: nat)" "be_dec (be_enc 4 flg) = flg" "be_dec (be_enc 4 ex) = ex" using k(3,4) by (simp_all add: lay_simps be_dec_enc)
    have m2: "?m2\<lparr>m_item := (m_item ?m2)\<lparr>it_flags := word_of_nat flg, it_exptime := int ex\<rparr>, mp_vallen := parmAdjLen ?m2 (mp_vallen ?m2)\<rparr> = bin_state E key flg ex (length val) m"
      by (simp add: bin_state_def m1_def parmAdjLen_def)
    show ?thesis unfolding setup_switch_def Let_def cc if_True h ck prod.case s rk(2,3) m2 by simp
  qed
  have n: "(length key > KEY_MAXLEN) = False" "(8 + length key + length val = length key) = False" "sizeof_BinHdr + 8 = 32" using k(1) by (simp_all add: lay_simps)
  show ?thesis unfolding setupBinCmd_def Let_def h n if_False rk(1) eqTrueI [OF el] ro prod.case option.case sz sw by (rule refl)
qed

text \<open>The opcodes of the storage commands: the command they stand for and whether they are quiet. A
  \<open>SET\<close> with a cas value is a \<open>REPLACE\<close>.\<close>

definition bin_store_op :: "nat \<Rightarrow> (nat \<times> bool) option" where
  "bin_store_op op =
     (if op = 0x01 then Some (MC_BINCMD_SET, False) else if op = 0x02 then Some (MC_BINCMD_ADD, False) else if op = 0x03 then Some (MC_BINCMD_REPLACE, False)
      else if op = 0x11 then Some (MC_BINCMD_SET, True) else if op = 0x12 then Some (MC_BINCMD_ADD, True) else if op = 0x13 then Some (MC_BINCMD_REPLACE, True)
      else None)"

definition bin_store_cmd :: "nat \<Rightarrow> u64 \<Rightarrow> nat" where
  "bin_store_cmd c cas = (if c = MC_BINCMD_SET \<and> cas \<noteq> 0 then MC_BINCMD_REPLACE else c)"

definition bin_store_result :: "env \<Rightarrow> nat \<Rightarrow> nat \<Rightarrow> bool \<Rightarrow> bytes \<Rightarrow> nat \<Rightarrow> nat \<Rightarrow> u64 \<Rightarrow> bytes \<Rightarrow> bytes \<Rightarrow> LsMemcache \<Rightarrow> (nat \<Rightarrow> bytes \<Rightarrow> bytes option) \<Rightarrow> LsMemcache \<Rightarrow> (nat \<Rightarrow> bytes \<Rightarrow> bytes option) \<Rightarrow> bool" where
  "bin_store_result E op cmd quiet key flg ex cas opaque val m f m' f' \<longleftrightarrow>
     (\<forall>k. k \<noteq> key \<longrightarrow> item_at E m' f' k = item_at E m f k) \<and>
     (case bin_refused E cmd cas (f (slice_of E m key)) key of
        Some st \<Rightarrow> out m' = out m @ bin_res op st [] [] (err_text st) opaque 0 \<and> item_at E m' f' key = item_at E m f key
      | None \<Rightarrow>
          (\<exists>t c. out m' = out m @ (if quiet then [] else bin_res op MC_BINSTAT_SUCCESS [] [] [] opaque (if m_usecas (m_mcparms m) then c else 0)) \<and>
            f' (slice_of E m key) key = Some (mk_value (m_usecas (m_mcparms m)) (adj_time t ((m_item m)\<lparr>it_flags := of_nat flg, it_exptime := int ex\<rparr>)) c val)) \<or>
          (out m' = out m @ bin_res op MC_BINSTAT_NOTSTORED [] [] (err_text MC_BINSTAT_NOTSTORED) opaque 0 \<and> item_at E m' f' key \<in> {None, item_at E m f key}))"

lemma bin_store_request:
  fixes key opaque rest val :: bytes and cas :: u64
  assumes i: "mc_inv E m f" and c: "bin_client m" and op: "bin_store_op op = Some (c0, quiet)" and u: "cas \<noteq> 0 \<longrightarrow> c0 \<noteq> MC_BINCMD_ADD \<and> m_usecas (m_mcparms m)"
    and k: "length key \<le> KEY_MAXLEN" "length opaque = 4" "flg < 2 ^ 32" "ex < 2 ^ 32" "24 + 8 + length key + length val < 2 ^ 31"
    and r: "bin_room E (bin_store_cmd c0 cas) key (length val) m" and ms: "isTidMaster (m_slices m ! slice_of E m key)"
  defines "req \<equiv> bin_req op (be_enc 4 flg @ be_enc 4 ex) key val opaque cas"
  shows "\<exists>m' f'. processBinCmd E oth (req @ rest) m = (int (length req), m') \<and> mc_inv E m' f' \<and> bin_client m' \<and> m_mcparms m' = m_mcparms m \<and>
    slice_of E m' = slice_of E m \<and> bin_store_result E op (bin_store_cmd c0 cas) quiet key flg ex cas opaque val m f m' f'"
proof -
  let ?x = "be_enc 4 flg @ be_enc 4 ex" and ?n = "length val" and ?i = "slice_of E m key" and ?u = "m_usecas (m_mcparms m)"
  let ?hdr = "req_hdr op ?x key val opaque cas" and ?cmd = "bin_store_cmd c0 cas"
  have cm: "setupNoreplyCmd op = (c0, quiet)" "op < 256" "c0 \<in> bin_stores" using op by (auto simp: bin_store_op_def setupNoreplyCmd_def cmd_codes split: if_splits)
  have cs: "?cmd \<in> bin_stores" using cm(3) by (auto simp: bin_store_cmd_def)
  define m0 where "m0 = m\<lparr>m_noreply := quiet\<rparr>"
  define m1 where "m1 = bin_state E key flg ex ?n m0"
  define m2 where "m2 = m1\<lparr>m_retcode := UPDRET_DONE, m_rescas := 0\<rparr>"
  have r0: "bin_room E ?cmd key ?n m0" "isTidMaster (m_slices m0 ! slice_of E m0 key)" using r ms by (simp_all add: m0_def bin_room_def parmAdjLen_def chkItemSize_def Let_def)
  let ?opt = "if ?cmd = MC_BINCMD_REPLACE then no_opt\<lparr>o_cmd := ?cmd, o_cas := cas\<rparr> else no_opt"
  note st = setupBinCmd_store [OF k cs r0, where op = op and cas = cas and rest = rest]
  have e2: "m_slices m2 = m_slices m" "m_mcparms m2 = m_mcparms m" "m_cur m2 = ?i" "mp_key m2 = key" "m_hkey m2 = m_hf E key" "m_rescas m2 = 0" "m_retcode m2 = UPDRET_DONE"
    "out m2 = out m" "m_conn m2 = m_conn m" "m_noreply m2 = quiet" "mp_vallen m2 = data_off ?u + ?n" "m_item m2 = (m_item m)\<lparr>it_flags := of_nat flg, it_exptime := int ex\<rparr>"
    by (simp_all add: m2_def m1_def m0_def bin_state_def out_def parmAdjLen_def)
  obtain R where ok: "slice_ok E m2 (f ?i) R" by (rule server_slice [OF i e2(1-3)])
  have g: "good m2" "items_ok ?u (f ?i)" using ok e2(2) by (auto simp: slice_ok_def)
  have p: "put_ok (getHash m2) key (None, mp_vallen m2)" using r e2(1,3,11) by (simp add: bin_room_def Let_def parmAdjLen_def add.commute)
  let ?buf = "req @ rest" and ?pv = "drop (32 + length key) (req @ rest)"
  have uc: "bh_cas ?hdr \<noteq> 0 \<longrightarrow> ?cmd = MC_BINCMD_REPLACE \<and> m_usecas (m_mcparms m2)" using u cm(3) e2(2) by (auto simp: req_hdr_def bin_store_cmd_def)
  have hc: "bh_cas ?hdr = cas" by (simp add: req_hdr_def)
  obtain h1 x rc m3 where w: "bin_switch E oth ?cmd ?buf ?hdr ?pv ?opt m2 = (True, doBinDataUpdate ?pv ?hdr m3)"
    and s3: "cur_step m2 m3" "getHash m3 = h1" "m_item m3 = m_item m2" "m_conn m3 = m_conn m2" "m_noreply m3 = m_noreply m2" "m_rescas m3 = m_rescas m2" "next_cas m3 = next_cas m2" "m_iterOff m3 = x" "m_retcode m3 = rc"
    and cse: "case bin_refused E ?cmd cas (f ?i) key of
       None \<Rightarrow> rc = UPDRET_DONE \<and> outcome E h1 (f ?i) R x key (mp_vallen m2)
     | Some st \<Rightarrow> x = 0 \<and> (hash_inv E h1 (f ?i) R \<or> live E (f ?i) key = None \<and> hash_inv E h1 ((f ?i)(key := None)) R) \<and> st = bin_ret rc"
    using bin_switch_store [OF ok e2(4,5) p cs uc _ e2(7), where opt = ?opt and oth = oth and buf = ?buf and pVal = ?pv] unfolding hc by blast
  define m' where "m' = doBinDataUpdate ?pv ?hdr m3"
  have "?pv = drop (8 + length key) (drop 24 ?buf)" by (simp only: drop_drop) simp
  also have "\<dots> = val @ rest" unfolding req_def bin_req_body(1) [OF k(2)] by simp
  finally have pv: "?n \<le> length ?pv" "take ?n ?pv = val" by simp_all
  have s3': "good m3" "\<not> cs_internal (m_conn m3)" "m_mcparms m3 = m_mcparms m" "m_rescas m3 = 0" "out m3 = out m" "cs_cmdwait (m_conn m3) = cs_cmdwait (m_conn m)"
    using s3 e2 g(1) c cur_step_good [OF s3(1)] by (auto simp: bin_client_def out_def cur_step_def)
  have "\<exists>mp'. cur_step m2 m' \<and> client m' \<and> cs_cmdwait (m_conn m') = cs_cmdwait (m_conn m) \<and> hash_inv E (getHash m') mp' R \<and> items_ok ?u mp' \<and> (\<forall>k. k \<noteq> key \<longrightarrow> mp' k = f ?i k) \<and>
    (case bin_refused E ?cmd cas (f ?i) key of
        Some st \<Rightarrow> out m' = out m @ bin_res op st [] [] (err_text st) opaque 0 \<and> live E mp' key = live E (f ?i) key
      | None \<Rightarrow>
          (\<exists>t c. out m' = out m @ (if quiet then [] else bin_res op MC_BINSTAT_SUCCESS [] [] [] opaque (if ?u then c else 0)) \<and>
            mp' key = Some (mk_value ?u (adj_time t ((m_item m)\<lparr>it_flags := of_nat flg, it_exptime := int ex\<rparr>)) c val)) \<or>
          (out m' = out m @ bin_res op MC_BINSTAT_NOTSTORED [] [] (err_text MC_BINSTAT_NOTSTORED) opaque 0 \<and> live E mp' key \<in> {None, live E (f ?i) key}))"
  proof (cases "bin_refused E ?cmd cas (f ?i) key")
    case (Some st)
    then have x: "m_iterOff m3 = 0" "st = bin_ret (m_retcode m3)" "hash_inv E h1 (f ?i) R \<or> live E (f ?i) key = None \<and> hash_inv E h1 ((f ?i)(key := None)) R" using cse s3 by auto
    note d = doBinDataUpdate_refused [OF x(1) s3'(2), where pVal = ?pv and hdr = ?hdr, folded m'_def x(2)]
    have o: "out m' = out m @ bin_res op st [] [] (err_text st) opaque 0" using d(5) s3'(5) by (simp add: req_hdr_def)
    have b: "cur_step m2 m'" "client m'" "cs_cmdwait (m_conn m') = cs_cmdwait (m_conn m)" "getHash m' = h1" using d cur_step_trans [OF s3(1) d(1)] s3(2) s3'(6) by auto
    from x(3) show ?thesis
    proof
      assume "hash_inv E h1 (f ?i) R"
      then show ?thesis using b o g(2) Some by (intro exI [of _ "f ?i"]) simp
    next
      assume "live E (f ?i) key = None \<and> hash_inv E h1 ((f ?i)(key := None)) R"
      then show ?thesis using b o g(2) Some by (intro exI [of _ "(f ?i)(key := None)"]) (simp add: live_removed)
    qed
  next
    case None
    then have rc: "m_retcode m3 = UPDRET_DONE" and oc: "outcome E (getHash m3) (f ?i) R (m_iterOff m3) key (data_off (m_usecas (m_mcparms m3)) + ?n)"
      using cse s3 e2(11) s3'(3) by auto
    have it: "items_ok (m_usecas (m_mcparms m3)) (f ?i)" using g(2) s3'(3) by simp
    note d = doBinDataUpdate_ok [OF s3'(1,2) oc it rc s3'(4) pv(1), where hdr = ?hdr, folded m'_def, unfolded pv(2)]
    have b: "cur_step m2 m'" "client m'" "cs_cmdwait (m_conn m') = cs_cmdwait (m_conn m)" using d(1-3) cur_step_trans [OF s3(1) d(1)] s3'(6) by auto
    from d(4) show ?thesis
    proof (elim disjE exE conjE)
      fix t
      let ?v = "mk_value ?u (adj_time t ((m_item m)\<lparr>it_flags := of_nat flg, it_exptime := int ex\<rparr>)) (next_cas m2) val"
      assume "out m' = out m3 @ (if m_noreply m3 then [] else bin_res (bh_opcode ?hdr) MC_BINSTAT_SUCCESS [] [] [] (bh_opaque ?hdr) (if m_usecas (m_mcparms m3) then next_cas m3 else 0))"
        "hash_inv E (getHash m') ((f ?i)(key \<mapsto> mk_value (m_usecas (m_mcparms m3)) (adj_time t (m_item m3)) (next_cas m3) val)) R"
      then have "out m' = out m @ (if quiet then [] else bin_res op MC_BINSTAT_SUCCESS [] [] [] opaque (if ?u then next_cas m2 else 0))" "hash_inv E (getHash m') ((f ?i)(key \<mapsto> ?v)) R"
        using s3 s3' e2(10,12) by (simp_all add: req_hdr_def)
      then show ?thesis using b g(2) None by (intro exI [of _ "(f ?i)(key \<mapsto> ?v)"]) auto
    next
      assume o: "out m' = out m3 @ bin_res (bh_opcode ?hdr) MC_BINSTAT_NOTSTORED [] [] (err_text MC_BINSTAT_NOTSTORED) (bh_opaque ?hdr) 0" and h: "hash_inv E (getHash m') (f ?i) R"
      then show ?thesis using b g(2) None s3'(5) by (intro exI [of _ "f ?i"]) (simp add: req_hdr_def)
    next
      assume o: "out m' = out m3 @ bin_res (bh_opcode ?hdr) MC_BINSTAT_NOTSTORED [] [] (err_text MC_BINSTAT_NOTSTORED) (bh_opaque ?hdr) 0" and h: "hash_inv E (getHash m') ((f ?i)(key := None)) R"
      then show ?thesis using b g(2) None s3'(5) by (intro exI [of _ "(f ?i)(key := None)"]) (simp add: req_hdr_def live_removed)
    qed
  qed
  then obtain mp' where mp': "cur_step m2 m'" "client m'" "cs_cmdwait (m_conn m') = cs_cmdwait (m_conn m)" "hash_inv E (getHash m') mp' R" "items_ok ?u mp'" "\<forall>k. k \<noteq> key \<longrightarrow> mp' k = f ?i k"
    and res: "case bin_refused E ?cmd cas (f ?i) key of
        Some st \<Rightarrow> out m' = out m @ bin_res op st [] [] (err_text st) opaque 0 \<and> live E mp' key = live E (f ?i) key
      | None \<Rightarrow>
          (\<exists>t c. out m' = out m @ (if quiet then [] else bin_res op MC_BINSTAT_SUCCESS [] [] [] opaque (if ?u then c else 0)) \<and>
            mp' key = Some (mk_value ?u (adj_time t ((m_item m)\<lparr>it_flags := of_nat flg, it_exptime := int ex\<rparr>)) c val)) \<or>
          (out m' = out m @ bin_res op MC_BINSTAT_NOTSTORED [] [] (err_text MC_BINSTAT_NOTSTORED) opaque 0 \<and> live E mp' key \<in> {None, live E (f ?i) key})"
    by (elim exE conjE)
  have ol: "k \<noteq> key \<Longrightarrow> live E mp' k = live E (f ?i) k" for k using mp'(6) by (simp add: live_def)
  note q = server_step_map [OF i e2(1-3) mp'(1) refl mp'(4,5) ol]
  obtain f' where f': "mc_inv E m' f'" "item_at E m' f' = (item_at E m f)(key := live E mp' key)" "f' ?i = mp'" using q(1) by blast
  have it: "item_at E m f key = live E (f ?i) key" by (simp add: item_at_def)
  have bc: "bin_client m'" using mp'(2,3) c by (simp add: bin_client_def client_def)
  have "bin_store_result E op ?cmd quiet key flg ex cas opaque val m f m' f'"
  proof -
    have ik: "item_at E m' f' key = live E mp' key" using f'(2) by simp
    show ?thesis unfolding bin_store_result_def f'(3) ik it by (intro conjI allI impI res) (simp add: f'(2))
  qed
  moreover have "processBinCmd E oth ?buf m = (int (length req), m')"
    using processBinCmd_req [where E = E and m = m and op = op and extras = ?x and val = val and key = key and opaque = opaque and cas = cas and rest = rest and oth = oth
      and pVal = "32 + length key" and opt = ?opt and ?m1.0 = m1 and ?m2.0 = m'] k cm(1,2) st w bc
    by (simp add: m2_def m1_def m0_def m'_def Let_def lay_simps req_def bin_client_def flip: bin_store_cmd_def)
  ultimately show ?thesis using f'(1) bc q(2,3) by blast
qed

lemma bin_set_stored:
  assumes "bin_store_result E 0x01 MC_BINCMD_SET False key flg 0 0 opaque val m f m' f'" "slice_of E m' = slice_of E m"
  shows "out m' = out m @ bin_res 0x01 MC_BINSTAT_NOTSTORED [] [] (err_text MC_BINSTAT_NOTSTORED) opaque 0 \<or>
    (\<exists>c v. out m' = out m @ bin_res 0x01 MC_BINSTAT_SUCCESS [] [] [] opaque c \<and> item_at E m' f' key = Some v \<and> x_flags v = of_nat flg \<and>
      item_data (m_usecas (m_mcparms m)) v = val \<and> c = (if m_usecas (m_mcparms m) then x_cas v else 0))"
proof -
  have "bin_refused E MC_BINCMD_SET 0 (f (slice_of E m key)) key = None" by (auto simp: bin_refused_def cmd_codes split: option.splits)
  then consider "out m' = out m @ bin_res 0x01 MC_BINSTAT_NOTSTORED [] [] (err_text MC_BINSTAT_NOTSTORED) opaque 0"
    | t c where "out m' = out m @ bin_res 0x01 MC_BINSTAT_SUCCESS [] [] [] opaque (if m_usecas (m_mcparms m) then c else 0)"
      "f' (slice_of E m key) key = Some (mk_value (m_usecas (m_mcparms m)) (adj_time t ((m_item m)\<lparr>it_flags := of_nat flg, it_exptime := 0\<rparr>)) c val)"
    using assms(1) unfolding bin_store_result_def by auto
  then show ?thesis
  proof cases
    case 2
    let ?it = "(m_item m)\<lparr>it_flags := of_nat flg, it_exptime := 0\<rparr>"
    let ?v = "mk_value (m_usecas (m_mcparms m)) ?it c val"
    note v = mk_value_fields [of ?it "m_usecas (m_mcparms m)" c val, simplified]
    have "f' (slice_of E m' key) key = Some ?v" using 2 assms(2) by (simp add: adj_time_def)
    then have "item_at E m' f' key = Some ?v" using v(1) by (simp add: item_at_def live_def isExpired_def)
    then show ?thesis using 2(1) v by (intro disjI2 exI [of _ "if m_usecas (m_mcparms m) then c else 0"] exI [of _ ?v]) auto
  qed simp
qed

section \<open>A request that is not consumed\<close>

text \<open>The number of consumed bytes is computed in a signed 32-bit integer. A body length between \<open>2^31 - 24\<close>
  and \<open>2^32 - 25\<close> makes it negative.\<close>

lemma consumed_negative:
  assumes "2 ^ 31 \<le> 24 + n" "24 + n < 2 ^ 32"
  shows "sint (of_nat (24 + n) :: u32) = int (24 + n) - 2 ^ 32"
proof -
  have "uint (of_nat (24 + n) :: u32) = int (24 + n)" using assms(2) by (intro uint_of_nat_u32) simp
  moreover have "signed_take_bit 31 (int (24 + n)) = int (24 + n) - 2 ^ 32"
  proof -
    have "take_bit 32 (int (24 + n) + 2 ^ 31) = int (24 + n) + 2 ^ 31 - 2 ^ 32"
    proof -
      have "(int (24 + n) + 2 ^ 31) mod 2 ^ 32 = (int (24 + n) + 2 ^ 31 - 2 ^ 32) mod 2 ^ 32" by (rule minus_mod_self2 [symmetric])
      also have "\<dots> = int (24 + n) + 2 ^ 31 - 2 ^ 32" using assms by (intro mod_pos_pos_trivial) auto
      finally show ?thesis by (simp add: take_bit_eq_mod)
    qed
    then show ?thesis by (simp add: signed_take_bit_eq_take_bit_shift)
  qed
  ultimately show ?thesis by (simp add: sint_uint)
qed

definition noop_hdr :: "nat \<Rightarrow> bytes \<Rightarrow> bytes" where
  "noop_hdr n opaque = [CHR 0x80, CHR 0x0a] @ be_enc 2 0 @ [CHR 0x00, CHR 0x00] @ be_enc 2 0 @ be_enc 4 n @ opaque @ be_enc 8 0"

lemma noop_long:
  assumes "2 ^ 31 \<le> 24 + n" "24 + n < 2 ^ 32" "length opaque = 4" "bin_client m"
  shows "\<exists>m'. processBinCmd E oth (noop_hdr n opaque @ rest) m = (int (24 + n) - 2 ^ 32, m') \<and> m_slices m' = m_slices m \<and>
    out m' = out m @ bin_res 0x0a MC_BINSTAT_SUCCESS [] [] [] opaque 0"
proof -
  let ?b = "noop_hdr n opaque @ rest"
  let ?h = "\<lparr>bh_opcode = 0x0a, bh_keylen = 0, bh_extralen = 0, bh_totbody = n, bh_opaque = opaque, bh_cas = 0\<rparr> :: McBinCmdHdr"
  have r: "rd ?b 2 2 = be_enc 2 0" "rd ?b 8 4 = be_enc 4 n" "rd ?b 12 4 = opaque" "rd ?b 16 8 = be_enc 8 0" "byte_at ?b 1 = CHR 0x0a" "byte_at ?b 4 = CHR 0x00"
    using assms(3) by (simp_all add: noop_hdr_def rd_def byte_at_def nth_append)
  have h: "parse_hdr ?b = ?h" using assms(2) swap64_read [of 0] by (simp add: parse_hdr_def r be_dec_enc flip: One_nat_def)
  have l: "length ?b = 24 + length rest" using assms(3) by (simp add: noop_hdr_def)
  have c: "sint (of_nat (sizeof_BinHdr + bh_totbody ?h) :: u32) = int (24 + n) - 2 ^ 32" using consumed_negative [OF assms(1,2)] by (simp add: lay_simps)
  have neg: "int (24 + n) - 2 ^ 32 < 0" using assms(2) by simp
  have sn: "setupNoreplyCmd 0x0a = (0x0a, False)" by (simp add: setupNoreplyCmd_def)
  define m1 where "m1 = (setSlice E [] (m\<lparr>m_noreply := False, mp_key := []\<rparr>))\<lparr>mp_vallen := sub32 (sub32 n 0) 0\<rparr>"
  define m2 where "m2 = m1\<lparr>m_retcode := UPDRET_DONE, m_rescas := 0\<rparr>"
  have n0: "n \<noteq> 0" using assms(1) by (intro notI) simp
  have sb: "setupBinCmd E 0x0a ?b ?h (m\<lparr>m_noreply := False\<rparr>) = (Setup_Ok 24 no_opt, m1)"
    using n0 by (simp add: setupBinCmd_def route_def isRemoteEligible_def setup_switch_def cmd_codes MC_BINCMD_TOUCH_def MC_BINCMD_GAT_def MC_BINCMD_GATK_def MC_BINCMD_VERBOSITY_def Let_def lay_simps m1_def rd_def)
  have sw: "bin_switch E oth 0x0a ?b ?h pv opt m2 = (True, binOkRespond ?h m2)" for pv opt
    by (simp add: bin_switch_def Let_def cmd_codes MC_BINCMD_TOUCH_def MC_BINCMD_GAT_def MC_BINCMD_GATK_def MC_BINCMD_GET_def MC_BINCMD_GETK_def MC_BINCMD_GETKQ_def MC_BINCMD_QUIT_def MC_BINCMD_NOOP_def)
  have c2: "client m2" "out m2 = out m" "m_slices m2 = m_slices m" "m_rescas m2 = 0" "\<not> cs_cmdwait (m_conn m2)" using assms(4) by (simp_all add: m2_def m1_def client_def bin_client_def out_def)
  note o = binOkRespond_ok [OF c2(1), where hdr = ?h]
  have "processBinCmd E oth ?b m = (int (24 + n) - 2 ^ 32, binOkRespond ?h m2)"
    unfolding processBinCmd_def Let_def h c using l neg c2(5) by (simp add: sn sb sw cmd_codes lay_simps flip: m2_def)
  then show ?thesis using o c2 by simp
qed

section \<open>Properties of the binary protocol\<close>

lemma w_bin_ok: "bin_client w_mc"
  by (simp add: bin_client_def w_mc_def)

lemma w_bin_room: "key \<noteq> [] \<Longrightarrow> length key \<le> 250 \<Longrightarrow> n \<le> 1000000 \<Longrightarrow> bin_room w_env cmd key n w_mc"
proof -
  assume a: "key \<noteq> []" "length key \<le> 250" "n \<le> 1000000"
  have "elem_size w_hash (length key) (n + 24) \<le> 100000000" using a by (simp add: w_fits round4_def)
  moreover have "w \<le> (- 1 :: u32)" for w by (rule word_n1_ge)
  ultimately show ?thesis using a by (simp add: bin_room_def Let_def put_ok_def val_ok_def w_slices chkItemSize_def)
qed

text \<open>
  C29: the header of a request is read as the client wrote it: opcode, key length, extras length, body
  length and the 64-bit cas arrive in network byte order, and the opaque bytes are kept. The
  shift loop of \<open>swap64\<close> is byte reversal for every value.
\<close>

theorem bin_header_roundtrip:
  assumes "op < 256" "length extras < 256" "length key < 2 ^ 16" "length extras + length key + length val < 2 ^ 32" "length opaque = 4"
  shows "parse_hdr (bin_req op extras key val opaque cas @ rest) =
    \<lparr>bh_opcode = op, bh_keylen = length key, bh_extralen = length extras, bh_totbody = length extras + length key + length val,
     bh_opaque = opaque, bh_cas = cas\<rparr>"
  using parse_hdr_req [OF assms] by (simp add: req_hdr_def)

theorem bin_header_roundtrip_witness:
  "parse_hdr (bin_req 1 ''abcdefgh'' ''k'' ''xy'' ''1234'' 7 @ ''rest'') =
    \<lparr>bh_opcode = 1, bh_keylen = length ''k'', bh_extralen = length ''abcdefgh'', bh_totbody = length ''abcdefgh'' + length ''k'' + length ''xy'',
     bh_opaque = ''1234'', bh_cas = 7\<rparr>"
  by (rule bin_header_roundtrip) simp_all





text \<open>
  C11: what a binary \<open>SET\<close> stored, a binary \<open>GET\<close> returns: after a \<open>SET\<close> without expiration that was
  answered with success, the next \<open>GET\<close> of the key answers the same flags and the same data,
  with the cas that the \<open>SET\<close> announced.
\<close>

theorem bin_set_get_roundtrip:
  fixes key opaque opaque2 rest rest2 val :: bytes
  assumes "mc_inv E m f" "bin_client m" "key \<noteq> []" "length key \<le> KEY_MAXLEN" "length opaque = 4" "length opaque2 = 4" "flg < 2 ^ 32"
    and "24 + 8 + length key + length val < 2 ^ 31" "bin_room E MC_BINCMD_SET key (length val) m" "isTidMaster (m_slices m ! slice_of E m key)"
  defines "req \<equiv> bin_req 0x01 (be_enc 4 flg @ be_enc 4 0) key val opaque 0" and "req2 \<equiv> bin_req 0x00 [] key [] opaque2 0"
  shows "\<exists>m1 m2. processBinCmd E oth (req @ rest) m = (int (length req), m1) \<and> processBinCmd E oth (req2 @ rest2) m1 = (int (length req2), m2) \<and>
    (out m1 = out m @ bin_res 0x01 MC_BINSTAT_NOTSTORED [] [] (err_text MC_BINSTAT_NOTSTORED) opaque 0 \<or>
     (\<exists>c. out m1 = out m @ bin_res 0x01 MC_BINSTAT_SUCCESS [] [] [] opaque c \<and>
        out m2 = out m1 @ bin_res 0x00 MC_BINSTAT_SUCCESS (be_enc 4 flg) [] val opaque2 c))"
proof -
  have c: "bin_store_cmd MC_BINCMD_SET 0 = MC_BINCMD_SET" "bin_store_op 0x01 = Some (MC_BINCMD_SET, False)" by (simp_all add: bin_store_cmd_def bin_store_op_def)
  have r: "bin_room E (bin_store_cmd MC_BINCMD_SET 0) key (length val) m" using assms(9) c(1) by simp
  obtain m1 f1 where m1: "processBinCmd E oth (req @ rest) m = (int (length req), m1)" "mc_inv E m1 f1" "bin_client m1" "m_mcparms m1 = m_mcparms m" "slice_of E m1 = slice_of E m"
    "bin_store_result E 0x01 MC_BINCMD_SET False key flg 0 0 opaque val m f m1 f1"
    using bin_store_request [OF assms(1,2) c(2) _ assms(4,5,7) _ assms(8) r assms(10), where oth = oth and rest = rest and ex = 0] c(1) unfolding req_def by auto
  obtain m2 where m2: "processBinCmd E oth (req2 @ rest2) m1 = (int (length req2), m2)"
    "out m2 = out m1 @ bin_get_reply 0x00 False (m_usecas (m_mcparms m)) key opaque2 (item_at E m1 f1 key)"
    using bin_get_request [OF m1(2,3) _ assms(3,4,6), where op = 0 and wk = False and oth = oth and cas = 0 and rest = rest2] m1(4) unfolding req2_def by auto
  show ?thesis using bin_set_stored [OF m1(6,5)] m1(1) m2 assms(7)
    by (intro exI [of _ m1] exI [of _ m2]) (auto simp: bin_get_reply_def unat_of_nat_u32)
qed

theorem bin_set_get_roundtrip_witness:
  "\<exists>m1 m2. processBinCmd w_env (\<lambda>_ _ m. m) (bin_req 0x01 (be_enc 4 7 @ be_enc 4 0) ''k'' ''xy'' ''abcd'' 0 @ []) w_mc =
      (int (length (bin_req 0x01 (be_enc 4 7 @ be_enc 4 0) ''k'' ''xy'' ''abcd'' 0)), m1) \<and>
    processBinCmd w_env (\<lambda>_ _ m. m) (bin_req 0x00 [] ''k'' [] ''efgh'' 0 @ []) m1 = (int (length (bin_req 0x00 [] ''k'' [] ''efgh'' 0)), m2) \<and>
    (out m1 = out w_mc @ bin_res 0x01 MC_BINSTAT_NOTSTORED [] [] (err_text MC_BINSTAT_NOTSTORED) ''abcd'' 0 \<or>
     (\<exists>c. out m1 = out w_mc @ bin_res 0x01 MC_BINSTAT_SUCCESS [] [] [] ''abcd'' c \<and>
        out m2 = out m1 @ bin_res 0x00 MC_BINSTAT_SUCCESS (be_enc 4 7) [] ''xy'' ''efgh'' c))"
  by (rule bin_set_get_roundtrip [OF w_mc_ok(1) w_bin_ok]) (simp_all add: lay_simps w_mc_ok w_bin_room)



end
