(* ===== verification/McTidPkt.thy ===== *)
theory McTidPkt
  imports McItem
begin

text \<open>
  Replication packets (\<^verbatim>\<open>memcache/lsmemcache.cpp\<close>): a master packs the changes behind a transaction
  id into a buffer (\<open>tidGetNxtItems\<close>), a slave applies such a buffer (\<open>tidSetItems\<close>).

  A packet is a 16-byte header (size, flags, type, key size, transaction id), followed by value size,
  hash key, timestamp, key and value for an addition, or by the deleted id.
\<close>

section \<open>Packets\<close>

definition sizeof_PktHdr :: nat where [lay_simps]: "sizeof_PktHdr = 16"
definition sizeof_TidAdd :: nat where [lay_simps]: "sizeof_TidAdd = 12"
definition sizeof_TidDel :: nat where [lay_simps]: "sizeof_TidDel = 8"
definition LSSHM_PKTADD :: nat where "LSSHM_PKTADD = 0"
definition LSSHM_PKTDEL :: nat where "LSSHM_PKTDEL = 1"

record LsShmPktHdr =
  pk_iSize :: nat
  pk_type :: nat
  pk_iKeySz :: nat
  pk_tid :: u64

definition pkt_hdr :: "nat \<Rightarrow> nat \<Rightarrow> nat \<Rightarrow> u64 \<Rightarrow> bytes" where
  "pkt_hdr iSize type1 iKeySz tid =
     le_enc 4 iSize @ [CHR 0x00, char_of type1] @ le_enc 2 iKeySz @ le_enc 8 (unat tid)"

definition parse_pkt :: "bytes \<Rightarrow> LsShmPktHdr" where
  "parse_pkt b =
     \<lparr>pk_iSize = le_dec (rd b 0 4), pk_type = of_char (byte_at b 5), pk_iKeySz = le_dec (rd b 6 2),
      pk_tid = of_nat (le_dec (rd b 8 8))\<rparr>"

definition tidAddPktSize :: "LsShmHElem \<Rightarrow> nat" where
  "tidAddPktSize pElem = round4 (sizeof_PktHdr + sizeof_TidAdd + length (e_key pElem) + e_valLen pElem)"

definition tidDelPktSize :: nat where
  "tidDelPktSize = round4 (sizeof_PktHdr + sizeof_TidDel)"

text \<open>The bytes behind the value up to the rounded size are not written; here they are zero.\<close>

definition iter2tidPack :: "LsShmHElem \<Rightarrow> u64 \<Rightarrow> nat \<Rightarrow> bytes" where
  "iter2tidPack pElem tid totSz =
     (let body = pkt_hdr totSz LSSHM_PKTADD (length (e_key pElem)) tid @
                 le_enc 4 (e_valLen pElem) @ le_enc 4 (unat (x_hkey pElem)) @ le_enc 4 0 @
                 e_key pElem @ take (e_valLen pElem) (e_val pElem)
      in body @ replicate (totSz - length body) CHR 0x00)"

definition del2tidPack :: "u64 \<Rightarrow> u64 \<Rightarrow> nat \<Rightarrow> bytes" where
  "del2tidPack val tid totSz = pkt_hdr totSz LSSHM_PKTDEL 0 tid @ le_enc 8 (unat val)"

section \<open>Reading changes\<close>

datatype nxt_res = Nxt_None | Nxt_Error | Nxt_Short nat | Nxt_Pkt bytes u64 "off option"

text \<open>
  \<open>getNxtTidItem\<close>: the next change behind \<open>tid\<close>. Expired elements are erased on the way, which
  bounds the loop by the number of elements.
\<close>

fun getNxtTid_loop :: "nat \<Rightarrow> env \<Rightarrow> u64 \<Rightarrow> off option \<Rightarrow> nat \<Rightarrow> LsShmHash \<Rightarrow> nxt_res \<times> LsShmHash" where
  "getNxtTid_loop 0 E tid blk iBufSz h = (Nxt_None, h)"
| "getNxtTid_loop (Suc k) E tid blk iBufSz h =
     (case nxtTidTblVal h tid blk of
        None \<Rightarrow> (Nxt_None, h)
      | Some (tid, val, blk) \<Rightarrow>
          if isTidValIterOff val then
            (case offset2iterator (tidVal2iterOff val) h of
               (None, h) \<Rightarrow> (Nxt_Error, h)
             | (Some pElem, h) \<Rightarrow>
                 if isExpired E (e_val pElem) then
                   getNxtTid_loop k E tid None iBufSz (eraseIteratorHelper E (tidVal2iterOff val) h)
                 else
                   let totSz = tidAddPktSize pElem in
                   if totSz > iBufSz then (Nxt_Short totSz, h)
                   else (Nxt_Pkt (iter2tidPack pElem tid totSz) tid (Some blk), h))
          else
            let totSz = tidDelPktSize in
            if totSz > iBufSz then (Nxt_Short totSz, h)
            else (Nxt_Pkt (del2tidPack val tid totSz) tid (Some blk), h))"

definition getNxtTidItem :: "env \<Rightarrow> u64 \<Rightarrow> off option \<Rightarrow> nat \<Rightarrow> LsShmHash \<Rightarrow> nxt_res \<times> LsShmHash" where
  "getNxtTidItem E tid blk iBufSz h = getNxtTid_loop (Suc (x_iSize h)) E tid blk iBufSz h"

text \<open>
  \<open>tidGetNxtItems\<close>: the packets that fit, the code's result (their size, or the answer of the last
  call when there are none), and the last transaction id read. Every packet takes at least 24 bytes
  of the buffer, so its size bounds the loop.
\<close>

fun tidGet_loop :: "nat \<Rightarrow> env \<Rightarrow> u64 \<Rightarrow> off option \<Rightarrow> nat \<Rightarrow> bytes \<Rightarrow> LsShmHash \<Rightarrow> (bytes \<times> int \<times> u64) \<times> LsShmHash" where
  "tidGet_loop 0 E tid blk iBufSz acc h = ((acc, 0, tid), h)"
| "tidGet_loop (Suc k) E tid blk iBufSz acc h =
     (case getNxtTidItem E tid blk iBufSz h of
        (Nxt_Pkt pkt tid blk, h) \<Rightarrow> tidGet_loop k E tid blk (iBufSz - length pkt) (acc @ pkt) h
      | (Nxt_None, h) \<Rightarrow> ((acc, if acc = [] then 0 else int (length acc), ti_tid h), h)
      | (Nxt_Error, h) \<Rightarrow> ((acc, if acc = [] then -1 else int (length acc), tid), h)
      | (Nxt_Short n, h) \<Rightarrow> ((acc, if acc = [] then - int n else int (length acc), tid), h))"

definition tidGetNxtItems :: "env \<Rightarrow> u64 \<Rightarrow> nat \<Rightarrow> LsShmHash \<Rightarrow> (bytes \<times> int \<times> u64) \<times> LsShmHash" where
  "tidGetNxtItems E tidLast iBufSz h = tidGet_loop (Suc iBufSz) E tidLast None iBufSz [] h"

section \<open>Applying changes\<close>

definition setTidItem :: "env \<Rightarrow> bytes \<Rightarrow> LsShmHash \<Rightarrow> bool \<times> LsShmHash" where
  "setTidItem E pkt h =
     (let hdr = parse_pkt pkt;
          iValSz = le_dec (rd pkt sizeof_PktHdr 4);
          pData = sizeof_PktHdr + sizeof_TidAdd
      in tid_setIter E (rd pkt pData (pk_iKeySz hdr))
           (Some (rd pkt (pData + pk_iKeySz hdr) iValSz), iValSz) (pk_tid hdr) h)"

text \<open>
  \<open>delTidItem\<close>: \<open>rest\<close> is the buffer behind the packet. An element that the next packet sets
  again is kept.
\<close>

definition delTidItem :: "env \<Rightarrow> bytes \<Rightarrow> bytes \<Rightarrow> LsShmHash \<Rightarrow> bool \<times> LsShmHash" where
  "delTidItem E pkt rest h =
     (let hdr = parse_pkt pkt;
          delTid = of_nat (le_dec (rd pkt sizeof_PktHdr 8));
          (ok, h) =
            (if delTid = TIDDEL_FLUSHALL then (True, hash_clear E h)
             else
               let offElem = tid2iterOff h delTid in
               if offElem \<noteq> 0 then
                 case offset2iterator offElem h of
                   (None, h) \<Rightarrow> (False, h)
                 | (Some pElem, h) \<Rightarrow>
                     if length rest \<le> sizeof_PktHdr \<or> length rest < pk_iSize (parse_pkt rest)
                        \<or> pk_type (parse_pkt rest) \<noteq> LSSHM_PKTADD
                        \<or> rd rest (sizeof_PktHdr + sizeof_TidAdd) (length (e_key pElem)) \<noteq> e_key pElem
                     then (True, tid_delIter E offElem h) else (True, h)
               else (True, h))
      in
      if \<not> ok then (False, h)
      else case setTidTblEnt E delTid (pk_tid hdr) h of (r, h) \<Rightarrow> (r \<noteq> None, h))"

fun tidSet_loop :: "nat \<Rightarrow> env \<Rightarrow> bytes \<Rightarrow> nat \<Rightarrow> LsShmHash \<Rightarrow> nat \<times> LsShmHash" where
  "tidSet_loop 0 E buf n h = (n, h)"
| "tidSet_loop (Suc k) E buf n h =
     (let hdr = parse_pkt buf in
      if length buf > sizeof_PktHdr \<and> length buf \<ge> pk_iSize hdr then
        if pk_tid hdr \<le> ti_tid h then (n, h)
        else
          let (ok, h) = (if pk_type hdr = LSSHM_PKTADD then setTidItem E buf h
                         else delTidItem E buf (drop (pk_iSize hdr) buf) h)
          in if \<not> ok then (n, h) else tidSet_loop k E (drop (pk_iSize hdr) buf) (n + pk_iSize hdr) h
      else (n, h))"

definition tidSetItems :: "env \<Rightarrow> bytes \<Rightarrow> LsShmHash \<Rightarrow> nat \<times> LsShmHash" where
  "tidSetItems E buf h = tidSet_loop (length buf + 2) E buf 0 h"

end
