(* ===== verification/LsShmTidSeq.thy ===== *)
theory LsShmTidSeq
  imports LsShmHashMap
begin

text \<open>
  The transaction-id table as a log. The blocks of the table hold consecutive runs of 1024 ids, the
  first one the run of the last id before the table was cleared. Under this invariant
  (\<open>tid_seq\<close>) an id is looked up in the block that holds it, a new entry gets the next id, and the
  scan that replication uses returns the entries in the order of their ids.
\<close>

section \<open>The log of a table\<close>

definition tid_run0 :: "LsShmHash \<Rightarrow> nat" where
  "tid_run0 h = unat (x_lastTidPreClear h) div 1024"

lemma tid_run0_upd [simp]: "tid_run0 (h\<lparr>h_blks := B\<rparr>) = tid_run0 h" "tid_run0 (h\<lparr>ti_tid := t\<rparr>) = tid_run0 h"
  by (simp_all add: tid_run0_def)

lemma unat_u64_of_nat: "n < 2 ^ 64 \<Longrightarrow> unat (of_nat n :: u64) = n"
  by (simp add: unat_of_nat)

lemma unat_u64_Suc: "(t::u64) < 2 ^ 63 \<Longrightarrow> unat (t + 1) = Suc (unat t)"
  by (simp add: word_less_nat_alt unat_word_ariths)

lemma run_div: "j < 1024 \<Longrightarrow> (1024 * q + j) div 1024 = (q::nat)" "j < 1024 \<Longrightarrow> (1024 * q + j) mod 1024 = (j::nat)"
  by simp_all

lemma run_place:
  assumes "j < 1024" "(p::nat) \<le> t div 1024"
  shows "(t = 1024 * (p + i) + j) = (t div 1024 - p = i \<and> t mod 1024 = j)"
  using run_div [OF assms(1), of "p + i"] assms(2)
  by (metis add_diff_cancel_left' le_add_diff_inverse mult_div_mod_eq)

definition tid_log :: "LsShmHash \<Rightarrow> off list \<Rightarrow> nat \<Rightarrow> u64" where
  "tid_log h tbs t =
     (if tid_run0 h \<le> t div 1024 \<and> t div 1024 - tid_run0 h < length tbs then
        (case h_blks h (tbs ! (t div 1024 - tid_run0 h)) of None \<Rightarrow> 0 | Some b \<Rightarrow> x_iTidVals b ! (t mod 1024))
      else 0)"

definition tid_blk :: "LsShmHash \<Rightarrow> off list \<Rightarrow> nat \<Rightarrow> LsShmTidTblBlk \<Rightarrow> bool" where
  "tid_blk h tbs i b \<longleftrightarrow> h_blks h (tbs ! i) = Some b \<and> length (x_iTidVals b) = 1024 \<and>
     x_tidBase b = of_nat (1024 * (tid_run0 h + i)) \<and> b_iNext b = (if Suc i < length tbs then tbs ! Suc i else 0)"

definition tid_seq :: "block multiset \<Rightarrow> block multiset \<Rightarrow> LsShmHash \<Rightarrow> off list \<Rightarrow> bool" where
  "tid_seq M R h tbs \<longleftrightarrow> tid_wf h tbs \<and> owns (h_pool h) (M + tid_blocks h tbs) R \<and>
     (\<forall>i<length tbs. \<exists>b. tid_blk h tbs i b) \<and>
     Suc (unat (ti_tid h)) div 1024 \<le> tid_run0 h + length tbs \<and>
     (tbs \<noteq> [] \<longrightarrow> tid_run0 h + length tbs \<le> Suc (Suc (unat (ti_tid h)) div 1024)) \<and>
     x_lastTidPreClear h \<le> ti_tid h \<and> ti_tid h < 2 ^ 63 \<and>
     (\<forall>s. tid_log h tbs s \<noteq> 0 \<longrightarrow> unat (x_lastTidPreClear h) < s \<and> s \<le> unat (ti_tid h))"

lemma tid_seq_nil: "tid_seq M R h [] \<longleftrightarrow> tid_wf h [] \<and> owns (h_pool h) M R \<and>
    Suc (unat (ti_tid h)) div 1024 \<le> tid_run0 h \<and> x_lastTidPreClear h \<le> ti_tid h \<and> ti_tid h < 2 ^ 63"
  by (auto simp: tid_seq_def tid_blocks_def tid_log_def)

lemma tid_seq_mapped:
  assumes "tid_seq M R h tbs" "i < length tbs"
  obtains b where "tid_blk h tbs i b" "blk_at h (tbs ! i) = Some b" "tbs ! i \<noteq> 0"
proof -
  obtain b where b: "tid_blk h tbs i b" using assms by (auto simp: tid_seq_def)
  have o: "owns (h_pool h) (M + tid_blocks h tbs) R" using assms by (simp add: tid_seq_def)
  have "(tbs ! i, sizeof_TidTblBlk) \<in># M + tid_blocks h tbs" using assms(2) by (auto simp: tid_blocks_def)
  note ob = owns_block(5,7) [OF o this]
  show thesis using that [OF b] b ob by (simp add: tid_blk_def blk_at_def)
qed

lemma tid_seq_idx:
  assumes s: "tid_seq M R h tbs" and n: "tbs \<noteq> []"
  shows "offset2ptr (h_pool h) (x_iBlkIdxOff h)" "x_iBlkIdxOff h \<noteq> 0" "i < length tbs \<Longrightarrow> h_blkidx h ! i = tbs ! i"
proof -
  have o: "owns (h_pool h) (M + tid_blocks h tbs) R" using s by (simp add: tid_seq_def)
  have "(x_iBlkIdxOff h, LSSHMTID_BLKIDX_SIZE (blkidx_cnt (length tbs))) \<in># M + tid_blocks h tbs" using n by (auto simp: tid_blocks_def)
  note ob = owns_block(5,7) [OF o this]
  show "offset2ptr (h_pool h) (x_iBlkIdxOff h)" "x_iBlkIdxOff h \<noteq> 0" by (rule ob)+
  have "take (length tbs) (h_blkidx h) = tbs" using s n by (simp add: tid_seq_def tid_wf_def)
  then show "i < length tbs \<Longrightarrow> h_blkidx h ! i = tbs ! i" by (metis nth_take)
qed

lemma tid_seq_distinct:
  assumes "tid_seq M R h tbs" "i < length tbs" "j < length tbs" "tbs ! i = tbs ! j"
  shows "i = j"
proof -
  obtain b where b: "tid_blk h tbs i b" using assms by (auto simp: tid_seq_def)
  obtain c where c: "tid_blk h tbs j c" using assms by (auto simp: tid_seq_def)
  have *: "tid_run0 h + length tbs \<le> Suc (Suc (unat (ti_tid h)) div 1024)" "unat (ti_tid h) < 2 ^ 63"
    using assms by (auto simp: tid_seq_def word_less_nat_alt)
  have "of_nat (1024 * (tid_run0 h + i)) = (of_nat (1024 * (tid_run0 h + j)) :: u64)"
    using b c assms(4) by (auto simp: tid_blk_def)
  moreover have "1024 * (tid_run0 h + i) < 2 ^ 64" "1024 * (tid_run0 h + j) < 2 ^ 64" using * assms by auto
  ultimately have "1024 * (tid_run0 h + i) = 1024 * (tid_run0 h + j)" by (metis unat_u64_of_nat)
  then show ?thesis by simp
qed

section \<open>Lookup\<close>

lemma tid2tblBlk_seq:
  fixes t :: u64
  assumes s: "tid_seq M R h tbs"
  defines "i \<equiv> (if t < x_lastTidPreClear h then 0 else unat t div 1024 - tid_run0 h)"
  shows "tid2tblBlk h t = (if i < length tbs then Some (tbs ! i) else None)"
proof (cases "tbs = []")
  case True
  then show ?thesis using s by (simp add: tid2tblBlk_def tid_seq_def tid_wf_def Let_def)
next
  case False
  note ix = tid_seq_idx [OF s False]
  have c: "x_iBlkCnt h = length tbs" using s by (simp add: tid_seq_def tid_wf_def)
  define u where "u = (if t < x_lastTidPreClear h then x_lastTidPreClear h else t)"
  have i: "unat u div 1024 - unat (x_lastTidPreClear h) div 1024 = i" by (simp add: u_def i_def tid_run0_def)
  show ?thesis
  proof (cases "i < length tbs")
    case True
    obtain b where "blk_at h (tbs ! i) = Some b" by (rule tid_seq_mapped [OF s True])
    then show ?thesis using True ix c i unfolding tid2tblBlk_def u_def [symmetric] Let_def by simp
  next
    case False
    then show ?thesis using c i unfolding tid2tblBlk_def u_def [symmetric] Let_def by simp
  qed
qed

lemma tid2iterOff_seq:
  assumes s: "tid_seq M R h tbs" and t: "x_lastTidPreClear h \<le> t"
  shows "tid2iterOff h t = (if isTidValIterOff (tid_log h tbs (unat t)) then tidVal2iterOff (tid_log h tbs (unat t)) else 0)"
proof -
  have le: "tid_run0 h \<le> unat t div 1024" using t by (simp add: tid_run0_def word_le_nat_alt div_le_mono)
  show ?thesis
  proof (cases "unat t div 1024 - tid_run0 h < length tbs")
    case True
    obtain b where "tid_blk h tbs (unat t div 1024 - tid_run0 h) b" by (rule tid_seq_mapped [OF s True])
    then show ?thesis using True le t [folded not_less]
      by (simp add: tid2iterOff_def tid2tblBlk_seq [OF s] tid_log_def tid_blk_def lay_simps Let_def)
  next
    case False
    then show ?thesis using t by (auto simp: tid2iterOff_def tid2tblBlk_seq [OF s] tid_log_def isTidValIterOff_def)
  qed
qed

section \<open>New entries\<close>

text \<open>A change of one block that keeps its place in the table.\<close>

lemma tid_seq_upd:
  assumes s: "tid_seq M R h tbs" and i: "i < length tbs" and j: "j < 1024"
    and f: "\<And>b. x_iTidVals (f b) = (x_iTidVals b)[j := v] \<and> x_tidBase (f b) = x_tidBase b \<and> b_iNext (f b) = b_iNext b \<and> b_iPrev (f b) = b_iPrev b"
    and b: "v = 0 \<or> unat (x_lastTidPreClear h) < 1024 * (tid_run0 h + i) + j \<and> 1024 * (tid_run0 h + i) + j \<le> unat (ti_tid h)"
  shows "tid_seq M R (upd_blk (tbs ! i) f h) tbs"
    "tid_log (upd_blk (tbs ! i) f h) tbs = (tid_log h tbs)(1024 * (tid_run0 h + i) + j := v)"
proof -
  let ?h = "upd_blk (tbs ! i) f h"
  have fld: "h_pool ?h = h_pool h" "tid_run0 ?h = tid_run0 h" "ti_tid ?h = ti_tid h" "x_lastTidPreClear ?h = x_lastTidPreClear h"
    "tid_blocks ?h tbs = tid_blocks h tbs"
    by (simp_all add: upd_blk_def tid_run0_def tid_blocks_def)
  have bl: "tid_blk ?h tbs k (if k = i then f c else c)" if "tid_blk h tbs k c" "k < length tbs" for k c
    using that f tid_seq_distinct [OF s _ i, of k] by (auto simp: tid_blk_def fld upd_blk_def)
  show log: "tid_log ?h tbs = (tid_log h tbs)(1024 * (tid_run0 h + i) + j := v)"
  proof
    fix t
    define k where "k = t div 1024 - tid_run0 h"
    have eq: "tid_run0 h \<le> t div 1024 \<Longrightarrow> (t = 1024 * (tid_run0 h + i) + j) = (k = i \<and> t mod 1024 = j)"
      using run_place [OF j] by (simp add: k_def)
    show "tid_log ?h tbs t = ((tid_log h tbs)(1024 * (tid_run0 h + i) + j := v)) t"
    proof (cases "tid_run0 h \<le> t div 1024 \<and> k < length tbs")
      case True
      obtain c where c: "tid_blk h tbs k c" by (rule tid_seq_mapped [OF s]) (use True in auto)
      with bl [OF c] have "tid_blk ?h tbs k (if k = i then f c else c)" using True by simp
      with c True eq f show ?thesis by (auto simp: tid_log_def k_def [symmetric] fld tid_blk_def)
    next
      case False
      then have "t \<noteq> 1024 * (tid_run0 h + i) + j" using i j by (auto simp: k_def)
      then show ?thesis using False by (auto simp: tid_log_def k_def fld)
    qed
  qed
  have wf: "tid_wf ?h tbs"
  proof -
    have "\<exists>c. h_blks ?h (tbs ! k) = Some c \<and> length (x_iTidVals c) = TIDTBLBLK_MAXSZ \<and> b_iPrev c = (if k = 0 then 0 else tbs ! (k - 1))"
      if k: "k < length tbs" for k
    proof -
      obtain c where "h_blks h (tbs ! k) = Some c" "length (x_iTidVals c) = TIDTBLBLK_MAXSZ" "b_iPrev c = (if k = 0 then 0 else tbs ! (k - 1))"
        using s k by (auto simp: tid_seq_def tid_wf_def)
      then show ?thesis using f by (auto simp: upd_blk_def)
    qed
    then show ?thesis using s by (simp add: tid_seq_def tid_wf_def upd_blk_def)
  qed
  moreover have "\<exists>c. tid_blk ?h tbs k c" if "k < length tbs" for k
    using s that bl by (fastforce simp: tid_seq_def)
  moreover have "unat (x_lastTidPreClear h) < t \<and> t \<le> unat (ti_tid h)" if "tid_log ?h tbs t \<noteq> 0" for t
    using that s b unfolding log by (auto simp: tid_seq_def split: if_splits)
  ultimately show "tid_seq M R ?h tbs" using s by (simp add: tid_seq_def fld)
qed

text \<open>One more block: an empty run behind the others.\<close>

lemma tid_seq_grow:
  assumes s: "tid_seq M R h tbs" and le: "Suc (unat (ti_tid h)) div 1024 = tid_run0 h + length tbs"
    and r: "growTidTbl E (of_nat (1024 * (tid_run0 h + length tbs))) (h\<lparr>ti_tid := ti_tid h + 1\<rparr>) = (x, h')" and x: "x \<noteq> 0"
    and lt: "ti_tid h + 1 < 2 ^ 63"
  shows "tid_seq M R h' (tbs @ [x])" "tid_log h' (tbs @ [x]) = tid_log h tbs" "ti_tid h' = ti_tid h + 1"
    "x_lastTidPreClear h' = x_lastTidPreClear h" "same_tab (starts M) h h'"
proof -
  let ?h = "h\<lparr>ti_tid := ti_tid h + 1\<rparr>"
  have wf: "tid_wf ?h tbs" "owns (h_pool ?h) (M + tid_blocks ?h tbs) R" using s by (auto simp: tid_seq_def tid_wf_def tid_blocks_def)
  from growTidTbl_ok [OF wf r] x have g: "tid_wf h' (tbs @ [x])" "owns (h_pool h') (M + tid_blocks h' (tbs @ [x])) R"
    "same_tab (starts M) ?h h'" "ti_tid h' = ti_tid h + 1" "x_lastTidPreClear h' = x_lastTidPreClear h" "x \<notin> set tbs"
    "h_blks h' = grown_blks (of_nat (1024 * (tid_run0 h + length tbs))) tbs x (h_blks h)"
    by auto
  then show "ti_tid h' = ti_tid h + 1" "x_lastTidPreClear h' = x_lastTidPreClear h" "same_tab (starts M) h h'"
    by (auto simp: same_tab_def)
  have r0: "tid_run0 h' = tid_run0 h" by (simp add: tid_run0_def g)
  have nx: "tbs ! i \<noteq> x" if "i < length tbs" for i using that g(6) by auto
  have la: "tbs ! i = last0 0 tbs \<longleftrightarrow> Suc i = length tbs" if "i < length tbs" for i
    using that tid_seq_distinct [OF s that, of "length tbs - 1"] by (cases tbs rule: rev_cases) (auto simp: last0_def nth_append)
  have new: "tid_blk h' (tbs @ [x]) (length tbs)
      \<lparr>x_tidBase = of_nat (1024 * (tid_run0 h + length tbs)), x_iIterCnt = 0, x_iDelCnt = 0, b_iNext = 0, b_iPrev = last0 0 tbs,
       x_iTidVals = replicate TIDTBLBLK_MAXSZ 0\<rparr>"
    by (simp add: tid_blk_def g(7) grown_blks_def r0 lay_simps nth_append)
  have old: "\<exists>c. tid_blk h' (tbs @ [x]) i c \<and> x_iTidVals c = x_iTidVals b" if b: "tid_blk h tbs i b" and i: "i < length tbs" for i b
  proof (cases "Suc i = length tbs")
    case True
    then have "tid_blk h' (tbs @ [x]) i (b\<lparr>b_iNext := x\<rparr>)" using b i la [OF i] nx [OF i]
      by (auto simp: tid_blk_def g(7) grown_blks_def r0 nth_append)
    then show ?thesis by (intro exI [of _ "b\<lparr>b_iNext := x\<rparr>"]) simp
  next
    case False
    then have "tid_blk h' (tbs @ [x]) i b" using b i la [OF i] nx [OF i]
      by (auto simp: tid_blk_def g(7) grown_blks_def r0 nth_append)
    then show ?thesis by blast
  qed
  show log: "tid_log h' (tbs @ [x]) = tid_log h tbs"
  proof
    fix t
    define k where "k = t div 1024 - tid_run0 h"
    consider "tid_run0 h \<le> t div 1024" "k < length tbs" | "tid_run0 h \<le> t div 1024" "k = length tbs"
      | "\<not> (tid_run0 h \<le> t div 1024 \<and> k \<le> length tbs)" by linarith
    then show "tid_log h' (tbs @ [x]) t = tid_log h tbs t"
    proof cases
      case 1
      obtain b where b: "tid_blk h tbs k b" by (rule tid_seq_mapped [OF s 1(2)])
      with old [OF b 1(2)] 1 show ?thesis by (auto simp: tid_log_def r0 k_def [symmetric] tid_blk_def nth_append)
    next
      case 2
      then show ?thesis using new by (simp add: tid_log_def r0 k_def [symmetric] tid_blk_def lay_simps)
    next
      case 3
      then show ?thesis by (auto simp: tid_log_def r0 k_def)
    qed
  qed
  have "\<exists>c. tid_blk h' (tbs @ [x]) i c" if "i < length (tbs @ [x])" for i
  proof (cases "i < length tbs")
    case True
    obtain b where b: "tid_blk h tbs i b" by (rule tid_seq_mapped [OF s True])
    show ?thesis using old [OF b True] by blast
  qed (use new that in \<open>auto simp: less_Suc_eq\<close>)
  moreover have u: "unat (ti_tid h + 1) = Suc (unat (ti_tid h))"
    using s by (simp add: tid_seq_def unat_u64_Suc)
  moreover have "Suc (Suc (unat (ti_tid h))) div 1024 \<le> Suc (tid_run0 h + length tbs)"
    "tid_run0 h + length tbs \<le> Suc (Suc (unat (ti_tid h))) div 1024" using le by auto
  moreover have "x_lastTidPreClear h \<le> ti_tid h + 1" using s u by (simp add: tid_seq_def word_le_nat_alt)
  moreover have "unat (x_lastTidPreClear h) < t \<and> t \<le> unat (ti_tid h + 1)" if "tid_log h tbs t \<noteq> 0" for t
    using s that u by (fastforce simp: tid_seq_def)
  ultimately show "tid_seq M R h' (tbs @ [x])" using g lt by (simp add: tid_seq_def r0 log)
qed

lemma tid_upd_ti [simp]: "tid_log (h\<lparr>ti_tid := t\<rparr>) tbs = tid_log h tbs" "tid_blk (h\<lparr>ti_tid := t\<rparr>) tbs = tid_blk h tbs"
  "tid_wf (h\<lparr>ti_tid := t\<rparr>) tbs = tid_wf h tbs" "tid_blocks (h\<lparr>ti_tid := t\<rparr>) tbs = tid_blocks h tbs"
  by (auto simp: fun_eq_iff tid_log_def tid_blk_def tid_wf_def tid_blocks_def)

lemma tid_seq_tick:
  assumes s: "tid_seq M R h tbs" and n: "tbs \<noteq> []" "Suc (unat (ti_tid h)) div 1024 < tid_run0 h + length tbs"
    and lt: "ti_tid h + 1 < 2 ^ 63"
  shows "tid_seq M R (h\<lparr>ti_tid := ti_tid h + 1\<rparr>) tbs"
proof -
  have u: "unat (ti_tid h + 1) = Suc (unat (ti_tid h))" using s by (simp add: tid_seq_def unat_u64_Suc)
  have "Suc (Suc (unat (ti_tid h))) div 1024 \<le> Suc (Suc (unat (ti_tid h)) div 1024)" by simp
  then have "Suc (Suc (unat (ti_tid h))) div 1024 \<le> tid_run0 h + length tbs" using n by linarith
  moreover have "tid_run0 h + length tbs \<le> Suc (Suc (Suc (unat (ti_tid h))) div 1024)"
  proof -
    have "tid_run0 h + length tbs \<le> Suc (Suc (unat (ti_tid h)) div 1024)" using s n(1) by (simp add: tid_seq_def)
    moreover have "Suc (unat (ti_tid h)) div 1024 \<le> Suc (Suc (unat (ti_tid h))) div 1024" by (rule div_le_mono) simp
    ultimately show ?thesis by linarith
  qed
  moreover have "x_lastTidPreClear h \<le> ti_tid h + 1" using s u by (simp add: tid_seq_def word_le_nat_alt)
  moreover have "unat (x_lastTidPreClear h) < t \<and> t \<le> Suc (unat (ti_tid h))" if "tid_log h tbs t \<noteq> 0" for t
    using s that by (fastforce simp: tid_seq_def)
  ultimately show ?thesis using s lt by (simp add: tid_seq_def u)
qed

lemma setTidTblEnt_seq:
  assumes s: "tid_seq M R h tbs" and r: "setTidTblEnt E v 0 h = (Some t, h')" and lt: "ti_tid h + 1 < 2 ^ 63"
  shows "t = ti_tid h + 1" "ti_tid h' = t" "x_lastTidPreClear h' = x_lastTidPreClear h" "same_tab (starts M) h h'"
    "\<exists>tbs'. tid_seq M R h' tbs' \<and> tid_log h' tbs' = (tid_log h tbs)(unat t := v)"
proof -
  define h1 where "h1 = h\<lparr>ti_tid := ti_tid h + 1\<rparr>"
  define i where "i = unat ((ti_tid h + 1) mod 1024)"
  define grow where "grow = (case blk_at h1 (x_iTidTblCurOff h1) of None \<Rightarrow> True | Some b \<Rightarrow> ti_tid h + 1 \<ge> x_tidBase b + 1024)"
  define q where "q = (if grow then growTidTbl E (ti_tid h + 1 - of_nat i) h1 else (x_iTidTblCurOff h1, h1))"
  define f :: "LsShmTidTblBlk \<Rightarrow> LsShmTidTblBlk" where "f = (\<lambda>b. (if isTidValIterOff v then b\<lparr>x_iIterCnt := x_iIterCnt b + 1\<rparr>
      else b\<lparr>x_iDelCnt := x_iDelCnt b + 1\<rparr>)\<lparr>x_iTidVals := (x_iTidVals b)[i := v]\<rparr>)"
  have mx: "(of_nat TIDTBLBLK_MAXSZ :: u64) = 1024" by (simp add: lay_simps)
  have z: "((0::u64) \<noteq> 0 \<and> P) = False" "(if (0::u64) = 0 then a else b) = a" for P and a b :: u64 by simp_all
  have eq: "setTidTblEnt E v 0 h = (if fst q = 0 then (None, snd q) else case blk_at (snd q) (fst q) of None \<Rightarrow> (None, snd q)
      | Some _ \<Rightarrow> (Some (ti_tid h + 1), upd_blk (fst q) f (snd q)))"
    unfolding setTidTblEnt_def Let_def mx z if_False h1_def [symmetric] i_def [symmetric] grow_def [symmetric]
      q_def [symmetric] f_def [symmetric] split_beta by (rule refl)
  show t: "t = ti_tid h + 1" using r eq by (simp split: if_splits option.splits)
  have h': "h' = upd_blk (fst q) f (snd q)" and nz: "fst q \<noteq> 0" using r eq by (simp_all split: if_splits option.splits)
  let ?n = "length tbs" and ?p = "tid_run0 h" and ?u = "Suc (unat (ti_tid h))"
  have u: "unat t = ?u" using s by (simp add: t tid_seq_def unat_u64_Suc)
  have i: "i = ?u mod 1024" using u by (simp add: i_def t unat_mod)
  have b1: "?u div 1024 \<le> ?p + ?n" "tbs \<noteq> [] \<Longrightarrow> ?p + ?n \<le> Suc (?u div 1024)" "?u < 2 ^ 63" "?p \<le> ?u div 1024"
    "unat (x_lastTidPreClear h) \<le> unat (ti_tid h)"
    using s lt u by (auto simp: tid_seq_def t word_less_nat_alt word_le_nat_alt tid_run0_def intro: div_le_mono)
  have s1: "tid_seq M R h1 tbs" if "tbs \<noteq> []" "?u div 1024 < ?p + ?n"
    unfolding h1_def by (rule tid_seq_tick [OF s that lt])
  have l1: "tid_log h1 tbs = tid_log h tbs" by (simp add: h1_def)
  have gr: "grow \<longleftrightarrow> ?u div 1024 = ?p + ?n"
  proof (cases "tbs = []")
    case True
    then show ?thesis using s b1 by (simp add: grow_def h1_def tid_seq_def tid_wf_def last0_def blk_at_def offset2ptr_def lay_simps)
  next
    case False
    obtain b where b: "tid_blk h tbs (?n - 1) b" "blk_at h (tbs ! (?n - 1)) = Some b"
      by (rule tid_seq_mapped [OF s, of "?n - 1"]) (use False in auto)
    have c: "x_iTidTblCurOff h1 = tbs ! (?n - 1)" using s False by (simp add: h1_def tid_seq_def tid_wf_def last0_def last_conv_nth)
    have "x_tidBase b + 1024 = (of_nat (1024 * (?p + ?n)) :: u64)" 
    proof -
      have "x_tidBase b = of_nat (1024 * (?p + (?n - 1)))" using b by (simp add: tid_blk_def)
      then have "x_tidBase b + 1024 = of_nat (1024 * (?p + (?n - 1)) + 1024)" by (simp only: of_nat_add of_nat_numeral)
      also have "1024 * (?p + (?n - 1)) + 1024 = 1024 * (?p + ?n)" using False by (cases ?n) auto
      finally show ?thesis .
    qed
    moreover have "1024 * (?p + ?n) < 2 ^ 64" using b1(2) [OF False] b1(3) by simp
    ultimately have "unat (x_tidBase b + 1024) = 1024 * (?p + ?n)" by (simp only: unat_u64_of_nat)
    then have "grow = (1024 * (?p + ?n) \<le> ?u)" using b(2) u c by (simp add: grow_def h1_def blk_at_def t word_le_nat_alt split: if_splits)
    also have "\<dots> = (?p + ?n \<le> ?u div 1024)" by (simp add: less_eq_div_iff_mult_less_eq mult.commute)
    finally show ?thesis using b1(1) by auto
  qed
  have base: "ti_tid h + 1 - of_nat i = of_nat (1024 * (?u div 1024))"
  proof -
    have "ti_tid h + 1 = of_nat ?u" by (rule word_unat_eq_iff [THEN iffD2]) (use u b1(3) in \<open>simp add: t unat_u64_of_nat del: of_nat_Suc\<close>)
    also have "\<dots> = of_nat (1024 * (?u div 1024)) + of_nat i" unfolding i by (metis mult_div_mod_eq of_nat_add)
    finally show ?thesis by simp
  qed
  obtain tbs1 where q1: "tid_seq M R (snd q) tbs1" "tid_log (snd q) tbs1 = tid_log h tbs" "ti_tid (snd q) = t"
    "x_lastTidPreClear (snd q) = x_lastTidPreClear h" "same_tab (starts M) h (snd q)"
    "tbs1 \<noteq> []" "fst q = tbs1 ! (?u div 1024 - ?p)" "?u div 1024 - ?p < length tbs1"
  proof (cases grow)
    case True
    then have d: "?u div 1024 = ?p + ?n" using gr by simp
    have g: "growTidTbl E (of_nat (1024 * (?p + ?n))) (h\<lparr>ti_tid := ti_tid h + 1\<rparr>) = (fst q, snd q)"
      using True base unfolding d by (simp add: q_def h1_def)
    note sg = tid_seq_grow [OF s d g nz lt]
    show thesis by (rule that [of "tbs @ [fst q]"]) (use sg d t in auto)
  next
    case False
    then have d: "?u div 1024 < ?p + ?n" using gr b1(1) by simp
    then have ne: "tbs \<noteq> []" using b1(4) by auto
    have "?u div 1024 - ?p = ?n - 1" using b1(2) [OF ne] d by simp
    moreover have "x_iTidTblCurOff h1 = tbs ! (?n - 1)" using s ne by (simp add: h1_def tid_seq_def tid_wf_def last0_def last_conv_nth)
    ultimately show thesis using False ne s1 [OF ne d] l1 d
      by (intro that [of tbs]) (auto simp: q_def h1_def t same_tab_def)
  qed
  have fld: "ti_tid h' = ti_tid (snd q)" "x_lastTidPreClear h' = x_lastTidPreClear (snd q)" "same_tab (starts M) (snd q) h'"
    by (simp_all add: h' upd_blk_def same_tab_def)
  show "ti_tid h' = t" "x_lastTidPreClear h' = x_lastTidPreClear h" using fld q1 by simp_all
  show "same_tab (starts M) h h'" by (rule same_tab_trans [OF q1(5) fld(3)])
  have r0: "tid_run0 (snd q) = ?p" by (simp add: tid_run0_def q1)
  have at: "1024 * (tid_run0 (snd q) + (?u div 1024 - ?p)) + i = unat t" using b1(4) by (simp add: u r0 i)
  have "i < 1024" by (simp add: i)
  note up = tid_seq_upd [OF q1(1,8) this, of f v]
  have fb: "x_iTidVals (f b) = (x_iTidVals b)[i := v] \<and> x_tidBase (f b) = x_tidBase b \<and> b_iNext (f b) = b_iNext b \<and> b_iPrev (f b) = b_iPrev b" for b
    by (simp add: f_def)
  have bd: "v = 0 \<or> unat (x_lastTidPreClear (snd q)) < unat t \<and> unat t \<le> unat (ti_tid (snd q))" using b1(5) by (simp add: q1 u)
  show "\<exists>tbs'. tid_seq M R h' tbs' \<and> tid_log h' tbs' = (tid_log h tbs)(unat t := v)"
    using up [unfolded at, OF fb bd] by (auto simp: h' q1(7) q1(2))
qed

lemma clrTidTblEnt_seq:
  assumes s: "tid_seq M R h tbs" and t: "x_lastTidPreClear h \<le> t"
  shows "tid_seq M R (clrTidTblEnt t h) tbs" "tid_log (clrTidTblEnt t h) tbs = (tid_log h tbs)(unat t := 0)"
    "ti_tid (clrTidTblEnt t h) = ti_tid h" "x_lastTidPreClear (clrTidTblEnt t h) = x_lastTidPreClear h"
    "h_elems (clrTidTblEnt t h) = h_elems h"
proof -
  let ?i = "unat t div 1024 - tid_run0 h"
  have le: "tid_run0 h \<le> unat t div 1024" using t by (simp add: tid_run0_def word_le_nat_alt div_le_mono)
  have "tid_seq M R (clrTidTblEnt t h) tbs \<and> tid_log (clrTidTblEnt t h) tbs = (tid_log h tbs)(unat t := 0)"
  proof (cases "?i < length tbs")
    case True
    let ?f = "\<lambda>b :: LsShmTidTblBlk. b\<lparr>x_iTidVals := (x_iTidVals b)[unat t mod 1024 := 0], x_iIterCnt := x_iIterCnt b - 1\<rparr>"
    have eq: "clrTidTblEnt t h = upd_blk (tbs ! ?i) ?f h"
      using True t [folded not_less] by (simp add: clrTidTblEnt_def tid2tblBlk_seq [OF s] lay_simps)
    have at: "1024 * (tid_run0 h + ?i) + unat t mod 1024 = unat t" using le by simp
    have "unat t mod 1024 < 1024" by simp
    note up = tid_seq_upd [OF s True this, of ?f 0]
    show ?thesis using up [unfolded at] by (simp add: eq)
  next
    case False
    then have "clrTidTblEnt t h = h" using t [folded not_less] by (simp add: clrTidTblEnt_def tid2tblBlk_seq [OF s])
    moreover have "tid_log h tbs (unat t) = 0" using False by (simp add: tid_log_def)
    ultimately show ?thesis using s by (auto simp: fun_upd_idem)
  qed
  then show "tid_seq M R (clrTidTblEnt t h) tbs" "tid_log (clrTidTblEnt t h) tbs = (tid_log h tbs)(unat t := 0)" by blast+
  show "ti_tid (clrTidTblEnt t h) = ti_tid h" "x_lastTidPreClear (clrTidTblEnt t h) = x_lastTidPreClear h"
    "h_elems (clrTidTblEnt t h) = h_elems h"
    by (auto simp: clrTidTblEnt_def upd_blk_def split: option.split)
qed

section \<open>Reading in order\<close>

lemma find_upt: "case find P [a..<n] of None \<Rightarrow> \<forall>y. a \<le> y \<and> y < n \<longrightarrow> \<not> P y
    | Some x \<Rightarrow> a \<le> x \<and> x < n \<and> P x \<and> (\<forall>y. a \<le> y \<and> y < x \<longrightarrow> \<not> P y)"
proof (cases "find P [a..<n]")
  case None
  then have "\<forall>y\<in>set [a..<n]. \<not> P y" by (simp add: find_None_iff)
  then show ?thesis unfolding None option.case by simp
next
  case (Some x)
  then obtain i where i: "i < n - a" "P (a + i)" "x = a + i" "\<forall>j<i. \<not> P (a + j)" by (auto simp: find_Some_iff)
  then have "\<not> P y" if "a \<le> y" "y < x" for y using that i(4) [rule_format, of "y - a"] by simp
  then show ?thesis using Some i by auto
qed

text \<open>What a search from block \<open>i\<close> on for the first entry behind \<open>t\<close> finds.\<close>

definition nxt_spec :: "LsShmHash \<Rightarrow> off list \<Rightarrow> u64 \<Rightarrow> nat \<Rightarrow> (u64 \<times> u64 \<times> off) option \<Rightarrow> bool" where
  "nxt_spec h tbs t i r \<longleftrightarrow>
     (case r of None \<Rightarrow> \<forall>s. 1024 * (tid_run0 h + i) \<le> s \<and> unat t < s \<longrightarrow> tid_log h tbs s = 0
      | Some (t', v, b) \<Rightarrow> unat t < unat t' \<and> 1024 * (tid_run0 h + i) \<le> unat t' \<and> v = tid_log h tbs (unat t') \<and> v \<noteq> 0 \<and>
          (\<forall>s. 1024 * (tid_run0 h + i) \<le> s \<and> unat t < s \<and> s < unat t' \<longrightarrow> tid_log h tbs s = 0) \<and>
          (\<exists>j<length tbs. b = tbs ! j \<and> unat t' div 1024 = tid_run0 h + j))"

lemma tid_log_blk:
  assumes "tid_blk h tbs i b" "i < length tbs" "j < 1024"
  shows "tid_log h tbs (1024 * (tid_run0 h + i) + j) = x_iTidVals b ! j"
  unfolding tid_log_def run_div [OF assms(3)] using assms by (simp add: tid_blk_def)

lemma nxtTid_loop_seq:
  assumes s: "tid_seq M R h tbs"
  shows "i < length tbs \<Longrightarrow> length tbs - i \<le> k \<Longrightarrow> nxt_spec h tbs t i (nxtTid_loop k h t (tbs ! i))"
proof (induction k arbitrary: i)
  case (Suc k)
  let ?B = "1024 * (tid_run0 h + i)"
  obtain b where b: "tid_blk h tbs i b" "blk_at h (tbs ! i) = Some b" by (rule tid_seq_mapped [OF s Suc.prems(1)])
  have "tid_run0 h + length tbs \<le> Suc (Suc (unat (ti_tid h)) div 1024)" "unat (ti_tid h) < 2 ^ 63"
    using s Suc.prems by (auto simp: tid_seq_def word_less_nat_alt)
  then have bd: "?B + 1024 < 2 ^ 64" using Suc.prems(1) by auto
  have ub: "unat (x_tidBase b) = ?B" using b bd by (simp only: tid_blk_def unat_u64_of_nat add_lessD1)
  have ub2: "unat (x_tidBase b + 1024) = ?B + 1024" using ub bd by (simp add: unat_word_ariths)
  have ubj: "unat (x_tidBase b + of_nat j) = ?B + j" if "j < 1024" for j
    using ub bd that by (simp add: unat_word_ariths unat_of_nat)
  define a where "a = (if x_tidBase b \<le> t then unat t mod 1024 + 1 else 0)"
  have a: "j < 1024 \<Longrightarrow> unat t < ?B + 1024 \<Longrightarrow> a \<le> j \<longleftrightarrow> unat t < ?B + j" for j
  proof (cases "?B \<le> unat t")
    case True
    moreover assume "unat t < ?B + 1024"
    ultimately obtain d where "unat t = ?B + d" "d < 1024" by (metis le_Suc_ex nat_add_left_cancel_less)
    then have "unat t = ?B + unat t mod 1024" using run_div(2) [of d "tid_run0 h + i"] by (simp only:)
    moreover have "a = Suc (unat t mod 1024)" using True by (simp add: a_def word_le_nat_alt ub)
    ultimately show ?thesis by linarith
  next
    case False
    then show ?thesis by (simp add: a_def word_le_nat_alt ub)
  qed
  define hit where "hit = (if t < x_tidBase b + 1024 then nxtValInBlk b a else None)"
  have step: "nxtTid_loop (Suc k) h t (tbs ! i) = (case hit of
      Some indx \<Rightarrow> Some (x_tidBase b + of_nat indx, x_iTidVals b ! indx, tbs ! i)
    | None \<Rightarrow> if b_iNext b = 0 then None else nxtTid_loop k h t (b_iNext b))"
    unfolding hit_def a_def using b(2) by (simp add: lay_simps Let_def cong: option.case_cong)
  have here: "tid_log h tbs (?B + j) = x_iTidVals b ! j" if "j < 1024" for j by (rule tid_log_blk [OF b(1) Suc.prems(1) that])
  show ?case
  proof (cases hit)
    case (Some j)
    then have lt: "unat t < ?B + 1024" and f: "find (\<lambda>i. x_iTidVals b ! i \<noteq> 0) [a..<1024] = Some j"
      by (auto simp: hit_def nxtValInBlk_def lay_simps word_less_nat_alt ub2 split: if_splits)
    from find_upt [where P = "\<lambda>i. x_iTidVals b ! i \<noteq> 0" and a = a and n = 1024, unfolded f option.case]
    have j: "a \<le> j" "j < 1024" "x_iTidVals b ! j \<noteq> 0" "\<And>y. a \<le> y \<Longrightarrow> y < j \<Longrightarrow> x_iTidVals b ! y = 0" by auto
    have u: "unat (x_tidBase b + of_nat j) = ?B + j" by (rule ubj [OF j(2)])
    have z: "tid_log h tbs s' = 0" if "?B \<le> s'" "unat t < s'" "s' < ?B + j" for s'
    proof -
      define y where "y = s' - ?B"
      have y: "s' = ?B + y" "y < j" "y < 1024" using that j(2) by (auto simp: y_def)
      then have "a \<le> y" using a [OF y(3) lt] that by simp
      then show ?thesis using here [OF y(3)] j(4) y by simp
    qed
    have r: "nxtTid_loop (Suc k) h t (tbs ! i) = Some (x_tidBase b + of_nat j, x_iTidVals b ! j, tbs ! i)" using step Some by simp
    have "unat t < ?B + j" using a [OF j(2) lt] j(1) by simp
    moreover have "(?B + j) div 1024 = tid_run0 h + i" using j(2) by simp
    ultimately show ?thesis unfolding r nxt_spec_def option.case prod.case u using here [OF j(2)] j(3) z Suc.prems(1) by auto
  next
    case None
    have z: "tid_log h tbs s' = 0" if "?B \<le> s'" "unat t < s'" "s' < ?B + 1024" for s'
    proof -
      define y where "y = s' - ?B"
      have y: "s' = ?B + y" "y < 1024" using that by (auto simp: y_def)
      have lt: "unat t < ?B + 1024" using that by simp
      then have f: "find (\<lambda>i. x_iTidVals b ! i \<noteq> 0) [a..<1024] = None"
        using None by (auto simp: hit_def nxtValInBlk_def lay_simps word_less_nat_alt ub2)
      have "a \<le> y" using a [OF y(2) lt] that y by simp
      then show ?thesis using here [OF y(2)] find_upt [where P = "\<lambda>i. x_iTidVals b ! i \<noteq> 0" and a = a and n = 1024, unfolded f option.case] y by simp
    qed
    show ?thesis
    proof (cases "Suc i < length tbs")
      case True
      have nx: "b_iNext b = tbs ! Suc i" using b(1) True by (simp add: tid_blk_def)
      obtain c where "tbs ! Suc i \<noteq> 0" by (rule tid_seq_mapped [OF s True])
      then have r: "nxtTid_loop (Suc k) h t (tbs ! i) = nxtTid_loop k h t (tbs ! Suc i)" using step None nx by simp
      have ih: "nxt_spec h tbs t (Suc i) (nxtTid_loop k h t (tbs ! Suc i))" by (rule Suc.IH) (use True Suc.prems in auto)
      have sp: "?B + 1024 = 1024 * (tid_run0 h + Suc i)" by simp
      have z': "?B \<le> s' \<Longrightarrow> unat t < s' \<Longrightarrow> s' < 1024 * (tid_run0 h + Suc i) \<Longrightarrow> tid_log h tbs s' = 0" for s'
        using z unfolding sp by blast
      have ge: "1024 * (tid_run0 h + Suc i) \<le> s' \<Longrightarrow> ?B \<le> s'" for s' by simp
      show ?thesis unfolding r using ih z' ge unfolding nxt_spec_def
        by (auto split: option.splits) (meson not_le)+
    next
      case False
      then have r: "nxtTid_loop (Suc k) h t (tbs ! i) = None" using step None b(1) by (simp add: tid_blk_def)
      have i: "Suc i = length tbs" using False Suc.prems by simp
      have "tid_log h tbs s' = 0" if "?B + 1024 \<le> s'" for s'
      proof -
        have "Suc (tid_run0 h + i) \<le> s' div 1024" using div_le_mono [OF that, of 1024] by simp
        then show ?thesis using i by (auto simp: tid_log_def)
      qed
      then show ?thesis unfolding r nxt_spec_def option.case using z by (meson not_le)
    qed
  qed
qed simp

lemma nxtTidTblVal_seq:
  assumes s: "tid_seq M R h tbs"
  shows "nxt_spec h tbs t 0 (nxtTidTblVal h t None)"
proof -
  have c: "x_iBlkCnt h = length tbs" using s by (simp add: tid_seq_def tid_wf_def)
  define i where "i = (if t < x_lastTidPreClear h then 0 else unat t div 1024 - tid_run0 h)"
  have b: "tid2tblBlk h t = (if i < length tbs then Some (tbs ! i) else None)" unfolding i_def by (rule tid2tblBlk_seq [OF s])
  have ge: "1024 * (tid_run0 h + i) \<le> Suc (unat t) \<or> i = 0"
    by (auto simp: i_def)
  show ?thesis
  proof (cases "i < length tbs")
    case True
    have r: "nxtTidTblVal h t None = nxtTid_loop (length tbs) h t (tbs ! i)" using b True c by (simp add: nxtTidTblVal_def)
    have sp: "nxt_spec h tbs t i (nxtTid_loop (length tbs) h t (tbs ! i))" by (rule nxtTid_loop_seq [OF s True]) simp
    have "1024 * (tid_run0 h + i) \<le> s'" if "1024 * (tid_run0 h + 0) \<le> s'" "unat t < s'" for s' using ge that by auto
    then show ?thesis unfolding r using sp unfolding nxt_spec_def by (auto split: option.splits)
  next
    case False
    have "tid_log h tbs s' = 0" if "unat t < s'" for s'
    proof -
      have "unat t div 1024 \<le> s' div 1024" by (rule div_le_mono) (use that in simp)
      then show ?thesis using False by (auto simp: tid_log_def i_def split: if_splits)
    qed
    then show ?thesis using b False by (auto simp: nxtTidTblVal_def nxt_spec_def)
  qed
qed

text \<open>Going on from the block of the last entry gives the same.\<close>

lemma nxtTidTblVal_from:
  assumes s: "tid_seq M R h tbs" and j: "j < length tbs" "unat t div 1024 = tid_run0 h + j"
  shows "nxt_spec h tbs t 0 (nxtTidTblVal h t (Some (tbs ! j)))"
proof -
  have c: "x_iBlkCnt h = length tbs" using s by (simp add: tid_seq_def tid_wf_def)
  have sp: "nxt_spec h tbs t j (nxtTidTblVal h t (Some (tbs ! j)))"
    unfolding nxtTidTblVal_def option.case c by (rule nxtTid_loop_seq [OF s j(1)]) simp
  have "1024 * (tid_run0 h + j) \<le> s'" if "unat t < s'" for s' unfolding j(2) [symmetric] using that by (simp add: le_trans [OF _ less_imp_le])
  then show ?thesis using sp unfolding nxt_spec_def by (auto split: option.splits)
qed

section \<open>Clearing the table\<close>

text \<open>The first entry of an empty table fails only if no block could be attached.\<close>

lemma setTidTblEnt_first:
  assumes w: "tid_wf h []" "owns (h_pool h) M R" and r: "setTidTblEnt E v 0 h = (r, h')"
  defines "t \<equiv> ti_tid h + 1"
  shows "r = None \<Longrightarrow> fst (growTidTbl E (t - t mod 1024) (h\<lparr>ti_tid := t\<rparr>)) = 0" "r = None \<Longrightarrow> x_iTidTblCurOff h' = 0"
proof -
  have mx: "(of_nat TIDTBLBLK_MAXSZ :: u64) = 1024" by (simp add: lay_simps)
  have b0: "blk_at (h\<lparr>ti_tid := t\<rparr>) (x_iTidTblCurOff (h\<lparr>ti_tid := t\<rparr>)) = None"
    using w(1) by (simp add: tid_wf_def blk_at_def offset2ptr_def lay_simps)
  obtain x hg where g: "growTidTbl E (t - t mod 1024) (h\<lparr>ti_tid := t\<rparr>) = (x, hg)" by fastforce
  have wg: "tid_wf (h\<lparr>ti_tid := t\<rparr>) []" "owns (h_pool (h\<lparr>ti_tid := t\<rparr>)) (M + tid_blocks (h\<lparr>ti_tid := t\<rparr>) []) R"
    using w by (simp_all add: tid_blocks_def)
  from growTidTbl_ok [OF wg g] obtain tg where tg: "tid_wf hg tg" "owns (h_pool hg) (M + tid_blocks hg tg) R"
    "if x = 0 then tg = [] else tg = [x] \<and> h_blks hg = grown_blks (t - t mod 1024) [] x (h_blks (h\<lparr>ti_tid := t\<rparr>))"
    by (auto split: if_splits)
  have at: "x \<noteq> 0 \<Longrightarrow> blk_at hg x \<noteq> None"
    using tg owns_block(5) [OF tg(2), of x sizeof_TidTblBlk] by (auto simp: blk_at_def tid_blocks_def grown_blks_def)
  have n: "x = 0 \<and> h' = hg" if "r = None"
    using r that b0 g at by (auto simp: setTidTblEnt_def Let_def t_def [symmetric] mx split: if_splits option.splits)
  then show "r = None \<Longrightarrow> fst (growTidTbl E (t - t mod 1024) (h\<lparr>ti_tid := t\<rparr>)) = 0" "r = None \<Longrightarrow> x_iTidTblCurOff h' = 0"
    using g tg by (auto simp: tid_wf_def)
qed

text \<open>
  Clearing forgets the log and, on a master, records the flush under the next id. The lookup of later
  ids is right unless the last id was the last one of its run.
\<close>

lemma clrTidTbl_seq:
  assumes s: "tid_seq M R h tbs" and m: "\<not> flag_tid_slave h" and lt: "ti_tid h + 1 < 2 ^ 63"
    and md: "unat (ti_tid h) mod 1024 \<noteq> 1023" and ok: "x_iTidTblCurOff (clrTidTbl E h) \<noteq> 0"
  shows "\<exists>tbs'. tid_seq M R (clrTidTbl E h) tbs' \<and>
    tid_log (clrTidTbl E h) tbs' = (\<lambda>_. 0)(Suc (unat (ti_tid h)) := TIDDEL_FLUSHALL)"
    "ti_tid (clrTidTbl E h) = ti_tid h + 1" "x_lastTidPreClear (clrTidTbl E h) = ti_tid h"
proof -
  have w: "tid_wf h tbs" "owns (h_pool h) (M + tid_blocks h tbs) R" "ti_tid h < 2 ^ 63" using s by (auto simp: tid_seq_def)
  obtain h3 where h3: "clrTidTbl E h = snd (setTidTblEnt E TIDDEL_FLUSHALL 0 h3)" "tid_wf h3 []" "owns (h_pool h3) M R"
    "ti_tid h3 = ti_tid h" "x_lastTidPreClear h3 = ti_tid h"
    by (rule clrTidTbl_mid [OF w(1,2), of E]) (use m in auto)
  have "Suc (unat (ti_tid h)) div 1024 = unat (ti_tid h) div 1024" using md by (simp add: div_Suc mod_Suc split: if_splits)
  then have s3: "tid_seq M R h3 []" using h3 w by (simp add: tid_seq_nil tid_run0_def)
  obtain r h' where r: "setTidTblEnt E TIDDEL_FLUSHALL 0 h3 = (r, h')" by fastforce
  have "r \<noteq> None" using setTidTblEnt_first(2) [OF h3(2,3) r] ok h3(1) r by auto
  then obtain t where t: "setTidTblEnt E TIDDEL_FLUSHALL 0 h3 = (Some t, h')" using r by blast
  have lt3: "ti_tid h3 + 1 < 2 ^ 63" using lt h3 by simp
  note st = setTidTblEnt_seq [OF s3 t lt3]
  have l0: "tid_log h3 [] = (\<lambda>_. 0)" by (simp add: tid_log_def fun_eq_iff)
  have eq: "clrTidTbl E h = h'" using h3(1) t by simp
  have u: "unat t = Suc (unat (ti_tid h))" using st(1) h3 w(3) by (simp add: unat_u64_Suc)
  show "\<exists>tbs'. tid_seq M R (clrTidTbl E h) tbs' \<and>
    tid_log (clrTidTbl E h) tbs' = (\<lambda>_. 0)(Suc (unat (ti_tid h)) := TIDDEL_FLUSHALL)" using st(5) unfolding eq l0 u .
  show "ti_tid (clrTidTbl E h) = ti_tid h + 1" "x_lastTidPreClear (clrTidTbl E h) = ti_tid h" using st(1-3) h3 by (simp_all add: eq)
qed

section \<open>Histories of a table\<close>

lemma tid_wf_unique: "tid_wf h tbs \<Longrightarrow> tid_wf h tbs' \<Longrightarrow> tbs' = tbs"
  by (cases "tbs = []"; cases "tbs' = []") (auto simp: tid_wf_def)

lemma tid_seq_same:
  assumes s: "tid_seq M R h tbs" and e: "tid_same h h'" and w: "tid_wf h' tbs'" and o: "owns (h_pool h') (M' + tid_blocks h' tbs') R'"
  shows "tid_seq M' R' h' tbs" "tid_log h' tbs = tid_log h tbs" "tbs' = tbs"
proof -
  have "tid_wf h' tbs" using s e by (simp add: tid_seq_def tid_same_wf)
  then show t: "tbs' = tbs" using w by (rule tid_wf_unique)
  have f: "ti_tid h' = ti_tid h" "x_lastTidPreClear h' = x_lastTidPreClear h" "tid_run0 h' = tid_run0 h" "h_blks h' = h_blks h"
    using e by (auto simp: tid_same_def tid_run0_def)
  show l: "tid_log h' tbs = tid_log h tbs" by (simp add: fun_eq_iff tid_log_def f)
  have b: "tid_blk h' tbs = tid_blk h tbs" by (simp add: fun_eq_iff tid_blk_def f)
  show "tid_seq M' R' h' tbs" using s w o unfolding t tid_seq_def l b f by blast
qed

text \<open>The table of transaction ids of \<open>h\<close> holds the log \<open>l\<close>.\<close>

definition tid_table :: "LsShmHash \<Rightarrow> (nat \<Rightarrow> u64) \<Rightarrow> bool" where
  "tid_table h l \<longleftrightarrow> (\<exists>M R tbs. tid_seq M R h tbs \<and> tid_log h tbs = l)"

lemma tid_table_seq:
  assumes "hash_ok E h ch tbs R" "tid_table h l"
  shows "tid_seq (tab_elem_blocks h ch) R h tbs" "tid_log h tbs = l"
proof -
  obtain M' R' tbs' where t: "tid_seq M' R' h tbs'" "tid_log h tbs' = l" using assms(2) by (auto simp: tid_table_def)
  have w: "tid_wf h tbs" "owns (h_pool h) (tab_elem_blocks h ch + tid_blocks h tbs) R"
    using assms(1) by (auto simp: hash_ok_def hash_blocks_alt)
  from tid_seq_same [OF t(1) tid_same_refl w] t(2)
  show "tid_seq (tab_elem_blocks h ch) R h tbs" "tid_log h tbs = l" by auto
qed

text \<open>
  What may happen to a table: it is created, an entry gets the next id, an entry is removed, the table
  is cleared on a master, or anything that leaves the table of ids alone and the hash intact.
\<close>

inductive tid_hist :: "env \<Rightarrow> LsShmHash \<Rightarrow> (nat \<Rightarrow> u64) \<Rightarrow> bool" for E where
  created: "pool_reach p L \<Longrightarrow> allocHTable E n lru tid slave p = (x, p', Some h) \<Longrightarrow> tid_hist E h (\<lambda>_. 0)"
| entry: "tid_hist E h l \<Longrightarrow> ti_tid h + 1 < 2 ^ 63 \<Longrightarrow> setTidTblEnt E v 0 h = (Some t, h') \<Longrightarrow> tid_hist E h' (l(unat t := v))"
| removed: "tid_hist E h l \<Longrightarrow> x_lastTidPreClear h \<le> t \<Longrightarrow> tid_hist E (clrTidTblEnt t h) (l(unat t := 0))"
| flushed: "tid_hist E h l \<Longrightarrow> ti_tid h + 1 < 2 ^ 63 \<Longrightarrow> \<not> flag_tid_slave h \<Longrightarrow> unat (ti_tid h) mod 1024 \<noteq> 1023 \<Longrightarrow>
    x_iTidTblCurOff (clrTidTbl E h) \<noteq> 0 \<Longrightarrow> tid_hist E (clrTidTbl E h) ((\<lambda>_. 0)(Suc (unat (ti_tid h)) := TIDDEL_FLUSHALL))"
| other: "tid_hist E h l \<Longrightarrow> tid_same h h' \<Longrightarrow> hash_inv E h' m R \<Longrightarrow> tid_hist E h' l"

lemma hash_inv_tid: "hash_inv E h m R \<Longrightarrow> (\<And>M R. tid_frame M R h h') \<Longrightarrow> hash_inv E h' m R"
  by (rule hash_frame_ok(1)) (simp_all add: hash_frame_def)

lemma tid_hist_ok: "tid_hist E h l \<Longrightarrow> (\<exists>m R. hash_inv E h m R) \<and> tid_table h l"
proof (induction rule: tid_hist.induct)
  case (created p L n lru tid slave x p' h)
  note a = allocHTable_ok(1) [OF pool_reach_inv [OF created(1)] created(2)]
  then obtain ch tbs R where ok: "hash_ok E h ch tbs R" by (auto simp: hash_inv_def)
  have z: "ti_tid h = 0" "x_lastTidPreClear h = 0" "x_iBlkCnt h = 0"
    using created(2) by (auto simp: allocHTable_def Let_def split: if_splits prod.splits)
  have w: "tid_wf h tbs" "owns (h_pool h) (tab_elem_blocks h ch + tid_blocks h tbs) R"
    using ok by (auto simp: hash_ok_def hash_blocks_alt)
  then have "tbs = []" using z by (simp add: tid_wf_def)
  then have "tid_seq (tab_elem_blocks h ch) R h []" "tid_log h [] = (\<lambda>_. 0)"
    using w z by (auto simp: tid_seq_nil tid_blocks_def tid_log_def fun_eq_iff)
  then show ?case using a by (auto simp: tid_table_def)
next
  case (entry h l v t h')
  then obtain m R where "hash_inv E h m R" by blast
  then obtain ch tbs where ok: "hash_inv E h m R" "hash_ok E h ch tbs R" unfolding hash_inv_def by blast
  note ts = tid_table_seq [OF ok(2), of l]
  have "tid_table h' (l(unat t := v))" using setTidTblEnt_seq(5) [OF ts(1) entry(3,2)] ts(2) entry by (auto simp: tid_table_def)
  moreover have "hash_inv E h' m R" by (rule hash_inv_tid [OF ok(1)]) (metis entry(3) snd_conv tid_frame_set)
  ultimately show ?case by blast
next
  case (removed h l t)
  then obtain m R where "hash_inv E h m R" by blast
  then obtain ch tbs where ok: "hash_inv E h m R" "hash_ok E h ch tbs R" unfolding hash_inv_def by blast
  note ts = tid_table_seq [OF ok(2), of l]
  have "tid_table (clrTidTblEnt t h) (l(unat t := 0))" using clrTidTblEnt_seq(1,2) [OF ts(1) removed(2)] ts(2) removed by (auto simp: tid_table_def)
  moreover have "hash_inv E (clrTidTblEnt t h) m R" by (rule hash_inv_tid [OF ok(1)]) (rule tid_frame_clr)
  ultimately show ?case by blast
next
  case (flushed h l)
  then obtain m R where "hash_inv E h m R" by blast
  then obtain ch tbs where ok: "hash_inv E h m R" "hash_ok E h ch tbs R" unfolding hash_inv_def by blast
  note ts = tid_table_seq [OF ok(2), of l]
  have "tid_table (clrTidTbl E h) ((\<lambda>_. 0)(Suc (unat (ti_tid h)) := TIDDEL_FLUSHALL))"
    using clrTidTbl_seq(1) [OF ts(1) flushed(3,2,4,5)] flushed by (auto simp: tid_table_def)
  moreover have "hash_inv E (clrTidTbl E h) m R" by (rule hash_inv_tid [OF ok(1)]) (rule tid_frame_clrTbl)
  ultimately show ?case by blast
next
  case (other h l h' m R)
  obtain M0 R0 tbs where t: "tid_seq M0 R0 h tbs" "tid_log h tbs = l" using other by (auto simp: tid_table_def)
  obtain ch tbs' where ok: "hash_ok E h' ch tbs' R" using other by (auto simp: hash_inv_def)
  have w: "tid_wf h' tbs'" "owns (h_pool h') (tab_elem_blocks h' ch + tid_blocks h' tbs') R"
    using ok by (auto simp: hash_ok_def hash_blocks_alt)
  from tid_seq_same [OF t(1) other(2) w] t(2) other(3) show ?case by (auto simp: tid_table_def)
qed

section \<open>Reading a log\<close>

text \<open>
  A reader of changes: it asks for the next change behind an id, starting without a position and
  going on from the position of the last change.
\<close>

fun scan_log :: "nat \<Rightarrow> (u64 \<Rightarrow> 'c option \<Rightarrow> (u64 \<times> u64 \<times> 'c) option) \<Rightarrow> u64 \<Rightarrow> 'c option \<Rightarrow> (u64 \<times> u64) list" where
  "scan_log 0 nx t c = []"
| "scan_log (Suc k) nx t c = (case nx t c of None \<Rightarrow> [] | Some (t', v, c') \<Rightarrow> (t', v) # scan_log k nx t' (Some c'))"

definition log_behind :: "(nat \<Rightarrow> u64) \<Rightarrow> nat \<Rightarrow> nat \<Rightarrow> (u64 \<times> u64) list" where
  "log_behind l t n = map (\<lambda>s. (of_nat s, l s)) (filter (\<lambda>s. l s \<noteq> 0) [Suc t..<Suc n])"

lemma log_behind_skip:
  assumes "t < t'" "t' \<le> n" "l t' \<noteq> 0" "\<And>s. t < s \<Longrightarrow> s < t' \<Longrightarrow> l s = 0"
  shows "log_behind l t n = (of_nat t', l t') # log_behind l t' n"
proof -
  have "[Suc t..<Suc n] = [Suc t..<t'] @ t' # [Suc t'..<Suc n]"
    using assms(1,2) by (metis Suc_leI le_SucI less_Suc_eq_le upt_add_eq_append upt_conv_Cons le_add_diff_inverse)
  moreover have "filter (\<lambda>s. l s \<noteq> 0) [Suc t..<t'] = []" using assms(4) by (auto simp: filter_empty_conv)
  ultimately show ?thesis using assms(3) by (simp add: log_behind_def)
qed

locale change_log =
  fixes nx :: "'h \<Rightarrow> u64 \<Rightarrow> 'c option \<Rightarrow> (u64 \<times> u64 \<times> 'c) option"
    and holds :: "'h \<Rightarrow> (nat \<Rightarrow> u64) \<Rightarrow> bool"
    and pos :: "'h \<Rightarrow> u64 \<Rightarrow> 'c option \<Rightarrow> bool"
    and newest :: "'h \<Rightarrow> u64"
  assumes start: "pos h t None"
    and nxt_none: "holds h l \<Longrightarrow> pos h t c \<Longrightarrow> nx h t c = None \<Longrightarrow> unat t < s \<Longrightarrow> l s = 0"
    and nxt_some: "holds h l \<Longrightarrow> pos h t c \<Longrightarrow> nx h t c = Some (t', v, c') \<Longrightarrow>
      unat t < unat t' \<and> v = l (unat t') \<and> v \<noteq> 0 \<and> (\<forall>s. unat t < s \<and> s < unat t' \<longrightarrow> l s = 0) \<and> pos h t' (Some c')"
    and upto: "holds h l \<Longrightarrow> l s \<noteq> 0 \<Longrightarrow> s \<le> unat (newest h)"
begin

text \<open>A reader gets every change behind its id exactly once and in the order of the ids.\<close>

lemma scan_complete:
  assumes "holds h l"
  shows "pos h t c \<Longrightarrow> unat (newest h) - unat t \<le> k \<Longrightarrow> scan_log k (nx h) t c = log_behind l (unat t) (unat (newest h))"
proof (induction k arbitrary: t c)
  case 0
  then show ?case by (simp add: log_behind_def)
next
  case (Suc k)
  show ?case
  proof (cases "nx h t c")
    case None
    then have "l s = 0" if "unat t < s" for s using nxt_none [OF assms Suc.prems(1)] that by blast
    then show ?thesis by (auto simp: None log_behind_def filter_empty_conv)
  next
    case (Some r)
    obtain t' v c' where r: "r = (t', v, c')" by (cases r)
    from nxt_some [OF assms Suc.prems(1) Some [unfolded r]]
    have n: "unat t < unat t'" "v = l (unat t')" "v \<noteq> 0" "\<And>s. unat t < s \<Longrightarrow> s < unat t' \<Longrightarrow> l s = 0" "pos h t' (Some c')" by auto
    have le: "unat t' \<le> unat (newest h)" using upto [OF assms] n by blast
    have "scan_log k (nx h) t' (Some c') = log_behind l (unat t') (unat (newest h))"
      by (rule Suc.IH [OF n(5)]) (use Suc.prems(2) n(1) le in linarith)
    moreover have "log_behind l (unat t) (unat (newest h)) = (of_nat (unat t'), l (unat t')) # log_behind l (unat t') (unat (newest h))"
      by (rule log_behind_skip) (use n le in auto)
    ultimately show ?thesis using Some r n(2) by simp
  qed
qed

end

definition tid_pos :: "LsShmHash \<Rightarrow> u64 \<Rightarrow> off option \<Rightarrow> bool" where
  "tid_pos h t c \<longleftrightarrow> (\<forall>M R tbs. tid_seq M R h tbs \<longrightarrow> c = None \<or>
     (\<exists>j<length tbs. c = Some (tbs ! j) \<and> unat t div 1024 = tid_run0 h + j))"

lemma nxtTidTblVal_table:
  assumes "tid_table h l" "tid_pos h t c"
  shows "nxtTidTblVal h t c = None \<Longrightarrow> unat t < s \<Longrightarrow> l s = 0"
    "nxtTidTblVal h t c = Some (t', v, c') \<Longrightarrow> unat t < unat t' \<and> v = l (unat t') \<and> v \<noteq> 0 \<and>
      (\<forall>s. unat t < s \<and> s < unat t' \<longrightarrow> l s = 0) \<and> tid_pos h t' (Some c')"
proof -
  obtain M R tbs where t: "tid_seq M R h tbs" "tid_log h tbs = l" using assms(1) by (auto simp: tid_table_def)
  have p: "nxt_spec h tbs t 0 (nxtTidTblVal h t c)"
    using assms(2) t(1) nxtTidTblVal_seq [OF t(1)] nxtTidTblVal_from [OF t(1)] unfolding tid_pos_def by blast
  have low: "1024 * tid_run0 h \<le> s" if "l s \<noteq> 0" for s
  proof -
    have "tid_run0 h \<le> s div 1024" using that t(2) by (auto simp: tid_log_def split: if_splits)
    then show ?thesis by (simp add: less_eq_div_iff_mult_less_eq mult.commute)
  qed
  show "nxtTidTblVal h t c = None \<Longrightarrow> unat t < s \<Longrightarrow> l s = 0" using p low t(2) by (fastforce simp: nxt_spec_def)
  assume n: "nxtTidTblVal h t c = Some (t', v, c')"
  have "tid_pos h t' (Some c')"
    unfolding tid_pos_def
  proof (intro allI impI disjI2)
    fix M' R' tbs'
    assume "tid_seq M' R' h tbs'"
    then have "tbs' = tbs" using t(1) tid_wf_unique by (auto simp: tid_seq_def)
    then show "\<exists>j<length tbs'. Some c' = Some (tbs' ! j) \<and> unat t' div 1024 = tid_run0 h + j" using p n by (auto simp: nxt_spec_def)
  qed
  then show "unat t < unat t' \<and> v = l (unat t') \<and> v \<noteq> 0 \<and>
      (\<forall>s. unat t < s \<and> s < unat t' \<longrightarrow> l s = 0) \<and> tid_pos h t' (Some c')"
    using p n low t(2) unfolding nxt_spec_def by auto
qed

interpretation tids: change_log nxtTidTblVal tid_table tid_pos ti_tid
proof
  show "tid_pos h t None" for h t by (simp add: tid_pos_def)
  show "tid_table h l \<Longrightarrow> l s \<noteq> 0 \<Longrightarrow> s \<le> unat (ti_tid h)" for h l s by (auto simp: tid_table_def tid_seq_def)
qed (rule nxtTidTblVal_table; assumption)+

section \<open>Witness data\<close>

definition w_tid_pool :: shm_pool where
  "w_tid_pool = (createStaticData 0)\<lparr>m_iFileSize := 65536, m_iUsedSize := 1024, off2ptr_pages := 1\<rparr>"

definition w_tid_hash :: LsShmHash where
  "w_tid_hash = the (snd (snd (allocHTable w_env 7 True True False w_tid_pool)))"

lemma w_tid_pool_reach: "pool_reach w_tid_pool {#}"
proof (rule reach_new)
  show "newShmMap w_os 0 65536 = Some w_tid_pool"
    by (simp add: newShmMap_def w_tid_pool_def createStaticData_def w_os_def mapAddrSpace_def lay_simps)
qed simp

lemma w_tid_new: "allocHTable w_env 7 True True False w_tid_pool = (1024, h_pool w_tid_hash, Some w_tid_hash)"
  unfolding w_tid_hash_def w_tid_pool_def by (simp add: pool_eval hash_eval)

lemma w_tid_grow: "fst (growTidTbl w_env b (w_tid_hash\<lparr>x_lastTidPreClear := p, ti_tid := t\<rparr>)) \<noteq> 0"
  unfolding w_tid_hash_def w_tid_pool_def
  by (simp add: pool_eval hash_eval hash_alloc2_def growTidTbl_def allocBlkIdx_def LSSHMTID_BLKIDX_SIZE_def
      attachTidBlk_def blk_at_def upd_blk_def)

lemma w_tid_zero: "ti_tid w_tid_hash = 0" "x_lastTidPreClear w_tid_hash = 0" "x_iBlkCnt w_tid_hash = 0"
  unfolding w_tid_hash_def w_tid_pool_def by (simp_all add: pool_eval hash_eval)

lemma w_tid_hist: "tid_hist w_env w_tid_hash (\<lambda>_. 0)"
  by (rule created [OF w_tid_pool_reach w_tid_new])

text \<open>The first entry of a table whose ids start behind \<open>n\<close>.\<close>

lemma w_tid_set:
  obtains h' where "setTidTblEnt w_env v 0 (w_tid_hash\<lparr>x_lastTidPreClear := n, ti_tid := n\<rparr>) = (Some (n + 1), h')"
proof -
  let ?h = "w_tid_hash\<lparr>x_lastTidPreClear := n, ti_tid := n\<rparr>"
  obtain M R tbs where "tid_seq M R w_tid_hash tbs" using tid_hist_ok [OF w_tid_hist] by (auto simp: tid_table_def)
  moreover from this have "tbs = []" using w_tid_zero by (simp add: tid_seq_def tid_wf_def)
  ultimately have w: "tid_wf ?h []" "owns (h_pool ?h) M R" by (auto simp: tid_seq_nil tid_wf_def)
  obtain r h' where r: "setTidTblEnt w_env v 0 ?h = (r, h')" by fastforce
  have "r \<noteq> None" using setTidTblEnt_first(1) [OF w r] w_tid_grow [where p = n and t = "n + 1"] by auto
  moreover have "r \<noteq> None \<Longrightarrow> r = Some (n + 1)"
    using r by (auto simp: setTidTblEnt_def Let_def split: if_splits option.splits prod.splits)
  ultimately show thesis using that r by blast
qed

lemma w_tid_set0:
  obtains h' where "setTidTblEnt w_env v 0 w_tid_hash = (Some 1, h')"
proof -
  have "w_tid_hash\<lparr>x_lastTidPreClear := 0, ti_tid := 0\<rparr> = w_tid_hash" by (rule LsShmHash.equality) (simp_all add: w_tid_zero)
  then show thesis using w_tid_set [of v 0] that by auto
qed

section \<open>Properties\<close>

lemma bit_small: "x < 2 ^ k \<Longrightarrow> bit (x :: nat) n \<Longrightarrow> n < k"
  by (metis bit_iff_odd div_less even_zero not_le_imp_less order_less_le_trans power_increasing one_le_numeral)

lemma magic_bit: "bit TIDDEL_MAGIC_NUMBER n \<longleftrightarrow> n = 63"
proof -
  have m: "TIDDEL_MAGIC_NUMBER = push_bit 63 (1 :: u64)" by (simp add: TIDDEL_MAGIC_NUMBER_def push_bit_eq_mult)
  show ?thesis unfolding m bit_push_bit_iff bit_1_iff by auto
qed

lemma tidVal_roundtrip:
  assumes "x < 2 ^ 32"
  shows "isTidValIterOff (iterOff2tidVal x)" "tidVal2iterOff (iterOff2tidVal x) = x" "iterOff2tidVal x \<noteq> 0"
proof -
  have b: "bit (iterOff2tidVal x) 63" by (simp add: iterOff2tidVal_def bit_simps magic_bit)
  then have "bit (and (iterOff2tidVal x) TIDDEL_MAGIC_NUMBER) 63" by (simp add: bit_simps magic_bit)
  then show "isTidValIterOff (iterOff2tidVal x)" unfolding isTidValIterOff_def by (metis bit_0_eq bot_apply bot_bool_def)
  show "iterOff2tidVal x \<noteq> 0" using b by auto
  have "and (iterOff2tidVal x) (not TIDDEL_MAGIC_NUMBER) = (of_nat x :: u64)"
  proof (rule bit_eqI)
    fix n
    assume "possible_bit TYPE(u64) n"
    then have n: "n < 64" by simp
    show "bit (and (iterOff2tidVal x) (not TIDDEL_MAGIC_NUMBER)) n = bit (of_nat x :: u64) n"
      using n bit_small [OF assms, of n] by (auto simp: iterOff2tidVal_def bit_simps magic_bit)
  qed
  then show "tidVal2iterOff (iterOff2tidVal x) = x" using assms
    by (simp add: tidVal2iterOff_def unat_of_nat take_bit_nat_eq_self unsigned_ucast_eq)
qed





text \<open>
  C33: an entry lost. When the table was cleared and the last id before it was the last one of a run
  of 1024, the entry set next is seen by the scan but not by the lookup: it is not found, and removing
  it has no effect.
\<close>

theorem tid_lost_after_clear:
  assumes "hash_inv E h m R" "x_iBlkCnt h = 0" "x_lastTidPreClear h = ti_tid h"
    and md: "unat (ti_tid h) mod 1024 = 1023" and lt: "ti_tid h < 2 ^ 62"
    and r: "setTidTblEnt E v 0 h = (Some t, h')" and v: "v \<noteq> 0"
  shows "tid2iterOff h' t = 0 \<and> clrTidTblEnt t h' = h' \<and> nxtTidTblVal h' (ti_tid h) None = Some (t, v, x_iTidTblCurOff h')"
proof -
  obtain ch tbs where ok: "hash_ok E h ch tbs R" using assms(1) unfolding hash_inv_def by blast
  let ?M = "tab_elem_blocks h ch"
  have w: "tid_wf h tbs" "owns (h_pool h) (?M + tid_blocks h tbs) R" using ok by (auto simp: hash_ok_def hash_blocks_alt)
  have nil: "tbs = []" using w(1) assms(2) by (simp add: tid_wf_def)
  define u where "u = ti_tid h + 1"
  have u: "unat u = Suc (unat (ti_tid h))" "unat u mod 1024 = 0" "unat u div 1024 = Suc (unat (ti_tid h) div 1024)" "unat u < 2 ^ 63"
  proof -
    show e: "unat u = Suc (unat (ti_tid h))" using lt by (simp add: u_def unat_u64_Suc word_less_nat_alt)
    show "unat u mod 1024 = 0" "unat u div 1024 = Suc (unat (ti_tid h) div 1024)" using md by (simp_all add: e mod_Suc div_Suc)
    show "unat u < 2 ^ 63" using lt by (simp add: e word_less_nat_alt)
  qed
  have um: "u mod 1024 = 0" using u(2) by (simp add: word_unat_eq_iff unat_mod)
  obtain y hg where g: "growTidTbl E u (h\<lparr>ti_tid := u\<rparr>) = (y, hg)" by fastforce
  have wg: "tid_wf (h\<lparr>ti_tid := u\<rparr>) []" "owns (h_pool (h\<lparr>ti_tid := u\<rparr>)) (?M + tid_blocks (h\<lparr>ti_tid := u\<rparr>) []) R"
    using w nil by simp_all
  have b0: "blk_at (h\<lparr>ti_tid := u\<rparr>) (x_iTidTblCurOff (h\<lparr>ti_tid := u\<rparr>)) = None"
    using wg(1) by (simp add: tid_wf_def blk_at_def offset2ptr_def lay_simps)
  have mx: "(of_nat TIDTBLBLK_MAXSZ :: u64) = 1024" by (simp add: lay_simps)
  have y: "y \<noteq> 0" "t = u" and h': "h' = upd_blk y (\<lambda>b. (if isTidValIterOff v then b\<lparr>x_iIterCnt := x_iIterCnt b + 1\<rparr>
      else b\<lparr>x_iDelCnt := x_iDelCnt b + 1\<rparr>)\<lparr>x_iTidVals := (x_iTidVals b)[0 := v]\<rparr>) hg"
    using r b0 g um by (auto simp: setTidTblEnt_def Let_def u_def [symmetric] mx split: if_splits option.splits)
  from growTidTbl_ok [OF wg g] y have g': "tid_wf hg [y]" "owns (h_pool hg) (?M + tid_blocks hg [y]) R"
    "x_lastTidPreClear hg = ti_tid h" "h_blks hg = grown_blks u [] y (h_blks h)"
    using assms(3) by auto
  have cnt: "x_iBlkCnt h' = 1" "x_lastTidPreClear h' = ti_tid h" "x_iTidTblCurOff h' = y" "h_blkidx h' ! 0 = y" "x_iBlkIdxOff h' \<noteq> 0"
    "h_pool h' = h_pool hg" "x_iBlkIdxOff h' = x_iBlkIdxOff hg"
  proof -
    have w1: "x_iBlkCnt hg = 1" "x_iTidTblCurOff hg = y" "x_iBlkIdxOff hg \<noteq> 0" "take 1 (h_blkidx hg) = [y]"
      using g'(1) by (simp_all add: tid_wf_def last0_def)
    show "h_blkidx h' ! 0 = y" using w1(4) by (cases "h_blkidx hg") (simp_all add: h' upd_blk_def)
  qed (use g'(1,3) in \<open>simp_all add: h' upd_blk_def tid_wf_def last0_def\<close>)
  have mp: "offset2ptr (h_pool hg) y" "offset2ptr (h_pool hg) (x_iBlkIdxOff hg)"
    using owns_block(5) [OF g'(2), of y sizeof_TidTblBlk] owns_block(5) [OF g'(2), of "x_iBlkIdxOff hg" "LSSHMTID_BLKIDX_SIZE (blkidx_cnt 1)"]
    by (auto simp: tid_blocks_def)
  have tu: "\<not> t < ti_tid h" using u(1) by (simp add: y word_less_nat_alt)
  have none: "tid2tblBlk h' t = None" using tu u(3) by (simp add: tid2tblBlk_def Let_def cnt y)
  obtain b where b: "h_blks h' y = Some b" "x_tidBase b = t" "x_iTidVals b = (replicate 1024 0)[0 := v]"
  proof
    show "h_blks h' y = Some ((if isTidValIterOff v
        then \<lparr>x_tidBase = u, x_iIterCnt = 1, x_iDelCnt = 0, b_iNext = 0, b_iPrev = last0 0 [], x_iTidVals = replicate 1024 0\<rparr>
        else \<lparr>x_tidBase = u, x_iIterCnt = 0, x_iDelCnt = 1, b_iNext = 0, b_iPrev = last0 0 [], x_iTidVals = replicate 1024 0\<rparr>)
          \<lparr>x_iTidVals := (replicate 1024 0)[0 := v]\<rparr>)"
      unfolding h' upd_blk_def g'(4) grown_blks_def by (simp add: TIDTBLBLK_MAXSZ_def)
  qed (simp_all add: y)
  have ba: "blk_at h' y = Some b" using b mp by (simp add: blk_at_def cnt)
  have b1: "tid2tblBlk h' (ti_tid h) = Some y" using cnt(5) mp ba by (simp add: tid2tblBlk_def Let_def cnt)
  have "ti_tid h < t + 1024" "\<not> t \<le> ti_tid h"
    using u(1,4) by (simp_all add: y word_less_nat_alt word_le_nat_alt unat_word_ariths)
  moreover have "nxtValInBlk b 0 = Some 0" 
  proof -
    have "[0..<1024] = 0 # [Suc 0..<1024]" by (rule upt_conv_Cons) simp
    then show ?thesis using v unfolding nxtValInBlk_def TIDTBLBLK_MAXSZ_def b by simp
  qed
  ultimately have "nxtTidTblVal h' (ti_tid h) None = Some (t, v, y)"
    by (simp add: nxtTidTblVal_def b1 cnt ba b Let_def mx)
  then show ?thesis using none by (simp add: tid2iterOff_def clrTidTblEnt_def cnt)
qed

theorem tid_lost_after_clear_witness:
  "\<exists>h'. setTidTblEnt w_env (iterOff2tidVal 1664) 0 (w_tid_hash\<lparr>x_lastTidPreClear := 1023, ti_tid := 1023\<rparr>) = (Some 1024, h') \<and>
     tid2iterOff h' 1024 = 0"
proof -
  let ?h = "w_tid_hash\<lparr>x_lastTidPreClear := 1023, ti_tid := 1023\<rparr>"
  obtain h' where h: "setTidTblEnt w_env (iterOff2tidVal 1664) 0 ?h = (Some (1023 + 1), h')" by (rule w_tid_set)
  obtain m R where i: "hash_inv w_env w_tid_hash m R" using tid_hist_ok [OF w_tid_hist] by blast
  have f: "tid_frame M R w_tid_hash ?h" for M R by (auto simp: tid_frame_def same_tab_def tid_wf_def tid_blocks_def)
  have "tid2iterOff h' (1023 + 1) = 0"
    using tid_lost_after_clear [OF hash_inv_tid [OF i f] _ _ _ _ h] tidVal_roundtrip(3) [of 1664] by (simp add: w_tid_zero)
  then show ?thesis using h by simp
qed



end
