(* ===== verification/McTidOk.thy ===== *)
theory McTidOk
  imports McTidPkt LsShmTidSeq
begin

text \<open>
  A slave that applies a buffer of replication packets. A packet carries key, value and id of an
  element of the master; applying it stores the value under the key. A whole buffer is applied from
  its start, packet by packet, up to the first one that is out of order or cannot be stored.
\<close>

section \<open>Setting an item on a slave\<close>

lemma insertCopy2_put:
  assumes "hash_inv E h m R" "m key = None" "put_ok h key val" "insertCopy2 E (m_hf E key) key val h = (x, h')"
  shows "put_result E h h' m R x key val"
  using insertCopy2_ok [OF assms(1) _ assms(2) _ _ assms(4)] assms(3) val_is_new [of val E x]
  by (auto simp: put_ok_def stored_def put_result_def)

lemma tid_doSet_ok:
  assumes inv: "hash_inv E h m R" and p: "put_ok h key val" and r: "tid_doSet E key val h = (x, h')"
  shows "put_result E h h' m R x key val"
proof (cases "find2 (m_hf E key) key h = 0")
  case True
  then show ?thesis
    using insertCopy2_put [OF inv _ p] find2_zero [OF inv, of key] r by (simp add: tid_doSet_def findPtr_def Let_def)
next
  case False
  let ?y = "find2 (m_hf E key) key h"
  have v: "val_ok val" using p by (simp add: put_ok_def)
  have at: "hash_at E h m R ?y key" using find2_hash [OF inv, of key] find2_zero [OF inv, of key] False by (auto split: if_splits)
  obtain e where e: "elem_live E h ?y e" using hash_atD(3) [OF at] by auto
  have he: "h_elems h ?y = Some e" using e by (simp add: elem_live_def)
  show ?thesis
  proof (cases "snd val < e_valLen e")
    case True
    have n: "snd val \<le> length (e_val e)" using True e by (auto simp: elem_live_def elem_ok_def)
    define h1 where "h1 = setIterData ?y (fst val) (upd_elem ?y (\<lambda>e. e\<lparr>e_valLen := snd val\<rparr>) h)"
    have "upd_elem ?y (\<lambda>e. e\<lparr>e_valLen := snd val\<rparr>) (case fst val of None \<Rightarrow> h
        | Some v \<Rightarrow> upd_elem ?y (\<lambda>e. e\<lparr>e_val := wr (e_val e) 0 (take (snd val) v)\<rparr>) h) = h1"
      using he by (cases e) (auto simp: h1_def setIterData_def upd_elem_def split: option.split)
    then have rr: "x = ?y" "h' = unlinkTid E (x_tid e) h1"
      using r True False by (simp_all add: tid_doSet_def findPtr_def Let_def elem_live_simps(4) [OF e])
    have fr: "hash_frame h1 h'" by (simp add: rr hash_frameI(6))
    note ip = doSet_in_place [OF at e n v, folded h1_def]
    then obtain v where v1: "val_is val v" "hash_at E h1 (m(key \<mapsto> v)) R x key" using rr(1) by auto
    show ?thesis using False rr(1) v1(1) hash_frame_ok(2) [OF fr v1(2)] same_flags_trans [OF ip(2) hash_at_frame_refl [OF fr v1(2)]]
      by (auto simp: put_result_def)
  next
    case ng: False
    note er = eraseIteratorHelper_hash [OF at]
    have i: "insertCopy2 E (m_hf E key) key val (eraseIteratorHelper E ?y h) = (x, h')"
      using r ng False by (simp add: tid_doSet_def findPtr_def Let_def elem_live_simps(4) [OF e])
    have "put_result E (eraseIteratorHelper E ?y h) h' (m(key := None)) R x key val"
      by (rule insertCopy2_put [OF er(1) _ _ i]) (use p put_ok_flags [OF er(2)] in auto)
    then show ?thesis using same_flags_trans [OF er(2)] by (auto simp: put_result_def split: if_splits)
  qed
qed

lemma tid_setIter_ok:
  assumes inv: "hash_inv E h m R" and p: "put_ok h key (Some v, length v)" and r: "tid_setIter E key (Some v, length v) t h = (ok, h')"
  shows "same_flags h h'" "if ok then hash_inv E h' (m(key \<mapsto> v)) R else hash_inv E h' m R \<or> hash_inv E h' (m(key := None)) R"
proof -
  obtain x h1 where d: "tid_doSet E key (Some v, length v) h = (x, h1)" by fastforce
  note q = tid_doSet_ok [OF inv p d]
  have rr: "ok = (x \<noteq> 0)" "h' = (if x \<noteq> 0 then linkTid E x t h1 else h1)" using r d by (auto simp: tid_setIter_def Let_def split: if_splits)
  have fr: "hash_frame h1 h'" by (simp add: rr hash_frameI(5))
  show "if ok then hash_inv E h' (m(key \<mapsto> v)) R else hash_inv E h' m R \<or> hash_inv E h' (m(key := None)) R"
  proof (cases "x = 0")
    case True
    then show ?thesis using q rr by (auto simp: put_result_def)
  next
    case False
    then obtain w where w: "val_is (Some v, length v) w" "hash_at E h1 (m(key \<mapsto> w)) R x key" using q by (auto simp: put_result_def)
    then have "hash_inv E h' (m(key \<mapsto> w)) R" using hash_frame_ok(1) [OF fr hash_atD(1)] by blast
    then show ?thesis using w(1) False rr by (simp add: val_is_def)
  qed
  have "\<exists>m1. hash_inv E h1 m1 R" using q hash_atD(1) unfolding put_result_def by (cases "x = 0") (simp, blast)+
  then have "same_flags h1 h'" using hash_frame_flags [OF fr] by (auto simp: same_flags_def)
  then show "same_flags h h'" using q same_flags_trans by (auto simp: put_result_def)
qed

section \<open>Packets\<close>

text \<open>The changes that a buffer of additions and flushes carries, and what they do to the contents.\<close>

datatype repl_op = RAdd LsShmHElem u64 | RFlush u64

fun repl_pkt :: "repl_op \<Rightarrow> bytes" where
  "repl_pkt (RAdd e t) = iter2tidPack e t (tidAddPktSize e)"
| "repl_pkt (RFlush t) = del2tidPack TIDDEL_FLUSHALL t tidDelPktSize"

fun repl_tid :: "repl_op \<Rightarrow> u64" where
  "repl_tid (RAdd e t) = t"
| "repl_tid (RFlush t) = t"

fun repl_apply :: "repl_op \<Rightarrow> (bytes \<Rightarrow> bytes option) \<Rightarrow> bytes \<Rightarrow> bytes option" where
  "repl_apply (RAdd e t) m = m(e_key e \<mapsto> take (e_valLen e) (e_val e))"
| "repl_apply (RFlush t) m = Map.empty"

fun repl_fits :: "LsShmHash \<Rightarrow> repl_op \<Rightarrow> bool" where
  "repl_fits h (RAdd e t) \<longleftrightarrow> length (e_key e) < 65536 \<and> e_valLen e \<le> length (e_val e) \<and>
     e_key e \<noteq> [] \<and> elem_size h (length (e_key e)) (e_valLen e) \<le> 100000000"
| "repl_fits h (RFlush t) \<longleftrightarrow> True"

text \<open>A change that was refused leaves the contents, or takes the old value of its key away.\<close>

fun repl_failed :: "repl_op \<Rightarrow> (bytes \<Rightarrow> bytes option) \<Rightarrow> (bytes \<Rightarrow> bytes option) \<Rightarrow> bool" where
  "repl_failed (RAdd e t) m m' \<longleftrightarrow> m' = m \<or> m' = m(e_key e := None)"
| "repl_failed (RFlush t) m m' \<longleftrightarrow> m' = Map.empty"

definition apply_pkt :: "env \<Rightarrow> bytes \<Rightarrow> LsShmHash \<Rightarrow> bool \<times> LsShmHash" where
  "apply_pkt E buf h = (if pk_type (parse_pkt buf) = LSSHM_PKTADD then setTidItem E buf h
     else delTidItem E buf (drop (pk_iSize (parse_pkt buf)) buf) h)"

lemma tidSet_loop_step:
  "tidSet_loop (Suc k) E buf n h =
     (if length buf > sizeof_PktHdr \<and> length buf \<ge> pk_iSize (parse_pkt buf) then
        if pk_tid (parse_pkt buf) \<le> ti_tid h then (n, h)
        else let (ok, h) = apply_pkt E buf h
          in if \<not> ok then (n, h) else tidSet_loop k E (drop (pk_iSize (parse_pkt buf)) buf) (n + pk_iSize (parse_pkt buf)) h
      else (n, h))"
  by (simp add: apply_pkt_def Let_def)

lemma rd_append: "rd (a @ b) (length a) n = rd b 0 n" "i + n \<le> length a \<Longrightarrow> rd (a @ b) i n = rd a i n"
  "rd (a @ b) (length a + i) n = rd b i n"
  by (simp_all add: rd_def)

lemma parse_pkt_hdr:
  assumes "sz < 2 ^ 32" "ty < 256" "k < 65536"
  shows "parse_pkt (pkt_hdr sz ty k t @ b) = \<lparr>pk_iSize = sz, pk_type = ty, pk_iKeySz = k, pk_tid = t\<rparr>"
proof -
  let ?p = "pkt_hdr sz ty k t @ b"
  have p: "?p = le_enc 4 sz @ [CHR 0x00, char_of ty] @ le_enc 2 k @ le_enc 8 (unat t) @ b" by (simp add: pkt_hdr_def)
  have "rd ?p 0 4 = le_enc 4 sz" "rd ?p 6 2 = le_enc 2 k" "rd ?p 8 8 = le_enc 8 (unat t)" "byte_at ?p 5 = char_of ty"
    unfolding p by (simp_all add: rd_def byte_at_def nth_append)
  moreover have "le_dec (le_enc 4 sz) = sz" "le_dec (le_enc 2 k) = k" using assms by (simp_all add: le_dec_enc)
  ultimately show ?thesis using assms(2) by (simp add: parse_pkt_def)
qed

lemma tidDelPktSize_eq: "tidDelPktSize = 24"
  by (simp add: tidDelPktSize_def lay_simps round4_def)

lemma repl_pkt_len:
  assumes "repl_fits h op"
  shows "length (repl_pkt op) < 2 ^ 32" "16 < length (repl_pkt op)"
    "parse_pkt (repl_pkt op @ b) = \<lparr>pk_iSize = length (repl_pkt op),
       pk_type = (case op of RAdd e t \<Rightarrow> LSSHM_PKTADD | RFlush t \<Rightarrow> LSSHM_PKTDEL),
       pk_iKeySz = (case op of RAdd e t \<Rightarrow> length (e_key e) | RFlush t \<Rightarrow> 0), pk_tid = repl_tid op\<rparr>"
proof -
  have hl: "length (pkt_hdr sz ty k t) = 16" for sz ty k t by (simp add: pkt_hdr_def)
  have l: "length (repl_pkt op) = (case op of RAdd e t \<Rightarrow> tidAddPktSize e | RFlush t \<Rightarrow> 24)"
  proof (cases op)
    case (RAdd e t)
    have "28 + length (e_key e) + e_valLen e \<le> tidAddPktSize e" using round4_ge(1) by (simp add: tidAddPktSize_def lay_simps)
    then show ?thesis using assms by (simp add: RAdd iter2tidPack_def Let_def hl)
  next
    case (RFlush t)
    then show ?thesis by (simp add: del2tidPack_def hl)
  qed
  have b: "16 < (case op of RAdd e t \<Rightarrow> tidAddPktSize e | RFlush t \<Rightarrow> 24)" "(case op of RAdd e t \<Rightarrow> tidAddPktSize e | RFlush t \<Rightarrow> 24) < 2 ^ 32"
  proof (atomize(full), cases op)
    case (RAdd e t)
    have "elem_size h (length (e_key e)) (e_valLen e) \<le> 100000000" using assms RAdd by simp
    then have "length (e_key e) + e_valLen e \<le> 100000000"
      using round4_ge(1) [of "length (e_key e)"] round4_ge(1) [of "e_valLen e"] by (simp add: elem_size_def lay_simps)
    then show "16 < (case op of RAdd e t \<Rightarrow> tidAddPktSize e | RFlush t \<Rightarrow> 24) \<and> (case op of RAdd e t \<Rightarrow> tidAddPktSize e | RFlush t \<Rightarrow> 24) < 2 ^ 32"
      using round4_ge(1,2) [of "16 + 12 + length (e_key e) + e_valLen e"] by (simp add: RAdd tidAddPktSize_def lay_simps)
  qed simp
  show "length (repl_pkt op) < 2 ^ 32" "16 < length (repl_pkt op)" using b l by simp_all
  show "parse_pkt (repl_pkt op @ b) = \<lparr>pk_iSize = length (repl_pkt op),
       pk_type = (case op of RAdd e t \<Rightarrow> LSSHM_PKTADD | RFlush t \<Rightarrow> LSSHM_PKTDEL),
       pk_iKeySz = (case op of RAdd e t \<Rightarrow> length (e_key e) | RFlush t \<Rightarrow> 0), pk_tid = repl_tid op\<rparr>" for b
  proof (cases op)
    case (RAdd e t)
    then show ?thesis using b assms l by (simp add: iter2tidPack_def Let_def parse_pkt_hdr LSSHM_PKTADD_def)
  next
    case (RFlush t)
    then show ?thesis using l by (simp add: del2tidPack_def parse_pkt_hdr LSSHM_PKTDEL_def tidDelPktSize_eq)
  qed
qed

lemma repl_fits_flags: "same_flags h h' \<Longrightarrow> repl_fits h' op = repl_fits h op"
  by (cases op) (simp_all add: same_flags_size)

lemma apply_add:
  assumes f: "repl_fits h (RAdd e t)"
  shows "apply_pkt E (repl_pkt (RAdd e t) @ b) h =
    tid_setIter E (e_key e) (Some (take (e_valLen e) (e_val e)), length (take (e_valLen e) (e_val e))) t h"
proof -
  define v where "v = take (e_valLen e) (e_val e)"
  have lv: "length v = e_valLen e" using f by (simp add: v_def)
  let ?p = "repl_pkt (RAdd e t) @ b"
  obtain z where p: "?p = pkt_hdr (tidAddPktSize e) LSSHM_PKTADD (length (e_key e)) t @
      le_enc 4 (e_valLen e) @ (le_enc 4 (unat (x_hkey e)) @ le_enc 4 0) @ e_key e @ v @ z"
    by (simp add: iter2tidPack_def Let_def v_def)
  have hl: "length (pkt_hdr (tidAddPktSize e) LSSHM_PKTADD (length (e_key e)) t) = 16" by (simp add: pkt_hdr_def)
  have "elem_size h (length (e_key e)) (e_valLen e) \<le> 100000000" using f by simp
  then have "e_valLen e < 256 ^ 4" using round4_ge(1) [of "e_valLen e"] by (simp add: elem_size_def lay_simps)
  then have d: "le_dec (le_enc 4 (e_valLen e)) = e_valLen e" by (simp add: le_dec_enc)
  have r: "rd ?p 16 4 = le_enc 4 (e_valLen e)" "rd ?p 28 (length (e_key e)) = e_key e" "rd ?p (28 + length (e_key e)) (e_valLen e) = v"
    unfolding p using hl lv by (simp_all add: rd_def)
  have "pk_type (parse_pkt ?p) = LSSHM_PKTADD" "pk_iKeySz (parse_pkt ?p) = length (e_key e)" "pk_tid (parse_pkt ?p) = t"
    using repl_pkt_len(3) [OF f, of b] by simp_all
  then show ?thesis unfolding apply_pkt_def setTidItem_def v_def [symmetric] Let_def sizeof_PktHdr_def sizeof_TidAdd_def
    by (simp add: r d lv del: repl_pkt.simps)
qed

lemma apply_flush:
  "apply_pkt E (repl_pkt (RFlush t) @ b) h = (case setTidTblEnt E TIDDEL_FLUSHALL t (hash_clear E h) of (r, h) \<Rightarrow> (r \<noteq> None, h))"
proof -
  let ?p = "repl_pkt (RFlush t) @ b"
  have hl: "length (pkt_hdr tidDelPktSize LSSHM_PKTDEL 0 t) = 16" by (simp add: pkt_hdr_def)
  have f: "repl_fits undefined (RFlush t)" by simp
  have r: "rd ?p 16 8 = le_enc 8 (unat TIDDEL_FLUSHALL)" using hl by (simp add: del2tidPack_def rd_def)
  have "pk_type (parse_pkt ?p) \<noteq> LSSHM_PKTADD" "pk_tid (parse_pkt ?p) = t"
    using repl_pkt_len(3) [OF f, of b] by (simp_all add: LSSHM_PKTADD_def LSSHM_PKTDEL_def)
  then show ?thesis unfolding apply_pkt_def delTidItem_def Let_def sizeof_PktHdr_def by (simp add: r del: repl_pkt.simps)
qed

lemma apply_pkt_ok:
  assumes inv: "hash_inv E h m R" and f: "repl_fits h op" and r: "apply_pkt E (repl_pkt op @ b) h = (ok, h')"
  shows "same_flags h h' \<and> (if ok then hash_inv E h' (repl_apply op m) R else \<exists>m'. repl_failed op m m' \<and> hash_inv E h' m' R)"
proof (cases op)
  case (RAdd e t)
  have p: "put_ok h (e_key e) (Some (take (e_valLen e) (e_val e)), length (take (e_valLen e) (e_val e)))"
    using f RAdd by (simp add: put_ok_def val_ok_def min_absorb2)
  from tid_setIter_ok [OF inv p r [unfolded RAdd apply_add [OF f [unfolded RAdd]]]] show ?thesis by (auto simp: RAdd split: if_splits)
next
  case (RFlush t)
  note hc = hash_clear_ok [OF inv]
  obtain r0 where s: "setTidTblEnt E TIDDEL_FLUSHALL t (hash_clear E h) = (r0, h')" using r unfolding RFlush apply_flush by (auto split: prod.splits)
  have fr: "hash_frame (hash_clear E h) h'" using tid_frame_set [of _ _ "hash_clear E h" E TIDDEL_FLUSHALL t] s by (simp add: hash_frame_def)
  have "hash_inv E h' Map.empty R" by (rule hash_frame_ok(1) [OF fr hc(1)])
  moreover have "same_flags h h'" using same_flags_trans [OF hc(2)] hash_frame_flags [OF fr hc(1)] by (simp add: same_flags_def)
  ultimately show ?thesis by (simp add: RFlush)
qed

section \<open>Whole buffers\<close>

definition repl_buf :: "repl_op list \<Rightarrow> bytes" where
  "repl_buf ops = concat (map repl_pkt ops)"

text \<open>
  What applying a buffer may do: the first \<open>j\<close> changes are applied and consumed. If there are more,
  the next one is not newer than what the slave has, or it was refused.
\<close>

definition repl_done :: "env \<Rightarrow> block multiset \<Rightarrow> (bytes \<Rightarrow> bytes option) \<Rightarrow> repl_op list \<Rightarrow> nat \<Rightarrow> nat \<Rightarrow> LsShmHash \<Rightarrow> bool" where
  "repl_done E R m ops j n h' \<longleftrightarrow> j \<le> length ops \<and> n = length (repl_buf (take j ops)) \<and>
     (hash_inv E h' (fold repl_apply (take j ops) m) R \<and> (j < length ops \<longrightarrow> repl_tid (ops ! j) \<le> ti_tid h') \<or>
      j < length ops \<and> (\<exists>m' h1 b. repl_failed (ops ! j) (fold repl_apply (take j ops) m) m' \<and> hash_inv E h' m' R \<and>
        hash_inv E h1 (fold repl_apply (take j ops) m) R \<and> apply_pkt E (repl_pkt (ops ! j) @ b) h1 = (False, h')))"

lemma repl_done_Cons: "repl_done E R (repl_apply op m) ops j n h' \<Longrightarrow> repl_done E R m (op # ops) (Suc j) (length (repl_pkt op) + n) h'"
  by (simp add: repl_done_def repl_buf_def)

lemma tidSet_loop_replays:
  assumes "hash_inv E h m R" "\<forall>op\<in>set ops. repl_fits h op" "length ops < k"
    and "tidSet_loop k E (repl_buf ops) n h = (n', h')"
  shows "\<exists>j d. n' = n + d \<and> repl_done E R m ops j d h'"
  using assms
proof (induction ops arbitrary: k n h m)
  case Nil
  then obtain k' where "k = Suc k'" by (cases k) auto
  then have "n' = n" "h' = h" using Nil by (auto simp: repl_buf_def tidSet_loop_step lay_simps simp del: tidSet_loop.simps)
  then show ?case using Nil by (intro exI [of _ 0]) (simp add: repl_done_def repl_buf_def)
next
  case (Cons op ops)
  obtain k' where k: "k = Suc k'" using Cons.prems(3) by (cases k) auto
  let ?b = "repl_buf ops"
  have buf: "repl_buf (op # ops) = repl_pkt op @ ?b" by (simp add: repl_buf_def)
  have f: "repl_fits h op" using Cons.prems(2) by simp
  note pl = repl_pkt_len(2,3) [OF f]
  have hd: "length (repl_buf (op # ops)) > sizeof_PktHdr \<and> length (repl_buf (op # ops)) \<ge> pk_iSize (parse_pkt (repl_buf (op # ops)))"
    "pk_tid (parse_pkt (repl_buf (op # ops))) = repl_tid op" "pk_iSize (parse_pkt (repl_buf (op # ops))) = length (repl_pkt op)"
    "drop (length (repl_pkt op)) (repl_buf (op # ops)) = ?b"
    using pl by (simp_all add: buf lay_simps)
  obtain ok h1 where a: "apply_pkt E (repl_pkt op @ ?b) h = (ok, h1)" by fastforce
  note ap = apply_pkt_ok [OF Cons.prems(1) f a]
  have st: "tidSet_loop k E (repl_buf (op # ops)) n h = (if repl_tid op \<le> ti_tid h then (n, h)
      else if \<not> ok then (n, h1) else tidSet_loop k' E ?b (n + length (repl_pkt op)) h1)"
    unfolding k tidSet_loop_step hd(2-4) using hd(1) hd(3) a buf by simp
  show ?case
  proof (cases "repl_tid op \<le> ti_tid h")
    case True
    then have "n' = n" "h' = h" using Cons.prems(4) st by auto
    then show ?thesis using Cons.prems(1) True by (intro exI [of _ 0]) (simp add: repl_done_def repl_buf_def)
  next
    case new: False
    show ?thesis
    proof (cases ok)
      case True
      have fits: "\<forall>op\<in>set ops. repl_fits h1 op" using Cons.prems(2) repl_fits_flags [of h h1] ap by simp
      have "tidSet_loop k' E ?b (n + length (repl_pkt op)) h1 = (n', h')" using Cons.prems(4) st new True by simp
      from Cons.IH [OF _ fits _ this, of "repl_apply op m"] ap True Cons.prems(3) k obtain j d where
        "n' = n + length (repl_pkt op) + d" "repl_done E R (repl_apply op m) ops j d h'" by auto
      with repl_done_Cons [OF this(2)] show ?thesis by (metis add.assoc)
    next
      case False
      then have "n' = n" "h' = h1" using Cons.prems(4) st new by auto
      moreover obtain m' where "repl_failed op m m'" "hash_inv E h1 m' R" using ap False by auto
      ultimately show ?thesis using Cons.prems(1) a False
        by (intro exI [of _ 0]) (simp add: repl_done_def repl_buf_def, blast)
    qed
  qed
qed

section \<open>Properties\<close>

definition w_elem :: LsShmHElem where
  "w_elem = \<lparr>x_iLen = 64, x_iValOff = 32, x_iNext = 0, x_hkey = 3, e_key = ''key'', e_valLen = 2, e_val = ''v1'',
     LsShmHElem.x_tid = 0, x_iLinkNext = 0, x_iLinkPrev = 0, x_lasttime = 0\<rparr>"



lemma getNxtTid_fits:
  "getNxtTid_loop k E t c n h = (Nxt_Pkt pkt t' c', h') \<Longrightarrow> length pkt \<le> n"
proof (induction k arbitrary: t c h)
  case (Suc k)
  have hl: "length (pkt_hdr sz ty kz t) = 16" for sz ty kz t by (simp add: pkt_hdr_def)
  have add: "length (iter2tidPack e t' (tidAddPktSize e)) = tidAddPktSize e" for e t'
    using round4_ge(1) [of "16 + 12 + length (e_key e) + e_valLen e"] by (simp add: iter2tidPack_def Let_def hl tidAddPktSize_def lay_simps)
  have del: "length (del2tidPack v t' tidDelPktSize) = tidDelPktSize" for v t' by (simp add: del2tidPack_def hl tidDelPktSize_eq)
  show ?case
    using Suc.prems Suc.IH add del
    by (fastforce simp: Let_def split: option.splits prod.splits if_splits)
qed simp

text \<open>
  C35: the packets that a master writes for a slave never exceed the buffer they are written to.
\<close>

theorem packets_fit_buffer: "length (fst (fst (tidGetNxtItems E t n h))) \<le> n"
proof -
  have "length acc + n \<le> N \<Longrightarrow> length (fst (fst (tidGet_loop k E t c n acc h))) \<le> N" for k c acc N
  proof (induction k arbitrary: t c n acc h)
    case (Suc k)
    obtain r h1 where r: "getNxtTidItem E t c n h = (r, h1)" by fastforce
    show ?case
    proof (cases r)
      case (Nxt_Pkt pkt t' c')
      have "length pkt \<le> n" using getNxtTid_fits r Nxt_Pkt unfolding getNxtTidItem_def by blast
      then show ?thesis using Suc.prems Suc.IH [of "acc @ pkt" "n - length pkt"] by (simp add: r Nxt_Pkt)
    qed (use Suc.prems in \<open>simp_all add: r\<close>)
  qed simp
  note fits = this [of "[]" n]
  show ?thesis unfolding tidGetNxtItems_def by (rule fits) simp
qed

end
