(* ===== verification/LsShmLru.thy ===== *)
theory LsShmLru
  imports LsShmHashMap
begin

text \<open>
  The LRU list of a table: a doubly linked list from the newest element (\<open>linkFirst\<close>) to the oldest
  (\<open>linkLast\<close>). Linking a new element and moving or removing one between two others keep it. At the
  two ends the link setters, which ignore a zero link, leave the new end with a link to the element
  that went away.
\<close>

section \<open>The list\<close>

definition lkN :: "LsShmHash \<Rightarrow> off \<Rightarrow> off option" where
  "lkN h x = map_option x_iLinkNext (h_elems h x)"

definition lkP :: "LsShmHash \<Rightarrow> off \<Rightarrow> off option" where
  "lkP h x = map_option x_iLinkPrev (h_elems h x)"

definition lru_list :: "LsShmHash \<Rightarrow> off list \<Rightarrow> bool" where
  "lru_list h xs \<longleftrightarrow> distinct xs \<and> 0 \<notin> set xs \<and> linkFirst h = hd0 xs 0 \<and> linkLast h = last0 0 xs \<and>
     dseg (lkP h) (lkN h) 0 xs 0"

definition lru_live :: "env \<Rightarrow> LsShmHash \<Rightarrow> off list \<Rightarrow> bool" where
  "lru_live E h xs \<longleftrightarrow> flag_lru h \<and> (\<forall>x\<in>set xs. \<exists>e. elem_live E h x e)"

text \<open>Changes of links.\<close>

definition set_links :: "(LsShmHElem \<Rightarrow> LsShmHElem) \<Rightarrow> bool" where
  "set_links f \<longleftrightarrow> (\<forall>e. x_iLen (f e) = x_iLen e \<and> x_iValOff (f e) = x_iValOff e \<and> x_hkey (f e) = x_hkey e \<and>
     e_key (f e) = e_key e \<and> e_valLen (f e) = e_valLen e \<and> e_val (f e) = e_val e)"

lemma set_links_simps [simp]:
  "set_links (\<lambda>e. e\<lparr>x_iLinkNext := a\<rparr>)" "set_links (\<lambda>e. e\<lparr>x_iLinkPrev := a\<rparr>)" "set_links (\<lambda>e. e\<lparr>x_lasttime := t\<rparr>)"
  "set_links (\<lambda>e. e\<lparr>x_iLinkNext := a, x_lasttime := t\<rparr>)" "set_links (\<lambda>e. e\<lparr>x_iLinkNext := a, x_iLinkPrev := b\<rparr>)"
  by (simp_all add: set_links_def)

lemma lru_live_upd [simp]:
  assumes "set_links f"
  shows "lru_live E (upd_elem a f h) xs = lru_live E h xs"
proof -
  have "(\<exists>e. elem_live E (upd_elem a f h) x e) = (\<exists>e. elem_live E h x e)" for x
    using assms by (cases "x = a") (auto simp: elem_live_def upd_elem_def elem_ok_def set_links_def iterExtraSpace_def)
  then show ?thesis by (simp add: lru_live_def) (simp add: upd_elem_def)
qed

lemma lru_live_anchor [simp]:
  "lru_live E (h\<lparr>linkFirst := a\<rparr>) xs = lru_live E h xs" "lru_live E (h\<lparr>linkLast := a\<rparr>) xs = lru_live E h xs"
  "lru_live E (h\<lparr>nvalset := n\<rparr>) xs = lru_live E h xs"
  by (simp_all add: lru_live_def elem_live_def iterExtraSpace_def)

lemma lru_live_sub: "lru_live E h xs \<Longrightarrow> set ys \<subseteq> set xs \<Longrightarrow> lru_live E h ys"
  by (auto simp: lru_live_def)

lemma lru_live_elem:
  assumes "lru_live E h xs" "x \<in> set xs"
  obtains e where "elem_live E h x e" "h_elems h x = Some e" "link_ok h x = Some e" "offset2iterator x h = (Some e, h)" "getLruLinkPtr h x e"
proof -
  obtain e where "elem_live E h x e" using assms by (auto simp: lru_live_def)
  note s = elem_live_simps [OF this]
  show thesis using that [of e] s assms(1) \<open>elem_live E h x e\<close> by (auto simp: lru_live_def)
qed

lemma lru_live_some: "lru_live E h xs \<Longrightarrow> x \<in> set xs \<Longrightarrow> h_elems h x \<noteq> None"
  by (auto simp: lru_live_def elem_live_def)

lemma set_link_live:
  assumes "lru_live E h xs" "x \<in> set xs" "v \<noteq> 0"
  shows "set_linkNext x v h = (True, upd_elem x (\<lambda>e. e\<lparr>x_iLinkNext := v\<rparr>) h)"
    "set_linkPrev x v h = (True, upd_elem x (\<lambda>e. e\<lparr>x_iLinkPrev := v\<rparr>) h)"
  by (rule lru_live_elem [OF assms(1,2)], simp add: set_linkNext_def set_linkPrev_def assms(3))+

lemma set_link_zero [simp]: "set_linkNext x 0 h = (True, h)" "set_linkPrev x 0 h = (True, h)"
  by (simp_all add: set_linkNext_def set_linkPrev_def)

lemma link_simps [simp]:
  "h_elems h x \<noteq> None \<Longrightarrow> lkN (upd_elem x (\<lambda>e. e\<lparr>x_iLinkNext := v\<rparr>) h) = (lkN h)(x \<mapsto> v)"
  "h_elems h x \<noteq> None \<Longrightarrow> lkP (upd_elem x (\<lambda>e. e\<lparr>x_iLinkPrev := v\<rparr>) h) = (lkP h)(x \<mapsto> v)"
  "lkP (upd_elem x (\<lambda>e. e\<lparr>x_iLinkNext := v\<rparr>) h) = lkP h" "lkN (upd_elem x (\<lambda>e. e\<lparr>x_iLinkPrev := v\<rparr>) h) = lkN h"
  "lkP (upd_elem x (\<lambda>e. e\<lparr>x_lasttime := t\<rparr>) h) = lkP h" "lkN (upd_elem x (\<lambda>e. e\<lparr>x_lasttime := t\<rparr>) h) = lkN h"
  "h_elems h x \<noteq> None \<Longrightarrow> lkN (upd_elem x (\<lambda>e. e\<lparr>x_iLinkNext := v, x_lasttime := t\<rparr>) h) = (lkN h)(x \<mapsto> v)"
  "lkP (upd_elem x (\<lambda>e. e\<lparr>x_iLinkNext := v, x_lasttime := t\<rparr>) h) = lkP h"
  "h_elems h x \<noteq> None \<Longrightarrow> lkN (upd_elem x (\<lambda>e. e\<lparr>x_iLinkNext := v, x_iLinkPrev := w\<rparr>) h) = (lkN h)(x \<mapsto> v)"
  "h_elems h x \<noteq> None \<Longrightarrow> lkP (upd_elem x (\<lambda>e. e\<lparr>x_iLinkNext := v, x_iLinkPrev := w\<rparr>) h) = (lkP h)(x \<mapsto> w)"
  "lkN (h\<lparr>linkFirst := a\<rparr>) = lkN h" "lkN (h\<lparr>linkLast := a\<rparr>) = lkN h" "lkN (h\<lparr>nvalset := n\<rparr>) = lkN h"
  "lkP (h\<lparr>linkFirst := a\<rparr>) = lkP h" "lkP (h\<lparr>linkLast := a\<rparr>) = lkP h" "lkP (h\<lparr>nvalset := n\<rparr>) = lkP h"
  by (auto simp: lkN_def lkP_def upd_elem_def fun_eq_iff option.map_comp comp_def)

lemma upd_elem_fields [simp]:
  "linkFirst (upd_elem x f h) = linkFirst h" "linkLast (upd_elem x f h) = linkLast h"
  "(h_elems (upd_elem x f h) y = None) = (h_elems h y = None)"
  by (simp_all add: upd_elem_def)

section \<open>The operations\<close>

lemma linkHElem_list:
  assumes l: "lru_list h xs" and v: "lru_live E h (x # xs)" and x: "x \<notin> set xs" "x \<noteq> 0"
  shows "lru_list (linkHElem E x h) (x # xs)"
proof -
  obtain e where e: "h_elems h x = Some e" "link_ok h x = Some e" by (rule lru_live_elem [OF v, of x]) auto
  show ?thesis
  proof (cases xs)
    case Nil
    then show ?thesis using l e x by (simp add: linkHElem_def lru_list_def)
  next
    case (Cons y ys)
    have y: "linkFirst h = y" "y \<noteq> 0" "y \<noteq> x" using l x Cons by (auto simp: lru_list_def)
    have hy: "h_elems h y \<noteq> None" using l Cons by (auto simp: lru_list_def lkN_def)
    have s: "set_linkNext y x h = (True, upd_elem y (\<lambda>e. e\<lparr>x_iLinkNext := x\<rparr>) h)"
      by (rule set_link_live(1) [OF v]) (use Cons x in auto)
    have d: "dseg (lkP h) (lkN h) 0 (y # ys) 0" "distinct (y # ys)" using l Cons by (auto simp: lru_list_def)
    have "dseg ((lkP h)(x \<mapsto> y)) ((lkN h)(y \<mapsto> x, x \<mapsto> 0)) x (y # ys) 0"
      by (rule dseg_set_prev [OF d]) (use x Cons d(2) in auto)
    then show ?thesis using l e x Cons y hy s by (simp add: linkHElem_def lru_list_def Let_def)
  qed
qed

lemma lru_mid:
  assumes "lru_list h (as @ a # x # b # bs)"
  shows "dseg (lkP h) (lkN h) 0 (as @ [a]) x" "lkP h x = Some b" "lkN h x = Some a" "dseg (lkP h) (lkN h) x (b # bs) 0"
    "a \<noteq> 0" "b \<noteq> 0" "x \<noteq> 0" "distinct (as @ a # x # b # bs)" "linkFirst h = hd0 (as @ [a]) 0" "linkLast h = last0 b bs"
  using assms by (auto simp: lru_list_def dseg_append)

lemma unlinkHElem_mid:
  assumes l: "lru_list h (as @ a # x # b # bs)" and v: "lru_live E h (as @ a # x # b # bs)"
  shows "lru_list (unlinkHElem x h) (as @ a # b # bs)"
proof -
  note m = lru_mid [OF l]
  obtain e where e: "h_elems h x = Some e" "link_ok h x = Some e" by (rule lru_live_elem [OF v, of x]) auto
  have ne: "x_iLinkNext e = a" "x_iLinkPrev e = b" using m(2,3) e by (auto simp: lkN_def lkP_def)
  let ?h1 = "upd_elem a (\<lambda>e. e\<lparr>x_iLinkPrev := b\<rparr>) h"
  have s1: "set_linkPrev a b h = (True, ?h1)" by (rule set_link_live(2) [OF v]) (use m in auto)
  have s2: "set_linkNext b a ?h1 = (True, upd_elem b (\<lambda>e. e\<lparr>x_iLinkNext := a\<rparr>) ?h1)"
    by (rule set_link_live(1) [where E = E and xs = "as @ a # x # b # bs"]) (use v m in auto)
  have ab: "h_elems h a \<noteq> None" "h_elems h b \<noteq> None"
    using lru_live_some [OF v] by auto
  have "dseg ((lkP h)(a \<mapsto> b)) ((lkN h)(b \<mapsto> a)) 0 (as @ [a]) b"
    by (rule dseg_set_next [OF m(1)]) (use m(8) in auto)
  moreover have "dseg ((lkP h)(a \<mapsto> b)) ((lkN h)(b \<mapsto> a)) a (b # bs) 0"
    by (rule dseg_set_prev [OF m(4)]) (use m(8) in auto)
  ultimately have "dseg ((lkP h)(a \<mapsto> b)) ((lkN h)(b \<mapsto> a)) 0 ((as @ [a]) @ b # bs) 0" by (subst dseg_append) simp
  then show ?thesis using l m(5-10) e ne s1 s2 ab by (simp add: unlinkHElem_def lru_list_def Let_def)
qed

lemma linkSetTop_mid:
  assumes l: "lru_list h (as @ a # x # b # bs)" and v: "lru_live E h (as @ a # x # b # bs)"
  shows "lru_list (linkSetTop E x h) (x # as @ a # b # bs)"
proof -
  note m = lru_mid [OF l]
  obtain e where e: "h_elems h x = Some e" "link_ok h x = Some e" by (rule lru_live_elem [OF v, of x]) auto
  have ne: "x_iLinkNext e = a" "x_iLinkPrev e = b" using m(2,3) e by (auto simp: lkN_def lkP_def)
  define f where "f = hd0 (as @ [a]) 0"
  have fa: "f \<in> set (as @ [a])" "f \<noteq> 0" "f \<noteq> x" "f \<noteq> b" using hd0_in [of "as @ [a]" 0] m l by (auto simp: f_def lru_list_def)
  let ?h1 = "upd_elem b (\<lambda>e. e\<lparr>x_iLinkNext := a\<rparr>) h"
  let ?h2 = "upd_elem a (\<lambda>e. e\<lparr>x_iLinkPrev := b\<rparr>) ?h1"
  let ?h3 = "upd_elem x (\<lambda>e. e\<lparr>x_iLinkNext := 0, x_iLinkPrev := f\<rparr>) ?h2"
  let ?h4 = "upd_elem f (\<lambda>e. e\<lparr>x_iLinkNext := x\<rparr>) ?h3"
  note sl = set_link_live [where E = E and xs = "as @ a # x # b # bs"]
  have s1: "set_linkNext b a h = (True, ?h1)" by (rule sl(1)) (use v m in auto)
  have s2: "set_linkPrev a b ?h1 = (True, ?h2)" by (rule sl(2)) (use v m in auto)
  have s3: "set_linkNext f x ?h3 = (True, ?h4)" by (rule sl(1)) (use v m fa in auto)
  have ex: "h_elems h a \<noteq> None" "h_elems h b \<noteq> None" "h_elems h x \<noteq> None" "h_elems h f \<noteq> None"
    using lru_live_some [OF v] fa(1) by auto
  let ?P = "(lkP h)(a \<mapsto> b, x \<mapsto> f)" and ?N = "(lkN h)(b \<mapsto> a, x \<mapsto> 0, f \<mapsto> x)"
  have lk: "lkP ?h4 = ?P" "lkN ?h4 = ?N" using ex by simp_all
  have "dseg ((lkP h)(a \<mapsto> b)) (lkN h) 0 (as @ [a]) b" by (rule dseg_set_next [OF m(1)]) (use m(8) in auto)
  then have "dseg ?P ?N x (as @ [a]) b" by (rule dseg_set_prev) (use m(8) fa in \<open>auto simp: f_def hd0_def split: list.splits\<close>)
  moreover have "dseg ?P ?N a (b # bs) 0" by (rule dseg_set_prev [OF m(4)]) (use m(8) fa in auto)
  ultimately have "dseg ?P ?N x ((as @ [a]) @ b # bs) 0" by (subst dseg_append) simp
  then have d: "dseg ?P ?N 0 (x # as @ a # b # bs) 0" using fa by (simp add: f_def)
  let ?H = "upd_elem x (\<lambda>e. e\<lparr>x_lasttime := time_now E\<rparr>) (?h4\<lparr>linkFirst := x\<rparr>)"
  have eq: "linkSetTop E x h = ?H" using e ne m s1 s2 s3 by (simp add: linkSetTop_def Let_def f_def)
  have H: "lkP ?H = ?P" "lkN ?H = ?N" "linkFirst ?H = x" "linkLast ?H = last0 b bs" using lk m(10) ex by simp_all
  show ?thesis unfolding lru_list_def eq H by (intro conjI d) (use l in \<open>auto simp: lru_list_def\<close>)
qed

text \<open>At the ends: the newest element is removed, and the oldest is moved to the top.\<close>

lemma unlinkHElem_newest:
  assumes l: "lru_list h (x # y # ys)" and v: "lru_live E h (x # y # ys)"
  shows "linkFirst (unlinkHElem x h) = y" "lkN (unlinkHElem x h) y = Some x"
proof -
  obtain e where e: "h_elems h x = Some e" "link_ok h x = Some e" by (rule lru_live_elem [OF v, of x]) auto
  have ne: "x_iLinkNext e = 0" "x_iLinkPrev e = y" "lkN h y = Some x" "y \<noteq> 0" using l e by (auto simp: lru_list_def lkN_def lkP_def)
  have "unlinkHElem x h = (h\<lparr>linkFirst := y\<rparr>)\<lparr>nvalset := nvalset h - 1\<rparr>" using e ne by (simp add: unlinkHElem_def)
  then show "linkFirst (unlinkHElem x h) = y" "lkN (unlinkHElem x h) y = Some x" using ne by simp_all
qed

lemma linkSetTop_oldest:
  assumes l: "lru_list h (as @ [a, x])" and v: "lru_live E h (as @ [a, x])"
  shows "linkFirst (linkSetTop E x h) = x" "linkLast (linkSetTop E x h) = a" "lkP (linkSetTop E x h) a = Some x"
proof -
  obtain e where e: "h_elems h x = Some e" "link_ok h x = Some e" by (rule lru_live_elem [OF v, of x]) auto
  have d: "lkN h x = Some a" "lkP h x = Some 0" "lkP h a = Some x" "a \<noteq> 0" "x \<noteq> 0" "a \<noteq> x" "linkFirst h = hd0 (as @ [a]) 0"
    using l by (auto simp: lru_list_def dseg_append)
  have ne: "x_iLinkNext e = a" "x_iLinkPrev e = 0" using d e by (auto simp: lkN_def lkP_def)
  define f where "f = hd0 (as @ [a]) 0"
  have fa: "f \<in> set (as @ [a])" "f \<noteq> x" using hd0_in [of "as @ [a]" 0] l d by (auto simp: f_def lru_list_def)
  let ?h3 = "upd_elem x (\<lambda>e. e\<lparr>x_iLinkNext := 0, x_iLinkPrev := f\<rparr>) (h\<lparr>linkLast := a\<rparr>)"
  let ?h4 = "upd_elem f (\<lambda>e. e\<lparr>x_iLinkNext := x\<rparr>) ?h3"
  have s3: "set_linkNext f x ?h3 = (True, ?h4)"
    by (rule set_link_live(1) [where E = E and xs = "as @ [a, x]"]) (use v d fa in auto)
  have eq: "linkSetTop E x h = upd_elem x (\<lambda>e. e\<lparr>x_lasttime := time_now E\<rparr>) (?h4\<lparr>linkFirst := x\<rparr>)"
    using e ne d s3 by (simp add: linkSetTop_def Let_def f_def)
  show "linkFirst (linkSetTop E x h) = x" "linkLast (linkSetTop E x h) = a" by (simp_all add: eq)
  show "lkP (linkSetTop E x h) a = Some x" using d(3,6) e by (simp add: eq)
qed

section \<open>Properties\<close>

text \<open>Three elements of a table, the newest first.\<close>

definition w_lelem :: "off \<Rightarrow> off \<Rightarrow> LsShmHElem" where
  "w_lelem n p = \<lparr>x_iLen = 44, x_iValOff = 24, x_iNext = 0, x_hkey = 1, e_key = ''k'', e_valLen = 0, e_val = [],
     LsShmHElem.x_tid = 0, x_iLinkNext = n, x_iLinkPrev = p, x_lasttime = 1\<rparr>"

definition w_lru :: LsShmHash where
  "w_lru = w_hash\<lparr>h_elems := [2048 \<mapsto> w_lelem 0 2112, 2112 \<mapsto> w_lelem 2048 2176, 2176 \<mapsto> w_lelem 2112 0],
     linkFirst := 2048, linkLast := 2176\<rparr>"

lemma w_lru_ok: "lru_list w_lru ([] @ 2048 # 2112 # 2176 # [])" "lru_live w_env w_lru ([] @ 2048 # 2112 # 2176 # [])"
proof -
  show "lru_list w_lru ([] @ 2048 # 2112 # 2176 # [])" by (simp add: lru_list_def w_lru_def w_lelem_def lkN_def lkP_def)
  have p: "offset2ptr (h_pool w_hash) 2048" "offset2ptr (h_pool w_hash) 2112" "offset2ptr (h_pool w_hash) 2176"
    "\<And>y. y \<le> 2220 \<Longrightarrow> isOffsetValid (h_pool w_hash) y"
    unfolding w_hash_def by (simp_all add: pool_eval hash_eval)
  show "lru_live w_env w_lru ([] @ 2048 # 2112 # 2176 # [])"
    using w_hash_flags p(1-3) by (auto simp: lru_live_def elem_live_def w_lru_def w_lelem_def elem_ok_def lay_simps round4_def iterExtraSpace_def w_env_def intro: p(4))
qed



text \<open>
  C34: at its ends the list breaks. When the newest of two or more elements is removed, the one that
  becomes the newest keeps its link to the removed element; when the oldest is used, the one that
  becomes the oldest keeps its link to the element that is now the newest. In neither case is the list
  a proper one afterwards.
\<close>

theorem lru_stale_links:
  assumes "lru_list h (x # y # ys)" "lru_live E h (x # y # ys)"
  shows "linkFirst (unlinkHElem x h) = y \<and> lkN (unlinkHElem x h) y = Some x \<and> \<not> lru_list (unlinkHElem x h) (y # ys) \<and>
    (\<forall>as a z. x # y # ys = as @ [a, z] \<longrightarrow> linkLast (linkSetTop E z h) = a \<and> lkP (linkSetTop E z h) a = Some z \<and>
       \<not> lru_list (linkSetTop E z h) (z # as @ [a]))"
proof (intro conjI allI impI)
  note u = unlinkHElem_newest [OF assms]
  show "linkFirst (unlinkHElem x h) = y" "lkN (unlinkHElem x h) y = Some x" by (rule u)+
  show "\<not> lru_list (unlinkHElem x h) (y # ys)" using u(2) assms(1) by (auto simp: lru_list_def)
  fix as a z
  assume eq: "x # y # ys = as @ [a, z]"
  note t = linkSetTop_oldest [OF assms [unfolded eq]]
  have "z \<noteq> 0" using assms(1) unfolding eq by (auto simp: lru_list_def)
  then show "linkLast (linkSetTop E z h) = a" "lkP (linkSetTop E z h) a = Some z" "\<not> lru_list (linkSetTop E z h) (z # as @ [a])"
    using t(2,3) by (auto simp: lru_list_def dseg_append)
qed

theorem lru_stale_links_witness:
  "linkFirst (unlinkHElem 2048 w_lru) = 2112 \<and> lkN (unlinkHElem 2048 w_lru) 2112 = Some 2048"
  using lru_stale_links [OF w_lru_ok [unfolded append_Nil]] by simp

end
