(* ===== verification/Spec2Isabelle.thy ===== *)
theory Spec2Isabelle
  imports MemcacheConn McBinOk McTidOk LsShmLru
begin

text \<open>
  \<^bold>\<open>The program.\<close> \<open>lsmcd\<close> is a memcached server whose data lives in shared-memory files. A
  connection (\<open>src/memcache/memcacheconn.cpp\<close>) reads requests into a ring buffer
  (\<open>src/util/loopbuf.cpp\<close>) and hands them to the engine (\<open>src/memcache/lsmemcache.cpp\<close>), which
  speaks the text and the binary protocol. The key's hash selects a slice; every slice is one
  shared-memory hash (\<open>src/shm/lsshmhash.cpp\<close>) with an LRU list and a table of transaction ids
  (\<open>src/shm/lsshmtidmgr.cpp\<close>) that replication reads. The hash takes its memory from the pool
  allocator (\<open>src/shm/lsshmpool.cpp\<close>) of a file that grows page by page (\<open>src/shm/lsshm.cpp\<close>,
  \<open>src/shm/addrmap.cpp\<close>). A server that is not the master of a slice forwards the request.

  \<^bold>\<open>The model.\<close> Each theory of definitions follows one source file, one definition per function:

  \<^item> \<open>Lsmcd_Prelude\<close>: machine words, byte strings, little-endian records, in-place writes, decimals.
  \<^item> \<open>LsShmPool\<close>: file, page list with boundary tags, chunk, buckets; \<open>alloc2\<close>, \<open>release2\<close>. Offsets
    are natural numbers, the accounted sizes are 32-bit words; what the operating system answers when
    the file is to grow is an argument.
  \<^item> \<open>LsShmHTable\<close>, \<open>LsShmTidMgr\<close>, \<open>LsShmHash\<close>, \<open>LsShmHashOps\<close>: the hash at pointer level. Elements
    and transaction-id blocks are cells of a store indexed by offset; chains, LRU links, index and
    bitmap are those of the code. Fresh memory has any content (an argument). The hash function, the
    clock and the addresses of the blocks are the record \<open>env\<close>.
  \<^item> \<open>McToken\<close>, \<open>McItem\<close>, \<open>McCmd\<close>, \<open>McText\<close>, \<open>McBin\<close>, \<open>McTidPkt\<close>: the engine: lexer, item layout,
    handlers of both protocols, replication packets. Values are bytes: expiration time, flags, cas
    and data lie where the code has them. Errors, refusals and forwarding are branches of the
    handlers. A handler's result \<open>-1\<close> asks for more input, a smaller one closes the connection.
  \<^item> \<open>LoopBuf\<close>, \<open>MemcacheConn\<close>: the ring buffer and the loop over pipelined requests.

  \<^bold>\<open>What is shown.\<close>

  \<^item> \<open>Lsmcd_Chains\<close>, \<open>LsShmPoolInv\<close>, \<open>LsShmPoolPages\<close>, \<open>LsShmPoolSafe\<close>: the pool never hands out a byte
    twice. The invariant counts, for every byte, the blocks that cover it; it is kept by every step.
    The locale \<open>shm_allocator\<close> is what the hash relies on.
  \<^item> \<open>LsShmHashInv\<close>, \<open>LsShmHashFrame\<close>, \<open>LsShmHashChain\<close>, \<open>LsShmHashRehash\<close>, \<open>LsShmHashSafe\<close>,
    \<open>LsShmHashStore\<close>, \<open>LsShmHashMap\<close>: the invariant \<open>hash_inv E h m R\<close> says that table \<open>h\<close> stores the
    map \<open>m\<close> and owns its blocks beside the blocks \<open>R\<close> of others; every operation keeps it, rehashing
    ends and keeps the contents, and the byte-level interface implements a map.
  \<^item> \<open>LsShmTidSeq\<close>: the table of transaction ids is a log (\<open>tid_table\<close>). A history (\<open>tid_hist\<close>) mixes
    entries, removals, clears and any other operation of the hash; under it lookups return what the log
    has, and the locale \<open>change_log\<close> gives the completeness and order of the scan that replication uses.
    After a clear at the end of a run of 1024 ids the lookup fails, which is proved too.
  \<^item> \<open>LsShmLru\<close>: the LRU list as a doubly linked list, and the stale links at its two ends.
  \<^item> \<open>McStore\<close>, \<open>McServer\<close>, \<open>McLine\<close>, \<open>McKeys\<close>, \<open>McGrow\<close>: each command of the text protocol, from the
    bytes of the request line to the bytes of the answer and the items of all slices
    (\<open>mc_inv\<close>, \<open>item_at\<close>): retrieval, storage, arithmetic, deletion, touch, flush, append and
    prepend, unknown and incomplete requests.
  \<^item> \<open>McBinOk\<close>: the same for retrieval and storage in the binary protocol, from the 24 bytes of the
    request header to the response packet.
  \<^item> \<open>McTidOk\<close>: a slave replays the master's packets; a master's packets fit their buffer.
  \<^item> \<open>LoopBuf\<close>: the ring buffer implements a queue of bytes (locale \<open>byte_queue\<close>).
  \<^item> \<open>MemcacheConn\<close>: reading always ends, the ring is transparent, requests may arrive in fragments.

  \<^bold>\<open>Fuel and bounds.\<close> Loops over chains and lists run with fuel that the proofs show to be enough:
  the number of elements for iteration and rehash, the length of the region for the scanner, the
  number of buffered bytes for the request loop. An element is at most 100000000 bytes
  (\<open>put_ok\<close>, \<open>op_fits\<close>), which the daemon's limits on keys and values stay below; the file stays below 4 GB.

  \<^bold>\<open>Limits of the model.\<close> Operations run from \<open>lock\<close> to \<open>unlock\<close> without interference. Memory is a
  store of typed cells: a write through a stale LRU link into memory that was carved anew, and a
  client's data that imitates the marker of a free block, are outside it. Not modelled: opening and
  recovering a file, named registries and sub-pools, locking, the hash observer, SASL and tables
  per user, sockets, timers and the transport of replication, configuration and logging. Handlers
  that only print debugging or operating-system data are parameters (\<open>other_cmd\<close>, \<open>other_bin\<close>).
\<close>

end
